(* ===== verification/Go_Prelude.thy ===== *)
theory Go_Prelude
  imports Main "HOL-Library.Word"
begin

text \<open>
  Shared vocabulary of the development: Go's machine integers and byte slices,
  results of fallible functions, and the big-endian number codec that the RLP
  encoder, the RLP decoder and the trie use in several optimised forms.  The
  reference codec \<open>be_bytes\<close>/\<open>be_val\<close> is not code of the repository: it is the
  specification that the unrolled shifts of \<^verbatim>\<open>rlp/encode.go\<close> and
  \<^verbatim>\<open>rlp/raw.go\<close> are proved to implement.
\<close>

unbundle bit_operations_syntax

named_theorems byte_simps \<open>bytes and words as natural numbers\<close>

type_synonym byte = "8 word"
type_synonym bytes = "8 word list"
type_synonym u64 = "64 word"

subsection \<open>Results\<close>

text \<open>A Go function returning \<open>(v, err)\<close> is a value of a sum type: \<open>Err e\<close> or \<open>Ok v\<close>.\<close>

abbreviation Err :: "'e \<Rightarrow> 'e + 'a" where
  "Err \<equiv> Inl"

abbreviation Ok :: "'a \<Rightarrow> 'e + 'a" where
  "Ok \<equiv> Inr"

text \<open>The slice expression \<open>s[lo:hi]\<close>.\<close>

definition slice :: "'a list \<Rightarrow> nat \<Rightarrow> nat \<Rightarrow> 'a list" where
  "slice xs lo hi = take (hi - lo) (drop lo xs)"

lemma length_slice [simp]: "length (slice xs lo hi) = min (hi - lo) (length xs - lo)"
  by (simp add: slice_def min.commute)

lemma slice_append_drop [simp]: "lo \<le> hi \<Longrightarrow> slice xs lo hi @ drop hi xs = drop lo xs"
  by (metis append_take_drop_id drop_drop le_add_diff_inverse2 slice_def)

subsection \<open>Big-endian numbers\<close>

fun be_val :: "bytes \<Rightarrow> nat" where
  "be_val [] = 0"
| "be_val (b # bs) = unat b * 256 ^ length bs + be_val bs"

fun be_bytes :: "nat \<Rightarrow> bytes" where
  "be_bytes n = (if n = 0 then [] else be_bytes (n div 256) @ [of_nat n])"

declare be_bytes.simps [simp del]

lemma be_bytes_0 [simp]: "be_bytes 0 = []"
  by (simp add: be_bytes.simps)

lemma be_bytes_pos: "n > 0 \<Longrightarrow> be_bytes n = be_bytes (n div 256) @ [of_nat n]"
  by (subst be_bytes.simps) simp

lemma be_bytes_eq_Nil [simp]: "be_bytes n = [] \<longleftrightarrow> n = 0"
  by (subst be_bytes.simps) simp

lemma unat_byte_less [byte_simps]: "unat (b :: byte) < 256"
  using unsigned_less [of b, where ?'a = nat] by simp

lemma unat_byte_of_nat [byte_simps]: "unat (of_nat n :: byte) = n mod 256"
  by (simp add: unat_of_nat)

lemma unat_drop_bit_div [byte_simps]: "unat (drop_bit n w) = unat w div 2 ^ n"
  by (simp only: unat_drop_bit_eq drop_bit_nat_def)

lemma be_val_append: "be_val (xs @ ys) = be_val xs * 256 ^ length ys + be_val ys"
  by (induction xs) (simp_all add: algebra_simps power_add)

lemma be_val_less: "be_val bs < 256 ^ length bs"
proof (induction bs)
  case (Cons b bs)
  have "unat b * 256 ^ length bs + be_val bs < (unat b + 1) * 256 ^ length bs"
    using Cons by simp
  also have "\<dots> \<le> 256 * 256 ^ length bs"
    using unat_byte_less [of b] by (intro mult_right_mono) auto
  finally show ?case by simp
qed simp

lemma be_val_be_bytes [simp]: "be_val (be_bytes n) = n"
proof (induction n rule: be_bytes.induct)
  case (1 n)
  show ?case
  proof (cases "n = 0")
    case False
    then have "be_val (be_bytes n) = be_val (be_bytes (n div 256)) * 256 + n mod 256"
      by (simp add: be_bytes_pos be_val_append byte_simps)
    with 1 False show ?thesis by simp
  qed simp
qed

lemma be_val_pos: "bs \<noteq> [] \<Longrightarrow> hd bs \<noteq> 0 \<Longrightarrow> be_val bs > 0"
  by (cases bs) (auto simp: unat_gt_0)

lemma be_val_ge: "bs \<noteq> [] \<Longrightarrow> hd bs \<noteq> 0 \<Longrightarrow> 256 ^ (length bs - 1) \<le> be_val bs"
proof (cases bs)
  case (Cons b cs)
  assume "hd bs \<noteq> 0"
  with Cons have "1 \<le> unat b" by (metis list.sel(1) less_one not_le unat_eq_zero)
  then have "1 * 256 ^ length cs \<le> unat b * 256 ^ length cs" by (rule mult_right_mono) simp
  with Cons show ?thesis by (simp add: trans_le_add1)
qed simp

text \<open>A digit string without leading zero is the minimal one: the codec's other round trip.\<close>

lemma be_bytes_be_val:
  assumes "bs = [] \<or> hd bs \<noteq> 0"
  shows "be_bytes (be_val bs) = bs"
  using assms
proof (induction bs rule: rev_induct)
  case (snoc b bs)
  have pos: "be_val (bs @ [b]) > 0"
    using snoc.prems be_val_pos [of "bs @ [b]"] by simp
  have "be_val (bs @ [b]) div 256 = be_val bs"
    using unat_byte_less [of b] by (simp add: be_val_append)
  moreover have "(of_nat (be_val (bs @ [b])) :: byte) = b"
  proof -
    have "(of_nat (be_val (bs @ [b])) :: byte) = of_nat (be_val bs) * 256 + of_nat (unat b)"
      by (simp add: be_val_append)
    also have "(256 :: byte) = 0" by simp
    finally show ?thesis by simp
  qed
  moreover have "bs = [] \<or> hd bs \<noteq> 0"
    using snoc.prems by (cases bs) auto
  ultimately show ?case
    using snoc.IH pos be_bytes_pos [of "be_val (bs @ [b])"] by metis
qed simp

lemma hd_be_bytes: "n > 0 \<Longrightarrow> hd (be_bytes n) \<noteq> 0"
proof (induction n rule: be_bytes.induct)
  case (1 n)
  show ?case
  proof (cases "n < 256")
    case True
    with 1 have "be_bytes n = [of_nat n]" by (simp add: be_bytes_pos)
    moreover have "unat (of_nat n :: byte) = n" using True by (simp add: byte_simps)
    ultimately show ?thesis using 1 by (metis list.sel(1) less_numeral_extra(3) unat_0)
  next
    case False
    then have pos: "n div 256 > 0" by simp
    with 1 have "hd (be_bytes (n div 256)) \<noteq> 0" by simp
    with 1 pos show ?thesis by (simp add: be_bytes_pos [of n])
  qed
qed

lemma length_be_bytes_le: "length (be_bytes n) \<le> k \<longleftrightarrow> n < 256 ^ k"
proof (cases "n = 0")
  case False
  then have ne: "be_bytes n \<noteq> []" "hd (be_bytes n) \<noteq> 0" by (simp_all add: hd_be_bytes)
  show ?thesis
  proof
    assume "length (be_bytes n) \<le> k"
    then have "(256::nat) ^ length (be_bytes n) \<le> 256 ^ k" by (simp add: power_increasing)
    with be_val_less [of "be_bytes n"] show "n < 256 ^ k" by (simp del: power_increasing_iff)
  next
    assume less: "n < 256 ^ k"
    have "256 ^ (length (be_bytes n) - 1) \<le> n" using be_val_ge [OF ne] by simp
    from this less have "(256::nat) ^ (length (be_bytes n) - 1) < 256 ^ k" by (rule le_less_trans)
    then have "length (be_bytes n) - 1 < k" by (simp add: power_strict_increasing_iff)
    then show "length (be_bytes n) \<le> k" by simp
  qed
qed simp

subsection \<open>Bytes inside 64-bit words\<close>

lemma unat_ucast_byte [byte_simps]: "unat (ucast (b :: byte) :: u64) = unat b"
proof -
  have "unat b < 2 ^ 64" using unat_byte_less [of b] by simp
  then show ?thesis by (simp add: unsigned_ucast_eq take_bit_nat_eq_self)
qed

lemma unat_two_power: "n < 64 \<Longrightarrow> unat (2 ^ n :: u64) = 2 ^ n"
  using unsigned_of_nat [of "2 ^ n", where ?'b = 64 and ?'a = nat]
  by (simp add: take_bit_nat_eq_self)

lemma ucast_byte_of_unat: "(ucast (w :: u64) :: byte) = of_nat (unat w)"
  by (simp add: word_unat_eq_iff unsigned_of_nat unsigned_ucast_eq)

lemma unat_shift_or:
  fixes b :: byte and y :: u64
  assumes "unat y < 2 ^ k" "k \<le> 56"
  shows "unat (push_bit k (ucast b) OR y) = unat b * 2 ^ k + unat y"
proof -
  have "unat b * 2 ^ k < 256 * 2 ^ k" using unat_byte_less [of b] by simp
  also have "\<dots> \<le> (256 * 2 ^ 56 :: nat)" using assms(2) by (intro mult_left_mono power_increasing) auto
  finally have "push_bit k (unat b) < 2 ^ 64" by (simp add: push_bit_eq_mult)
  then have p: "unat (push_bit k (ucast b) :: u64) = push_bit k (unat b)"
    by (simp add: unsigned_push_bit_eq byte_simps take_bit_nat_eq_self)
  have bnd: "n < k" if "bit y n" for n
  proof -
    have "bit (unat y) n" using that by (simp add: bit_unsigned_iff)
    moreover have "take_bit k (unat y) = unat y" using assms(1) by (rule take_bit_nat_eq_self)
    ultimately show ?thesis by (metis bit_take_bit_iff)
  qed
  have "push_bit k (unat b) AND unat y = 0"
    by (rule bit_eqI) (auto simp: bit_simps dest: bnd)
  then have "push_bit k (unat b) OR unat y = push_bit k (unat b) + unat y"
    by (rule disjunctive_add_eq_or [symmetric])
  then show ?thesis
    by (simp only: unsigned_or_eq p) (simp add: push_bit_eq_mult)
qed

lemma be_bytes_range:
  "256 ^ k \<le> n \<Longrightarrow> n < 256 ^ Suc k \<Longrightarrow>
     be_bytes n = map (\<lambda>j. of_nat (n div 256 ^ j)) (rev [0..<Suc k])"
proof (induction k arbitrary: n)
  case 0
  then show ?case using be_bytes_pos [of n] by simp
next
  case (Suc k)
  have pos: "n > 0"
    using Suc.prems(1) by (metis less_le_trans zero_less_numeral zero_less_power)
  have rng: "256 ^ k \<le> n div 256" "n div 256 < 256 ^ Suc k"
    using Suc.prems by (simp_all add: less_eq_div_iff_mult_less_eq div_less_iff_less_mult mult.commute)
  have split: "rev [0..<Suc (Suc k)] = map Suc (rev [0..<Suc k]) @ [0]"
    by (simp only: upt_conv_Cons [of 0 "Suc (Suc k)"] zero_less_Suc rev.simps map_Suc_upt [symmetric] rev_map)
  show ?case
    unfolding be_bytes_pos [OF pos] Suc.IH [OF rng] split
    by (simp add: div_mult2_eq)
qed

fun be_or :: "bytes \<Rightarrow> u64" where
  "be_or [] = 0"
| "be_or (b # bs) = push_bit (8 * length bs) (ucast b) OR be_or bs"

lemma unat_be_or: "length bs \<le> 8 \<Longrightarrow> unat (be_or bs) = be_val bs"
proof (induction bs)
  case (Cons b bs)
  have pw: "(256::nat) ^ length bs = 2 ^ (8 * length bs)" by (simp only: power_mult) simp
  from Cons have IH: "unat (be_or bs) = be_val bs" by simp
  then have "unat (be_or bs) < 2 ^ (8 * length bs)"
    using be_val_less [of bs] pw by simp
  from unat_shift_or [OF this] Cons.prems IH pw show ?case by simp
qed simp

lemma take_nth_upt: "k \<le> length b \<Longrightarrow> take k b = map ((!) b) [0..<k]"
  by (simp add: list_eq_iff_nth_eq)

lemma upt_small:
  "[0..<1] = [0::nat]" "[0..<2] = [0, 1::nat]" "[0..<3] = [0, 1, 2::nat]"
  "[0..<4] = [0, 1, 2, 3::nat]" "[0..<5] = [0, 1, 2, 3, 4::nat]" "[0..<6] = [0, 1, 2, 3, 4, 5::nat]"
  "[0..<7] = [0, 1, 2, 3, 4, 5, 6::nat]" "[0..<8] = [0, 1, 2, 3, 4, 5, 6, 7::nat]"
  by (simp_all add: upt_rec)

lemma unat_of_nat_u64 [byte_simps]: "n < 2 ^ 64 \<Longrightarrow> unat (of_nat n :: u64) = n"
  by (simp add: unsigned_of_nat take_bit_nat_eq_self)

lemmas byte_less_unat = word_less_nat_alt [where ?'a = 8]

lemma unat_byte_diff: "unat c \<le> unat (b :: byte) \<Longrightarrow> unat (b - c) = unat b - unat c"
  by (rule unat_sub) (simp add: word_le_nat_alt)

lemma byte_tag_eq: "unat c \<le> unat (b :: byte) \<Longrightarrow> c + of_nat (unat b - unat c) = b"
  by (simp add: of_nat_diff)

lemma map_sum_Inr_iff: "map_sum f g x = Inr y \<longleftrightarrow> (\<exists>z. x = Inr z \<and> y = g z)"
  by (cases x) auto

lemma unat_ucast_byte_Suc: "unat (ucast (b :: byte) + 1 :: u64) = unat b + 1"
proof -
  have "unat b + 1 < 2 ^ 64" using unat_byte_less [of b] by simp
  from unat_of_nat_u64 [OF this] show ?thesis by (simp add: add.commute)
qed

end
