(* ===== verification/Rlp_Raw.thy ===== *)
theory Rlp_Raw
  imports Go_Prelude
begin

text \<open>
  The slice-level half of the RLP package: headers and integers as
  \<^verbatim>\<open>rlp/encode.go\<close> writes them (\<open>intsize\<close>, \<open>putint\<close>, \<open>headsize\<close>, \<open>puthead\<close>,
  \<open>AppendUint64\<close>) and as \<^verbatim>\<open>rlp/raw.go\<close> reads them back (\<open>readSize\<close>,
  \<open>readKind\<close>, the \<open>Split\<close> family, \<open>CountValues\<close>), the sizes it predicts, and the
  list iterator of \<^verbatim>\<open>rlp/iterator.go\<close>.  The unrolled shifts are proved
  equal to the big-endian codec of the prelude, and every header that is written is
  read back with its kind, its length and nothing else consumed.
\<close>

section \<open>Definitions\<close>

datatype kind = KByte | KString | KList

datatype rlp_err =
    EOL | ErrExpectedString | ErrExpectedList | ErrCanonInt | ErrCanonSize
  | ErrElemTooLarge | ErrValueTooLarge | ErrMoreThanOneValue
  | ErrNotInList | ErrNotAtEOL | ErrUintOverflow | ErrUnexpectedEOF | EOF
  | ErrWrongSize nat nat | ErrInvalidBool u64 | ErrUint256Large | ErrNegativeBigInt
  | ErrStringTooLong | ErrStringTooShort | ErrTooFewElements | ErrWrongEmptyKind kind kind

subsection \<open>Writing sizes and integers\<close>

text \<open>\<open>intsize\<close>: the loop shifts the argument right until nothing is left.\<close>

function intsize_loop :: "u64 \<Rightarrow> nat \<Rightarrow> nat" where
  "intsize_loop i sz =
     (let i = drop_bit 8 i in if i = 0 then sz else intsize_loop i (sz + 1))"
  by pat_completeness auto
termination
  by (relation "measure (\<lambda>(i, sz). unat i)")
     (auto simp: byte_simps unat_gt_0 intro!: div_less_dividend)

declare intsize_loop.simps [simp del]

definition intsize :: "u64 \<Rightarrow> nat" where
  "intsize i = intsize_loop i 1"

text \<open>\<open>putint\<close> fills the front of its buffer and returns the number of bytes it wrote; the
  model returns the bytes written.\<close>

definition putint :: "u64 \<Rightarrow> bytes" where
  "putint i =
     (let sh = (\<lambda>n. ucast (drop_bit n i) :: byte) in
      if i < 2 ^ 8 then [sh 0]
      else if i < 2 ^ 16 then [sh 8, sh 0]
      else if i < 2 ^ 24 then [sh 16, sh 8, sh 0]
      else if i < 2 ^ 32 then [sh 24, sh 16, sh 8, sh 0]
      else if i < 2 ^ 40 then [sh 32, sh 24, sh 16, sh 8, sh 0]
      else if i < 2 ^ 48 then [sh 40, sh 32, sh 24, sh 16, sh 8, sh 0]
      else if i < 2 ^ 56 then [sh 48, sh 40, sh 32, sh 24, sh 16, sh 8, sh 0]
      else [sh 56, sh 48, sh 40, sh 32, sh 24, sh 16, sh 8, sh 0])"

definition headsize :: "u64 \<Rightarrow> nat" where
  "headsize sz = (if sz < 56 then 1 else 1 + intsize sz)"

definition puthead :: "byte \<Rightarrow> byte \<Rightarrow> u64 \<Rightarrow> bytes" where
  "puthead smalltag largetag sz =
     (if sz < 56 then [smalltag + ucast sz]
      else (let body = putint sz in (largetag + of_nat (length body)) # body))"

definition AppendUint64 :: "bytes \<Rightarrow> u64 \<Rightarrow> bytes" where
  "AppendUint64 b i =
     (let sh = (\<lambda>n. ucast (drop_bit n i) :: byte) in
      if i = 0 then b @ [0x80]
      else if i < 128 then b @ [sh 0]
      else if i < 2 ^ 8 then b @ [0x81, sh 0]
      else if i < 2 ^ 16 then b @ [0x82, sh 8, sh 0]
      else if i < 2 ^ 24 then b @ [0x83, sh 16, sh 8, sh 0]
      else if i < 2 ^ 32 then b @ [0x84, sh 24, sh 16, sh 8, sh 0]
      else if i < 2 ^ 40 then b @ [0x85, sh 32, sh 24, sh 16, sh 8, sh 0]
      else if i < 2 ^ 48 then b @ [0x86, sh 40, sh 32, sh 24, sh 16, sh 8, sh 0]
      else if i < 2 ^ 56 then b @ [0x87, sh 48, sh 40, sh 32, sh 24, sh 16, sh 8, sh 0]
      else b @ [0x88, sh 56, sh 48, sh 40, sh 32, sh 24, sh 16, sh 8, sh 0])"

definition StringSize :: "bytes \<Rightarrow> u64" where
  "StringSize s =
     (if length s = 0 then 1
      else if length s = 1 then (if s ! 0 \<le> 0x7f then 1 else 2)
      else of_nat (headsize (of_nat (length s)) + length s))"

definition BytesSize :: "bytes \<Rightarrow> u64" where
  "BytesSize b =
     (if length b = 0 then 1
      else if length b = 1 then (if b ! 0 \<le> 0x7f then 1 else 2)
      else of_nat (headsize (of_nat (length b)) + length b))"

definition ListSize :: "u64 \<Rightarrow> u64" where
  "ListSize contentSize = of_nat (headsize contentSize) + contentSize"

definition IntSize :: "u64 \<Rightarrow> nat" where
  "IntSize x = (if x < 0x80 then 1 else 1 + intsize x)"

subsection \<open>Reading\<close>

definition readSize :: "bytes \<Rightarrow> byte \<Rightarrow> rlp_err + u64" where
  "readSize b slen =
     (if unat slen > length b then Err ErrUnexpectedEOF
      else
        let at = (\<lambda>i n. push_bit n (ucast (b ! i)) :: u64);
            s = (if slen = 1 then at 0 0
                 else if slen = 2 then at 0 8 OR at 1 0
                 else if slen = 3 then at 0 16 OR at 1 8 OR at 2 0
                 else if slen = 4 then at 0 24 OR at 1 16 OR at 2 8 OR at 3 0
                 else if slen = 5 then at 0 32 OR at 1 24 OR at 2 16 OR at 3 8 OR at 4 0
                 else if slen = 6 then
                   at 0 40 OR at 1 32 OR at 2 24 OR at 3 16 OR at 4 8 OR at 5 0
                 else if slen = 7 then
                   at 0 48 OR at 1 40 OR at 2 32 OR at 3 24 OR at 4 16 OR at 5 8 OR at 6 0
                 else if slen = 8 then
                   at 0 56 OR at 1 48 OR at 2 40 OR at 3 32 OR at 4 24 OR at 5 16
                     OR at 6 8 OR at 7 0
                 else 0)
        in if s < 56 \<or> b ! 0 = 0 then Err ErrCanonSize else Ok s)"

definition readKind :: "bytes \<Rightarrow> rlp_err + (kind \<times> u64 \<times> u64)" where
  "readKind buf =
     (if length buf = 0 then Err ErrUnexpectedEOF
      else
        let b = buf ! 0;
            hdr = (if b < 0x80 then Ok (KByte, 0, 1)
                   else if b < 0xB8 then
                     let contentsize = ucast (b - 0x80) in
                     if contentsize = 1 \<and> length buf > 1 \<and> buf ! 1 < 128
                     then Err ErrCanonSize else Ok (KString, 1, contentsize)
                   else if b < 0xC0 then
                     map_sum id (\<lambda>cs. (KString, ucast (b - 0xB7) + 1, cs))
                       (readSize (drop 1 buf) (b - 0xB7))
                   else if b < 0xF8 then Ok (KList, 1, ucast (b - 0xC0))
                   else
                     map_sum id (\<lambda>cs. (KList, ucast (b - 0xF7) + 1, cs))
                       (readSize (drop 1 buf) (b - 0xF7)))
        in case hdr of Err e \<Rightarrow> Err e
           | Ok (k, tagsize, contentsize) \<Rightarrow>
               if contentsize > of_nat (length buf) - tagsize then Err ErrValueTooLarge
               else Ok (k, tagsize, contentsize))"

definition Split :: "bytes \<Rightarrow> rlp_err + (kind \<times> bytes \<times> bytes)" where
  "Split b =
     (case readKind b of Err e \<Rightarrow> Err e
      | Ok (k, ts, cs) \<Rightarrow> Ok (k, slice b (unat ts) (unat (ts + cs)), drop (unat (ts + cs)) b))"

definition SplitString :: "bytes \<Rightarrow> rlp_err + (bytes \<times> bytes)" where
  "SplitString b =
     (case Split b of Err e \<Rightarrow> Err e
      | Ok (k, content, rest) \<Rightarrow>
          if k = KList then Err ErrExpectedString else Ok (content, rest))"

definition SplitUint64 :: "bytes \<Rightarrow> rlp_err + (u64 \<times> bytes)" where
  "SplitUint64 b =
     (case SplitString b of Err e \<Rightarrow> Err e
      | Ok (content, rest) \<Rightarrow>
          if length content = 0 then Ok (0, rest)
          else if length content = 1 then
            (if content ! 0 = 0 then Err ErrCanonInt else Ok (ucast (content ! 0), rest))
          else if length content > 8 then Err ErrUintOverflow
          else
            (case readSize content (of_nat (length content)) of Err e \<Rightarrow> Err ErrCanonInt
             | Ok x \<Rightarrow> Ok (x, rest)))"

definition SplitList :: "bytes \<Rightarrow> rlp_err + (bytes \<times> bytes)" where
  "SplitList b =
     (case Split b of Err e \<Rightarrow> Err e
      | Ok (k, content, rest) \<Rightarrow>
          if k \<noteq> KList then Err ErrExpectedList else Ok (content, rest))"

subsection \<open>Reference encodings and the header specification\<close>

text \<open>
  What a header is for a length, a string and a list, written over natural numbers; and
  \<open>kind_spec\<close>, the header parser on natural numbers that \<open>readKind\<close> implements on words.
\<close>

definition rlp_head :: "byte \<Rightarrow> byte \<Rightarrow> nat \<Rightarrow> bytes" where
  "rlp_head smalltag largetag n =
     (if n < 56 then [smalltag + of_nat n]
      else (largetag + of_nat (length (be_bytes n))) # be_bytes n)"

definition rlp_string :: "bytes \<Rightarrow> bytes" where
  "rlp_string bs =
     (if length bs = 1 \<and> bs ! 0 < 0x80 then bs else rlp_head 0x80 0xB7 (length bs) @ bs)"

definition rlp_list :: "bytes \<Rightarrow> bytes" where
  "rlp_list payload = rlp_head 0xC0 0xF7 (length payload) @ payload"

definition long_head :: "kind \<Rightarrow> bytes \<Rightarrow> nat \<Rightarrow> rlp_err + (kind \<times> nat \<times> nat)" where
  "long_head k buf n =
     (if n > length buf - 1 then Err ErrUnexpectedEOF
      else let v = be_val (take n (drop 1 buf)) in
        if v < 56 \<or> buf ! 1 = 0 then Err ErrCanonSize
        else if v > length buf - (n + 1) then Err ErrValueTooLarge
        else Ok (k, n + 1, v))"

definition short_head :: "kind \<Rightarrow> bytes \<Rightarrow> nat \<Rightarrow> rlp_err + (kind \<times> nat \<times> nat)" where
  "short_head k buf n = (if n > length buf - 1 then Err ErrValueTooLarge else Ok (k, 1, n))"

definition kind_spec :: "bytes \<Rightarrow> rlp_err + (kind \<times> nat \<times> nat)" where
  "kind_spec buf =
     (if buf = [] then Err ErrUnexpectedEOF
      else let n = unat (buf ! 0) in
        if n < 128 then Ok (KByte, 0, 1)
        else if n < 184 then
          (if n = 129 \<and> length buf > 1 \<and> unat (buf ! 1) < 128 then Err ErrCanonSize
           else short_head KString buf (n - 128))
        else if n < 192 then long_head KString buf (n - 183)
        else if n < 248 then short_head KList buf (n - 192)
        else long_head KList buf (n - 247))"

definition as_words :: "rlp_err + (kind \<times> nat \<times> nat) \<Rightarrow> rlp_err + (kind \<times> u64 \<times> u64)" where
  "as_words = map_sum id (map_prod id (map_prod of_nat of_nat))"

lemma readKind_progress:
  assumes "readKind b = Ok (k, ts, cs)"
  shows "b \<noteq> []" "0 < unat ts + unat cs"
proof -
  show "b \<noteq> []" using assms by (auto simp: readKind_def)
  have "ucast x + 1 \<noteq> (0 :: u64)" for x :: byte
    using unat_ucast_byte_Suc [of x] by (metis add_is_0 one_neq_zero unat_0)
  then show "0 < unat ts + unat cs"
    using assms
    by (auto simp: readKind_def Let_def unat_gt_0 map_sum_Inr_iff split: if_splits sum.splits)
qed

function CountValues_loop :: "bytes \<Rightarrow> nat \<Rightarrow> rlp_err + nat" where
  "CountValues_loop b i =
     (if length b > 0 then
        (case readKind b of Err e \<Rightarrow> Err e
         | Ok (_, tagsize, sz) \<Rightarrow> CountValues_loop (drop (unat tagsize + unat sz) b) (i + 1))
      else Ok i)"
  by pat_completeness auto

termination
  by (relation "measure (\<lambda>(b, i). length b)") (auto dest: readKind_progress)

definition CountValues :: "bytes \<Rightarrow> rlp_err + nat" where
  "CountValues b = CountValues_loop b 0"

declare CountValues_loop.simps [simp del]

record listIterator =
  it_data :: bytes
  it_next :: bytes
  it_err :: "rlp_err option"

definition NewListIterator :: "bytes \<Rightarrow> rlp_err + listIterator" where
  "NewListIterator d =
     (case readKind d of Err e \<Rightarrow> Err e
      | Ok (k, t, c) \<Rightarrow>
          if k \<noteq> KList then Err ErrExpectedList
          else Ok \<lparr>it_data = slice d (unat t) (unat (t + c)), it_next = [], it_err = None\<rparr>)"

text \<open>\<open>Next\<close> returns the flag and the iterator; on an error \<open>readKind\<close> yields zero sizes.\<close>

definition Next :: "listIterator \<Rightarrow> bool \<times> listIterator" where
  "Next it =
     (if length (it_data it) = 0 then (False, it)
      else
        let (t, c, err) = (case readKind (it_data it) of Err e \<Rightarrow> (0, 0, Some e)
                           | Ok (_, t, c) \<Rightarrow> (t, c, None))
        in (True, it\<lparr>it_next := take (unat (t + c)) (it_data it),
                     it_data := drop (unat (t + c)) (it_data it), it_err := err\<rparr>))"

definition rlp_item :: "kind \<Rightarrow> bytes \<Rightarrow> bytes" where
  "rlp_item k c = (if k = KList then rlp_list c else rlp_string c)"

section \<open>Lemmas\<close>

lemma putint_digits:
  assumes "256 ^ k \<le> unat i" "unat i < 256 ^ Suc k"
  shows "putint i = map (\<lambda>j. of_nat (unat i div 256 ^ j)) (rev [0..<Suc k])"
proof -
  have sh: "(ucast (drop_bit (8 * j) i) :: byte) = of_nat (unat i div 256 ^ j)" for j
    by (simp add: ucast_byte_of_unat byte_simps power_mult)
  have lt: "i < 2 ^ (8 * Suc m) \<longleftrightarrow> k \<le> m" if "m < 7" for m
  proof -
    have "unat (2 ^ (8 * Suc m) :: u64) = 256 ^ Suc m"
    proof -
      have "(256 :: nat) ^ Suc m = 2 ^ (8 * Suc m)" by (simp only: power_mult) simp
      moreover have "8 * Suc m < 64" using that by simp
      ultimately show ?thesis by (simp only: unat_two_power)
    qed
    then have "i < 2 ^ (8 * Suc m) \<longleftrightarrow> unat i < 256 ^ Suc m" by (simp only: word_less_nat_alt)
    also have "\<dots> \<longleftrightarrow> k \<le> m"
    proof
      assume "unat i < 256 ^ Suc m"
      with assms(1) have "(256::nat) ^ k < 256 ^ Suc m" by (rule le_less_trans)
      then show "k \<le> m" by (simp add: power_strict_increasing_iff del: power_Suc)
    next
      assume "k \<le> m"
      then have "(256::nat) ^ Suc k \<le> 256 ^ Suc m" by (intro power_increasing) auto
      with assms(2) show "unat i < 256 ^ Suc m" by (rule less_le_trans)
    qed
    finally show ?thesis .
  qed
  have "k < 8"
  proof -
    have "unat i < 256 ^ 8" using unsigned_less [of i, where ?'a = nat] by simp
    with assms(1) have "(256::nat) ^ k < 256 ^ 8" by (rule le_less_trans)
    then show ?thesis using power_less_imp_less_exp [of "256::nat" k 8] by simp
  qed
  then have "k = 0 \<or> k = 1 \<or> k = 2 \<or> k = 3 \<or> k = 4 \<or> k = 5 \<or> k = 6 \<or> k = 7" by arith
  moreover note lts = lt [of 0, simplified] lt [of 1, simplified] lt [of 2, simplified]
    lt [of 3, simplified] lt [of 4, simplified] lt [of 5, simplified] lt [of 6, simplified]
  moreover note shs = sh [of 0, simplified] sh [of 1, simplified] sh [of 2, simplified]
    sh [of 3, simplified] sh [of 4, simplified] sh [of 5, simplified] sh [of 6, simplified] sh [of 7, simplified]
  ultimately show ?thesis
    by (elim disjE) (simp_all add: putint_def Let_def upt_rec)
qed

lemma intsize_loop_eq: "intsize_loop i n = n + length (be_bytes (unat i div 256))"
proof (induction i n rule: intsize_loop.induct)
  case (1 i n)
  have d: "unat (drop_bit 8 i) = unat i div 256" by (simp add: byte_simps)
  show ?case
  proof (cases "drop_bit 8 i = 0")
    case True
    with d show ?thesis by (subst intsize_loop.simps) (simp add: Let_def)
  next
    case False
    then have pos: "unat i div 256 > 0" using d by (metis gr0I unat_eq_zero)
    from False have "intsize_loop i n = intsize_loop (drop_bit 8 i) (n + 1)"
      by (subst intsize_loop.simps) (simp add: Let_def)
    also have "\<dots> = n + 1 + length (be_bytes (unat i div 256 div 256))"
      using 1 False d by simp
    also have "\<dots> = n + length (be_bytes (unat i div 256))"
      using pos be_bytes_pos [OF pos] by simp
    finally show ?thesis .
  qed
qed

lemma intsize_eq: "i \<noteq> 0 \<Longrightarrow> intsize i = length (be_bytes (unat i))"
  by (simp add: intsize_def intsize_loop_eq be_bytes_pos [of "unat i"] unat_gt_0)

lemma putint_eq:
  assumes "i \<noteq> 0"
  shows "putint i = be_bytes (unat i)"
proof -
  define k where "k = length (be_bytes (unat i)) - 1"
  have ne: "be_bytes (unat i) \<noteq> []" "hd (be_bytes (unat i)) \<noteq> 0"
    using assms by (simp_all add: hd_be_bytes unat_gt_0)
  then have "256 ^ k \<le> unat i" unfolding k_def using be_val_ge [OF ne] by simp
  moreover have "unat i < 256 ^ Suc k"
    using ne length_be_bytes_le [of "unat i" "Suc k"] by (simp add: k_def)
  ultimately show ?thesis by (simp only: putint_digits be_bytes_range)
qed

lemma readSize_eq:
  assumes "1 \<le> unat slen" "unat slen \<le> 8"
  shows "readSize b slen =
    (if unat slen > length b then Err ErrUnexpectedEOF
     else if be_val (take (unat slen) b) < 56 \<or> b ! 0 = 0 then Err ErrCanonSize
     else Ok (of_nat (be_val (take (unat slen) b))))"
proof (cases "unat slen > length b")
  case False
  define s where "s = be_or (map ((!) b) [0..<unat slen])"
  have v: "unat s = be_val (take (unat slen) b)"
    using False assms unat_be_or [of "take (unat slen) b"] by (simp add: s_def take_nth_upt)
  have cases: "slen = 1 \<or> slen = 2 \<or> slen = 3 \<or> slen = 4 \<or> slen = 5 \<or> slen = 6 \<or> slen = 7 \<or> slen = 8"
  proof -
    have "unat slen = 1 \<or> unat slen = 2 \<or> unat slen = 3 \<or> unat slen = 4 \<or> unat slen = 5
      \<or> unat slen = 6 \<or> unat slen = 7 \<or> unat slen = 8" using assms by arith
    then show ?thesis by (simp add: word_unat_eq_iff)
  qed
  then have "readSize b slen = (if s < 56 \<or> b ! 0 = 0 then Err ErrCanonSize else Ok s)"
    using False by (elim disjE) (simp_all add: readSize_def Let_def s_def upt_small)
  also have "s < 56 \<longleftrightarrow> be_val (take (unat slen) b) < 56"
    by (simp add: word_less_nat_alt v)
  also have "s = of_nat (be_val (take (unat slen) b))" by (simp flip: v)
  finally show ?thesis using False by (simp cong: if_cong)
qed (simp add: readSize_def)

lemma puthead_eq:
  assumes "n < 2 ^ 64"
  shows "puthead s l (of_nat n) = rlp_head s l n"
proof -
  have u: "unat (of_nat n :: u64) = n" using assms by (rule unat_of_nat_u64)
  have lt: "(of_nat n :: u64) < 56 \<longleftrightarrow> n < 56" by (simp add: word_less_nat_alt u)
  have "putint (of_nat n) = be_bytes n" if "\<not> n < 56"
    using that u putint_eq [of "of_nat n"] by (metis less_numeral_extra(1) unat_0 zero_less_numeral)
  then show ?thesis
    by (auto simp: puthead_def rlp_head_def lt ucast_byte_of_unat u Let_def)
qed

lemma headsize_eq:
  assumes "n < 2 ^ 64"
  shows "headsize (of_nat n) = length (rlp_head s l n)"
proof -
  have u: "unat (of_nat n :: u64) = n" using assms by (rule unat_of_nat_u64)
  have lt: "(of_nat n :: u64) < 56 \<longleftrightarrow> n < 56" by (simp add: word_less_nat_alt u)
  have "intsize (of_nat n) = length (be_bytes n)" if "\<not> n < 56"
    using that u intsize_eq [of "of_nat n"] by (metis less_numeral_extra(1) unat_0 zero_less_numeral)
  then show ?thesis by (simp add: headsize_def rlp_head_def lt)
qed

lemma as_words_simps [simp]:
  "as_words (Err e) = Err e"
  "as_words (Ok (k, t, c)) = Ok (k, of_nat t, of_nat c)"
  by (simp_all add: as_words_def)

lemma short_head_eq:
  assumes "length buf < 2 ^ 64" "buf \<noteq> []" "unat c < 256"
  shows "(if c > of_nat (length buf) - (1 :: u64) then Err ErrValueTooLarge else Ok (k, 1, c))
     = as_words (short_head k buf (unat c))"
proof -
  have "unat (of_nat (length buf) - (1 :: u64)) = length buf - 1"
    using assms(1,2) by (subst unat_sub) (auto simp: word_le_nat_alt byte_simps Suc_le_eq)
  then have "c > of_nat (length buf) - (1 :: u64) \<longleftrightarrow> unat c > length buf - 1"
    by (simp add: word_less_nat_alt)
  then show ?thesis by (simp add: short_head_def)
qed

lemma long_head_eq:
  assumes "length buf < 2 ^ 64" "buf \<noteq> []" "1 \<le> unat s" "unat s \<le> 8"
  shows "(case map_sum id (\<lambda>cs. (k, ucast s + 1, cs)) (readSize (drop 1 buf) s) of Err e \<Rightarrow> Err e
      | Ok (k, ts, cs) \<Rightarrow> if cs > of_nat (length buf) - (ts :: u64) then Err ErrValueTooLarge else Ok (k, ts, cs))
     = as_words (long_head k buf (unat s))"
proof (cases "unat s > length buf - 1")
  case True
  then show ?thesis using assms by (simp add: readSize_eq long_head_def)
next
  case False
  define v where "v = be_val (take (unat s) (drop 1 buf))"
  have "v < 256 ^ unat s"
    using False be_val_less [of "take (unat s) (drop 1 buf)"] assms(2)
    by (simp add: v_def min_def Suc_le_eq split: if_splits)
  also have "\<dots> \<le> 256 ^ 8" using assms(4) by (intro power_increasing) auto
  finally have v: "unat (of_nat v :: u64) = v" by (intro unat_of_nat_u64) simp
  have ts: "unat (ucast s + 1 :: u64) = unat s + 1" "ucast s + 1 = (of_nat (unat s + 1) :: u64)"
  proof -
    show "ucast s + 1 = (of_nat (unat s + 1) :: u64)" by (simp add: byte_simps flip: unat_ucast_byte)
    then show "unat (ucast s + 1 :: u64) = unat s + 1"
      using assms(4) by (simp only:) (rule unat_of_nat_u64, simp)
  qed
  have le: "unat s + 1 \<le> length buf" using False assms(2) by (cases buf) auto
  have "unat (of_nat (length buf) - (ucast s + 1 :: u64)) = length buf - (unat s + 1)"
    by (subst unat_sub) (simp_all only: word_le_nat_alt unat_of_nat_u64 [OF assms(1)] ts(1) le)
  then have "of_nat v > of_nat (length buf) - (ucast s + 1 :: u64) \<longleftrightarrow> v > length buf - (unat s + 1)"
    by (simp add: word_less_nat_alt v)
  then show ?thesis
    using False assms unfolding readSize_eq [OF assms(3,4)] long_head_def v_def [symmetric]
    by (auto simp: ts(2) Let_def nth_drop simp del: of_nat_add of_nat_Suc)
qed

lemma readKind_eq:
  assumes "length buf < 2 ^ 64"
  shows "readKind buf = as_words (kind_spec buf)"
proof (cases "buf = []")
  case True
  then show ?thesis by (simp add: readKind_def kind_spec_def)
next
  case False
  define b where "b = buf ! 0"
  consider "unat b < 128" | "128 \<le> unat b" "unat b < 184" | "184 \<le> unat b" "unat b < 192"
    | "192 \<le> unat b" "unat b < 248" | "248 \<le> unat b"
    by linarith
  then show ?thesis
  proof cases
    case 1
    then have "b < 0x80" by (simp add: word_less_nat_alt)
    moreover have "\<not> (1 :: u64) > of_nat (length buf) - 0"
      using False assms by (simp add: word_less_nat_alt byte_simps Suc_le_eq not_less)
    ultimately show ?thesis using False 1
      by (simp add: readKind_def kind_spec_def Let_def flip: b_def)
  next
    case 2
    then have d: "unat (b - 0x80) = unat b - 128" by (simp add: unat_byte_diff)
    have c: "unat (ucast (b - 0x80) :: u64) = unat b - 128" by (simp add: byte_simps d)
    have one: "ucast (b - 0x80) = (1 :: u64) \<longleftrightarrow> unat b = 129"
      using 2 by (auto simp: word_unat_eq_iff c)
    show ?thesis
      using 2 False short_head_eq [OF assms False, of "ucast (b - 0x80)" KString] unat_byte_less [of b]
      by (simp add: readKind_def kind_spec_def Let_def byte_less_unat one c flip: b_def)
  next
    case 3
    then have d: "unat (b - 0xB7) = unat b - 183" by (simp add: unat_byte_diff)
    show ?thesis
      using 3 False long_head_eq [OF assms False, of "b - 0xB7" KString]
      by (simp add: readKind_def kind_spec_def Let_def byte_less_unat d flip: b_def)
  next
    case 4
    then have d: "unat (b - 0xC0) = unat b - 192" by (simp add: unat_byte_diff)
    have c: "unat (ucast (b - 0xC0) :: u64) = unat b - 192" by (simp add: byte_simps d)
    show ?thesis
      using 4 False short_head_eq [OF assms False, of "ucast (b - 0xC0)" KList] unat_byte_less [of b]
      by (simp add: readKind_def kind_spec_def Let_def byte_less_unat c flip: b_def)
  next
    case 5
    then have d: "unat (b - 0xF7) = unat b - 247" by (simp add: unat_byte_diff)
    show ?thesis
      using 5 False long_head_eq [OF assms False, of "b - 0xF7" KList] unat_byte_less [of b]
      by (simp add: readKind_def kind_spec_def Let_def byte_less_unat d flip: b_def)
  qed
qed

lemma head_bounds:
  assumes "kind_spec buf = Ok (k, ts, cs)"
  shows "ts + cs \<le> length buf" "0 < ts + cs"
  using assms
  by (auto simp: kind_spec_def short_head_def long_head_def Let_def Suc_le_eq split: if_splits)
     (cases buf; simp)+

lemma Split_eq:
  assumes "length b < 2 ^ 64"
  shows "Split b = map_sum id (\<lambda>(k, ts, cs). (k, take cs (drop ts b), drop (ts + cs) b)) (kind_spec b)"
proof (cases "kind_spec b")
  case (Inl e)
  then show ?thesis by (simp add: Split_def readKind_eq [OF assms])
next
  case (Inr r)
  obtain k ts cs where r: "r = (k, ts, cs)" by (cases r)
  from head_bounds [of b k ts cs] Inr r have le: "ts + cs \<le> length b" by simp
  have "unat (of_nat ts :: u64) = ts" using le assms by (intro unat_of_nat_u64) linarith
  moreover have "unat (of_nat ts + of_nat cs :: u64) = ts + cs"
    using le assms unat_of_nat_u64 [of "ts + cs"] by simp
  ultimately show ?thesis
    by (simp add: Split_def readKind_eq [OF assms] Inr r slice_def)
qed

lemma length_be_bytes_8: "n < 2 ^ 64 \<Longrightarrow> length (be_bytes n) \<le> 8"
  by (subst length_be_bytes_le) simp

lemma unat_tag:
  assumes "n \<le> 8"
  shows "unat (0xB7 + of_nat n :: byte) = 183 + n" "unat (0xF7 + of_nat n :: byte) = 247 + n"
  using assms by (simp_all add: unat_word_ariths byte_simps)

lemma unat_small_tag:
  assumes "n < 56"
  shows "unat (0x80 + of_nat n :: byte) = 128 + n" "unat (0xC0 + of_nat n :: byte) = 192 + n"
  using assms by (simp_all add: unat_word_ariths byte_simps)

lemma long_head_be:
  assumes "56 \<le> length p" "length p < 2 ^ 64"
  shows "long_head k (t # be_bytes (length p) @ p @ rest) (length (be_bytes (length p)))
     = Ok (k, length (be_bytes (length p)) + 1, length p)"
proof -
  have "length p > 0" using assms(1) by linarith
  then have "be_bytes (length p) \<noteq> []" "hd (be_bytes (length p)) \<noteq> 0"
    by (simp_all only: be_bytes_eq_Nil hd_be_bytes) auto
  then have "(be_bytes (length p) @ p @ rest) ! 0 \<noteq> 0" by (cases "be_bytes (length p)") auto
  then show ?thesis using assms by (simp add: long_head_def Let_def)
qed

lemma kind_spec_list:
  assumes "length p < 2 ^ 64"
  shows "kind_spec (rlp_list p @ rest) = Ok (KList, length (rlp_head 0xC0 0xF7 (length p)), length p)"
proof (cases "length p < 56")
  case True
  then show ?thesis
    by (simp add: rlp_list_def rlp_head_def kind_spec_def unat_small_tag Let_def short_head_def)
next
  case False
  let ?n = "length (be_bytes (length p))"
  have "0 < ?n" using False by auto
  moreover have "?n \<le> 8" using assms by (rule length_be_bytes_8)
  ultimately have "kind_spec (rlp_list p @ rest)
      = long_head KList ((0xF7 + of_nat ?n) # be_bytes (length p) @ p @ rest) ?n"
    using False by (simp add: rlp_list_def rlp_head_def kind_spec_def unat_tag Let_def)
  then show ?thesis using False assms by (simp add: long_head_be rlp_head_def)
qed

lemma kind_spec_string:
  assumes "length p < 2 ^ 64"
  shows "kind_spec (rlp_string p @ rest) =
    (if length p = 1 \<and> p ! 0 < 0x80 then Ok (KByte, 0, 1)
     else Ok (KString, length (rlp_head 0x80 0xB7 (length p)), length p))"
proof -
  consider "length p = 1 \<and> p ! 0 < 0x80" | "\<not> (length p = 1 \<and> p ! 0 < 0x80)" "length p < 56"
    | "56 \<le> length p" by linarith
  then show ?thesis
  proof cases
    case 1
    then show ?thesis by (cases p) (auto simp: rlp_string_def kind_spec_def byte_less_unat Let_def)
  next
    case 2
    then have "\<not> (length p = 1 \<and> unat (p ! 0) < 128)" by (simp add: byte_less_unat)
    with 2 show ?thesis
      by (auto simp: rlp_string_def rlp_head_def kind_spec_def unat_small_tag Let_def short_head_def
           nth_append)
  next
    case 3
    let ?n = "length (be_bytes (length p))"
    have "p \<noteq> []" using 3 by auto
    then have "0 < ?n" by simp
    moreover have "?n \<le> 8" using assms by (rule length_be_bytes_8)
    ultimately have "kind_spec (rlp_string p @ rest)
        = long_head KString ((0xB7 + of_nat ?n) # be_bytes (length p) @ p @ rest) ?n"
      using 3 by (auto simp: rlp_string_def rlp_head_def kind_spec_def unat_tag Let_def)
    then show ?thesis using 3 assms by (simp add: long_head_be rlp_head_def)
  qed
qed

lemma Split_rlp_list:
  assumes "length (rlp_list p @ rest) < 2 ^ 64"
  shows "Split (rlp_list p @ rest) = Ok (KList, p, rest)"
proof -
  have "length p < 2 ^ 64" using assms by (simp add: rlp_list_def)
  from kind_spec_list [OF this, of rest] show ?thesis
    unfolding Split_eq [OF assms] by (simp add: rlp_list_def)
qed

lemma Split_rlp_string:
  assumes "length (rlp_string p @ rest) < 2 ^ 64"
  shows "Split (rlp_string p @ rest) =
    Ok (if length p = 1 \<and> p ! 0 < 0x80 then KByte else KString, p, rest)"
proof -
  have "length p < 2 ^ 64" using assms by (simp add: rlp_string_def split: if_splits)
  from kind_spec_string [OF this, of rest] show ?thesis
    unfolding Split_eq [OF assms] by (simp add: rlp_string_def)
qed

lemma short_headD:
  assumes "short_head k b m = Ok (k', ts, cs)" "b \<noteq> []"
  shows "k' = k" "ts = 1" "cs = m" "length (take cs (drop ts b)) = m"
    "b = [b ! 0] @ take cs (drop ts b) @ drop (ts + cs) b"
  using assms by (cases b; auto simp: short_head_def split: if_splits)+

lemma long_headD:
  assumes "long_head k b m = Ok (k', ts, cs)" "b \<noteq> []" "0 < m"
  shows "k' = k" "length (take cs (drop ts b)) = cs" "56 \<le> cs" "length (be_bytes cs) = m"
    "b = [b ! 0] @ be_bytes cs @ take cs (drop ts b) @ drop (ts + cs) b"
proof -
  obtain t b' where b: "b = t # b'" using assms(2) by (cases b) auto
  from assms(1) b have m: "m \<le> length b'" and ts: "ts = m + 1" and cs: "cs = be_val (take m b')"
    and big: "56 \<le> cs" and nz: "b' ! 0 \<noteq> 0" and fit: "cs \<le> length b' - m" and k: "k' = k"
    by (auto simp: long_head_def Let_def not_less split: if_splits)
  have "hd (take m b') \<noteq> 0" using nz m assms(3) by (cases b'; cases m) auto
  then have be: "be_bytes cs = take m b'" by (simp add: cs be_bytes_be_val)
  show "k' = k" "56 \<le> cs" by fact+
  show "length (be_bytes cs) = m" using m by (simp add: be)
  show "length (take cs (drop ts b)) = cs" using fit ts b by simp
  have "take m b' @ take cs (drop m b') @ drop (m + cs) b' = b'"
    by (metis add.commute append_take_drop_id drop_drop)
  then show "b = [b ! 0] @ be_bytes cs @ take cs (drop ts b) @ drop (ts + cs) b"
    by (simp add: be b ts)
qed

lemma Split_canonical:
  assumes "length b < 2 ^ 64" "Split b = Ok (k, c, rest)"
  shows "b = (if k = KList then rlp_list c else rlp_string c) @ rest"
    and "k \<noteq> KList \<Longrightarrow> k = KByte \<longleftrightarrow> length c = 1 \<and> c ! 0 < 0x80"
proof -
  obtain ts cs where ks: "kind_spec b = Ok (k, ts, cs)" and c: "c = take cs (drop ts b)"
    and rest: "rest = drop (ts + cs) b"
    using assms by (cases "kind_spec b") (auto simp: Split_eq)
  then have ne: "b \<noteq> []" by (auto simp: kind_spec_def)
  define n where "n = unat (b ! 0)"
  have n256: "n < 256" by (simp add: n_def byte_simps)
  have tag: "unat t \<le> n \<Longrightarrow> b ! 0 = t + of_nat (n - unat t)" for t :: byte
    by (simp add: n_def byte_tag_eq)
  consider "n < 128" | "128 \<le> n" "n < 184" | "184 \<le> n" "n < 192" | "192 \<le> n" "n < 248" | "248 \<le> n"
    by linarith
  then have "b = (if k = KList then rlp_list c else rlp_string c) @ rest
    \<and> (k \<noteq> KList \<longrightarrow> (k = KByte \<longleftrightarrow> length c = 1 \<and> c ! 0 < 0x80))"
  proof cases
    case 1
    with ks ne show ?thesis
      by (cases b) (auto simp: kind_spec_def c rest rlp_string_def byte_less_unat n_def)
  next
    case 2
    with ks ne have sh: "short_head KString b (n - 128) = Ok (k, ts, cs)"
      and cn: "\<not> (n = 129 \<and> length b > 1 \<and> unat (b ! 1) < 128)"
      by (auto simp: kind_spec_def n_def Let_def split: if_splits)
    note D = short_headD [OF sh ne, folded c rest]
    have "\<not> (length c = 1 \<and> c ! 0 < 0x80)"
    proof
      assume A: "length c = 1 \<and> c ! 0 < 0x80"
      then have "n = 129" using D(4) 2 by arith
      moreover have "c ! 0 = b ! 1" "length b > 1" using A c D(2) by (auto simp: nth_take)
      ultimately show False using cn A by (simp add: byte_less_unat)
    qed
    moreover have "rlp_head 0x80 0xB7 (length c) = [b ! 0]"
      using D(4) tag [of "0x80"] 2 by (simp add: rlp_head_def less_diff_conv2)
    ultimately show ?thesis using D(1,5) by (auto simp: rlp_string_def)
  next
    case 3
    with ks ne have lh: "long_head KString b (n - 183) = Ok (k, ts, cs)"
      by (auto simp: kind_spec_def n_def Let_def split: if_splits)
    have "0 < n - 183" using 3 by simp
    note D = long_headD [OF lh ne this, folded c rest]
    have "rlp_head 0x80 0xB7 (length c) = [b ! 0] @ be_bytes cs"
      using D(2-4) tag [of "0xB7"] 3 by (simp add: rlp_head_def)
    then show ?thesis using D(1-3,5) by (auto simp: rlp_string_def)
  next
    case 4
    with ks ne have sh: "short_head KList b (n - 192) = Ok (k, ts, cs)"
      by (auto simp: kind_spec_def n_def Let_def split: if_splits)
    note D = short_headD [OF sh ne, folded c rest]
    have "rlp_head 0xC0 0xF7 (length c) = [b ! 0]"
      using D(4) tag [of "0xC0"] 4 by (simp add: rlp_head_def less_diff_conv2)
    then show ?thesis using D(1,5) by (auto simp: rlp_list_def)
  next
    case 5
    with ks ne have lh: "long_head KList b (n - 247) = Ok (k, ts, cs)"
      by (auto simp: kind_spec_def n_def Let_def split: if_splits)
    have "0 < n - 247" using 5 by simp
    note D = long_headD [OF lh ne this, folded c rest]
    have "rlp_head 0xC0 0xF7 (length c) = [b ! 0] @ be_bytes cs"
      using D(2-4) tag [of "0xF7"] 5 by (simp add: rlp_head_def)
    then show ?thesis using D(1-3,5) by (auto simp: rlp_list_def)
  qed
  then show "b = (if k = KList then rlp_list c else rlp_string c) @ rest"
    and "k \<noteq> KList \<Longrightarrow> k = KByte \<longleftrightarrow> length c = 1 \<and> c ! 0 < 0x80" by blast+
qed

lemma AppendUint64_putint:
  "AppendUint64 b i = b @
     (if i = 0 then [0x80] else if i < 128 then [ucast i]
      else (0x80 + of_nat (length (putint i))) # putint i)"
  by (simp add: AppendUint64_def putint_def Let_def)

lemma AppendUint64_eq: "AppendUint64 b i = b @ rlp_string (be_bytes (unat i))"
proof -
  consider "i = 0" | "i \<noteq> 0" "i < 128" | "\<not> i < 128" by blast
  then show ?thesis
  proof cases
    case 1
    then show ?thesis by (simp add: AppendUint64_putint rlp_string_def rlp_head_def)
  next
    case 2
    then have n: "0 < unat i" "unat i < 128" by (simp_all add: unat_gt_0 word_less_nat_alt)
    then have "be_bytes (unat i) = [ucast i]" by (simp add: be_bytes_pos)
    moreover have "(ucast i :: byte) < 0x80"
      using n by (simp add: byte_less_unat unsigned_ucast_eq take_bit_nat_eq_self)
    ultimately show ?thesis using 2 by (simp add: AppendUint64_putint rlp_string_def)
  next
    case 3
    then have n: "128 \<le> unat i" by (simp add: word_less_nat_alt)
    have nz: "i \<noteq> 0" using 3 by auto
    have len: "length (be_bytes (unat i)) \<le> 8"
      using unsigned_less [of i, where ?'a = nat] by (intro length_be_bytes_8) simp
    have "\<not> (length (be_bytes (unat i)) = 1 \<and> be_bytes (unat i) ! 0 < 0x80)"
    proof
      assume A: "length (be_bytes (unat i)) = 1 \<and> be_bytes (unat i) ! 0 < 0x80"
      then have "be_val (be_bytes (unat i)) < 128"
        by (cases "be_bytes (unat i)") (auto simp: byte_less_unat)
      then show False using n by simp
    qed
    then show ?thesis using 3 nz len by (simp add: AppendUint64_putint putint_eq rlp_string_def rlp_head_def)
  qed
qed

lemma single_byte_be: "length c = 1 \<Longrightarrow> c ! 0 \<noteq> 0 \<Longrightarrow> be_bytes (unat (c ! 0)) = c"
  using be_bytes_be_val [of c] by (cases c) auto

lemma readSize_content:
  assumes "2 \<le> length c" "length c \<le> 8"
  shows "readSize c (of_nat (length c)) =
    (if hd c = 0 then Err ErrCanonSize else Ok (of_nat (be_val c)))"
proof -
  have l: "unat (of_nat (length c) :: byte) = length c" using assms by (simp add: byte_simps)
  have h: "c ! 0 = hd c" using assms by (cases c) auto
  have big: "256 \<le> be_val c" if "hd c \<noteq> 0"
  proof -
    have "256 ^ 1 \<le> (256 :: nat) ^ (length c - 1)" using assms by (intro power_increasing) auto
    also have "\<dots> \<le> be_val c" using assms that by (intro be_val_ge) auto
    finally show ?thesis by simp
  qed
  show ?thesis
  proof (cases "hd c = 0")
    case True
    then show ?thesis using assms by (subst readSize_eq) (simp_all add: l h)
  next
    case False
    then show ?thesis using assms big by (subst readSize_eq) (simp_all add: l h)
  qed
qed

lemma SplitUint64_AppendUint64:
  assumes "length (AppendUint64 [] i @ rest) < 2 ^ 64"
  shows "SplitUint64 (AppendUint64 [] i @ rest) = Ok (i, rest)"
proof -
  define c where "c = be_bytes (unat i)"
  have len: "length c \<le> 8"
    using unsigned_less [of i, where ?'a = nat] by (auto simp: c_def intro: length_be_bytes_8)
  have v: "be_val c = unat i" by (simp add: c_def)
  have hd: "hd c \<noteq> 0" if "c \<noteq> []" using that by (simp add: c_def hd_be_bytes unat_gt_0)
  obtain k where k: "SplitString (AppendUint64 [] i @ rest) = Ok (c, rest)"
    using assms by (simp add: SplitString_def AppendUint64_eq Split_rlp_string c_def)
  consider "c = []" | b where "c = [b]" "b \<noteq> 0" | "2 \<le> length c"
    using hd by (cases c; cases "tl c") auto
  then show ?thesis
  proof cases
    case 1
    then show ?thesis using v k by (simp add: SplitUint64_def unat_eq_zero)
  next
    case 2
    then have "ucast b = i" using v by (simp add: word_unat_eq_iff byte_simps)
    then show ?thesis using 2 k by (simp add: SplitUint64_def)
  next
    case 3
    then have "c \<noteq> []" by auto
    then show ?thesis using 3 k hd len v by (simp add: SplitUint64_def readSize_content)
  qed
qed

lemma SplitUint64_canonical:
  assumes "length b < 2 ^ 64" "SplitUint64 b = Ok (x, rest)"
  shows "b = AppendUint64 [] x @ rest"
proof -
  obtain k c where sp: "Split b = Ok (k, c, rest)" and k: "k \<noteq> KList"
    using assms(2)
    by (auto simp: SplitUint64_def SplitString_def split: sum.splits if_splits prod.splits)
  have "c = be_bytes (unat x)"
  proof -
    consider "c = []" | "length c = 1" | "2 \<le> length c" by (cases c; cases "tl c") auto
    then show ?thesis
    proof cases
      case 1
      then show ?thesis using assms(2) sp k by (auto simp: SplitUint64_def SplitString_def)
    next
      case 2
      then show ?thesis using assms(2) sp k
        by (auto simp: SplitUint64_def SplitString_def byte_simps single_byte_be split: if_splits)
    next
      case 3
      then have "c \<noteq> []" by auto
      with 3 assms(2) sp k have "length c \<le> 8" and x: "x = of_nat (be_val c)" and hd: "hd c \<noteq> 0"
        by (auto simp: SplitUint64_def SplitString_def readSize_content split: if_splits)
      have "be_val c < 256 ^ length c" by (rule be_val_less)
      also have "\<dots> \<le> 256 ^ 8" using \<open>length c \<le> 8\<close> by (intro power_increasing) auto
      finally have "unat x = be_val c" unfolding x by (intro unat_of_nat_u64) simp
      then show ?thesis using hd by (simp add: be_bytes_be_val)
    qed
  qed
  then show ?thesis using Split_canonical(1) [OF assms(1) sp] k by (simp add: AppendUint64_eq)
qed

lemma readKind_rlp_item:
  assumes "length (rlp_item k c @ rest) < 2 ^ 64"
  shows "\<exists>k' ts cs. readKind (rlp_item k c @ rest) = Ok (k', ts, cs)
     \<and> unat ts + unat cs = length (rlp_item k c) \<and> unat (ts + cs) = length (rlp_item k c)"
proof -
  obtain k' ts cs where ks: "kind_spec (rlp_item k c @ rest) = Ok (k', ts, cs)" 
     "ts + cs = length (rlp_item k c)"
  proof (cases "k = KList")
    case True
    with assms have "length c < 2 ^ 64" by (simp add: rlp_item_def rlp_list_def)
    with True that kind_spec_list [OF this, of rest] show ?thesis
      by (auto simp: rlp_item_def rlp_list_def)
  next
    case False
    with assms have "length c < 2 ^ 64" by (simp add: rlp_item_def rlp_string_def split: if_splits)
    with False that kind_spec_string [OF this, of rest] show ?thesis
      by (auto simp: rlp_item_def rlp_string_def split: if_splits)
  qed
  have "unat (of_nat ts :: u64) = ts" "unat (of_nat cs :: u64) = cs"
    using assms ks(2) by (auto intro!: unat_of_nat_u64)
  moreover have "unat (of_nat ts + of_nat cs :: u64) = ts + cs"
  proof -
    have "ts + cs < 2 ^ 64" using assms ks(2) by simp
    from unat_of_nat_u64 [OF this] show ?thesis by (simp only: of_nat_add)
  qed
  ultimately show ?thesis using ks unfolding readKind_eq [OF assms] by simp
qed

lemma rlp_item_nonempty: "rlp_item k c \<noteq> []"
  by (auto simp: rlp_item_def rlp_list_def rlp_string_def rlp_head_def)

lemma CountValues_items:
  assumes "length (concat (map (\<lambda>(k, c). rlp_item k c) items)) < 2 ^ 64"
  shows "CountValues (concat (map (\<lambda>(k, c). rlp_item k c) items)) = Ok (length items)"
proof -
  have "CountValues_loop (concat (map (\<lambda>(k, c). rlp_item k c) items)) n = Ok (n + length items)" for n
    using assms
  proof (induction items arbitrary: n)
    case Nil
    then show ?case by (simp add: CountValues_loop.simps)
  next
    case (Cons x items)
    obtain k c where x: "x = (k, c)" by (cases x)
    let ?rest = "concat (map (\<lambda>(k, c). rlp_item k c) items)"
    have len: "length (rlp_item k c @ ?rest) < 2 ^ 64" using Cons.prems x by simp
    from readKind_rlp_item [OF this] obtain k' ts cs where
      r: "readKind (rlp_item k c @ ?rest) = Ok (k', ts, cs)" "unat ts + unat cs = length (rlp_item k c)"
      by blast
    have "CountValues_loop (rlp_item k c @ ?rest) n = CountValues_loop ?rest (n + 1)"
      using r by (subst CountValues_loop.simps) (simp add: rlp_item_nonempty)
    also have "\<dots> = Ok (n + 1 + length items)" using Cons.IH Cons.prems x by simp
    finally show ?case by (simp add: x)
  qed
  from this [of 0] show ?thesis by (simp add: CountValues_def)
qed

text \<open>Conversely, a successful count splits the input into that many values.\<close>

lemma CountValues_canonical:
  assumes "length b < 2 ^ 64" "CountValues b = Ok n"
  shows "\<exists>items. length items = n \<and> b = concat (map (\<lambda>(k, c). rlp_item k c) items)"
proof -
  have "\<exists>items. m + length items = n \<and> b = concat (map (\<lambda>(k, c). rlp_item k c) items)"
    if "CountValues_loop b m = Ok n" "length b < 2 ^ 64" for m
    using that
  proof (induction b m rule: CountValues_loop.induct)
    case (1 b i)
    show ?case
    proof (cases "b = []")
      case True
      with 1 show ?thesis by (auto simp: CountValues_loop.simps)
    next
      case False
      with 1 obtain k ts cs where rk: "readKind b = Ok (k, ts, cs)"
        by (subst (asm) (2) CountValues_loop.simps) (auto split: sum.splits)
      let ?r = "drop (unat ts + unat cs) b"
      have step: "CountValues_loop b i = CountValues_loop ?r (i + 1)"
        using False rk by (subst CountValues_loop.simps) simp
      have nr: "CountValues_loop ?r (i + 1) = Ok n" using step 1(2) by simp
      have lr: "length ?r < 2 ^ 64" using 1(3) by (simp add: less_imp_diff_less)
      from 1(1) [OF _ rk refl refl nr lr] False obtain items where
        it: "i + 1 + length items = n" "?r = concat (map (\<lambda>(k, c). rlp_item k c) items)"
        by auto
      obtain t s where ks: "kind_spec b = Ok (k, t, s)" "ts = of_nat t" "cs = of_nat s"
        using rk 1(3) by (cases "kind_spec b") (auto simp: readKind_eq)
      have "unat ts = t" "unat cs = s"
        using head_bounds [OF ks(1)] 1(3) ks(2,3) by (auto intro!: unat_of_nat_u64)
      then have "Split b = Ok (k, take s (drop t b), ?r)"
        using ks(1) 1(3) by (simp add: Split_eq)
      from Split_canonical(1) [OF 1(3) this] it
      have "b = concat (map (\<lambda>(k, c). rlp_item k c) ((k, take s (drop t b)) # items))"
        by (simp add: rlp_item_def)
      moreover have "i + length ((k, take s (drop t b)) # items) = n" using it(1) by simp
      ultimately show ?thesis by blast
    qed
  qed
  from this [of 0] assms show ?thesis by (simp add: CountValues_def)
qed

lemma Next_item:
  assumes "length (rlp_item k c @ rest) < 2 ^ 64" "it_data it = rlp_item k c @ rest"
  shows "Next it = (True, it\<lparr>it_next := rlp_item k c, it_data := rest, it_err := None\<rparr>)"
  using readKind_rlp_item [OF assms(1)] assms(2)
  by (auto simp: Next_def Let_def rlp_item_nonempty)

lemma Next_stuck:
  assumes "it_data it \<noteq> []" "readKind (it_data it) = Err e"
  shows "fst (Next it)" "it_data (snd (Next it)) = it_data it" "it_err (snd (Next it)) = Some e"
  using assms by (simp_all add: Next_def)

section \<open>Properties\<close>

text \<open>\<open>Split\<close> accepts exactly the canonical encodings: it returns kind, content and rest if
  and only if the input is the reference encoding of that content followed by that rest, with
  kind \<open>KByte\<close> for the one-byte form.  So nothing but the canonical form of a value decodes to
  it, and every value decodes.\<close>

theorem Split_iff:
  assumes "length b < 2 ^ 64"
  shows "Split b = Ok (k, c, rest) \<longleftrightarrow>
    b = rlp_item k c @ rest \<and> (k \<noteq> KList \<longrightarrow> (k = KByte \<longleftrightarrow> length c = 1 \<and> c ! 0 < 0x80))"
proof
  assume "Split b = Ok (k, c, rest)"
  from Split_canonical [OF assms this]
  show "b = rlp_item k c @ rest \<and> (k \<noteq> KList \<longrightarrow> (k = KByte \<longleftrightarrow> length c = 1 \<and> c ! 0 < 0x80))"
    by (simp add: rlp_item_def)
next
  assume A: "b = rlp_item k c @ rest \<and> (k \<noteq> KList \<longrightarrow> (k = KByte \<longleftrightarrow> length c = 1 \<and> c ! 0 < 0x80))"
  show "Split b = Ok (k, c, rest)"
  proof (cases "k = KList")
    case True
    with A assms Split_rlp_list show ?thesis by (simp add: rlp_item_def)
  next
    case False
    with A assms Split_rlp_string [of c rest] show ?thesis by (cases k) (auto simp: rlp_item_def)
  qed
qed

theorem Split_iff_witness:
  "length [0x82, 1, 2, 9 :: byte] < 2 ^ 64
   \<and> Split [0x82, 1, 2, 9] = Ok (KString, [1, 2], [9])"
  using Split_iff [of "[0x82, 1, 2, 9]" KString "[1, 2]" "[9]"]
  by (simp add: rlp_item_def rlp_string_def rlp_head_def)

text \<open>\<open>SplitUint64\<close> and \<open>AppendUint64\<close> are inverse: an input splits into the integer \<open>x\<close> and
  a rest if and only if it is what \<open>AppendUint64\<close> writes for \<open>x\<close> followed by that rest.\<close>

theorem SplitUint64_iff:
  assumes "length b < 2 ^ 64"
  shows "SplitUint64 b = Ok (x, rest) \<longleftrightarrow> b = AppendUint64 [] x @ rest"
  using assms SplitUint64_canonical SplitUint64_AppendUint64 by blast

theorem SplitUint64_iff_witness:
  "length [0x82, 4, 0, 7 :: byte] < 2 ^ 64 \<and> SplitUint64 [0x82, 4, 0, 7] = Ok (1024, [7])"
  using SplitUint64_iff [of "[0x82, 4, 0, 7]" 1024 "[7]"]
  by (simp add: AppendUint64_def)

text \<open>\<open>CountValues\<close> returns \<open>n\<close> if and only if its input is the concatenation of \<open>n\<close> canonical
  encodings; it always returns.\<close>

theorem CountValues_iff:
  assumes "length b < 2 ^ 64"
  shows "CountValues b = Ok n \<longleftrightarrow>
    (\<exists>items. length items = n \<and> b = concat (map (\<lambda>(k, c). rlp_item k c) items))"
  using assms CountValues_canonical CountValues_items by blast

theorem CountValues_iff_witness:
  "length [0x01, 0x82, 5, 6, 0xC0 :: byte] < 2 ^ 64 \<and> CountValues [0x01, 0x82, 5, 6, 0xC0] = Ok 3"
proof -
  have "\<exists>items. length items = 3 \<and>
      [0x01, 0x82, 5, 6, 0xC0 :: byte] = concat (map (\<lambda>(k, c). rlp_item k c) items)"
    by (rule exI [of _ "[(KByte, [1]), (KString, [5, 6]), (KList, [])]"])
       (simp add: rlp_item_def rlp_string_def rlp_list_def rlp_head_def)
  then show ?thesis using CountValues_iff [of "[0x01, 0x82, 5, 6, 0xC0]" 3] by simp
qed

end
