(* ===== verification/Rlp_Encode.thy ===== *)
theory Rlp_Encode
  imports Rlp_Raw
begin

text \<open>
  The encoder of \<^verbatim>\<open>rlp/encbuffer.go\<close> and \<^verbatim>\<open>rlp/encode.go\<close>.  String data goes to one
  buffer and list headers to another; a header's size is only known when its list ends, so
  headers are spliced in when the output is made.
\<close>

section \<open>Definitions\<close>

subsection \<open>The buffer\<close>

record listhead =
  lh_offset :: nat
  lh_size :: nat

record encBuffer =
  eb_str :: bytes
  eb_lheads :: "listhead list"
  eb_lhsize :: nat

definition encBuffer_reset :: "encBuffer \<Rightarrow> encBuffer" where
  "encBuffer_reset buf = buf\<lparr>eb_lhsize := 0, eb_str := [], eb_lheads := []\<rparr>"

definition newEncBuffer :: encBuffer where
  "newEncBuffer = \<lparr>eb_str = [], eb_lheads = [], eb_lhsize = 0\<rparr>"

definition encBuffer_size :: "encBuffer \<Rightarrow> nat" where
  "encBuffer_size buf = length (eb_str buf) + eb_lhsize buf"

definition listhead_encode :: "listhead \<Rightarrow> bytes" where
  "listhead_encode head = puthead 0xC0 0xF7 (of_nat (lh_size head))"

text \<open>Appending to the string data.\<close>

definition eb_append :: "bytes \<Rightarrow> encBuffer \<Rightarrow> encBuffer" where
  "eb_append b buf = buf\<lparr>eb_str := eb_str buf @ b\<rparr>"

definition writeBool :: "bool \<Rightarrow> encBuffer \<Rightarrow> encBuffer" where
  "writeBool b buf = (if b then eb_append [0x01] buf else eb_append [0x80] buf)"

definition writeUint64 :: "u64 \<Rightarrow> encBuffer \<Rightarrow> encBuffer" where
  "writeUint64 i buf =
     (if i = 0 then eb_append [0x80] buf
      else if i < 128 then eb_append [ucast i] buf
      else (let s = putint i in eb_append ((0x80 + of_nat (length s)) # s) buf))"

definition encodeStringHeader :: "nat \<Rightarrow> encBuffer \<Rightarrow> encBuffer" where
  "encodeStringHeader n buf =
     (if n < 56 then eb_append [0x80 + of_nat n] buf
      else (let s = putint (of_nat n) in eb_append ((0xB7 + of_nat (length s)) # s) buf))"

definition writeBytes :: "bytes \<Rightarrow> encBuffer \<Rightarrow> encBuffer" where
  "writeBytes b buf =
     (if length b = 1 \<and> b ! 0 \<le> 0x7F then eb_append [b ! 0] buf
      else eb_append b (encodeStringHeader (length b) buf))"

text \<open>\<open>big.Int\<close>: the bit length and the little-endian machine words of a natural number.\<close>

fun BitLen :: "nat \<Rightarrow> nat" where
  "BitLen n = (if n = 0 then 0 else Suc (BitLen (n div 2)))"

fun big_Bits :: "nat \<Rightarrow> u64 list" where
  "big_Bits n = (if n = 0 then [] else of_nat n # big_Bits (n div 2 ^ 64))"

declare BitLen.simps [simp del] big_Bits.simps [simp del]

fun bigint_word :: "nat \<Rightarrow> u64 \<Rightarrow> nat \<Rightarrow> bytes \<Rightarrow> nat \<times> bytes" where
  "bigint_word 0 d index buf = (index, buf)"
| "bigint_word (Suc j) d index buf =
     (if index > 0 then bigint_word j (drop_bit 8 d) (index - 1) (buf[index - 1 := ucast d])
      else (index, buf))"

fun bigint_words :: "u64 list \<Rightarrow> nat \<Rightarrow> bytes \<Rightarrow> bytes" where
  "bigint_words [] index buf = buf"
| "bigint_words (d # ds) index buf =
     (case bigint_word 8 d index buf of (index, buf) \<Rightarrow> bigint_words ds index buf)"

definition writeBigInt :: "nat \<Rightarrow> encBuffer \<Rightarrow> encBuffer" where
  "writeBigInt i buf =
     (let bitlen = BitLen i in
      if bitlen \<le> 64 then writeUint64 (of_nat i) buf
      else
        let len = nat (drop_bit 3 ((int bitlen + 7) AND (- 8)))
        in eb_append (bigint_words (big_Bits i) len (replicate len 0)) (encodeStringHeader len buf))"

definition eb_list :: "encBuffer \<Rightarrow> nat \<times> encBuffer" where
  "eb_list buf =
     (length (eb_lheads buf),
      buf\<lparr>eb_lheads := eb_lheads buf @ [\<lparr>lh_offset = length (eb_str buf), lh_size = eb_lhsize buf\<rparr>]\<rparr>)"

definition eb_listEnd :: "nat \<Rightarrow> encBuffer \<Rightarrow> encBuffer" where
  "eb_listEnd index buf =
     (let lh = eb_lheads buf ! index;
          sz = encBuffer_size buf - lh_offset lh - lh_size lh;
          buf = buf\<lparr>eb_lheads := (eb_lheads buf)[index := lh\<lparr>lh_size := sz\<rparr>]\<rparr>
      in if sz < 56 then buf\<lparr>eb_lhsize := eb_lhsize buf + 1\<rparr>
         else buf\<lparr>eb_lhsize := eb_lhsize buf + (1 + intsize (of_nat sz))\<rparr>)"

subsection \<open>Making the output\<close>

text \<open>\<open>copy(dst[pos:], src)\<close> and its result; storing header bytes at \<open>dst[pos:]\<close> fails (an
  index panic) when they do not fit.\<close>

definition copy_into :: "bytes \<Rightarrow> nat \<Rightarrow> bytes \<Rightarrow> bytes \<times> nat" where
  "copy_into dst pos src =
     (let n = min (length dst - pos) (length src)
      in (take pos dst @ take n src @ drop (pos + n) dst, n))"

definition put_at :: "bytes \<Rightarrow> nat \<Rightarrow> bytes \<Rightarrow> bytes option" where
  "put_at dst pos bs =
     (if pos + length bs \<le> length dst then Some (take pos dst @ bs @ drop (pos + length bs) dst)
      else None)"

fun copyTo_loop :: "bytes \<Rightarrow> listhead list \<Rightarrow> bytes \<Rightarrow> nat \<Rightarrow> nat \<Rightarrow> bytes option" where
  "copyTo_loop str [] dst pos strpos =
     (if strpos \<le> length str \<and> pos \<le> length dst
      then Some (fst (copy_into dst pos (drop strpos str))) else None)"
| "copyTo_loop str (head # heads) dst pos strpos =
     (if strpos \<le> lh_offset head \<and> lh_offset head \<le> length str \<and> pos \<le> length dst then
        (case copy_into dst pos (slice str strpos (lh_offset head)) of (dst, n) \<Rightarrow>
           let pos = pos + n; strpos = strpos + n; enc = listhead_encode head in
           case put_at dst pos enc of None \<Rightarrow> None
           | Some dst \<Rightarrow> copyTo_loop str heads dst (pos + length enc) strpos)
      else None)"

definition copyTo :: "encBuffer \<Rightarrow> bytes \<Rightarrow> bytes option" where
  "copyTo w dst = copyTo_loop (eb_str w) (eb_lheads w) dst 0 0"

definition makeBytes :: "encBuffer \<Rightarrow> bytes option" where
  "makeBytes w = copyTo w (replicate (encBuffer_size w) 0)"

subsection \<open>Values\<close>

text \<open>
  The Go values the writers dispatch on, by the case of \<open>makeWriter\<close> that handles them:
  \<open>VUint\<close> (\<open>writeUint\<close>), \<open>VBool\<close>, \<open>VBigInt\<close> (\<open>writeBigIntPtr\<close>), \<open>VNilBigInt\<close>, \<open>VBytes\<close>
  (\<open>writeBytes\<close>, and \<open>writeString\<close> on a string's bytes), \<open>VByteArray\<close> (the three cases of
  \<open>makeByteArrayWriter\<close>), \<open>VSlice\<close> (\<open>makeSliceWriter\<close>), \<open>VStruct\<close> (\<open>makeStructWriter\<close> for
  structs without optional fields), \<open>VNil\<close> (\<open>makePtrWriter\<close> with its nil encoding, and
  \<open>writeInterface\<close>'s nil, which is the list kind).
\<close>

datatype goval =
    VUint u64
  | VBool bool
  | VBigInt int
  | VNilBigInt
  | VBytes bytes
  | VByteArray bytes
  | VSlice "goval list"
  | VStruct "goval list"
  | VNil kind

fun encode_value :: "goval \<Rightarrow> encBuffer \<Rightarrow> rlp_err + encBuffer"
and encode_values :: "goval list \<Rightarrow> encBuffer \<Rightarrow> rlp_err + encBuffer" where
  "encode_value (VUint i) w = Ok (writeUint64 i w)"
| "encode_value (VBool b) w = Ok (writeBool b w)"
| "encode_value (VBigInt i) w =
     (if i < 0 then Err ErrNegativeBigInt else Ok (writeBigInt (nat i) w))"
| "encode_value VNilBigInt w = Ok (eb_append [0x80] w)"
| "encode_value (VBytes b) w = Ok (writeBytes b w)"
| "encode_value (VByteArray b) w =
     (if length b = 0 then Ok (eb_append [0x80] w)
      else if length b = 1 then
        (if b ! 0 \<le> 0x7f then Ok (eb_append [b ! 0] w) else Ok (eb_append [0x81, b ! 0] w))
      else Ok (eb_append b (encodeStringHeader (length b) w)))"
| "encode_value (VSlice vs) w =
     (if vs = [] then Ok (eb_append [0xC0] w)
      else (case eb_list w of (listOffset, w) \<Rightarrow>
        (case encode_values vs w of Err e \<Rightarrow> Err e | Ok w \<Rightarrow> Ok (eb_listEnd listOffset w))))"
| "encode_value (VStruct fs) w =
     (case eb_list w of (lh, w) \<Rightarrow>
        (case encode_values fs w of Err e \<Rightarrow> Err e | Ok w \<Rightarrow> Ok (eb_listEnd lh w)))"
| "encode_value (VNil k) w = Ok (eb_append [if k = KString then 0x80 else 0xC0] w)"
| "encode_values [] w = Ok w"
| "encode_values (v # vs) w =
     (case encode_value v w of Err e \<Rightarrow> Err e | Ok w \<Rightarrow> encode_values vs w)"

definition EncodeToBytes :: "goval \<Rightarrow> rlp_err + bytes option" where
  "EncodeToBytes val =
     (case encode_value val newEncBuffer of Err e \<Rightarrow> Err e | Ok buf \<Rightarrow> Ok (makeBytes buf))"

subsection \<open>The streaming reader\<close>

record encReader =
  er_buf :: "encBuffer option"
  er_lhpos :: nat
  er_strpos :: nat
  er_piece :: "bytes option"

definition encReader_next :: "encReader \<Rightarrow> bytes option \<times> encReader" where
  "encReader_next r =
     (case er_buf r of None \<Rightarrow> (None, r)
      | Some buf \<Rightarrow>
        (case er_piece r of Some p \<Rightarrow> (Some p, r)
         | None \<Rightarrow>
           if er_lhpos r < length (eb_lheads buf) then
             let head = eb_lheads buf ! er_lhpos r in
             if lh_offset head - er_strpos r > 0 then
               (Some (slice (eb_str buf) (er_strpos r) (lh_offset head)),
                r\<lparr>er_strpos := lh_offset head\<rparr>)
             else (Some (listhead_encode head), r\<lparr>er_lhpos := er_lhpos r + 1\<rparr>)
           else if er_strpos r < length (eb_str buf) then
             (Some (drop (er_strpos r) (eb_str buf)), r\<lparr>er_strpos := length (eb_str buf)\<rparr>)
           else (None, r)))"

text \<open>\<open>Read\<close> into a slice of length \<open>n\<close>, of which \<open>acc\<close> is filled: the bytes read, whether
  \<open>io.EOF\<close> is returned, and the reader.\<close>

fun encReader_Read :: "nat \<Rightarrow> nat \<Rightarrow> bytes \<Rightarrow> encReader \<Rightarrow> (bytes \<times> bool \<times> encReader) option" where
  "encReader_Read 0 n acc r = None"
| "encReader_Read (Suc fuel) n acc r =
     (case encReader_next r of
        (None, r) \<Rightarrow> Some (acc, True, r\<lparr>er_buf := None, er_piece := None\<rparr>)
      | (Some p, r) \<Rightarrow>
          let nn = min (n - length acc) (length p); acc = acc @ take nn p in
          if nn < length p then Some (acc, False, r\<lparr>er_piece := Some (drop nn p)\<rparr>)
          else encReader_Read fuel n acc (r\<lparr>er_piece := None\<rparr>))"

definition EncodeToReader :: "goval \<Rightarrow> rlp_err + (nat \<times> encReader)" where
  "EncodeToReader val =
     (case encode_value val newEncBuffer of Err e \<Rightarrow> Err e
      | Ok buf \<Rightarrow> Ok (encBuffer_size buf,
          \<lparr>er_buf = Some buf, er_lhpos = 0, er_strpos = 0, er_piece = None\<rparr>))"

subsection \<open>The specification\<close>

datatype item = Str bytes | Lst "item list"

fun rlp_enc :: "item \<Rightarrow> bytes" where
  "rlp_enc (Str b) = rlp_string b"
| "rlp_enc (Lst xs) = rlp_list (concat (map rlp_enc xs))"

fun item_of :: "goval \<Rightarrow> item" where
  "item_of (VUint i) = Str (be_bytes (unat i))"
| "item_of (VBool b) = Str (if b then [1] else [])"
| "item_of (VBigInt i) = Str (be_bytes (nat i))"
| "item_of VNilBigInt = Str []"
| "item_of (VBytes b) = Str b"
| "item_of (VByteArray b) = Str b"
| "item_of (VSlice vs) = Lst (map item_of vs)"
| "item_of (VStruct vs) = Lst (map item_of vs)"
| "item_of (VNil k) = (if k = KString then Str [] else Lst [])"

fun encodable :: "goval \<Rightarrow> bool" where
  "encodable (VBigInt i) = (0 \<le> i)"
| "encodable (VSlice vs) = (\<forall>v \<in> set vs. encodable v)"
| "encodable (VStruct vs) = (\<forall>v \<in> set vs. encodable v)"
| "encodable _ = True"

section \<open>Lemmas\<close>

lemma eb_append_append [simp]: "eb_append b (eb_append a w) = eb_append (a @ b) w"
  by (simp add: eb_append_def)

lemma byte_le_7F: "(b :: byte) \<le> 0x7F \<longleftrightarrow> b < 0x80"
  by (simp add: word_le_nat_alt word_less_nat_alt less_Suc_eq_le [symmetric])

lemma writeUint64_eq: "writeUint64 i w = eb_append (rlp_string (be_bytes (unat i))) w"
  using AppendUint64_eq [of "[]" i]
  by (simp add: writeUint64_def AppendUint64_putint Let_def split: if_splits)

lemma encodeStringHeader_eq:
  assumes "n < 2 ^ 64"
  shows "encodeStringHeader n w = eb_append (rlp_head 0x80 0xB7 n) w"
proof -
  have u: "unat (of_nat n :: u64) = n" using assms by (rule unat_of_nat_u64)
  have "putint (of_nat n) = be_bytes n" if "\<not> n < 56"
    using that u putint_eq [of "of_nat n"] by (metis less_numeral_extra(1) unat_0 zero_less_numeral)
  then show ?thesis by (simp add: encodeStringHeader_def rlp_head_def Let_def)
qed

lemma writeBytes_eq: "length b < 2 ^ 64 \<Longrightarrow> writeBytes b w = eb_append (rlp_string b) w"
  by (cases b) (auto simp: writeBytes_def encodeStringHeader_eq rlp_string_def byte_le_7F)

lemma BitLen_le: "BitLen n \<le> k \<longleftrightarrow> n < 2 ^ k"
proof (induction k arbitrary: n)
  case 0
  then show ?case by (subst BitLen.simps) simp
next
  case (Suc k)
  then show ?case by (subst BitLen.simps) (auto simp: div_less_iff_less_mult mult.commute)
qed

lemma BitLen_bytes: "(BitLen n + 7) div 8 = length (be_bytes n)"
proof -
  have "(BitLen n + 7) div 8 \<le> k \<longleftrightarrow> length (be_bytes n) \<le> k" for k
  proof -
    have "(BitLen n + 7) div 8 \<le> k \<longleftrightarrow> BitLen n \<le> 8 * k" by auto
    also have "\<dots> \<longleftrightarrow> n < 2 ^ (8 * k)" by (rule BitLen_le)
    also have "(2::nat) ^ (8 * k) = 256 ^ k" by (simp add: power_mult)
    finally show ?thesis by (simp add: length_be_bytes_le)
  qed
  then show ?thesis by (meson order.antisym order_refl)
qed

lemma bigint_len: "nat (drop_bit 3 ((int b + 7) AND (- 8))) = (b + 7) div 8"
proof -
  have "drop_bit 3 ((int b + 7) AND (- 8)) = drop_bit 3 (int b + 7)"
  proof (rule bit_eqI)
    fix n
    have "(- 8 :: int) = NOT (mask 3)" by (simp add: mask_eq_exp_minus_1 not_int_def)
    then show "bit (drop_bit 3 ((int b + 7) AND (- 8))) n = bit (drop_bit 3 (int b + 7)) n"
      by (simp add: bit_simps)
  qed
  then show ?thesis by (simp add: drop_bit_eq_div nat_div_distrib nat_add_distrib)
qed

lemma rev_upt_Suc: "rev [0..<Suc m] = map Suc (rev [0..<m]) @ [0]"
  by (simp only: upt_conv_Cons [of 0 "Suc m"] zero_less_Suc rev.simps map_Suc_upt [symmetric] rev_map)

lemma rev_upt_add: "rev [0..<m + l] = map (\<lambda>k. k + m) (rev [0..<l]) @ rev [0..<m]"
  by (induction l) (simp_all add: add.commute)

lemma bigint_word_eq:
  "bigint_word j d (length pre) (pre @ post) =
     (let m = min j (length pre) in
      (length pre - m, take (length pre - m) pre
         @ map (\<lambda>k. ucast (drop_bit (8 * k) d)) (rev [0..<m]) @ post))"
proof (induction j arbitrary: d pre post)
  case 0
  then show ?case by simp
next
  case (Suc j)
  show ?case
  proof (cases pre rule: rev_cases)
    case Nil
    then show ?thesis by simp
  next
    case (snoc pre' x)
    have "bigint_word (Suc j) d (length pre) (pre @ post)
        = bigint_word j (drop_bit 8 d) (length pre') (pre' @ ucast d # post)"
      by (simp add: snoc)
    also have "\<dots> = (let m = min j (length pre') in (length pre' - m, take (length pre' - m) pre'
         @ map (\<lambda>k. ucast (drop_bit (8 * k) (drop_bit 8 d))) (rev [0..<m]) @ ucast d # post))"
      by (rule Suc.IH)
    finally show ?thesis
      by (simp add: snoc Let_def rev_upt_Suc drop_bit_drop_bit add.commute del: upt_Suc)
  qed
qed

lemma byte_of_drop:
  assumes "k < 8"
  shows "(ucast (drop_bit (8 * k) (of_nat n :: u64)) :: byte) = of_nat (n div 256 ^ k)"
proof (rule bit_word_eqI)
  fix m assume m: "m < LENGTH(8)"
  have "n div 256 ^ k = drop_bit (8 * k) n" by (simp add: drop_bit_eq_div power_mult)
  then show "bit (ucast (drop_bit (8 * k) (of_nat n :: u64)) :: byte) m = bit (of_nat (n div 256 ^ k) :: byte) m"
    using assms m by (auto simp: bit_simps)
qed

lemma bigint_words_eq:
  "length pre \<le> 8 * length (big_Bits n) \<Longrightarrow>
     bigint_words (big_Bits n) (length pre) (pre @ post) =
       map (\<lambda>k. of_nat (n div 256 ^ k)) (rev [0..<length pre]) @ post"
proof (induction n arbitrary: pre post rule: big_Bits.induct)
  case (1 n)
  show ?case
  proof (cases "n = 0")
    case True
    then show ?thesis using 1 by (simp add: big_Bits.simps)
  next
    case False
    let ?m = "min 8 (length pre)"
    let ?pre = "take (length pre - ?m) pre"
    let ?lo = "map (\<lambda>k. of_nat (n div 256 ^ k)) (rev [0..<?m])"
    have lo: "map (\<lambda>k. ucast (drop_bit (8 * k) (of_nat n :: u64))) (rev [0..<?m]) = (?lo :: bytes)"
      by (rule map_cong) (auto simp: byte_of_drop)
    have B: "big_Bits n = of_nat n # big_Bits (n div 2 ^ 64)"
      using False by (subst big_Bits.simps) simp
    have "bigint_words (big_Bits n) (length pre) (pre @ post)
        = bigint_words (big_Bits (n div 2 ^ 64)) (length ?pre) (?pre @ ?lo @ post)"
      unfolding B by (simp add: bigint_word_eq Let_def lo)
    also have "\<dots> = map (\<lambda>k. of_nat (n div 2 ^ 64 div 256 ^ k)) (rev [0..<length ?pre]) @ ?lo @ post"
    proof (rule 1(1) [OF False])
      have "length pre \<le> 8 + 8 * length (big_Bits (n div 2 ^ 64))" using 1(2) B by simp
      then show "length ?pre \<le> 8 * length (big_Bits (n div 2 ^ 64))" by simp
    qed
    also have "\<dots> = map (\<lambda>k. of_nat (n div 256 ^ k)) (rev [0..<length pre]) @ post"
    proof (cases "length pre \<le> 8")
      case True
      then show ?thesis by (simp add: min_def)
    next
      case False
      define l where "l = length ?pre"
      have l: "length pre = 8 + l" and m: "?m = 8" using False by (auto simp: l_def)
      have lp: "length (take (length pre - 8) pre) = l" using False by (simp add: l_def)
      have e: "n div 2 ^ 64 div 256 ^ k = n div 256 ^ (k + 8)" for k
      proof -
        have "(2::nat) ^ 64 = 256 ^ 8" by simp
        then show ?thesis by (simp only: power_add div_mult2_eq [symmetric] mult.commute)
      qed
      have "map (\<lambda>k. of_nat (n div 2 ^ 64 div 256 ^ k)) (rev [0..<length ?pre]) @ ?lo @ post
          = map (\<lambda>k. of_nat (n div 2 ^ 64 div 256 ^ k)) (rev [0..<l]) @ map (\<lambda>k. of_nat (n div 256 ^ k)) (rev [0..<8]) @ post"
        by (simp only: m lp)
      also have "\<dots> = map (\<lambda>k. of_nat (n div 256 ^ k)) (rev [0..<8 + l]) @ post"
        by (simp only: e rev_upt_add map_append map_map comp_def append_assoc)
      finally show ?thesis by (simp only: l [symmetric])
    qed
    finally show ?thesis .
  qed
qed

lemma writeBigInt_eq:
  assumes "length (be_bytes n) < 2 ^ 64"
  shows "writeBigInt n w = eb_append (rlp_string (be_bytes n)) w"
proof (cases "BitLen n \<le> 64")
  case True
  then have "unat (of_nat n :: u64) = n" by (simp add: BitLen_le unat_of_nat_u64)
  then show ?thesis using True by (simp add: writeBigInt_def writeUint64_eq)
next
  case False
  then have big: "256 ^ 8 \<le> n" by (simp add: BitLen_le)
  let ?L = "length (be_bytes n)"
  have L: "8 < ?L" using big length_be_bytes_le [of n 8] by linarith
  have bits: "n < 2 ^ (64 * length (big_Bits n))"
  proof (induction n rule: big_Bits.induct)
    case (1 n)
    show ?case
    proof (cases "n = 0")
      case False
      then have "n div 2 ^ 64 < 2 ^ (64 * length (big_Bits (n div 2 ^ 64)))" using 1 by simp
      then have "n < 2 ^ 64 * 2 ^ (64 * length (big_Bits (n div 2 ^ 64)))"
        by (simp add: div_less_iff_less_mult mult.commute)
      then show ?thesis using False by (subst big_Bits.simps) (simp add: power_add)
    qed (simp add: big_Bits.simps)
  qed
  have "?L \<le> 8 * length (big_Bits n)"
    unfolding length_be_bytes_le using bits by (simp add: power_mult)
  then have "bigint_words (big_Bits n) ?L (replicate ?L 0) = map (\<lambda>k. of_nat (n div 256 ^ k)) (rev [0..<?L])"
    using bigint_words_eq [of "replicate ?L 0" n "[]"] by simp
  also have "\<dots> = be_bytes n"
  proof -
    obtain k where k: "?L = Suc k" using L by (cases ?L) auto
    have ne: "be_bytes n \<noteq> []" "hd (be_bytes n) \<noteq> 0" using big by (auto intro!: hd_be_bytes)
    have "256 ^ k \<le> n" using be_val_ge [OF ne] k by simp
    moreover have "n < 256 ^ Suc k" using length_be_bytes_le [of n "Suc k"] k by simp
    ultimately show ?thesis unfolding k by (rule be_bytes_range [symmetric])
  qed
  finally show ?thesis
    using False L assms unfolding writeBigInt_def Let_def bigint_len BitLen_bytes
    by (simp add: encodeStringHeader_eq rlp_string_def)
qed

text \<open>Rendering: string data with the headers spliced in at their offsets.\<close>

fun render :: "bytes \<Rightarrow> nat \<Rightarrow> listhead list \<Rightarrow> bytes" where
  "render s p [] = drop p s"
| "render s p (h # hs) = slice s p (lh_offset h) @ listhead_encode h @ render s (lh_offset h) hs"

fun heads_ok :: "nat \<Rightarrow> nat \<Rightarrow> listhead list \<Rightarrow> bool" where
  "heads_ok n p [] = (p \<le> n)"
| "heads_ok n p (h # hs) = (p \<le> lh_offset h \<and> heads_ok n (lh_offset h) hs)"

definition shift :: "nat \<Rightarrow> listhead \<Rightarrow> listhead" where
  "shift n h = h\<lparr>lh_offset := lh_offset h + n\<rparr>"

definition heads_len :: "listhead list \<Rightarrow> nat" where
  "heads_len hs = sum_list (map (length \<circ> listhead_encode) hs)"

lemma shift_simps [simp]:
  "lh_offset (shift n h) = lh_offset h + n" "lh_size (shift n h) = lh_size h"
  "listhead_encode (shift n h) = listhead_encode h" "shift a (shift b h) = shift (a + b) h"
  "shift 0 h = h"
  by (simp_all add: shift_def listhead_encode_def)

lemma heads_len_simps [simp]:
  "heads_len [] = 0" "heads_len (h # hs) = length (listhead_encode h) + heads_len hs"
  "heads_len (hs @ hs') = heads_len hs + heads_len hs'" "heads_len (map (shift n) hs) = heads_len hs"
  by (simp_all add: heads_len_def comp_def)

lemma heads_okD: "heads_ok n p hs \<Longrightarrow> p \<le> n"
  by (induction hs arbitrary: p) force+

lemma heads_ok_mono: "heads_ok n p hs \<Longrightarrow> q \<le> p \<Longrightarrow> heads_ok n q hs"
  by (cases hs) auto

lemma heads_ok_append:
  "heads_ok n p hs \<Longrightarrow> heads_ok m 0 hs' \<Longrightarrow> heads_ok (n + m) p (hs @ map (shift n) hs')"
proof (induction hs arbitrary: p)
  case Nil
  have "heads_ok m q hs' \<Longrightarrow> p \<le> q + n \<Longrightarrow> heads_ok (n + m) p (map (shift n) hs')" for q
    by (induction hs' arbitrary: p q) auto
  from this [of 0] Nil show ?case by simp
qed auto

lemma length_render: "heads_ok (length s) p hs \<Longrightarrow> length (render s p hs) = length s - p + heads_len hs"
  by (induction hs arbitrary: p) (auto dest: heads_okD)

lemma render_shift:
  "render (a @ s) (p + length a) (map (shift (length a)) hs) = render s p hs"
  by (induction hs arbitrary: p) (simp_all add: slice_def)

lemma render_append:
  assumes "heads_ok (length s) p hs" "heads_ok (length s') 0 hs'"
  shows "render (s @ s') p (hs @ map (shift (length s)) hs') = render s p hs @ render s' 0 hs'"
  using assms
proof (induction hs arbitrary: p)
  case Nil
  then have p: "p \<le> length s" by simp
  show ?case
  proof (cases hs')
    case Nil
    then show ?thesis using p by simp
  next
    case (Cons h hs)
    then show ?thesis using p render_shift [of s s' "lh_offset h" hs] by (simp add: slice_def)
  qed
next
  case (Cons h hs)
  then show ?case by (auto simp: slice_def dest!: heads_okD)
qed

text \<open>\<open>copyTo\<close> into a buffer of the right size is rendering.\<close>

lemma copyTo_loop_render:
  assumes "heads_ok (length s) p hs" "length post = length s - p + heads_len hs"
  shows "copyTo_loop s hs (pre @ post) (length pre) p = Some (pre @ render s p hs)"
  using assms
proof (induction hs arbitrary: p pre post)
  case Nil
  then show ?case by (simp add: copy_into_def)
next
  case (Cons h hs)
  let ?src = "slice s p (lh_offset h)" and ?enc = "listhead_encode h"
  have off: "p \<le> lh_offset h" "lh_offset h \<le> length s" "heads_ok (length s) (lh_offset h) hs"
    using Cons.prems heads_okD by auto
  have src: "length ?src = lh_offset h - p" using off by simp
  have len: "length post = length ?src + length ?enc + (length s - lh_offset h + heads_len hs)"
    using Cons.prems(2) off src by simp
  define post1 where "post1 = drop (length ?src) post"
  define post2 where "post2 = drop (length ?enc) post1"
  have l1: "length post1 = length ?enc + (length s - lh_offset h + heads_len hs)"
    and l2: "length post2 = length s - lh_offset h + heads_len hs"
    using len by (simp_all add: post1_def post2_def)
  have c: "copy_into (pre @ post) (length pre) ?src = (pre @ ?src @ post1, length ?src)"
    using len by (simp add: copy_into_def post1_def Let_def del: length_slice)
  have q: "put_at (pre @ ?src @ post1) (length pre + length ?src) ?enc = Some ((pre @ ?src @ ?enc) @ post2)"
    using l1 by (simp add: put_at_def post2_def del: length_slice)
  have "copyTo_loop s (h # hs) (pre @ post) (length pre) p
      = copyTo_loop s hs ((pre @ ?src @ ?enc) @ post2) (length (pre @ ?src @ ?enc)) (lh_offset h)"
  proof -
    have "p + length ?src = lh_offset h" using off src by simp
    then show ?thesis using off by (simp add: c q Let_def add.assoc del: length_slice)
  qed
  also have "\<dots> = Some ((pre @ ?src @ ?enc) @ render s (lh_offset h) hs)"
    using Cons.IH off(3) l2 by blast
  finally show ?case by simp
qed

text \<open>What writing a value adds to a buffer.\<close>

definition adds :: "encBuffer \<Rightarrow> encBuffer \<Rightarrow> bytes \<Rightarrow> bool" where
  "adds w w' out \<longleftrightarrow> (\<exists>s hs. eb_str w' = eb_str w @ s
     \<and> eb_lheads w' = eb_lheads w @ map (shift (length (eb_str w))) hs
     \<and> eb_lhsize w' = eb_lhsize w + heads_len hs \<and> heads_ok (length s) 0 hs \<and> render s 0 hs = out)"

lemma adds_append: "adds w (eb_append b w) b"
  unfolding adds_def by (rule exI [of _ b], rule exI [of _ "[]"]) (simp add: eb_append_def)

lemma adds_refl: "adds w w []"
  unfolding adds_def by (rule exI [of _ "[]"], rule exI [of _ "[]"]) simp

lemma adds_trans:
  assumes "adds w w' a" "adds w' w'' b"
  shows "adds w w'' (a @ b)"
proof -
  obtain s hs where 1: "eb_str w' = eb_str w @ s"
    "eb_lheads w' = eb_lheads w @ map (shift (length (eb_str w))) hs"
    "eb_lhsize w' = eb_lhsize w + heads_len hs" "heads_ok (length s) 0 hs" "render s 0 hs = a"
    using assms(1) by (auto simp: adds_def)
  obtain t ks where 2: "eb_str w'' = eb_str w' @ t"
    "eb_lheads w'' = eb_lheads w' @ map (shift (length (eb_str w'))) ks"
    "eb_lhsize w'' = eb_lhsize w' + heads_len ks" "heads_ok (length t) 0 ks" "render t 0 ks = b"
    using assms(2) by (auto simp: adds_def)
  have "render (s @ t) 0 (hs @ map (shift (length s)) ks) = a @ b"
    using 1 2 by (simp add: render_append)
  moreover have "heads_ok (length (s @ t)) 0 (hs @ map (shift (length s)) ks)"
    using 1 2 by (simp add: heads_ok_append)
  ultimately show ?thesis
    unfolding adds_def using 1 2
    by (intro exI [of _ "s @ t"] exI [of _ "hs @ map (shift (length s)) ks"])
       (simp add: comp_def add.commute)
qed

lemma length_listhead_encode:
  "lh_size h < 2 ^ 64 \<Longrightarrow> length (listhead_encode h) = headsize (of_nat (lh_size h))"
  by (simp add: listhead_encode_def puthead_eq headsize_eq [where s = "0xC0" and l = "0xF7"])

lemma adds_list:
  assumes "adds (snd (eb_list w)) w' out" "length out < 2 ^ 64"
  shows "adds w (eb_listEnd (fst (eb_list w)) w') (rlp_list out)"
proof -
  let ?hd = "\<lparr>lh_offset = length (eb_str w), lh_size = eb_lhsize w\<rparr>"
  obtain s hs where w': "eb_str w' = eb_str w @ s"
    "eb_lheads w' = (eb_lheads w @ [?hd]) @ map (shift (length (eb_str w))) hs"
    "eb_lhsize w' = eb_lhsize w + heads_len hs" "heads_ok (length s) 0 hs" "render s 0 hs = out"
    using assms(1) by (auto simp: adds_def eb_list_def)
  let ?h = "\<lparr>lh_offset = 0, lh_size = length out\<rparr>"
  have out: "length out = length s + heads_len hs" using w' length_render by fastforce
  have idx: "fst (eb_list w) = length (eb_lheads w)" by (simp add: eb_list_def)
  have get: "eb_lheads w' ! fst (eb_list w) = ?hd" using w'(2) by (simp add: idx)
  have sz: "encBuffer_size w' - lh_offset ?hd - lh_size ?hd = length out"
    using w' out by (simp add: encBuffer_size_def)
  have lt: "length out < 56 \<longleftrightarrow> (of_nat (length out) :: u64) < 56"
    using assms(2) by (simp add: word_less_nat_alt unat_of_nat_u64)
  have hl: "length (listhead_encode ?h) = (if length out < 56 then 1 else 1 + intsize (of_nat (length out)))"
    using assms(2) by (subst length_listhead_encode) (simp_all add: headsize_def lt)
  have "eb_str (eb_listEnd (fst (eb_list w)) w') = eb_str w @ s"
    "eb_lheads (eb_listEnd (fst (eb_list w)) w') = eb_lheads w @ map (shift (length (eb_str w))) (?h # hs)"
    "eb_lhsize (eb_listEnd (fst (eb_list w)) w') = eb_lhsize w + heads_len (?h # hs)"
    unfolding eb_listEnd_def Let_def get sz using w' by (simp_all add: hl idx shift_def)
  moreover have "heads_ok (length s) 0 (?h # hs)" using w' by simp
  moreover have "render s 0 (?h # hs) = rlp_list out"
    using w' assms(2) by (simp add: slice_def listhead_encode_def rlp_list_def puthead_eq)
  ultimately show ?thesis unfolding adds_def by blast
qed

lemma rlp_string_Nil [simp]: "rlp_string [] = [0x80]"
  by (simp add: rlp_string_def rlp_head_def)

lemma rlp_list_Nil [simp]: "rlp_list [] = [0xC0]"
  by (simp add: rlp_list_def rlp_head_def)

lemma length_rlp_string: "length b \<le> length (rlp_string b)"
  by (simp add: rlp_string_def)

lemma length_rlp_list: "length b \<le> length (rlp_list b)"
  by (simp add: rlp_list_def)

lemma length_bytes_of_enc:
  "length (rlp_string b) < 2 ^ 64 \<Longrightarrow> length b < 2 ^ 64"
  using length_rlp_string [of b] by (rule le_less_trans)

lemma encode_value_adds:
  "encodable v \<Longrightarrow> length (rlp_enc (item_of v)) < 2 ^ 64 \<Longrightarrow>
     \<exists>w'. encode_value v w = Ok w' \<and> adds w w' (rlp_enc (item_of v))"
  and encode_values_adds:
  "(\<forall>v \<in> set vs. encodable v) \<Longrightarrow> length (concat (map (\<lambda>v. rlp_enc (item_of v)) vs)) < 2 ^ 64 \<Longrightarrow>
     \<exists>w'. encode_values vs w = Ok w' \<and> adds w w' (concat (map (\<lambda>v. rlp_enc (item_of v)) vs))"
proof (induction v w and vs w rule: encode_value_encode_values.induct)
  case (1 i w)
  then show ?case by (simp add: writeUint64_eq adds_append)
next
  case (2 b w)
  have "rlp_string [1] = [1]" by (simp add: rlp_string_def)
  then show ?case by (simp add: writeBool_def adds_append)
next
  case (3 i w)
  then have "length (be_bytes (nat i)) < 2 ^ 64" by - (rule length_bytes_of_enc, simp)
  with 3 show ?case by (simp add: writeBigInt_eq adds_append)
next
  case (4 w)
  then show ?case by (simp add: adds_append)
next
  case (5 b w)
  then have "length b < 2 ^ 64" by - (rule length_bytes_of_enc, simp)
  with 5 show ?case by (simp add: writeBytes_eq adds_append)
next
  case (6 b w)
  have len: "length b < 2 ^ 64" using 6(2) by - (rule length_bytes_of_enc, simp)
  consider "b = []" | x where "b = [x]" | "2 \<le> length b" by (cases b; cases "tl b") auto
  then show ?case
  proof cases
    case 1
    then show ?thesis by (simp add: adds_append)
  next
    case 2
    then show ?thesis by (simp add: adds_append byte_le_7F rlp_string_def rlp_head_def)
  next
    case 3
    then have "rlp_string b = rlp_head 0x80 0xB7 (length b) @ b" by (simp add: rlp_string_def)
    then show ?thesis using 3 len by (auto simp: encodeStringHeader_eq adds_append)
  qed
next
  case (7 vs w)
  show ?case
  proof (cases "vs = []")
    case True
    then show ?thesis by (simp add: adds_append)
  next
    case False
    have lo: "length (concat (map (\<lambda>v. rlp_enc (item_of v)) vs)) < 2 ^ 64"
      using 7(3) length_rlp_list [of "concat (map (\<lambda>v. rlp_enc (item_of v)) vs)"] by (simp add: comp_def)
    obtain w' where "encode_values vs (snd (eb_list w)) = Ok w'"
      "adds (snd (eb_list w)) w' (concat (map (\<lambda>v. rlp_enc (item_of v)) vs))"
      using 7(1) [OF False _ _ lo, of "fst (eb_list w)" "snd (eb_list w)"] 7(2) by auto
    then show ?thesis using False adds_list [OF _ lo] by (auto simp: comp_def split_beta)
  qed
next
  case (8 fs w)
  have lo: "length (concat (map (\<lambda>v. rlp_enc (item_of v)) fs)) < 2 ^ 64"
    using 8(3) length_rlp_list [of "concat (map (\<lambda>v. rlp_enc (item_of v)) fs)"] by (simp add: comp_def)
  obtain w' where "encode_values fs (snd (eb_list w)) = Ok w'"
    "adds (snd (eb_list w)) w' (concat (map (\<lambda>v. rlp_enc (item_of v)) fs))"
    using 8(1) [OF _ _ lo, of "fst (eb_list w)" "snd (eb_list w)"] 8(2) by auto
  then show ?case using adds_list [OF _ lo] by (auto simp: comp_def split_beta)
next
  case (9 k w)
  then show ?case by (simp add: adds_append)
next
  case (10 w)
  then show ?case by (simp add: adds_refl)
next
  case (11 v vs w)
  then obtain w1 where w1: "encode_value v w = Ok w1" "adds w w1 (rlp_enc (item_of v))" by auto
  then obtain w2 where "encode_values vs w1 = Ok w2" "adds w1 w2 (concat (map (\<lambda>v. rlp_enc (item_of v)) vs))"
    using 11 by auto
  with w1 show ?case by (auto intro: adds_trans)
qed

lemma map_shift_0 [simp]: "map (shift 0) hs = hs"
  by (simp add: map_idI)

lemma makeBytes_adds: "adds newEncBuffer w out \<Longrightarrow> makeBytes w = Some out"
proof -
  assume "adds newEncBuffer w out"
  then obtain s hs where w: "eb_str w = s" "eb_lheads w = hs" "eb_lhsize w = heads_len hs"
    "heads_ok (length s) 0 hs" "render s 0 hs = out"
    by (auto simp: adds_def newEncBuffer_def)
  then show ?thesis
    using copyTo_loop_render [of s 0 hs "replicate (encBuffer_size w) 0" "[]"]
    by (simp add: makeBytes_def copyTo_def encBuffer_size_def)
qed

lemma encode_value_ok: "encodable v \<Longrightarrow> \<exists>w'. encode_value v w = Ok w'"
  and encode_values_ok: "\<forall>v \<in> set vs. encodable v \<Longrightarrow> \<exists>w'. encode_values vs w = Ok w'"
proof (induction v w and vs w rule: encode_value_encode_values.induct)
  case (11 v vs w)
  then show ?case by fastforce
qed (auto split: prod.splits)

lemma encode_value_negative:
  "\<not> encodable v \<Longrightarrow> encode_value v w = Err ErrNegativeBigInt"
  and encode_values_negative:
  "\<exists>v \<in> set vs. \<not> encodable v \<Longrightarrow> encode_values vs w = Err ErrNegativeBigInt"
proof (induction v w and vs w rule: encode_value_encode_values.induct)
  case (11 v vs w)
  then show ?case using encode_value_ok [of v w] by (cases "encodable v") auto
qed (auto split: prod.splits)

definition reader_rest :: "encReader \<Rightarrow> bytes" where
  "reader_rest r =
     (case er_buf r of None \<Rightarrow> []
      | Some buf \<Rightarrow> (case er_piece r of None \<Rightarrow> [] | Some p \<Rightarrow> p)
          @ render (eb_str buf) (er_strpos r) (drop (er_lhpos r) (eb_lheads buf)))"

definition reader_ok :: "encReader \<Rightarrow> bool" where
  "reader_ok r =
     (case er_buf r of None \<Rightarrow> True
      | Some buf \<Rightarrow> er_piece r \<noteq> Some []
          \<and> heads_ok (length (eb_str buf)) (er_strpos r) (drop (er_lhpos r) (eb_lheads buf)))"

definition reader_steps :: "encReader \<Rightarrow> nat" where
  "reader_steps r =
     (case er_buf r of None \<Rightarrow> 0
      | Some buf \<Rightarrow> (if er_piece r = None then 0 else 1)
          + 2 * (length (eb_lheads buf) - er_lhpos r) + 2 * (length (eb_str buf) - er_strpos r))"

lemma listhead_encode_nonempty [simp]: "listhead_encode h \<noteq> []"
  by (simp add: listhead_encode_def puthead_def Let_def)

lemma encReader_next_cases:
  assumes "reader_ok r"
  obtains "fst (encReader_next r) = None" "reader_rest r = []" "snd (encReader_next r) = r"
  | p r' where "encReader_next r = (Some p, r')" "p \<noteq> []"
      "reader_rest r = p @ reader_rest (r'\<lparr>er_piece := None\<rparr>)"
      "\<And>q. q \<noteq> Some [] \<Longrightarrow> reader_ok (r'\<lparr>er_piece := q\<rparr>)" "er_buf r' = er_buf r" "er_buf r \<noteq> None"
      "reader_steps (r'\<lparr>er_piece := None\<rparr>) < reader_steps r"
proof (cases "er_buf r")
  case None
  then show ?thesis using that(1) by (simp add: encReader_next_def reader_rest_def)
next
  case (Some buf)
  show ?thesis
  proof (cases "er_piece r")
    case (Some p)
    with \<open>er_buf r = Some buf\<close> assms show ?thesis
      by (intro that(2) [of p r]) (auto simp: encReader_next_def reader_rest_def reader_ok_def reader_steps_def)
  next
    case None
    note rb = \<open>er_buf r = Some buf\<close> None
    show ?thesis
    proof (cases "er_lhpos r < length (eb_lheads buf)")
      case True
      define h where "h = eb_lheads buf ! er_lhpos r"
      have d: "drop (er_lhpos r) (eb_lheads buf) = h # drop (Suc (er_lhpos r)) (eb_lheads buf)"
        using True by (simp add: h_def Cons_nth_drop_Suc)
      have ok: "er_strpos r \<le> lh_offset h"
        "heads_ok (length (eb_str buf)) (lh_offset h) (drop (Suc (er_lhpos r)) (eb_lheads buf))"
        using assms rb d by (simp_all add: reader_ok_def)
      have le: "lh_offset h \<le> length (eb_str buf)" using ok(2) by (rule heads_okD)
      show ?thesis
      proof (cases "lh_offset h - er_strpos r > 0")
        case True2: True
        show ?thesis
          using True True2 rb ok le
          by (intro that(2) [of "slice (eb_str buf) (er_strpos r) (lh_offset h)" "r\<lparr>er_strpos := lh_offset h\<rparr>"])
             (auto simp: encReader_next_def reader_rest_def reader_ok_def reader_steps_def d Let_def
                slice_def simp flip: h_def)
      next
        case False
        then show ?thesis
          using True rb ok
          by (intro that(2) [of "listhead_encode h" "r\<lparr>er_lhpos := er_lhpos r + 1\<rparr>"])
             (auto simp: encReader_next_def reader_rest_def reader_ok_def reader_steps_def d Let_def
                slice_def simp flip: h_def)
      qed
    next
      case False
      show ?thesis
      proof (cases "er_strpos r < length (eb_str buf)")
        case True
        then show ?thesis using False rb
          by (intro that(2) [of "drop (er_strpos r) (eb_str buf)" "r\<lparr>er_strpos := length (eb_str buf)\<rparr>"])
             (auto simp: encReader_next_def reader_rest_def reader_ok_def reader_steps_def)
      next
        case F2: False
        then show ?thesis using False rb
          by (intro that(1)) (auto simp: encReader_next_def reader_rest_def)
      qed
    qed
  qed
qed


lemma encReader_Read_spec:
  assumes "reader_ok r" "length acc \<le> n" "reader_steps r < fuel"
  shows "\<exists>r'. encReader_Read fuel n acc r =
      Some (acc @ take (n - length acc) (reader_rest r), length (reader_rest r) \<le> n - length acc, r')
    \<and> reader_ok r' \<and> reader_rest r' = drop (n - length acc) (reader_rest r)"
  using assms
proof (induction fuel arbitrary: acc r)
  case (Suc fuel)
  let ?cap = "n - length acc"
  from Suc.prems(1) show ?case
  proof (cases rule: encReader_next_cases)
    case 1
    then obtain r1 where "encReader_next r = (None, r)" by (metis prod.collapse)
    with 1 show ?thesis by (simp add: reader_ok_def reader_rest_def)
  next
    case (2 p r')
    let ?nn = "min ?cap (length p)"
    show ?thesis
    proof (cases "?nn < length p")
      case True
      let ?r = "r'\<lparr>er_piece := Some (drop ?nn p)\<rparr>"
      have cap: "?cap < length p" using True by auto
      then have run: "encReader_Read (Suc fuel) n acc r = Some (acc @ take ?nn p, False, ?r)"
        using 2(1) by (simp add: Let_def min_def)
      from cap have "acc @ take ?nn p = acc @ take ?cap (reader_rest r)"
        "\<not> length (reader_rest r) \<le> ?cap" using 2(3) by (simp_all add: min_def)
      moreover have "reader_rest ?r = drop ?cap (reader_rest r)"
        using 2(3,5,6) cap by (auto simp: reader_rest_def min_def)
      moreover have "reader_ok ?r" using 2(4) cap by simp
      ultimately show ?thesis using run by simp
    next
      case False
      then have nn: "?nn = length p" "length p \<le> ?cap" by auto
      let ?r = "r'\<lparr>er_piece := None\<rparr>" and ?acc = "acc @ p"
      have len: "length ?acc \<le> n" using nn Suc.prems(2) by simp
      have "reader_ok ?r" "reader_steps ?r < fuel" using 2(4) [of None] 2(7) Suc.prems(3) by auto
      from Suc.IH [OF this(1) len this(2)] obtain r'' where
        IH: "encReader_Read fuel n ?acc ?r =
          Some (?acc @ take (n - length ?acc) (reader_rest ?r), length (reader_rest ?r) \<le> n - length ?acc, r'')"
        "reader_ok r''" "reader_rest r'' = drop (n - length ?acc) (reader_rest ?r)" by blast
      have "encReader_Read (Suc fuel) n acc r = encReader_Read fuel n ?acc ?r"
        using 2(1) nn by (simp add: Let_def)
      with IH nn 2(3) show ?thesis by (auto simp: le_diff_conv2)
    qed
  qed
qed simp

lemma EncodeToReader_ok:
  assumes "encodable v" "length (rlp_enc (item_of v)) < 2 ^ 64"
  shows "\<exists>r. EncodeToReader v = Ok (length (rlp_enc (item_of v)), r) \<and> reader_ok r
    \<and> reader_rest r = rlp_enc (item_of v)"
proof -
  from encode_value_adds [OF assms, of newEncBuffer] obtain w where
    w: "encode_value v newEncBuffer = Ok w" "adds newEncBuffer w (rlp_enc (item_of v))" by blast
  then obtain s hs where "eb_str w = s" "eb_lheads w = hs" "eb_lhsize w = heads_len hs"
    "heads_ok (length s) 0 hs" "render s 0 hs = rlp_enc (item_of v)"
    by (auto simp: adds_def newEncBuffer_def)
  moreover from this have "encBuffer_size w = length (rlp_enc (item_of v))"
    using length_render [of s 0 hs] by (simp add: encBuffer_size_def)
  ultimately show ?thesis
    using w(1) by (simp add: EncodeToReader_def reader_ok_def reader_rest_def)
qed

section \<open>Properties\<close>

text \<open>C29: The encoder implements the RLP specification: for a value of encodable size,
  \<open>EncodeToBytes\<close> returns exactly the specified encoding of the value's item tree, without an
  index panic in \<open>copyTo\<close>, and the only error is a negative \<open>big.Int\<close> anywhere in the value.
  The proof covers the deferred list headers and the unrolled and word-wise integer writers.\<close>

theorem EncodeToBytes_spec:
  assumes "length (rlp_enc (item_of v)) < 2 ^ 64"
  shows "EncodeToBytes v =
    (if encodable v then Ok (Some (rlp_enc (item_of v))) else Err ErrNegativeBigInt)"
proof (cases "encodable v")
  case True
  from encode_value_adds [OF this assms, of newEncBuffer] obtain w' where
    "encode_value v newEncBuffer = Ok w'" "adds newEncBuffer w' (rlp_enc (item_of v))" by blast
  then show ?thesis using True by (simp add: EncodeToBytes_def makeBytes_adds)
qed (simp add: EncodeToBytes_def encode_value_negative)

theorem EncodeToBytes_spec_witness:
  "length (rlp_enc (item_of (VStruct [VUint 1024, VSlice [VBytes [7], VBool True], VBigInt 0]))) < 2 ^ 64
   \<and> EncodeToBytes (VStruct [VUint 1024, VSlice [VBytes [7], VBool True], VBigInt 0])
     = Ok (Some [0xC7, 0x82, 4, 0, 0xC2, 7, 1, 0x80])"
proof -
  have v: "rlp_enc (item_of (VStruct [VUint 1024, VSlice [VBytes [7], VBool True], VBigInt 0]))
      = [0xC7, 0x82, 4, 0, 0xC2, 7, 1, 0x80]"
    by (simp add: rlp_list_def rlp_string_def rlp_head_def be_bytes.simps)
  show ?thesis using EncodeToBytes_spec [of "VStruct [VUint 1024, VSlice [VBytes [7], VBool True], VBigInt 0]"]
    unfolding v by simp
qed

text \<open>The reader returned by \<open>EncodeToReader\<close> delivers the encoding: the announced size is the
  length of the encoding, and a \<open>Read\<close> into \<open>n\<close> bytes returns the first \<open>n\<close> bytes, reports
  \<open>io.EOF\<close> exactly when nothing is left, and leaves a reader positioned at the rest.\<close>

theorem EncodeToReader_Read:
  assumes "encodable v" "length (rlp_enc (item_of v)) < 2 ^ 64"
  shows "\<exists>r r'. EncodeToReader v = Ok (length (rlp_enc (item_of v)), r)
    \<and> encReader_Read (Suc (reader_steps r)) n [] r =
        Some (take n (rlp_enc (item_of v)), length (rlp_enc (item_of v)) \<le> n, r')
    \<and> reader_ok r' \<and> reader_rest r' = drop n (rlp_enc (item_of v))"
proof -
  obtain r where r: "EncodeToReader v = Ok (length (rlp_enc (item_of v)), r)" "reader_ok r"
    "reader_rest r = rlp_enc (item_of v)" using EncodeToReader_ok [OF assms] by blast
  from encReader_Read_spec [OF r(2), of "[]" n "Suc (reader_steps r)"] r show ?thesis by auto
qed

theorem EncodeToReader_Read_witness:
  "encodable (VSlice [VUint 5]) \<and> length (rlp_enc (item_of (VSlice [VUint 5]))) < 2 ^ 64
   \<and> (\<exists>r r'. EncodeToReader (VSlice [VUint 5]) = Ok (2, r)
     \<and> encReader_Read (Suc (reader_steps r)) 1 [] r = Some ([0xC1], False, r'))"
proof -
  have e: "rlp_enc (item_of (VSlice [VUint 5])) = [0xC1, 5]"
    by (simp add: rlp_list_def rlp_string_def rlp_head_def be_bytes.simps)
  show ?thesis using EncodeToReader_Read [of "VSlice [VUint 5]" 1] unfolding e by auto
qed

end
