(* ===== verification/Rlp_Stream.thy ===== *)
theory Rlp_Stream
  imports Rlp_Encode
begin

text \<open>
  The streaming decoder of \<^verbatim>\<open>rlp/decode.go\<close>: \<open>Stream\<close> over a byte reader, the limits
  it keeps for the innermost list and for the whole input, and its reading operations.
  Sizes are 64-bit words, so that the subtractions of the list limits wrap as they do in Go.
\<close>

section \<open>Definitions\<close>

text \<open>The reader is a \<open>bytes.Reader\<close>, given by its unread bytes.  \<open>st_stack\<close> holds the list
  sizes, innermost first; \<open>st_kind = None\<close> is the code's \<open>kind = -1\<close>.\<close>

record stream =
  st_r :: bytes
  st_remaining :: u64
  st_size :: u64
  st_kinderr :: "rlp_err option"
  st_stack :: "u64 list"
  st_kind :: "kind option"
  st_byteval :: byte
  st_limited :: bool

definition Reset :: "bytes \<Rightarrow> u64 \<Rightarrow> stream" where
  "Reset r inputLimit =
     \<lparr>st_r = r,
      st_remaining = (if inputLimit > 0 then inputLimit else of_nat (length r)),
      st_size = 0, st_kinderr = None, st_stack = [], st_kind = None, st_byteval = 0,
      st_limited = True\<rparr>"

definition NewListStream :: "bytes \<Rightarrow> u64 \<Rightarrow> stream" where
  "NewListStream r len = (Reset r len)\<lparr>st_kind := Some KList, st_size := len\<rparr>"

definition listLimit :: "stream \<Rightarrow> bool \<times> u64" where
  "listLimit s = (case st_stack s of [] \<Rightarrow> (False, 0) | limit # _ \<Rightarrow> (True, limit))"

definition willRead :: "u64 \<Rightarrow> stream \<Rightarrow> stream \<times> rlp_err option" where
  "willRead n s =
     (let s = s\<lparr>st_kind := None\<rparr>;
          input = (\<lambda>s. if st_limited s then
                         (if n > st_remaining s then (s, Some ErrValueTooLarge)
                          else (s\<lparr>st_remaining := st_remaining s - n\<rparr>, None))
                       else (s, None))
      in case listLimit s of
           (True, limit) \<Rightarrow>
             if n > limit then (s, Some ErrElemTooLarge)
             else input (s\<lparr>st_stack := (limit - n) # tl (st_stack s)\<rparr>)
         | (False, _) \<Rightarrow> input s)"

definition readByte :: "stream \<Rightarrow> stream \<times> (rlp_err + byte)" where
  "readByte s =
     (case willRead 1 s of (s, Some e) \<Rightarrow> (s, Err e)
      | (s, None) \<Rightarrow>
          (case st_r s of [] \<Rightarrow> (s, Err ErrUnexpectedEOF)
           | b # r \<Rightarrow> (s\<lparr>st_r := r\<rparr>, Ok b)))"

definition readFull :: "u64 \<Rightarrow> stream \<Rightarrow> stream \<times> (rlp_err + bytes)" where
  "readFull n s =
     (case willRead n s of (s, Some e) \<Rightarrow> (s, Err e)
      | (s, None) \<Rightarrow>
          if unat n \<le> length (st_r s)
          then (s\<lparr>st_r := drop (unat n) (st_r s)\<rparr>, Ok (take (unat n) (st_r s)))
          else (s\<lparr>st_r := []\<rparr>, Err ErrUnexpectedEOF))"

definition readUint :: "byte \<Rightarrow> stream \<Rightarrow> stream \<times> (rlp_err + u64)" where
  "readUint sz s =
     (if sz = 0 then (s\<lparr>st_kind := None\<rparr>, Ok 0)
      else if sz = 1 then
        (case readByte s of (s, Err e) \<Rightarrow> (s, Err e) | (s, Ok b) \<Rightarrow> (s, Ok (ucast b)))
      else
        (case readFull (ucast sz) s of (s, Err e) \<Rightarrow> (s, Err e)
         | (s, Ok buffer) \<Rightarrow>
             if buffer ! 0 = 0 then (s, Err ErrCanonSize) else (s, Ok (of_nat (be_val buffer)))))"

definition long_size :: "kind \<Rightarrow> byte \<Rightarrow> stream \<Rightarrow> stream \<times> kind \<times> u64 \<times> rlp_err option" where
  "long_size k n s =
     (case readUint n s of (s, Err e) \<Rightarrow> (s, k, 0, Some e)
      | (s, Ok sz) \<Rightarrow> (s, k, sz, if sz < 56 then Some ErrCanonSize else None))"

definition stream_readKind :: "stream \<Rightarrow> stream \<times> kind \<times> u64 \<times> rlp_err option" where
  "stream_readKind s =
     (case readByte s of
        (s, Err err) \<Rightarrow>
          (s, KByte, 0, Some (if st_stack s = [] \<and> (err = ErrUnexpectedEOF \<or> err = ErrValueTooLarge)
                              then EOF else err))
      | (s, Ok b) \<Rightarrow>
          let s = s\<lparr>st_byteval := 0\<rparr> in
          if b < 0x80 then (s\<lparr>st_byteval := b\<rparr>, KByte, 0, None)
          else if b < 0xB8 then (s, KString, ucast (b - 0x80), None)
          else if b < 0xC0 then long_size KString (b - 0xB7) s
          else if b < 0xF8 then (s, KList, ucast (b - 0xC0), None)
          else long_size KList (b - 0xF7) s)"

definition Kind :: "stream \<Rightarrow> stream \<times> kind \<times> u64 \<times> rlp_err option" where
  "Kind s =
     (case st_kind s of Some k \<Rightarrow> (s, k, st_size s, st_kinderr s)
      | None \<Rightarrow>
          (case listLimit s of (inList, limit) \<Rightarrow>
             if inList \<and> limit = 0 then (s, KByte, 0, Some EOL)
             else
               (case stream_readKind s of (s, k, sz, err) \<Rightarrow>
                  let err = (if err = None then
                               (if inList \<and> sz > limit then Some ErrElemTooLarge
                                else if st_limited s \<and> sz > st_remaining s then Some ErrValueTooLarge
                                else None)
                             else err)
                  in (s\<lparr>st_kind := Some k, st_size := sz, st_kinderr := err\<rparr>, k, sz, err))))"

definition Bytes :: "stream \<Rightarrow> stream \<times> (rlp_err + bytes)" where
  "Bytes s =
     (case Kind s of (s, k, sz, Some err) \<Rightarrow> (s, Err err)
      | (s, KByte, sz, None) \<Rightarrow> (s\<lparr>st_kind := None\<rparr>, Ok [st_byteval s])
      | (s, KString, sz, None) \<Rightarrow>
          (case readFull sz s of (s, Err err) \<Rightarrow> (s, Err err)
           | (s, Ok b) \<Rightarrow>
               if sz = 1 \<and> b ! 0 < 128 then (s, Err ErrCanonSize) else (s, Ok b))
      | (s, KList, sz, None) \<Rightarrow> (s, Err ErrExpectedString))"

text \<open>\<open>ReadBytes\<close> into a slice of length \<open>n\<close>.\<close>

definition ReadBytes :: "nat \<Rightarrow> stream \<Rightarrow> stream \<times> (rlp_err + bytes)" where
  "ReadBytes n s =
     (case Kind s of (s, k, sz, Some err) \<Rightarrow> (s, Err err)
      | (s, KByte, sz, None) \<Rightarrow>
          if n \<noteq> 1 then (s, Err (ErrWrongSize 1 n)) else (s\<lparr>st_kind := None\<rparr>, Ok [st_byteval s])
      | (s, KString, sz, None) \<Rightarrow>
          if of_nat n \<noteq> sz then (s, Err (ErrWrongSize (unat sz) n))
          else
            (case readFull sz s of (s, Err err) \<Rightarrow> (s, Err err)
             | (s, Ok b) \<Rightarrow>
                 if sz = 1 \<and> b ! 0 < 128 then (s, Err ErrCanonSize) else (s, Ok b))
      | (s, KList, sz, None) \<Rightarrow> (s, Err ErrExpectedString))"

definition Raw :: "stream \<Rightarrow> stream \<times> (rlp_err + bytes)" where
  "Raw s =
     (case Kind s of (s, k, sz, Some err) \<Rightarrow> (s, Err err)
      | (s, k, sz, None) \<Rightarrow>
          if k = KByte then (s\<lparr>st_kind := None\<rparr>, Ok [st_byteval s])
          else
            (case readFull sz s of (s, Err err) \<Rightarrow> (s, Err err)
             | (s, Ok content) \<Rightarrow>
                 (s, Ok ((if k = KString then puthead 0x80 0xB7 sz else puthead 0xC0 0xF7 sz) @ content))))"

definition stream_uint :: "nat \<Rightarrow> stream \<Rightarrow> stream \<times> (rlp_err + u64)" where
  "stream_uint maxbits s =
     (case Kind s of (s, k, sz, Some err) \<Rightarrow> (s, Err err)
      | (s, KByte, sz, None) \<Rightarrow>
          if st_byteval s = 0 then (s, Err ErrCanonInt)
          else (s\<lparr>st_kind := None\<rparr>, Ok (ucast (st_byteval s)))
      | (s, KString, sz, None) \<Rightarrow>
          if sz > of_nat (maxbits div 8) then (s, Err ErrUintOverflow)
          else
            (case readUint (ucast sz) s of
               (s, Err err) \<Rightarrow> (s, Err (if err = ErrCanonSize then ErrCanonInt else err))
             | (s, Ok v) \<Rightarrow>
                 if sz > 0 \<and> v < 128 then (s, Err ErrCanonSize) else (s, Ok v))
      | (s, KList, sz, None) \<Rightarrow> (s, Err ErrExpectedString))"

definition stream_Bool :: "stream \<Rightarrow> stream \<times> (rlp_err + bool)" where
  "stream_Bool s =
     (case stream_uint 8 s of (s, Err err) \<Rightarrow> (s, Err err)
      | (s, Ok num) \<Rightarrow>
          if num = 0 then (s, Ok False) else if num = 1 then (s, Ok True)
          else (s, Err (ErrInvalidBool num)))"

definition stream_List :: "stream \<Rightarrow> stream \<times> (rlp_err + u64)" where
  "stream_List s =
     (case Kind s of (s, k, sz, Some err) \<Rightarrow> (s, Err err)
      | (s, k, sz, None) \<Rightarrow>
          if k \<noteq> KList then (s, Err ErrExpectedList)
          else
            let s = (case listLimit s of
                       (True, limit) \<Rightarrow> s\<lparr>st_stack := (limit - sz) # tl (st_stack s)\<rparr>
                     | (False, _) \<Rightarrow> s)
            in (s\<lparr>st_stack := sz # st_stack s, st_kind := None, st_size := 0\<rparr>, Ok sz))"

definition stream_ListEnd :: "stream \<Rightarrow> stream \<times> rlp_err option" where
  "stream_ListEnd s =
     (case listLimit s of (inList, limit) \<Rightarrow>
        if \<not> inList then (s, Some ErrNotInList)
        else if limit > 0 then (s, Some ErrNotAtEOL)
        else (s\<lparr>st_stack := tl (st_stack s), st_kind := None, st_size := 0\<rparr>, None))"

definition MoreDataInList :: "stream \<Rightarrow> bool" where
  "MoreDataInList s = (snd (listLimit s) > 0)"

text \<open>\<open>decodeBigInt\<close>: the integer is the big-endian value of the content.\<close>

definition decodeBigInt :: "stream \<Rightarrow> stream \<times> (rlp_err + nat)" where
  "decodeBigInt s =
     (let finish = (\<lambda>s buffer. if buffer \<noteq> [] \<and> buffer ! 0 = 0 then (s, Err ErrCanonInt)
                               else (s, Ok (be_val buffer)))
      in case Kind s of (s, k, sz, Some err) \<Rightarrow> (s, Err err)
         | (s, KList, sz, None) \<Rightarrow> (s, Err ErrExpectedString)
         | (s, KByte, sz, None) \<Rightarrow> finish (s\<lparr>st_kind := None\<rparr>) [st_byteval s]
         | (s, KString, sz, None) \<Rightarrow>
             if sz = 0 then finish (s\<lparr>st_kind := None\<rparr>) []
             else if sz \<le> 32 then
               (case readFull sz s of (s, Err err) \<Rightarrow> (s, Err err)
                | (s, Ok buffer) \<Rightarrow>
                    if sz = 1 \<and> buffer ! 0 < 128 then (s, Err ErrCanonSize) else finish s buffer)
             else
               (case readFull sz s of (s, Err err) \<Rightarrow> (s, Err err)
                | (s, Ok buffer) \<Rightarrow> finish s buffer))"

definition ReadUint256 :: "stream \<Rightarrow> stream \<times> (rlp_err + bytes)" where
  "ReadUint256 s =
     (let finish = (\<lambda>s buffer. if buffer \<noteq> [] \<and> buffer ! 0 = 0 then (s, Err ErrCanonInt)
                               else (s, Ok buffer))
      in case Kind s of (s, k, sz, Some err) \<Rightarrow> (s, Err err)
         | (s, KList, sz, None) \<Rightarrow> (s, Err ErrExpectedString)
         | (s, KByte, sz, None) \<Rightarrow> finish (s\<lparr>st_kind := None\<rparr>) [st_byteval s]
         | (s, KString, sz, None) \<Rightarrow>
             if sz = 0 then finish (s\<lparr>st_kind := None\<rparr>) []
             else if sz \<le> 32 then
               (case readFull sz s of (s, Err err) \<Rightarrow> (s, Err err)
                | (s, Ok buffer) \<Rightarrow>
                    if sz = 1 \<and> buffer ! 0 < 128 then (s, Err ErrCanonSize) else finish s buffer)
             else (s, Err ErrUint256Large))"

definition decodeByteArray :: "nat \<Rightarrow> stream \<Rightarrow> stream \<times> (rlp_err + bytes)" where
  "decodeByteArray n s =
     (case Kind s of (s, k, sz, Some err) \<Rightarrow> (s, Err err)
      | (s, KByte, sz, None) \<Rightarrow>
          if n = 0 then (s, Err ErrStringTooLong)
          else if n > 1 then (s, Err ErrStringTooShort)
          else (s\<lparr>st_kind := None\<rparr>, Ok [st_byteval s])
      | (s, KString, sz, None) \<Rightarrow>
          if of_nat n < sz then (s, Err ErrStringTooLong)
          else if of_nat n > sz then (s, Err ErrStringTooShort)
          else
            (case readFull sz s of (s, Err err) \<Rightarrow> (s, Err err)
             | (s, Ok b) \<Rightarrow>
                 if sz = 1 \<and> b ! 0 < 128 then (s, Err ErrCanonSize) else (s, Ok b))
      | (s, KList, sz, None) \<Rightarrow> (s, Err ErrExpectedString))"

subsection \<open>Sequencing of decoders\<close>

type_synonym 'a decoded = "(stream \<times> (rlp_err + 'a)) option"

text \<open>The early return on an error: \<open>None\<close> is exhausted fuel.\<close>

definition andThen :: "'a decoded \<Rightarrow> (stream \<Rightarrow> 'a \<Rightarrow> 'b decoded) \<Rightarrow> 'b decoded" where
  "andThen m f =
     (case m of None \<Rightarrow> None | Some (s, Err e) \<Rightarrow> Some (s, Err e) | Some (s, Ok x) \<Rightarrow> f s x)"

definition list_end :: "stream \<Rightarrow> 'a \<Rightarrow> 'a decoded" where
  "list_end s v =
     (case stream_ListEnd s of (s, Some err) \<Rightarrow> Some (s, Err err) | (s, None) \<Rightarrow> Some (s, Ok v))"

definition mapVal :: "('a \<Rightarrow> 'b) \<Rightarrow> 'a decoded \<Rightarrow> 'b decoded" where
  "mapVal f m = andThen m (\<lambda>s x. Some (s, Ok (f x)))"

section \<open>Lemmas\<close>

subsection \<open>The reading operations\<close>

text \<open>\<open>adv n s\<close> is the stream after a read of \<open>n\<close> bytes, which the limits allow if \<open>fits s n\<close>.\<close>

fun dec_top :: "u64 \<Rightarrow> u64 list \<Rightarrow> u64 list" where
  "dec_top n [] = []"
| "dec_top n (l # ls) = (l - n) # ls"

definition adv :: "nat \<Rightarrow> stream \<Rightarrow> stream" where
  "adv n s = s\<lparr>st_kind := None, st_r := drop n (st_r s),
     st_stack := dec_top (of_nat n) (st_stack s),
     st_remaining := (if st_limited s then st_remaining s - of_nat n else st_remaining s)\<rparr>"

definition allows :: "stream \<Rightarrow> nat \<Rightarrow> bool" where
  "allows s n \<longleftrightarrow> (st_stack s = [] \<or> n \<le> unat (hd (st_stack s)))
     \<and> (st_limited s \<longrightarrow> n \<le> unat (st_remaining s))"

definition fits :: "stream \<Rightarrow> nat \<Rightarrow> bool" where
  "fits s n \<longleftrightarrow> allows s n \<and> n \<le> length (st_r s)"

fun header :: "kind \<Rightarrow> nat \<Rightarrow> byte \<Rightarrow> bytes \<Rightarrow> bool" where
  "header KByte n bv h = (n = 0 \<and> bv < 0x80 \<and> h = [bv])"
| "header KString n bv h = (bv = 0 \<and> n < 2 ^ 64 \<and> h = rlp_head 0x80 0xB7 n)"
| "header KList n bv h = (bv = 0 \<and> n < 2 ^ 64 \<and> h = rlp_head 0xC0 0xF7 n)"

lemma dec_top_dec_top: "dec_top m (dec_top n ls) = dec_top (n + m) ls"
  by (cases ls) (simp_all add: algebra_simps)

lemma dec_top_Nil_iff [simp]: "dec_top n ls = [] \<longleftrightarrow> ls = []"
  by (cases ls) simp_all

lemma dec_top_0 [simp]: "dec_top 0 ls = ls"
  by (cases ls) simp_all

lemma adv_adv: "adv m (adv n s) = adv (n + m) s"
  by (simp add: adv_def dec_top_dec_top algebra_simps)

lemma unat_sub_of_nat: "n \<le> unat w \<Longrightarrow> unat ((w :: u64) - of_nat n) = unat w - n"
  using unat_sub [of "of_nat n" w] unsigned_less [of w, where ?'a = nat]
  by (simp add: word_le_nat_alt unat_of_nat_u64)

lemma fits_adv: "fits s n \<Longrightarrow> fits (adv n s) m \<longleftrightarrow> fits s (n + m)"
  by (cases "st_stack s") (auto simp: fits_def allows_def adv_def unat_sub_of_nat)

lemma fits_le: "fits s n \<Longrightarrow> m \<le> n \<Longrightarrow> fits s m"
  by (auto simp: fits_def allows_def)

lemma willRead_ok:
  "allows s (unat w) \<Longrightarrow> willRead w s = ((adv (unat w) s)\<lparr>st_r := st_r s\<rparr>, None)"
  by (cases "st_stack s")
     (auto simp: willRead_def listLimit_def adv_def allows_def Let_def word_less_nat_alt)

lemma willRead_err: "\<not> allows s (unat w) \<Longrightarrow> \<exists>s' e. willRead w s = (s', Some e)"
  by (cases "st_stack s")
     (auto simp: willRead_def listLimit_def allows_def Let_def word_less_nat_alt not_le)

lemma readFull_ok:
  "readFull w s = (s', Ok bs) \<longleftrightarrow>
     fits s (unat w) \<and> bs = take (unat w) (st_r s) \<and> s' = adv (unat w) s"
proof (cases "allows s (unat w)")
  case True
  then show ?thesis by (auto simp: readFull_def willRead_ok fits_def adv_def)
next
  case False
  then show ?thesis using willRead_err [OF False] by (auto simp: readFull_def fits_def)
qed

lemma readByte_ok: "readByte s = (s', Ok b) \<longleftrightarrow> fits s 1 \<and> b = hd (st_r s) \<and> s' = adv 1 s"
proof (cases "allows s 1")
  case True
  then have "willRead 1 s = ((adv 1 s)\<lparr>st_r := st_r s\<rparr>, None)" using willRead_ok [of s 1] by simp
  then show ?thesis using True
    by (cases "st_r s") (auto simp: readByte_def fits_def adv_def)
next
  case False
  then show ?thesis using willRead_err [of s 1] by (auto simp: readByte_def fits_def)
qed

lemma readUint_ok:
  assumes "unat sz \<le> 8"
  shows "readUint sz s = (s', Ok v) \<longleftrightarrow>
    fits s (unat sz) \<and> (unat sz > 1 \<longrightarrow> st_r s ! 0 \<noteq> 0)
    \<and> v = of_nat (be_val (take (unat sz) (st_r s))) \<and> s' = adv (unat sz) s"
proof -
  consider "sz = 0" | "sz = 1" | "sz \<noteq> 0" "sz \<noteq> 1" by blast
  then show ?thesis
  proof cases
    case 1
    then show ?thesis by (auto simp: readUint_def fits_def allows_def adv_def)
  next
    case 2
    have t: "take (Suc 0) xs = [hd xs]" if "Suc 0 \<le> length xs" for xs :: bytes
      using that by (cases xs) simp_all
    have "readUint sz s = (s', Ok v) \<longleftrightarrow> (\<exists>b. readByte s = (s', Ok b) \<and> v = ucast b)"
      using 2 by (auto simp: readUint_def split: prod.splits sum.splits)
    then show ?thesis using 2 by (auto simp: readByte_ok t fits_def)
  next
    case 3
    then have n: "unat sz > 1" by (metis One_nat_def less_one linorder_neqE_nat unat_1 unat_eq_zero word_unat_eq_iff)
    have "readUint sz s = (s', Ok v) \<longleftrightarrow>
      (\<exists>b. readFull (ucast sz) s = (s', Ok b) \<and> b ! 0 \<noteq> 0 \<and> v = of_nat (be_val b))"
      using 3 by (auto simp: readUint_def split: prod.splits sum.splits)
    then show ?thesis using n by (auto simp: readFull_ok unat_ucast_byte)
  qed
qed

lemma fits_readKind_irrel [simp]: "fits (s\<lparr>st_byteval := b\<rparr>) n = fits s n"
  by (simp add: fits_def allows_def)

lemma adv_byteval [simp]: "adv n (s\<lparr>st_byteval := b\<rparr>) = (adv n s)\<lparr>st_byteval := b\<rparr>"
  by (simp add: adv_def)

lemma adv_sel [simp]:
  "st_r (adv n s) = drop n (st_r s)" "st_kind (adv n s) = None"
  "st_limited (adv n s) = st_limited s" "st_stack (adv n s) = dec_top (of_nat n) (st_stack s)"
  "st_byteval (adv n s) = st_byteval s" "st_kinderr (adv n s) = st_kinderr s"
  "st_size (adv n s) = st_size s"
  "st_remaining (adv n s) = (if st_limited s then st_remaining s - of_nat n else st_remaining s)"
  by (simp_all add: adv_def)

lemma long_size_ok:
  assumes "1 \<le> unat n" "unat n \<le> 8"
  shows "long_size k n s = (s', k', sz, None) \<longleftrightarrow>
    k' = k \<and> fits s (unat n) \<and> take (unat n) (st_r s) = be_bytes (unat sz) \<and> 56 \<le> unat sz
    \<and> s' = adv (unat n) s" (is "?L = ?R")
proof -
  let ?bs = "take (unat n) (st_r s)"
  have L: "?L \<longleftrightarrow> k' = k \<and> readUint n s = (s', Ok sz) \<and> 56 \<le> unat sz"
    by (auto simp: long_size_def word_less_nat_alt split: prod.splits sum.splits if_splits)
  show ?thesis
  proof (cases "fits s (unat n)")
    case True
    then have len: "length ?bs = unat n" by (simp add: fits_def)
    then have ne: "?bs \<noteq> []" using assms by auto
    have h: "hd ?bs = st_r s ! 0" using assms len ne by (metis hd_conv_nth less_le_trans nth_take zero_less_one)
    have less: "be_val ?bs < 2 ^ 64"
      using be_val_less [of ?bs] len assms(2) power_increasing [of "unat n" 8 "256 :: nat"] by simp
    then have sz: "sz = of_nat (be_val ?bs) \<longleftrightarrow> unat sz = be_val ?bs"
      unfolding word_unat_eq_iff [of sz] unat_of_nat_u64 [OF less] by blast
    have "(unat n > 1 \<longrightarrow> st_r s ! 0 \<noteq> 0) \<and> unat sz = be_val ?bs \<and> 56 \<le> unat sz
       \<longleftrightarrow> ?bs = be_bytes (unat sz) \<and> 56 \<le> unat sz" (is "?A \<longleftrightarrow> ?B")
    proof
      assume a: ?A
      have "hd ?bs \<noteq> 0"
      proof (cases "unat n > 1")
        case True
        with a h show ?thesis by simp
      next
        case False
        with assms len have "length ?bs = 1" by simp
        then obtain b where "?bs = [b]" by (metis One_nat_def length_0_conv length_Suc_conv)
        with a show ?thesis by auto
      qed
      with a show ?B by (metis be_bytes_be_val)
    next
      assume b: ?B
      then have "hd ?bs \<noteq> 0" by (metis hd_be_bytes less_le_trans zero_less_numeral)
      with b h show ?A by simp
    qed
    with True show ?thesis unfolding L readUint_ok [OF assms(2)] sz by blast
  qed (auto simp: L readUint_ok [OF assms(2)])
qed

lemma prefix_Cons_take:
  "1 \<le> length r \<Longrightarrow> take (Suc n) r = c # cs \<longleftrightarrow> hd r = c \<and> take n (drop 1 r) = cs"
  by (cases r) auto

lemma readKind_short:
  assumes "unat t \<le> unat b" "unat b < unat t + 56"
  shows "b = t + of_nat (unat (ucast (b - t :: byte) :: u64))" "unat (ucast (b - t) :: u64) < 56"
proof -
  have u: "unat (ucast (b - t) :: u64) = unat b - unat t"
    using assms by (simp add: unat_ucast_byte unat_byte_diff)
  show "b = t + of_nat (unat (ucast (b - t :: byte) :: u64))"
    unfolding u using byte_tag_eq [OF assms(1)] by simp
  show "unat (ucast (b - t) :: u64) < 56" unfolding u using assms by simp
qed

lemma stream_readKind_sound:
  assumes "stream_readKind s = (s', k, sz, None)"
  shows "\<exists>h bv. take (length h) (st_r s) = h \<and> header k (unat sz) bv h \<and> fits s (length h)
    \<and> s' = (adv (length h) s)\<lparr>st_byteval := bv\<rparr>"
proof -
  obtain s1 b where "readByte s = (s1, Ok b)"
    using assms by (auto simp: stream_readKind_def split: prod.splits sum.splits)
  then have f1: "fits s 1" and b: "b = hd (st_r s)" and s1: "s1 = adv 1 s"
    by (simp_all add: readByte_ok)
  have r: "take 1 (st_r s) = [b]" using f1 b by (cases "st_r s") (simp_all add: fits_def)
  define s2 where "s2 = s1\<lparr>st_byteval := 0\<rparr>"
  have K: "(if b < 0x80 then (s2\<lparr>st_byteval := b\<rparr>, KByte, 0, None)
          else if b < 0xB8 then (s2, KString, ucast (b - 0x80), None)
          else if b < 0xC0 then long_size KString (b - 0xB7) s2
          else if b < 0xF8 then (s2, KList, ucast (b - 0xC0), None)
          else long_size KList (b - 0xF7) s2) = (s', k, sz, None)"
    using assms \<open>readByte s = (s1, Ok b)\<close> by (simp only: stream_readKind_def s2_def Let_def prod.case sum.case)
  have long: "\<exists>h bv. take (length h) (st_r s) = h \<and> header k (unat sz) bv h \<and> fits s (length h)
    \<and> s' = (adv (length h) s)\<lparr>st_byteval := bv\<rparr>"
    if k: "k' = KString \<and> t = 0xB7 \<or> k' = KList \<and> t = 0xF7" and n: "1 \<le> unat (b - t)" "unat (b - t) \<le> 8"
      and tb: "unat t \<le> unat b"
      and l: "long_size k' (b - t) s2 = (s', k, sz, None)" for k' t
  proof -
    let ?n = "unat (b - t)"
    from l n have L: "k = k'" "fits (adv 1 s) ?n" "take ?n (drop 1 (st_r s)) = be_bytes (unat sz)"
        "56 \<le> unat sz" "s' = (adv ?n (adv 1 s))\<lparr>st_byteval := 0\<rparr>"
      by (simp_all add: long_size_ok s2_def s1)
    from L(2) have fit: "fits s (1 + ?n)" using fits_adv [OF f1] by blast
    then have len: "length (be_bytes (unat sz)) = ?n"
      unfolding L(3) [symmetric] by (auto simp: fits_def)
    have tag: "t + of_nat ?n = b" using tb byte_tag_eq [of t b] by (simp add: unat_byte_diff)
    have hd: "header k (unat sz) 0 (b # be_bytes (unat sz))"
      using k L(1,4) tag unsigned_less [of sz, where ?'a = nat] by (auto simp: rlp_head_def len)
    show ?thesis
      by (rule exI [of _ "b # be_bytes (unat sz)"], rule exI [of _ 0])
         (use hd fit L r len in \<open>cases "st_r s"; simp add: adv_adv\<close>)
  qed
  have short: "\<exists>h bv. take (length h) (st_r s) = h \<and> header k (unat sz) bv h \<and> fits s (length h)
    \<and> s' = (adv (length h) s)\<lparr>st_byteval := bv\<rparr>"
    if "header k (unat sz) bv [b]" "s' = s1\<lparr>st_byteval := bv\<rparr>" for bv
    by (rule exI [of _ "[b]"], rule exI [of _ bv]) (use that r f1 s1 in simp)
  consider "b < 0x80" | "\<not> b < 0x80" "b < 0xB8" | "\<not> b < 0xB8" "b < 0xC0"
    | "\<not> b < 0xC0" "b < 0xF8" | "\<not> b < 0xF8" by blast
  then show ?thesis
  proof cases
    case 1
    with K show ?thesis by (intro short [of b]) (auto simp: s2_def)
  next
    case 2
    then have "unat (0x80 :: byte) \<le> unat b" "unat b < unat (0x80 :: byte) + 56"
      by (simp_all add: byte_less_unat)
    then show ?thesis using 2 K readKind_short [of "0x80" b]
      by (intro short [of 0]) (auto simp: s2_def rlp_head_def)
  next
    case 3
    then show ?thesis using K
      by (intro long [of KString "0xB7"]) (auto simp: byte_less_unat unat_byte_diff)
  next
    case 4
    then have "unat (0xC0 :: byte) \<le> unat b" "unat b < unat (0xC0 :: byte) + 56"
      by (simp_all add: byte_less_unat)
    then show ?thesis using 4 K readKind_short [of "0xC0" b]
      by (intro short [of 0]) (auto simp: s2_def rlp_head_def byte_less_unat)
  next
    case 5
    then show ?thesis using K unat_byte_less [of b]
      by (intro long [of KList "0xF7"]) (auto simp: byte_less_unat unat_byte_diff)
  qed
qed

lemma readByte_hd:
  "take (length h) (st_r s) = h \<Longrightarrow> h = b # t \<Longrightarrow> fits s (length h) \<Longrightarrow> readByte s = (adv 1 s, Ok b)"
  using fits_le [of s "length h" 1] by (cases "st_r s") (auto simp: readByte_ok)

lemma stream_readKind_long:
  assumes h: "take (length h) (st_r s) = h" "h = rlp_head t0 t n" "fits s (length h)"
    and n: "\<not> n < 56" "n < 2 ^ 64" and k: "(k, t) = (KString, 0xB7) \<or> (k, t) = (KList, 0xF7)"
  shows "stream_readKind s = ((adv (length h) s)\<lparr>st_byteval := 0\<rparr>, k, of_nat n, None)"
proof -
  let ?l = "length (be_bytes n)"
  have l: "1 \<le> ?l" "?l \<le> 8" using n length_be_bytes_8 [of n] by (auto simp: Suc_le_eq)
  have hh: "h = (t + of_nat ?l) # be_bytes n" using h(2) n(1) by (simp add: rlp_head_def)
  have f1: "fits s 1" using fits_le [OF h(3)] hh by simp
  have ul: "unat (of_nat ?l :: byte) = ?l" using l by (simp add: unat_byte_of_nat)
  have fit: "fits (adv 1 s) ?l" using h(3) fits_adv [OF f1, of ?l] by (simp add: hh)
  have tk: "take ?l (drop 1 (st_r s)) = be_bytes n" using h(1) by (cases "st_r s") (auto simp: hh)
  have "long_size k (of_nat ?l) ((adv 1 s)\<lparr>st_byteval := 0\<rparr>)
      = ((adv (length h) s)\<lparr>st_byteval := 0\<rparr>, k, of_nat n, None)"
    using fit tk n l unat_of_nat_u64 [OF n(2)]
    by (subst long_size_ok) (simp_all add: ul adv_adv hh)
  moreover have "unat (t + of_nat ?l :: byte) = unat t + ?l"
    using k unat_tag [OF l(2)] by auto
  ultimately show ?thesis
    using readByte_hd [OF h(1) hh h(3)] k l
    by (auto simp: stream_readKind_def Let_def byte_less_unat)
qed

lemma stream_readKind_complete:
  assumes h: "take (length h) (st_r s) = h" "header k n bv h" "fits s (length h)"
  shows "stream_readKind s = ((adv (length h) s)\<lparr>st_byteval := bv\<rparr>, k, of_nat n, None)"
proof (cases "k = KByte")
  case True
  with h(2) have b: "h = [bv]" "bv < 0x80" "n = 0" by auto
  with True readByte_hd [OF h(1) b(1) h(3)] show ?thesis by (simp add: stream_readKind_def Let_def)
next
  case False
  with h(2) obtain t0 t where t: "(k, t0, t) = (KString, 0x80, 0xB7) \<or> (k, t0, t) = (KList, 0xC0, 0xF7)"
    "bv = 0" "n < 2 ^ 64" "h = rlp_head t0 t n" by (cases k) auto
  show ?thesis
  proof (cases "n < 56")
    case True
    then have hh: "h = [t0 + of_nat n]" using t(4) by (simp add: rlp_head_def)
    have u: "unat (t0 + of_nat n :: byte) = unat t0 + n" using t(1) unat_small_tag [OF True] by auto
    have "unat (ucast (of_nat n :: byte) :: u64) = unat (of_nat n :: u64)"
      using True by (simp add: unat_ucast_byte unat_byte_of_nat unat_of_nat_u64)
    then have "ucast (of_nat n :: byte) = (of_nat n :: u64)" by (simp only: word_unat_eq_iff)
    then show ?thesis using readByte_hd [OF h(1) hh h(3)] t(1,2) u True
      by (auto simp: stream_readKind_def Let_def byte_less_unat hh)
  next
    case False
    then show ?thesis using stream_readKind_long [OF h(1) t(4) h(3) False t(3)] t by auto
  qed
qed

text \<open>What \<open>Kind\<close> reads when it has no cached kind: a canonical header that the limits allow,
  announcing a size that is compared with the limits as the code compares them.\<close>

definition size_ok :: "stream \<Rightarrow> nat \<Rightarrow> nat \<Rightarrow> bool" where
  "size_ok s hlen n \<longleftrightarrow> (st_stack s = [] \<or> n \<le> unat (hd (st_stack s)))
     \<and> (st_limited s \<longrightarrow> n + hlen \<le> unat (st_remaining s))"

lemma header_nonempty: "header k n bv h \<Longrightarrow> h \<noteq> []"
  by (cases k) (auto simp: rlp_head_def)

lemma header_less: "header k n bv h \<Longrightarrow> n < 2 ^ 64"
  by (cases k) auto

lemma Kind_sound:
  assumes "Kind s = (s', k, sz, None)" "st_kind s = None"
  shows "\<exists>h bv. take (length h) (st_r s) = h \<and> header k (unat sz) bv h \<and> fits s (length h)
    \<and> size_ok s (length h) (unat sz)
    \<and> s' = (adv (length h) s)\<lparr>st_byteval := bv, st_kind := Some k, st_size := sz, st_kinderr := None\<rparr>"
proof -
  obtain s1 k1 sz1 e1 where r: "stream_readKind s = (s1, k1, sz1, e1)" by (cases "stream_readKind s") auto
  have *: "k1 = k" "sz1 = sz" "e1 = None" "st_stack s = [] \<or> sz \<le> hd (st_stack s)"
    "st_limited s1 \<longrightarrow> sz \<le> st_remaining s1"
    "s' = s1\<lparr>st_kind := Some k, st_size := sz, st_kinderr := None\<rparr>"
    using assms unfolding Kind_def r listLimit_def
    by (cases "st_stack s"; simp add: Let_def not_less split: if_splits)+
  with stream_readKind_sound [of s s1 k sz] r obtain h bv where
    h: "take (length h) (st_r s) = h" "header k (unat sz) bv h" "fits s (length h)"
    "s1 = (adv (length h) s)\<lparr>st_byteval := bv\<rparr>" by auto
  moreover have "size_ok s (length h) (unat sz)"
    using *(4,5) h(3,4)
    by (auto simp: size_ok_def word_le_nat_alt fits_def allows_def unat_sub_of_nat)
  ultimately show ?thesis using *(6) by (intro exI [of _ h] exI [of _ bv]) auto
qed

lemma Kind_complete:
  assumes h: "take (length h) (st_r s) = h" "header k n bv h" "fits s (length h)"
    and sz: "size_ok s (length h) n" and k: "st_kind s = None"
  shows "Kind s = ((adv (length h) s)\<lparr>st_byteval := bv, st_kind := Some k, st_size := of_nat n,
     st_kinderr := None\<rparr>, k, of_nat n, None)"
proof -
  have n: "unat (of_nat n :: u64) = n" using header_less [OF h(2)] by (rule unat_of_nat_u64)
  have "1 \<le> length h" using header_nonempty [OF h(2)] by (cases h) auto
  then have top: "st_stack s \<noteq> [] \<Longrightarrow> hd (st_stack s) \<noteq> 0" using h(3) by (auto simp: fits_def allows_def)
  have l: "\<not> hd (st_stack s) < of_nat n" if "st_stack s \<noteq> []"
    using sz that n by (auto simp: size_ok_def word_less_nat_alt)
  have m: "\<not> st_remaining s - of_nat (length h) < of_nat n" if "st_limited s"
    using sz that n h(3) by (auto simp: size_ok_def word_less_nat_alt fits_def allows_def unat_sub_of_nat)
  show ?thesis
    using top l m unfolding Kind_def k option.case stream_readKind_complete [OF h]
    by (cases "st_stack s") (simp_all add: listLimit_def)
qed

lemma Kind_cases:
  obtains "st_kind s \<noteq> None" | "st_kind s = None" "fst (Kind s) = s" "snd (snd (snd (Kind s))) = Some EOL"
  | s1 k sz e where "st_kind s = None" "Kind s = (s1\<lparr>st_kind := Some k, st_size := sz, st_kinderr := e\<rparr>, k, sz, e)"
proof (cases "st_kind s")
  case None
  obtain il l where ll: "listLimit s = (il, l)" by (cases "listLimit s") auto
  obtain s1 k sz e where r: "stream_readKind s = (s1, k, sz, e)" by (cases "stream_readKind s") auto
  show ?thesis
  proof (cases "il \<and> l = 0")
    case True
    then show ?thesis using that(2) None by (simp add: Kind_def ll)
  next
    case False
    then show ?thesis
      by (intro that(3) [OF None]) (simp only: Kind_def None ll r Let_def prod.case option.case if_False)
  qed
qed (rule that(1), simp)

lemma Kind_cached: "Kind s = (s', k, sz, None) \<Longrightarrow> Kind s' = (s', k, sz, None)"
  by (cases s rule: Kind_cases) (auto simp: Kind_def)

lemma Kind_EOL: "st_kind s = None \<Longrightarrow> st_stack s = 0 # ls \<Longrightarrow> Kind s = (s, KByte, 0, Some EOL)"
  by (simp add: Kind_def listLimit_def)

text \<open>The position of a stream: everything but the cached header.  \<open>took s enc s'\<close>: the input
  of \<open>s\<close> starts with \<open>enc\<close>, and \<open>s'\<close> is positioned after it; the limits are reduced modulo
  \<open>2 ^ 64\<close>.\<close>

definition posn :: "stream \<Rightarrow> bytes \<times> kind option \<times> bool \<times> u64 list \<times> u64" where
  "posn s = (st_r s, st_kind s, st_limited s, st_stack s, st_remaining s)"

definition took :: "stream \<Rightarrow> bytes \<Rightarrow> stream \<Rightarrow> bool" where
  "took s enc s' \<longleftrightarrow> take (length enc) (st_r s) = enc \<and> posn s' = posn (adv (length enc) s)"

lemma posn_fits: "posn s = posn s' \<Longrightarrow> fits s n = fits s' n"
  by (simp add: posn_def fits_def allows_def)

lemma posn_adv: "posn s = posn s' \<Longrightarrow> posn (adv n s) = posn (adv n s')"
  by (simp add: posn_def)

lemma took_Nil: "st_kind s = None \<Longrightarrow> took s [] s"
  by (simp add: took_def posn_def)

lemma took_trans:
  assumes "took s a s'" "took s' b s''"
  shows "took s (a @ b) s''"
proof -
  from assms have r: "st_r s' = drop (length a) (st_r s)" by (simp add: took_def posn_def)
  have "posn s'' = posn (adv (length b) (adv (length a) s))"
    using assms posn_adv [of s' "adv (length a) s"] by (simp add: took_def)
  moreover have "take (length a + length b) (st_r s) = a @ b"
    using assms r by (simp add: took_def take_add)
  ultimately show ?thesis by (simp add: took_def adv_adv)
qed

lemma tookD:
  assumes "took s enc s'"
  shows "st_r s = enc @ st_r s'" "st_kind s' = None" "st_limited s' = st_limited s"
    "st_stack s' = dec_top (of_nat (length enc)) (st_stack s)"
  using assms append_take_drop_id [of "length enc" "st_r s"] by (simp_all add: took_def posn_def)

lemma took_fits: "took s a s' \<Longrightarrow> fits s (length a) \<Longrightarrow> fits s' m \<longleftrightarrow> fits s (length a + m)"
  using posn_fits [of s' "adv (length a) s" m] fits_adv by (auto simp: took_def)

lemma fits_size_ok: "fits s (h + n) \<Longrightarrow> size_ok s h n"
  by (auto simp: fits_def allows_def size_ok_def)

lemma take_appendD:
  assumes "take (length (a @ b)) r = a @ b"
  shows "take (length a) r = a" "take (length b) (drop (length a) r) = b"
proof -
  have "r = a @ b @ drop (length (a @ b)) r"
    using append_take_drop_id [of "length (a @ b)" r] assms by (metis append_assoc)
  then obtain t where "r = a @ b @ t" by blast
  then show "take (length a) r = a" "take (length b) (drop (length a) r) = b" by simp_all
qed

subsection \<open>Strings\<close>

lemma Bytes_Kind:
  "Bytes s = (s', Ok b) \<longleftrightarrow>
    (\<exists>s1 sz. Kind s = (s1, KByte, sz, None) \<and> s' = s1\<lparr>st_kind := None\<rparr> \<and> b = [st_byteval s1])
    \<or> (\<exists>s1 sz. Kind s = (s1, KString, sz, None) \<and> readFull sz s1 = (s', Ok b)
        \<and> \<not> (sz = 1 \<and> b ! 0 < 128))"
proof -
  obtain s1 k sz e where K: "Kind s = (s1, k, sz, e)" by (cases "Kind s") auto
  show ?thesis unfolding Bytes_def K
    by (cases e; cases k) (auto split: prod.splits sum.splits if_splits)
qed

lemma rlp_string_cases:
  obtains v where "b = [v]" "v < 0x80" "rlp_string b = [v]"
  | "\<not> (length b = 1 \<and> b ! 0 < 0x80)" "rlp_string b = rlp_head 0x80 0xB7 (length b) @ b"
  by (cases "length b = 1 \<and> b ! 0 < 0x80") (auto simp: rlp_string_def length_Suc_conv)

lemma Bytes_sound:
  assumes "st_kind s = None" "Bytes s = (s', Ok b)"
  shows "took s (rlp_string b) s'"
  using assms(2) unfolding Bytes_Kind
proof (elim disjE exE conjE)
  fix s1 sz
  assume K: "Kind s = (s1, KByte, sz, None)" and s': "s' = s1\<lparr>st_kind := None\<rparr>" "b = [st_byteval s1]"
  from Kind_sound [OF K assms(1)] s' show ?thesis
    by (auto simp: took_def rlp_string_def posn_def)
next
  fix s1 sz
  assume K: "Kind s = (s1, KString, sz, None)" and r: "readFull sz s1 = (s', Ok b)"
    and c: "\<not> (sz = 1 \<and> b ! 0 < 128)"
  from Kind_sound [OF K assms(1)] obtain h where
    h: "took s h (s1\<lparr>st_kind := None\<rparr>)" "h = rlp_head 0x80 0xB7 (unat sz)"
    by (auto simp: took_def posn_def)
  from r have b: "fits s1 (unat sz)" "b = take (unat sz) (st_r s1)" "s' = adv (unat sz) s1"
    by (simp_all add: readFull_ok)
  then have len: "length b = unat sz" by (auto simp: fits_def)
  then have "took (s1\<lparr>st_kind := None\<rparr>) b s'" using b by (auto simp: took_def posn_def)
  with h(1) have "took s (h @ b) s'" by (rule took_trans)
  moreover have "rlp_string b = h @ b"
  proof -
    have "\<not> (length b = 1 \<and> b ! 0 < 0x80)"
      using c len by (metis unat_1 word_unat_eq_iff)
    then show ?thesis unfolding rlp_string_def h(2) len by (simp only: if_False)
  qed
  ultimately show ?thesis by simp
qed

lemma Bytes_complete:
  assumes "st_kind s = None" "take (length (rlp_string b)) (st_r s) = rlp_string b"
    "fits s (length (rlp_string b))" "length b < 2 ^ 64"
  shows "\<exists>s'. Bytes s = (s', Ok b)"
proof (cases b rule: rlp_string_cases)
  case (1 v)
  then have "Kind s = ((adv 1 s)\<lparr>st_byteval := v, st_kind := Some KByte, st_size := 0, st_kinderr := None\<rparr>,
      KByte, 0, None)"
    using Kind_complete [of "[v]" s KByte 0 v] assms fits_size_ok [of s 1 0] by simp
  with 1 show ?thesis by (auto simp: Bytes_Kind)
next
  case 2
  let ?h = "rlp_head 0x80 0xB7 (length b)"
  have t: "take (length ?h) (st_r s) = ?h" "take (length b) (drop (length ?h) (st_r s)) = b"
    using take_appendD [OF assms(2) [unfolded 2(2)]] by blast+
  have f: "fits s (length ?h)" "fits s (length ?h + length b)"
    using assms(3) fits_le [OF assms(3), of "length ?h"] unfolding 2 by auto
  have u: "unat (of_nat (length b) :: u64) = length b" using assms(4) by (rule unat_of_nat_u64)
  have K: "Kind s = ((adv (length ?h) s)\<lparr>st_byteval := 0, st_kind := Some KString,
      st_size := of_nat (length b), st_kinderr := None\<rparr>, KString, of_nat (length b), None)"
    by (rule Kind_complete [OF t(1) _ f(1) fits_size_ok [OF f(2)] assms(1)]) (use assms(4) in simp)
  have "fits (adv (length ?h) s) (length b)" using f fits_adv by blast
  then have "readFull (of_nat (length b)) (fst (Kind s)) = (adv (length b) (fst (Kind s)), Ok b)"
    using t(2) unfolding K readFull_ok u by (simp add: fits_def allows_def)
  moreover have "\<not> (of_nat (length b) = (1 :: u64) \<and> b ! 0 < 128)"
    using 2(1) u by (metis unat_1)
  ultimately show ?thesis using K by (auto simp: Bytes_Kind)
qed

lemma be_bytes_iff: "bs = be_bytes n \<longleftrightarrow> (bs = [] \<or> hd bs \<noteq> 0) \<and> be_val bs = n"
  using be_bytes_be_val [of bs] hd_be_bytes [of n] by (cases "n = 0") auto

lemma readFull_0: "readFull 0 s = (s\<lparr>st_kind := None\<rparr>, Ok [])"
  by (simp add: readFull_ok fits_def allows_def adv_def)

lemma decodeBigInt_iff:
  "decodeBigInt s = (s', Ok n) \<longleftrightarrow> Bytes s = (s', Ok (be_bytes n))"
proof -
  obtain s1 k sz e where K: "Kind s = (s1, k, sz, e)" by (cases "Kind s") auto
  have nth: "(b :: bytes) \<noteq> [] \<and> b ! 0 = 0 \<longleftrightarrow> \<not> (b = [] \<or> hd b \<noteq> 0)" for b
    by (cases b) auto
  show ?thesis
    unfolding decodeBigInt_def Bytes_def K Let_def nth
    using be_bytes_iff [of _ n]
    by (cases e; cases k)
       (auto simp: readFull_0 split: prod.splits sum.splits if_splits)
qed

lemma readUint_content:
  assumes "unat sz \<le> 8" "readFull sz s = (s', Ok b)"
  shows "readUint (ucast sz) s =
    (s', if unat sz > 1 \<and> b ! 0 = 0 then Err ErrCanonSize else Ok (of_nat (be_val b)))"
proof -
  have u: "unat (ucast sz :: byte) = unat sz"
    using assms(1) by (simp add: unsigned_ucast_eq take_bit_nat_eq_self)
  from assms(2) have b: "fits s (unat sz)" "b = take (unat sz) (st_r s)" "s' = adv (unat sz) s"
    by (simp_all add: readFull_ok)
  show ?thesis
  proof (cases "unat sz > 1 \<and> b ! 0 = 0")
    case True
    have "ucast sz \<noteq> (0 :: byte)" "ucast sz \<noteq> (1 :: byte)"
      using True u by (metis less_numeral_extra(4) not_one_less_zero unat_0 unat_1)+
    moreover have "ucast (ucast sz :: byte) = sz"
      using u by (metis unat_ucast_byte word_unat_eq_iff)
    ultimately show ?thesis using True assms(2) by (simp add: readUint_def)
  next
    case False
    then have "readUint (ucast sz) s = (s', Ok (of_nat (be_val b)))"
      using b readUint_ok [of "ucast sz" s s' "of_nat (be_val b)"] assms(1) by (auto simp: u)
    with False show ?thesis by simp
  qed
qed

lemma readUint_Ok_readFull:
  assumes "unat sz \<le> 8" "readUint (ucast sz) s = (s', Ok v)"
  shows "\<exists>b. readFull sz s = (s', Ok b)"
proof -
  have u: "unat (ucast sz :: byte) = unat sz"
    using assms(1) by (simp add: unsigned_ucast_eq take_bit_nat_eq_self)
  show ?thesis using assms readUint_ok [of "ucast sz" s s' v] by (simp add: u readFull_ok)
qed

lemma uint_content:
  fixes v sz :: u64
  assumes "length b = unat sz" "unat sz \<le> 8"
  shows "\<not> (unat sz > 1 \<and> b ! 0 = 0) \<and> v = of_nat (be_val b) \<and> \<not> (sz > 0 \<and> v < 128)
    \<longleftrightarrow> \<not> (sz = 1 \<and> b ! 0 < 128) \<and> b = be_bytes (unat v)" (is "?L = ?R")
proof -
  have less: "be_val b < 2 ^ 64"
    using be_val_less [of b] assms power_increasing [of "unat sz" 8 "256 :: nat"] by simp
  have v: "v = of_nat (be_val b) \<longleftrightarrow> unat v = be_val b"
    unfolding word_unat_eq_iff [of v] unat_of_nat_u64 [OF less] by blast
  consider "b = []" | c where "b = [c]" | "length b > 1"
    by (cases b; cases "tl b") auto
  then show ?thesis
  proof cases
    case 1
    then have "sz = 0" using assms by (simp add: unat_eq_zero)
    with 1 show ?thesis unfolding v be_bytes_iff by auto
  next
    case (2 c)
    then have "sz = 1" using assms by (metis One_nat_def length_Cons list.size(3) unat_1 word_unat_eq_iff)
    moreover have "v < 128 \<longleftrightarrow> unat v < 128" by (simp add: word_less_nat_alt)
    moreover have "c < 128 \<longleftrightarrow> unat c < 128" by (simp add: word_less_nat_alt)
    ultimately show ?thesis using 2 unfolding v be_bytes_iff by auto
  next
    case 3
    then have s: "unat sz > 1" "sz \<noteq> 1" "sz > 0" "b \<noteq> []"
      using assms by (auto simp: word_greater_zero_iff)
    have h: "hd b = b ! 0" using s(4) by (simp add: hd_conv_nth)
    have "256 \<le> be_val b" if "b ! 0 \<noteq> 0"
    proof -
      have "(256 :: nat) ^ 1 \<le> 256 ^ (length b - 1)" using 3 by (intro power_increasing) auto
      also have "\<dots> \<le> be_val b" using be_val_ge [of b] s(4) h that by simp
      finally show ?thesis by simp
    qed
    then show ?thesis using s h unfolding v be_bytes_iff by (auto simp: word_less_nat_alt)
  qed
qed

lemma stream_uint_string:
  assumes K: "Kind s = (s1, KString, sz, None)" and "maxbits \<le> 64"
  shows "stream_uint maxbits s = (s', Ok v) \<longleftrightarrow>
    Bytes s = (s', Ok (be_bytes (unat v))) \<and> length (be_bytes (unat v)) \<le> maxbits div 8"
proof -
  have m: "unat (of_nat (maxbits div 8) :: u64) = maxbits div 8"
    using assms by (intro unat_of_nat_u64) auto
  have L: "stream_uint maxbits s = (s', Ok v) \<longleftrightarrow> unat sz \<le> maxbits div 8
      \<and> readUint (ucast sz) s1 = (s', Ok v) \<and> \<not> (sz > 0 \<and> v < 128)"
    by (auto simp: stream_uint_def K word_less_nat_alt m split: prod.splits sum.splits if_splits)
  have R: "Bytes s = (s', Ok b) \<longleftrightarrow> readFull sz s1 = (s', Ok b) \<and> \<not> (sz = 1 \<and> b ! 0 < 128)" for b
    by (simp add: Bytes_Kind K)
  have len: "length b = unat sz" if "readFull sz s1 = (s2, Ok b)" for s2 b
    using that by (auto simp: readFull_ok fits_def)
  show ?thesis
  proof (cases "\<exists>s2 b. readFull sz s1 = (s2, Ok b) \<and> unat sz \<le> maxbits div 8")
    case True
    then obtain s2 b where b: "readFull sz s1 = (s2, Ok b)" "unat sz \<le> maxbits div 8" by blast
    then have sz: "unat sz \<le> 8" using assms(2) by simp
    show ?thesis
      unfolding L R readUint_content [OF sz b(1)] b(1)
      using uint_content [OF len [OF b(1)] sz, of v] len [OF b(1)] b(2) by auto
  next
    case False
    have "unat sz \<le> 8" if "unat sz \<le> maxbits div 8" using that assms(2) by simp
    with False have "\<not> (unat sz \<le> maxbits div 8 \<and> readUint (ucast sz) s1 = (s', Ok v))"
      using readUint_Ok_readFull [of sz s1 s' v] by blast
    moreover have "\<not> (readFull sz s1 = (s', Ok b) \<and> length b \<le> maxbits div 8)" for b
      using False len by metis
    ultimately show ?thesis unfolding L R by blast
  qed
qed

lemma stream_uint_iff:
  assumes "8 \<le> maxbits" "maxbits \<le> 64"
  shows "stream_uint maxbits s = (s', Ok v) \<longleftrightarrow>
    Bytes s = (s', Ok (be_bytes (unat v))) \<and> length (be_bytes (unat v)) \<le> maxbits div 8"
proof -
  obtain s1 k sz e where K: "Kind s = (s1, k, sz, e)" by (cases "Kind s") auto
  show ?thesis
  proof (cases "e = None \<and> k = KString")
    case True
    with K show ?thesis by (intro stream_uint_string assms) simp
  next
    case False
    have b: "[c] = be_bytes (unat v) \<longleftrightarrow> c \<noteq> 0 \<and> v = ucast c" for c :: byte
      by (auto simp: be_bytes_iff word_unat_eq_iff [of v] unat_ucast_byte)
    have l: "length (be_bytes (unat v)) \<le> maxbits div 8" if "[c] = be_bytes (unat v)" for c
      using that [symmetric] assms(1) by simp
    have "(s1\<lparr>st_kind := None\<rparr> = s' \<and> st_byteval s1 \<noteq> 0 \<and> ucast (st_byteval s1) = v)
      \<longleftrightarrow> (s1\<lparr>st_kind := None\<rparr> = s' \<and> [st_byteval s1] = be_bytes (unat v)) \<and> length (be_bytes (unat v)) \<le> maxbits div 8"
      using b [of "st_byteval s1"] l [of "st_byteval s1"] by blast
    with False show ?thesis unfolding stream_uint_def Bytes_def K
      by (cases e; cases k; cases "st_byteval s1 = 0") simp_all
  qed
qed

lemma stream_Bool_iff:
  "stream_Bool s = (s', Ok c) \<longleftrightarrow> Bytes s = (s', Ok (if c then [1] else []))"
proof -
  have one: "be_bytes (unat (1 :: u64)) = [1]" by (simp add: be_bytes.simps)
  have u: "stream_uint 8 s = (s', Ok v) \<longleftrightarrow>
    Bytes s = (s', Ok (be_bytes (unat v))) \<and> length (be_bytes (unat v)) \<le> 1" for v
    using stream_uint_iff [of 8 s s' v] by simp
  have "stream_Bool s = (s', Ok c) \<longleftrightarrow> stream_uint 8 s = (s', Ok (if c then 1 else 0))"
    by (auto simp: stream_Bool_def split: prod.splits sum.splits if_splits)
  then show ?thesis unfolding u using one by auto
qed

lemma decodeByteArray_iff:
  assumes "n < 2 ^ 64"
  shows "decodeByteArray n s = (s', Ok b) \<longleftrightarrow> Bytes s = (s', Ok b) \<and> length b = n"
proof -
  obtain s1 k sz e where K: "Kind s = (s1, k, sz, e)" by (cases "Kind s") auto
  have m: "unat (of_nat n :: u64) = n" using assms by (rule unat_of_nat_u64)
  have len: "length c = unat sz" if "readFull sz s1 = (s2, Ok c)" for s2 c
    using that by (auto simp: readFull_ok fits_def)
  show ?thesis
  proof (cases "e = None \<and> k = KString")
    case True
    have "decodeByteArray n s = (s', Ok b) \<longleftrightarrow>
        n = unat sz \<and> readFull sz s1 = (s', Ok b) \<and> \<not> (sz = 1 \<and> b ! 0 < 128)"
      unfolding decodeByteArray_def K
      using True by (auto simp: word_less_nat_alt m split: prod.splits sum.splits if_splits)
    moreover have "Bytes s = (s', Ok b) \<longleftrightarrow> readFull sz s1 = (s', Ok b) \<and> \<not> (sz = 1 \<and> b ! 0 < 128)"
      using True by (simp add: Bytes_Kind K)
    ultimately show ?thesis using len by blast
  next
    case False
    then show ?thesis unfolding decodeByteArray_def Bytes_def K
      by (cases e; cases k; cases "n = 0"; cases "n > 1") auto
  qed
qed

subsection \<open>Lists\<close>

lemma stream_List_Kind:
  "stream_List s = (s', Ok sz) \<longleftrightarrow>
    (\<exists>s1. Kind s = (s1, KList, sz, None)
      \<and> s' = s1\<lparr>st_stack := sz # dec_top sz (st_stack s1), st_kind := None, st_size := 0\<rparr>)"
proof -
  obtain s1 k n e where K: "Kind s = (s1, k, n, e)" by (cases "Kind s") auto
  show ?thesis unfolding stream_List_def K listLimit_def
    by (cases e; cases "st_stack s1"; cases "k = KList") (auto simp: Let_def)
qed

lemma stream_List_sound:
  assumes "st_kind s = None" "stream_List s = (s', Ok sz)"
  shows "\<exists>s1 h. took s h s1 \<and> h = rlp_head 0xC0 0xF7 (unat sz)
    \<and> posn s' = posn (s1\<lparr>st_stack := sz # dec_top sz (st_stack s1)\<rparr>)"
proof -
  from assms(2) obtain s1 where K: "Kind s = (s1, KList, sz, None)"
    and s': "s' = s1\<lparr>st_stack := sz # dec_top sz (st_stack s1), st_kind := None, st_size := 0\<rparr>"
    by (auto simp: stream_List_Kind)
  from Kind_sound [OF K assms(1)] obtain h where h: "h = rlp_head 0xC0 0xF7 (unat sz)"
      "take (length h) (st_r s) = h"
      "s1 = (adv (length h) s)\<lparr>st_byteval := 0, st_kind := Some KList, st_size := sz, st_kinderr := None\<rparr>"
    by auto
  show ?thesis
    by (rule exI [of _ "adv (length h) s"], rule exI [of _ h])
       (use h s' in \<open>simp add: took_def posn_def\<close>)
qed

lemma stream_List_complete:
  assumes "st_kind s = None" "take (length h) (st_r s) = h" "h = rlp_head 0xC0 0xF7 n"
    "fits s (length h + n)" "n < 2 ^ 64"
  shows "\<exists>s'. stream_List s = (s', Ok (of_nat n))
    \<and> posn s' = posn ((adv (length h) s)\<lparr>st_stack := of_nat n # dec_top (of_nat n) (st_stack (adv (length h) s))\<rparr>)"
proof -
  have "Kind s = ((adv (length h) s)\<lparr>st_byteval := 0, st_kind := Some KList, st_size := of_nat n,
      st_kinderr := None\<rparr>, KList, of_nat n, None)"
    using fits_le [OF assms(4), of "length h"] assms
    by (intro Kind_complete fits_size_ok) auto
  then show ?thesis by (auto simp: stream_List_Kind posn_def)
qed

lemma stream_ListEnd_ok:
  "stream_ListEnd s = (s', None) \<longleftrightarrow>
     (\<exists>ls. st_stack s = 0 # ls \<and> s' = s\<lparr>st_stack := ls, st_kind := None, st_size := 0\<rparr>)"
  by (cases "st_stack s") (auto simp: stream_ListEnd_def listLimit_def word_gt_0)

lemma list_end_ok:
  "list_end s v = Some (s', Ok w) \<longleftrightarrow>
     w = v \<and> (\<exists>ls. st_stack s = 0 # ls \<and> s' = s\<lparr>st_stack := ls, st_kind := None, st_size := 0\<rparr>)"
  unfolding list_end_def using stream_ListEnd_ok [of s]
  by (auto split: prod.splits option.splits)

lemma list_end_not_None [simp]: "list_end s v \<noteq> None"
  by (auto simp: list_end_def split: prod.splits option.splits)

lemma andThen_ok:
  "andThen m f = Some (s', Ok y) \<longleftrightarrow> (\<exists>s x. m = Some (s, Ok x) \<and> f s x = Some (s', Ok y))"
  by (auto simp: andThen_def split: option.splits prod.splits sum.splits)

lemma andThen_None:
  "andThen m f = None \<longleftrightarrow> m = None \<or> (\<exists>s x. m = Some (s, Ok x) \<and> f s x = None)"
  by (auto simp: andThen_def split: option.splits prod.splits sum.splits)

lemma andThen_err:
  "andThen m f = Some (s', Err e) \<longleftrightarrow>
     m = Some (s', Err e) \<or> (\<exists>s x. m = Some (s, Ok x) \<and> f s x = Some (s', Err e))"
  by (auto simp: andThen_def split: option.splits prod.splits sum.splits)

lemma mapVal_ok: "mapVal f m = Some (s', Ok y) \<longleftrightarrow> (\<exists>x. m = Some (s', Ok x) \<and> y = f x)"
  by (auto simp: mapVal_def andThen_ok)

lemma mapVal_None: "mapVal f m = None \<longleftrightarrow> m = None"
  by (auto simp: mapVal_def andThen_None)

lemma mapVal_err: "mapVal f m = Some (s', Err e) \<longleftrightarrow> m = Some (s', Err e)"
  by (auto simp: mapVal_def andThen_err)

lemmas decoded_simps = andThen_ok andThen_None andThen_err mapVal_ok mapVal_None mapVal_err

text \<open>Between \<open>List\<close> and \<open>ListEnd\<close> exactly the announced payload is read: the limit of the
  list is zero modulo \<open>2 ^ 64\<close>, and the input is shorter than that.\<close>

lemma list_frame_sound:
  assumes "st_kind s = None" "length (st_r s) < 2 ^ 64" "stream_List s = (s1, Ok sz)"
    "took s1 p s2" "list_end s2 v = Some (s', Ok w)"
  shows "w = v" "unat sz = length p" "took s (rlp_list p) s'"
proof -
  from stream_List_sound [OF assms(1,3)] obtain s0 h where
    s0: "took s h s0" "h = rlp_head 0xC0 0xF7 (unat sz)"
    "posn s1 = posn (s0\<lparr>st_stack := sz # dec_top sz (st_stack s0)\<rparr>)" by blast
  from assms(5) obtain ls where e: "w = v" "st_stack s2 = 0 # ls"
    "s' = s2\<lparr>st_stack := ls, st_kind := None, st_size := 0\<rparr>" by (auto simp: list_end_ok)
  have st: "st_stack s2 = (sz - of_nat (length p)) # dec_top sz (st_stack s0)"
    using tookD(4) [OF assms(4)] s0(3) by (simp add: posn_def)
  have "st_r s = h @ p @ st_r s2"
    using tookD(1) [OF s0(1)] tookD(1) [OF assms(4)] s0(3) by (simp add: posn_def)
  then have lp: "length p < 2 ^ 64" using assms(2) by simp
  have "sz = of_nat (length p)" using st e(2) by simp
  then show sz: "unat sz = length p" using unat_of_nat_u64 [OF lp] by simp
  show "w = v" by (rule e(1))
  have enc: "rlp_list p = h @ p" by (simp add: rlp_list_def s0(2) sz)
  have "took s0 p s'"
    using assms(4) s0(3) e(2,3) st \<open>sz = of_nat (length p)\<close> tookD(2) [OF s0(1)]
    by (simp add: took_def posn_def)
  then show "took s (rlp_list p) s'" unfolding enc by (rule took_trans [OF s0(1)])
qed

lemma list_frame_complete:
  assumes "st_kind s = None" "take (length (rlp_list p)) (st_r s) = rlp_list p"
    "fits s (length (rlp_list p))" "length p < 2 ^ 64"
  obtains s1 ls where "stream_List s = (s1, Ok (of_nat (length p)))" "st_kind s1 = None"
    "st_stack s1 = of_nat (length p) # ls" "take (length p) (st_r s1) = p" "fits s1 (length p)"
    "length (st_r s1) < length (st_r s)"
proof -
  let ?h = "rlp_head 0xC0 0xF7 (length p)"
  have h: "take (length ?h) (st_r s) = ?h" "take (length p) (drop (length ?h) (st_r s)) = p"
    using take_appendD [of ?h p "st_r s"] assms(2) by (simp_all add: rlp_list_def)
  have f: "fits s (length ?h + length p)" using assms(3) by (simp add: rlp_list_def)
  then have f1: "fits s (length ?h)" using fits_le by force
  from stream_List_complete [OF assms(1) h(1) refl f assms(4)] obtain s1 where
    s1: "stream_List s = (s1, Ok (of_nat (length p)))"
    "posn s1 = posn ((adv (length ?h) s)\<lparr>st_stack := of_nat (length p)
        # dec_top (of_nat (length p)) (st_stack (adv (length ?h) s))\<rparr>)" by blast
  have "fits (adv (length ?h) s) (length p)" using f f1 fits_adv by blast
  then have fs: "fits s1 (length p)" using s1(2) unat_of_nat_u64 [OF assms(4)]
    by (simp add: posn_def fits_def allows_def)
  have "0 < length ?h" by (simp add: rlp_head_def)
  moreover have "0 < length (st_r s)" using f1 calculation by (auto simp: fits_def)
  ultimately have "length (st_r s1) < length (st_r s)" using s1(2) by (simp add: posn_def)
  then show ?thesis using that s1 h(2) fs by (simp add: posn_def)
qed

lemma list_end_complete:
  "st_stack s1 = of_nat (length p) # ls \<Longrightarrow> took s1 p s2 \<Longrightarrow> \<exists>s'. list_end s2 v = Some (s', Ok v)"
  using tookD(4) [of s1 p s2] by (auto simp: list_end_ok)

lemma rlp_enc_nonempty: "rlp_enc it \<noteq> []"
  by (cases it) (auto simp: rlp_string_def rlp_list_def rlp_head_def)

lemma stream_readKind_not_EOL: "stream_readKind s = (s', k, sz, Some e) \<Longrightarrow> e \<noteq> EOL"
proof -
  have w: "e \<noteq> EOL" if "willRead n s = (s', Some e)" for n s s' e
    using that by (auto simp: willRead_def listLimit_def Let_def split: if_splits list.splits)
  have b: "e \<noteq> EOL" if "readByte s = (s', Err e)" for s s' e
    using that by (auto simp: readByte_def split: option.splits prod.splits list.splits dest: w)
  have f: "e \<noteq> EOL" if "readFull n s = (s', Err e)" for n s s' e
    using that by (auto simp: readFull_def split: option.splits prod.splits if_splits dest: w)
  have u: "e \<noteq> EOL" if "readUint n s = (s', Err e)" for n s s' e
    using that by (auto simp: readUint_def split: prod.splits sum.splits if_splits dest: b f)
  have l: "e \<noteq> EOL" if "long_size k n s = (s', k', sz', Some e)" for k n s s' k' sz' e
    using that by (auto simp: long_size_def split: prod.splits sum.splits if_splits dest: u)
  show "stream_readKind s = (s', k, sz, Some e) \<Longrightarrow> e \<noteq> EOL"
    by (auto simp: stream_readKind_def Let_def split: prod.splits sum.splits if_splits dest: b l)
qed

lemma readFull_not_EOL: "readFull n s = (s', Err e) \<Longrightarrow> e \<noteq> EOL"
  by (auto simp: readFull_def willRead_def listLimit_def Let_def
      split: option.splits prod.splits list.splits if_splits)

lemma Kind_EOL_only:
  assumes "st_kind s = None" "Kind s = (s', k, sz, Some EOL)"
  shows "s' = s"
proof -
  obtain s1 k1 sz1 e1 where r: "stream_readKind s = (s1, k1, sz1, e1)" by (cases "stream_readKind s") auto
  have "e1 \<noteq> Some EOL" using stream_readKind_not_EOL [of s s1 k1 sz1 EOL] r by blast
  then show ?thesis using assms unfolding Kind_def r
    by (auto simp: Let_def split: if_splits prod.splits)
qed

lemma stream_List_EOL: "stream_List s = (s', Err EOL) \<Longrightarrow> \<exists>k sz. Kind s = (s', k, sz, Some EOL)"
  by (auto simp: stream_List_def Let_def split: prod.splits option.splits if_splits)

lemma Bytes_EOL: "Bytes s = (s', Err EOL) \<Longrightarrow> \<exists>k sz. Kind s = (s', k, sz, Some EOL)"
  by (auto simp: Bytes_def dest: readFull_not_EOL split: prod.splits option.splits sum.splits kind.splits if_splits)

subsection \<open>Raw values\<close>

lemma puthead_unat: "puthead s l sz = rlp_head s l (unat sz)"
  using puthead_eq [of "unat sz" s l] unsigned_less [of sz, where ?'a = nat] by simp

lemma Raw_took:
  assumes "st_kind s = None" "Raw s = (s', Ok bs)"
  shows "took s bs s'"
proof -
  from assms(2) obtain s1 k sz where K: "Kind s = (s1, k, sz, None)"
    by (cases "Kind s") (auto simp: Raw_def split: option.splits)
  from Kind_sound [OF K assms(1)] obtain h bv where h: "take (length h) (st_r s) = h"
    "header k (unat sz) bv h" "s1 = (adv (length h) s)\<lparr>st_byteval := bv, st_kind := Some k,
       st_size := sz, st_kinderr := None\<rparr>" by (elim exE conjE) (rule that)
  have t: "took s h (s1\<lparr>st_kind := None\<rparr>)" using h by (simp add: took_def posn_def)
  show ?thesis
  proof (cases "k = KByte")
    case True
    with assms(2) K h t show ?thesis by (auto simp: Raw_def)
  next
    case False
    with assms(2) obtain c where c: "readFull sz s1 = (s', Ok c)"
      "bs = (if k = KString then puthead 0x80 0xB7 sz else puthead 0xC0 0xF7 sz) @ c"
      by (auto simp: Raw_def K split: prod.splits sum.splits)
    then have "length c = unat sz" "took (s1\<lparr>st_kind := None\<rparr>) c s'"
      by (auto simp: readFull_ok fits_def took_def posn_def)
    moreover have "bs = h @ c" using c(2) h(2) False by (cases k) (simp_all add: puthead_unat)
    ultimately show ?thesis using took_trans [OF t] by simp
  qed
qed

subsection \<open>The limit of the enclosing list\<close>

lemma stream_List_outer:
  assumes "st_kind s = None" "st_stack s = limit # ls" "stream_List s = (s', Ok sz)"
  shows "st_stack s' = sz # (limit - of_nat (length (rlp_head 0xC0 0xF7 (unat sz))) - sz) # ls"
  using stream_List_sound [OF assms(1,3)] assms(2) tookD(4)
  by (fastforce simp: posn_def)

section \<open>Properties\<close>

text \<open>\<open>Raw\<close> returns the bytes it consumed: rebuilding the header from the parsed kind and size
  gives back the original one.\<close>

theorem Raw_exact:
  assumes "st_kind s = None" "Raw s = (s', Ok bs)"
  shows "st_r s = bs @ st_r s'"
  using Raw_took [OF assms] by (rule tookD(1))

theorem Raw_exact_witness:
  "st_kind (Reset [0x82, 1, 2, 9] 4) = None
   \<and> (\<exists>s'. Raw (Reset [0x82, 1, 2, 9] 4) = (s', Ok [0x82, 1, 2])
      \<and> st_r (Reset [0x82, 1, 2, 9] 4) = [0x82, 1, 2] @ st_r s')"
proof -
  have k: "st_kind (Reset [0x82, 1, 2, 9] 4) = None" by (simp add: Reset_def)
  obtain s' where r: "Raw (Reset [0x82, 1, 2, 9] 4) = (s', Ok [0x82, 1, 2])"
    by (simp add: Raw_def Kind_def Reset_def listLimit_def stream_readKind_def readByte_def readFull_def
        willRead_def puthead_def Let_def)
  from k r Raw_exact [OF k r] show ?thesis by blast
qed

text \<open>\<open>List\<close> checks the size of an inner list against the enclosing list's limit before the
  inner header is subtracted.  The enclosing limit is correct when header and payload fit;
  otherwise it wraps around to a value near \<open>2 ^ 64\<close>, so that the enclosing list appears to have
  more data.\<close>

theorem List_outer_limit:
  assumes "st_kind s = None" "st_stack s = limit # ls" "stream_List s = (s', Ok sz)"
  defines "n \<equiv> length (rlp_head 0xC0 0xF7 (unat sz)) + unat sz"
  shows "\<exists>outer. st_stack s' = sz # outer # ls
    \<and> int (unat outer) = (int (unat limit) - int n) mod 2 ^ 64"
proof -
  have "(limit - of_nat (length (rlp_head 0xC0 0xF7 (unat sz))) - sz :: u64) = limit - of_nat n"
    by (simp add: n_def algebra_simps)
  moreover have "int (unat (limit - of_nat n)) = (int (unat limit) - int n) mod 2 ^ 64"
  proof -
    have "uint (limit - of_nat n) = (uint limit - uint (of_nat n :: u64)) mod 2 ^ 64"
      by (simp add: uint_word_ariths)
    also have "uint (of_nat n :: u64) = int n mod 2 ^ 64" by (simp add: unsigned_of_nat take_bit_eq_mod zmod_int)
    finally show ?thesis by (simp only: uint_nat mod_diff_right_eq)
  qed
  ultimately show ?thesis using stream_List_outer [OF assms(1-3)]
    by (intro exI [of _ "limit - of_nat n"]) (simp only: simp_thms)
qed

theorem List_outer_limit_witness:
  "\<exists>s s'. s = fst (stream_List (Reset [0xC3, 0xC3, 1, 2, 3] 5))
    \<and> st_kind s = None \<and> st_stack s = [3] \<and> stream_List s = (s', Ok 3)
    \<and> st_stack s' = [3, - 1] \<and> MoreDataInList (s'\<lparr>st_stack := tl (st_stack s')\<rparr>)"
proof -
  define s where "s = fst (stream_List (Reset [0xC3, 0xC3, 1, 2, 3] 5))"
  note eval = stream_List_def Kind_def Reset_def listLimit_def stream_readKind_def readByte_def
    willRead_def Let_def
  have s: "st_kind s = None" "st_stack s = [3]" by (simp_all add: s_def eval)
  obtain s' where s': "stream_List s = (s', Ok 3)" by (simp add: s_def eval)
  from List_outer_limit [OF s s'] obtain outer where
    o: "st_stack s' = [3, outer]" "int (unat outer) = 2 ^ 64 - 1" by (auto simp: rlp_head_def)
  then have "outer = - 1" by (simp add: word_uint_eq_iff unsigned_minus_1_eq_mask mask_eq_exp_minus_1)
  with s s' o(1) s_def show ?thesis by (auto simp: MoreDataInList_def listLimit_def word_greater_zero_iff)
qed

end
