(* ===== verification/Rlp_Decode.thy ===== *)
theory Rlp_Decode
  imports Rlp_Stream
begin

text \<open>
  The typed decoders of \<^verbatim>\<open>rlp/decode.go\<close>, which \<open>makeDecoder\<close> selects by the Go type,
  and \<open>DecodeBytes\<close>.  The contract of an element decoder is the locale \<open>elem_decoder\<close>; the list,
  array, struct, pointer and interface decoders keep it.
\<close>

section \<open>Definitions\<close>

subsection \<open>Typed decoding\<close>

text \<open>
  The types \<open>makeDecoder\<close> dispatches on, with the decoder each selects: \<open>TUint\<close> by its kind,
  \<open>TBytes\<close> for byte slices and strings, \<open>TStruct\<close> with the fields in order and whether each
  is tagged \<open>optional\<close>, \<open>TPtr\<close> for plain pointers, \<open>TNilPtr\<close> for pointers tagged \<open>nil\<close> with
  their nil kind, and \<open>TIface\<close> for the empty interface.
\<close>

datatype uint_kind = Uint8 | Uint16 | Uint32 | Uint64

fun Bits :: "uint_kind \<Rightarrow> nat" where
  "Bits Uint8 = 8"
| "Bits Uint16 = 16"
| "Bits Uint32 = 32"
| "Bits Uint64 = 64"

datatype gotype =
    TUint uint_kind
  | TBool
  | TBigInt
  | TBytes
  | TByteArray u64
  | TSlice gotype
  | TArray nat gotype
  | TStruct "(gotype \<times> bool) list"
  | TPtr gotype
  | TNilPtr gotype kind
  | TIface

fun DefaultNilValue :: "gotype \<Rightarrow> kind" where
  "DefaultNilValue (TUint _) = KString"
| "DefaultNilValue TBool = KString"
| "DefaultNilValue TBytes = KString"
| "DefaultNilValue (TByteArray _) = KString"
| "DefaultNilValue _ = KList"

fun zero_value :: "gotype \<Rightarrow> goval" where
  "zero_value (TUint _) = VUint 0"
| "zero_value TBool = VBool False"
| "zero_value TBigInt = VNilBigInt"
| "zero_value TBytes = VBytes []"
| "zero_value (TByteArray n) = VByteArray (replicate (unat n) 0)"
| "zero_value (TSlice _) = VSlice []"
| "zero_value (TArray n t) = VSlice (replicate n (zero_value t))"
| "zero_value (TStruct fs) = VStruct (map (\<lambda>f. zero_value (fst f)) fs)"
| "zero_value (TPtr t) = VNil (DefaultNilValue t)"
| "zero_value (TNilPtr _ k) = VNil k"
| "zero_value TIface = VNil KList"

text \<open>
  The decoders of lists take the element decoder as an argument, as in the code.  The loop of
  \<open>decodeSliceElems\<close> ends when the element decoder reports the end of the list; its first
  argument bounds the iterations.
\<close>

fun decodeSliceElems :: "nat \<Rightarrow> (stream \<Rightarrow> 'a decoded) \<Rightarrow> stream \<Rightarrow> 'a list \<Rightarrow> 'a list decoded" where
  "decodeSliceElems 0 elemdec s acc = None"
| "decodeSliceElems (Suc fuel) elemdec s acc =
     (case elemdec s of None \<Rightarrow> None
      | Some (s, Err err) \<Rightarrow> if err = EOL then Some (s, Ok acc) else Some (s, Err err)
      | Some (s, Ok x) \<Rightarrow> decodeSliceElems fuel elemdec s (acc @ [x]))"

definition decodeListSlice :: "nat \<Rightarrow> (stream \<Rightarrow> 'a decoded) \<Rightarrow> stream \<Rightarrow> 'a list decoded" where
  "decodeListSlice fuel elemdec s =
     andThen (Some (stream_List s)) (\<lambda>s sz.
       if sz = 0 then list_end s []
       else andThen (decodeSliceElems fuel elemdec s []) list_end)"

fun decodeArrayElems :: "nat \<Rightarrow> (stream \<Rightarrow> 'a decoded) \<Rightarrow> stream \<Rightarrow> 'a list \<Rightarrow> 'a list decoded" where
  "decodeArrayElems 0 elemdec s acc = Some (s, Ok acc)"
| "decodeArrayElems (Suc n) elemdec s acc =
     (case elemdec s of None \<Rightarrow> None
      | Some (s, Err err) \<Rightarrow> Some (s, Err (if err = EOL then ErrTooFewElements else err))
      | Some (s, Ok x) \<Rightarrow> decodeArrayElems n elemdec s (acc @ [x]))"

definition decodeListArray :: "nat \<Rightarrow> (stream \<Rightarrow> 'a decoded) \<Rightarrow> stream \<Rightarrow> 'a list decoded" where
  "decodeListArray vlen elemdec s =
     andThen (Some (stream_List s)) (\<lambda>s sz. andThen (decodeArrayElems vlen elemdec s []) list_end)"

text \<open>A struct field is its decoder, its \<open>optional\<close> tag and its zero value.\<close>

fun decodeFields ::
  "((stream \<Rightarrow> 'a decoded) \<times> bool \<times> 'a) list \<Rightarrow> stream \<Rightarrow> 'a list \<Rightarrow> 'a list decoded" where
  "decodeFields [] s acc = Some (s, Ok acc)"
| "decodeFields ((dec, opt, zero) # fs) s acc =
     (case dec s of None \<Rightarrow> None
      | Some (s, Err err) \<Rightarrow>
          if err = EOL then
            (if opt then Some (s, Ok (acc @ zero # map (\<lambda>f. snd (snd f)) fs))
             else Some (s, Err ErrTooFewElements))
          else Some (s, Err err)
      | Some (s, Ok x) \<Rightarrow> decodeFields fs s (acc @ [x]))"

definition decodeStruct ::
  "((stream \<Rightarrow> 'a decoded) \<times> bool \<times> 'a) list \<Rightarrow> stream \<Rightarrow> 'a list decoded" where
  "decodeStruct fs s =
     andThen (Some (stream_List s)) (\<lambda>s sz. andThen (decodeFields fs s []) list_end)"

definition decodeNilPtr :: "kind \<Rightarrow> (stream \<Rightarrow> goval decoded) \<Rightarrow> stream \<Rightarrow> goval decoded" where
  "decodeNilPtr nilKind dec s =
     (case Kind s of (s, k, sz, Some err) \<Rightarrow> Some (s, Err err)
      | (s, k, sz, None) \<Rightarrow>
          if k \<noteq> KByte \<and> sz = 0 then
            (if k \<noteq> nilKind then Some (s, Err (ErrWrongEmptyKind k nilKind))
             else Some (s\<lparr>st_kind := None\<rparr>, Ok (VNil nilKind)))
          else dec s)"

text \<open>\<open>decodeInterface\<close> recurses into lists of interfaces; the first argument bounds the depth.\<close>

fun decodeInterface :: "nat \<Rightarrow> stream \<Rightarrow> goval decoded" where
  "decodeInterface 0 s = None"
| "decodeInterface (Suc fuel) s =
     (case Kind s of (s, k, sz, Some err) \<Rightarrow> Some (s, Err err)
      | (s, k, sz, None) \<Rightarrow>
          if k = KList then mapVal VSlice (decodeListSlice (Suc fuel) (decodeInterface fuel) s)
          else mapVal VBytes (Some (Bytes s)))"

fun makeDecoder :: "nat \<Rightarrow> gotype \<Rightarrow> stream \<Rightarrow> goval decoded" where
  "makeDecoder fuel (TUint u) s = mapVal VUint (Some (stream_uint (Bits u) s))"
| "makeDecoder fuel TBool s = mapVal VBool (Some (stream_Bool s))"
| "makeDecoder fuel TBigInt s = mapVal (\<lambda>n. VBigInt (int n)) (Some (decodeBigInt s))"
| "makeDecoder fuel TBytes s = mapVal VBytes (Some (Bytes s))"
| "makeDecoder fuel (TByteArray n) s = mapVal VByteArray (Some (decodeByteArray (unat n) s))"
| "makeDecoder fuel (TSlice t) s = mapVal VSlice (decodeListSlice fuel (makeDecoder fuel t) s)"
| "makeDecoder fuel (TArray n t) s = mapVal VSlice (decodeListArray n (makeDecoder fuel t) s)"
| "makeDecoder fuel (TStruct fs) s =
     mapVal VStruct
       (decodeStruct (map (\<lambda>f. (makeDecoder fuel (fst f), snd f, zero_value (fst f))) fs) s)"
| "makeDecoder fuel (TPtr t) s = makeDecoder fuel t s"
| "makeDecoder fuel (TNilPtr t nilKind) s = decodeNilPtr nilKind (makeDecoder fuel t) s"
| "makeDecoder fuel TIface s = decodeInterface fuel s"

text \<open>The fuel is the input's length plus one: every iteration and every level of nesting reads
  at least one byte.\<close>

definition DecodeBytes :: "gotype \<Rightarrow> bytes \<Rightarrow> (rlp_err + goval) option" where
  "DecodeBytes t b =
     (case makeDecoder (length b + 1) t (Reset b (of_nat (length b))) of None \<Rightarrow> None
      | Some (s, Err err) \<Rightarrow> Some (Err err)
      | Some (s, Ok x) \<Rightarrow>
          if length (st_r s) > 0 then Some (Err ErrMoreThanOneValue) else Some (Ok x))"

section \<open>Lemmas\<close>

subsection \<open>The contract of an element decoder\<close>

text \<open>
  What the list decoders rely on of the decoder of their elements.  \<open>M x it\<close> says which item
  \<open>x\<close> is decoded from; \<open>bound\<close> is the input length below which the decoder's fuel is enough.
\<close>

locale elem_decoder =
  fixes dec :: "stream \<Rightarrow> 'a decoded" and M :: "'a \<Rightarrow> item \<Rightarrow> bool" and bound :: nat
  assumes bound_le: "bound \<le> 2 ^ 64"
    and sound: "st_kind s = None \<Longrightarrow> length (st_r s) < 2 ^ 64 \<Longrightarrow> dec s = Some (s', Ok x)
      \<Longrightarrow> \<exists>it. M x it \<and> took s (rlp_enc it) s'"
    and complete: "st_kind s = None \<Longrightarrow> length (st_r s) < bound \<Longrightarrow> M x it
      \<Longrightarrow> take (length (rlp_enc it)) (st_r s) = rlp_enc it \<Longrightarrow> fits s (length (rlp_enc it))
      \<Longrightarrow> \<exists>s'. dec s = Some (s', Ok x) \<and> took s (rlp_enc it) s'"
    and total: "st_kind s = None \<Longrightarrow> length (st_r s) < bound \<Longrightarrow> dec s \<noteq> None"
    and eol: "Kind s = (s', k, sz, Some EOL) \<Longrightarrow> dec s \<noteq> None \<Longrightarrow> dec s = Some (s', Err EOL)"
    and eol_only: "dec s = Some (s', Err EOL) \<Longrightarrow> \<exists>k sz. Kind s = (s', k, sz, Some EOL)"
    and cached: "Kind s = (s', k, sz, None) \<Longrightarrow> dec s' = dec s"
begin

lemma decoder_mono: "n \<le> bound \<Longrightarrow> elem_decoder dec M n"
proof (unfold_locales, goal_cases)
  case 1
  then show ?case using bound_le by simp
next
  case (3 s x it)
  then show ?case by (intro complete) auto
next
  case (4 s)
  then show ?case by (intro total) auto
qed (rule sound eol eol_only cached; assumption)+

lemma progress:
  "st_kind s = None \<Longrightarrow> length (st_r s) < 2 ^ 64 \<Longrightarrow> dec s = Some (s', Ok x)
    \<Longrightarrow> length (st_r s') < length (st_r s) \<and> st_kind s' = None"
proof -
  assume "st_kind s = None" "length (st_r s) < 2 ^ 64" "dec s = Some (s', Ok x)"
  from sound [OF this] obtain it where "took s (rlp_enc it) s'" by blast
  then show ?thesis using tookD(1,2) [of s "rlp_enc it" s'] rlp_enc_nonempty [of it] by simp
qed

lemma elems_total:
  "st_kind s = None \<Longrightarrow> length (st_r s) < bound \<Longrightarrow> length (st_r s) < fuel
    \<Longrightarrow> decodeSliceElems fuel dec s acc \<noteq> None"
proof (induction fuel arbitrary: s acc)
  case (Suc fuel)
  from total [OF Suc.prems(1,2)] obtain s1 r where d: "dec s = Some (s1, r)" by fastforce
  show ?case
  proof (cases r)
    case (Inr x)
    with d progress [OF Suc.prems(1), of s1 x] Suc.prems bound_le
    have "length (st_r s1) < length (st_r s)" "st_kind s1 = None" by auto
    with Suc show ?thesis by (simp add: d Inr)
  qed (simp add: d)
qed simp

lemma elems_sound:
  "decodeSliceElems fuel dec s acc = Some (s', Ok ys) \<Longrightarrow> st_kind s = None
    \<Longrightarrow> length (st_r s) < 2 ^ 64
    \<Longrightarrow> \<exists>xs its. ys = acc @ xs \<and> list_all2 M xs its \<and> took s (concat (map rlp_enc its)) s'"
proof (induction fuel arbitrary: s acc)
  case (Suc fuel)
  from Suc.prems(1) obtain s1 r where d: "dec s = Some (s1, r)"
    by (auto split: option.splits)
  show ?case
  proof (cases r)
    case (Inl e)
    with Suc.prems d have e: "e = EOL" "s1 = s'" "ys = acc" by (auto split: if_splits)
    then have "s' = s" using d Inl eol_only [of s s1] Kind_EOL_only [OF Suc.prems(2), of s1] by auto
    with e Suc.prems(2) show ?thesis by (intro exI [of _ "[]"]) (simp add: took_Nil)
  next
    case (Inr x)
    from sound [OF Suc.prems(2,3)] d Inr obtain it where it: "M x it" "took s (rlp_enc it) s1" by blast
    have "length (st_r s1) < 2 ^ 64" using tookD(1) [OF it(2)] Suc.prems(3) by simp
    with Suc.IH [of s1 "acc @ [x]"] Suc.prems(1) d Inr tookD(2) [OF it(2)] obtain xs its where
      "ys = (acc @ [x]) @ xs" "list_all2 M xs its" "took s1 (concat (map rlp_enc its)) s'" by auto
    with it took_trans show ?thesis by (intro exI [of _ "x # xs"] exI [of _ "it # its"]) auto
  qed
qed simp

lemma elems_complete:
  "list_all2 M xs its \<Longrightarrow> st_kind s = None \<Longrightarrow> p = concat (map rlp_enc its)
    \<Longrightarrow> take (length p) (st_r s) = p \<Longrightarrow> fits s (length p) \<Longrightarrow> st_stack s = of_nat (length p) # ls
    \<Longrightarrow> length (st_r s) < bound \<Longrightarrow> length (st_r s) < fuel
    \<Longrightarrow> \<exists>s'. decodeSliceElems fuel dec s acc = Some (s', Ok (acc @ xs)) \<and> took s p s'"
proof (induction its arbitrary: xs s p fuel acc)
  case Nil
  then have "Kind s = (s, KByte, 0, Some EOL)" by (simp add: Kind_EOL)
  with eol total Nil have "dec s = Some (s, Err EOL)" by blast
  with Nil show ?case by (cases fuel) (auto intro: took_Nil)
next
  case (Cons it its)
  from Cons.prems(1) obtain x xs' where xs: "xs = x # xs'" "M x it" "list_all2 M xs' its"
    by (auto simp: list_all2_Cons2)
  let ?e = "rlp_enc it" and ?p = "concat (map rlp_enc its)"
  have p: "p = ?e @ ?p" using Cons.prems(3) by simp
  note t = take_appendD [OF Cons.prems(4) [unfolded p]]
  have f: "fits s (length ?e)" using fits_le [OF Cons.prems(5)] p by simp
  from complete [OF Cons.prems(2,7) xs(2) t(1) f] obtain s1 where
    d: "dec s = Some (s1, Ok x)" "took s ?e s1" by blast
  obtain fuel' where fuel: "fuel = Suc fuel'" using Cons.prems(8) by (cases fuel) auto
  have l: "length (st_r s1) < length (st_r s)"
    using tookD(1) [OF d(2)] rlp_enc_nonempty [of it] by simp
  have "\<exists>s'. decodeSliceElems fuel' dec s1 (acc @ [x]) = Some (s', Ok ((acc @ [x]) @ xs')) \<and> took s1 ?p s'"
  proof (rule Cons.IH [OF xs(3) tookD(2) [OF d(2)] refl])
    show "take (length ?p) (st_r s1) = ?p" using t(2) tookD(1) [OF d(2)] by simp
    show "fits s1 (length ?p)" using took_fits [OF d(2) f] Cons.prems(5) p by simp
    show "st_stack s1 = of_nat (length ?p) # ls" using tookD(4) [OF d(2)] Cons.prems(6) p by simp
    show "length (st_r s1) < bound" "length (st_r s1) < fuel'" using l Cons.prems(7,8) fuel by auto
  qed
  then show ?case using took_trans [OF d(2)] by (auto simp: fuel d(1) xs(1) p)
qed

end

subsection \<open>The contract of a list body\<close>

text \<open>
  The part of a list decoder between \<open>List\<close> and \<open>ListEnd\<close>; \<open>B xs its\<close> relates the decoded
  elements to the items of the list.
\<close>

locale list_body =
  fixes body :: "stream \<Rightarrow> 'b decoded" and B :: "'b \<Rightarrow> item list \<Rightarrow> bool" and bound :: nat
  assumes body_bound: "bound < 2 ^ 64"
    and body_sound: "st_kind s = None \<Longrightarrow> length (st_r s) < 2 ^ 64 \<Longrightarrow> body s = Some (s', Ok x)
      \<Longrightarrow> \<exists>its. B x its \<and> took s (concat (map rlp_enc its)) s'"
    and body_complete: "st_kind s = None \<Longrightarrow> length (st_r s) < bound \<Longrightarrow> B x its
      \<Longrightarrow> p = concat (map rlp_enc its) \<Longrightarrow> take (length p) (st_r s) = p \<Longrightarrow> fits s (length p)
      \<Longrightarrow> st_stack s = of_nat (length p) # ls \<Longrightarrow> \<exists>s'. body s = Some (s', Ok x) \<and> took s p s'"
    and body_total: "st_kind s = None \<Longrightarrow> length (st_r s) < bound \<Longrightarrow> body s \<noteq> None"
    and body_no_eol: "body s \<noteq> Some (s', Err EOL)"
begin

lemma framed_sound:
  assumes "st_kind s = None" "length (st_r s) < 2 ^ 64" "mapVal f (andThen (Some (stream_List s)) (\<lambda>s sz. andThen (body s) list_end)) = Some (s', Ok v)"
  shows "\<exists>it. (\<exists>x its. v = f x \<and> it = Lst its \<and> B x its) \<and> took s (rlp_enc it) s'"
proof -
  from assms(3) obtain x y s1 s2 sz where v: "v = f x" and l: "stream_List s = (s1, Ok sz)"
    and b: "body s1 = Some (s2, Ok y)" and e: "list_end s2 y = Some (s', Ok x)"
    by (auto simp: decoded_simps)
  from stream_List_sound [OF assms(1) l] obtain s0 h where
    "took s h s0" "posn s1 = posn (s0\<lparr>st_stack := sz # dec_top sz (st_stack s0)\<rparr>)" by blast
  then have "st_kind s1 = None" "length (st_r s1) < 2 ^ 64"
    using tookD(1,2) [of s h s0] assms(2) by (simp_all add: posn_def)
  from body_sound [OF this b] obtain its where
    its: "B y its" "took s1 (concat (map rlp_enc its)) s2" by blast
  note fr = list_frame_sound [OF assms(1,2) l its(2) e]
  show ?thesis by (rule exI [of _ "Lst its"]) (use fr(1,3) its(1) v in auto)
qed

lemma framed_complete:
  assumes "st_kind s = None" "length (st_r s) < Suc bound" "\<exists>x its. v = f x \<and> it = Lst its \<and> B x its"
    and "take (length (rlp_enc it)) (st_r s) = rlp_enc it" "fits s (length (rlp_enc it))"
  shows "\<exists>s'. mapVal f (andThen (Some (stream_List s)) (\<lambda>s sz. andThen (body s) list_end)) = Some (s', Ok v) \<and> took s (rlp_enc it) s'"
proof -
  from assms(3) obtain x its where v: "v = f x" "it = Lst its" "B x its" by blast
  let ?p = "concat (map rlp_enc its)"
  have enc: "rlp_enc it = rlp_list ?p" by (simp add: v)
  have ls: "length (st_r s) < 2 ^ 64" using assms(2) body_bound by simp
  have "length ?p \<le> length (rlp_enc it)" by (simp add: enc rlp_list_def)
  also have "\<dots> \<le> length (st_r s)" using assms(5) by (simp only: fits_def)
  finally have lp: "length ?p < 2 ^ 64" using ls by (rule le_less_trans)
  obtain s1 l where
    s1: "stream_List s = (s1, Ok (of_nat (length ?p)))" "st_kind s1 = None"
    "st_stack s1 = of_nat (length ?p) # l" "take (length ?p) (st_r s1) = ?p" "fits s1 (length ?p)"
    "length (st_r s1) < length (st_r s)"
    by (rule list_frame_complete [OF assms(1) assms(4) [unfolded enc] assms(5) [unfolded enc] lp])
  have "length (st_r s1) < bound" using s1(6) assms(2) by simp
  from body_complete [OF s1(2) this v(3) refl s1(4,5,3)] obtain s2 where
    s2: "body s1 = Some (s2, Ok x)" "took s1 ?p s2" by blast
  from list_end_complete [OF s1(3) s2(2), of x] obtain s3 where s3: "list_end s2 x = Some (s3, Ok x)" by blast
  have "took s (rlp_list ?p) s3" by (rule list_frame_sound(3) [OF assms(1) ls s1(1) s2(2) s3])
  then show ?thesis by (simp add: enc s1(1) s2(1) s3 v(1) andThen_def mapVal_def)
qed

lemma framed_decoder:
  "elem_decoder (\<lambda>s. mapVal f (andThen (Some (stream_List s)) (\<lambda>s sz. andThen (body s) list_end)))
    (\<lambda>v it. \<exists>x its. v = f x \<and> it = Lst its \<and> B x its) (Suc bound)"
proof (unfold_locales, goal_cases)
  case 1
  then show ?case using body_bound by simp
next
  case (2 s s' v)
  then show ?case by (rule framed_sound)
next
  case (3 s v it)
  then show ?case by (rule framed_complete)
next
  case (4 s)
  have "body s1 \<noteq> None" if l: "stream_List s = (s1, Ok sz)" for s1 sz
  proof -
    from stream_List_sound [OF 4(1) l] obtain s0 h where h:
      "took s h s0" "posn s1 = posn (s0\<lparr>st_stack := sz # dec_top sz (st_stack s0)\<rparr>)"
      "h = rlp_head 0xC0 0xF7 (unat sz)" by blast
    then obtain c cs where "h = c # cs" by (cases h) (simp_all add: rlp_head_def split: if_splits)
    then have "st_kind s1 = None" "length (st_r s1) < bound"
      using tookD(1,2) [OF h(1)] h(2) 4(2) by (simp_all add: posn_def)
    then show ?thesis by (rule body_total)
  qed
  then show ?case unfolding mapVal_None andThen_None by auto
next
  case (5 s s' k sz)
  then show ?case by (simp add: stream_List_def andThen_def mapVal_def)
next
  case (6 s s')
  have "list_end s1 v \<noteq> Some (s', Err EOL)" for s1 s' and v :: 'b
    by (auto simp: list_end_def stream_ListEnd_def split: prod.splits option.splits if_splits)
  then have "stream_List s = (s', Err EOL)" using 6 body_no_eol by (simp add: decoded_simps)
  then show ?case by (rule stream_List_EOL)
next
  case (7 s s' k sz)
  then show ?case using Kind_cached [OF 7] by (simp add: stream_List_def)
qed

end

definition slice_body :: "nat \<Rightarrow> (stream \<Rightarrow> 'a decoded) \<Rightarrow> stream \<Rightarrow> 'a list decoded" where
  "slice_body fuel dec s =
     (if snd (listLimit s) = 0 then Some (s, Ok []) else decodeSliceElems fuel dec s [])"

lemma decodeListSlice_framed:
  "decodeListSlice fuel dec s =
     andThen (Some (stream_List s)) (\<lambda>s sz. andThen (slice_body fuel dec s) list_end)"
proof -
  have "snd (listLimit s1) = sz" if "stream_List s = (s1, Ok sz)" for s1 sz
    using that by (auto simp: stream_List_Kind listLimit_def)
  then show ?thesis
    unfolding decodeListSlice_def andThen_def [of "Some (stream_List s)"]
    by (cases "stream_List s") (auto simp: slice_body_def andThen_def [of "Some _"] split: sum.splits)
qed

context elem_decoder
begin

lemma slice_list_body:
  assumes "bound \<le> fuel" "bound < 2 ^ 64"
  shows "list_body (slice_body fuel dec) (list_all2 M) bound"
proof (unfold_locales, goal_cases)
  case (2 s s' xs)
  show ?case
  proof (cases "snd (listLimit s) = 0")
    case True
    with 2 show ?thesis by (intro exI [of _ "[]"]) (auto simp: slice_body_def took_Nil)
  next
    case False
    with 2(3) have "decodeSliceElems fuel dec s [] = Some (s', Ok xs)" by (simp add: slice_body_def)
    from elems_sound [OF this 2(1,2)] show ?thesis by auto
  qed
next
  case (3 s xs its p ls)
  show ?case
  proof (cases "snd (listLimit s) = 0")
    case True
    with 3 have "of_nat (length p) = (0 :: u64)" by (simp add: listLimit_def)
    moreover have "length p \<le> length (st_r s)" using 3(6) by (simp only: fits_def)
    then have "length p < 2 ^ 64" using 3(2) assms(2) by linarith
    ultimately have "length p = 0" using unat_of_nat_u64 [of "length p"] by (metis unat_0)
    then have "its = []" using rlp_enc_nonempty 3(4) by (cases its) auto
    with 3 True show ?thesis by (simp add: slice_body_def took_Nil)
  next
    case False
    with 3(2) assms(1) elems_complete [OF 3(3,1,4,5,6,7,2), of fuel "[]"] show ?thesis
      by (simp add: slice_body_def)
  qed
next
  case (4 s)
  then show ?case using elems_total [of s fuel "[]"] assms by (auto simp: slice_body_def)
next
  case (5 s s')
  have "decodeSliceElems fuel dec s1 acc \<noteq> Some (s', Err EOL)" for s1 acc fuel s'
    by (induction fuel arbitrary: s1 acc) (auto split: option.splits sum.splits)
  then show ?case by (simp add: slice_body_def)
qed (use assms in simp)

lemma array_sound:
  "decodeArrayElems n dec s acc = Some (s', Ok ys) \<Longrightarrow> st_kind s = None \<Longrightarrow> length (st_r s) < 2 ^ 64
    \<Longrightarrow> \<exists>xs its. ys = acc @ xs \<and> length xs = n \<and> list_all2 M xs its
      \<and> took s (concat (map rlp_enc its)) s'"
proof (induction n arbitrary: s acc)
  case 0
  then show ?case by (intro exI [of _ "[]"]) (simp add: took_Nil)
next
  case (Suc n)
  from Suc.prems(1) obtain s1 x where d: "dec s = Some (s1, Ok x)"
    "decodeArrayElems n dec s1 (acc @ [x]) = Some (s', Ok ys)"
    by (auto split: option.splits sum.splits if_splits)
  from sound [OF Suc.prems(2,3) d(1)] obtain it where it: "M x it" "took s (rlp_enc it) s1" by blast
  have "length (st_r s1) < 2 ^ 64" using tookD(1) [OF it(2)] Suc.prems(3) by simp
  from Suc.IH [OF d(2) tookD(2) [OF it(2)] this] obtain xs its where
    "ys = (acc @ [x]) @ xs" "length xs = n" "list_all2 M xs its" "took s1 (concat (map rlp_enc its)) s'" by blast
  with it took_trans show ?case by (intro exI [of _ "x # xs"] exI [of _ "it # its"]) auto
qed

lemma array_complete:
  "list_all2 M xs its \<Longrightarrow> length xs = n \<Longrightarrow> st_kind s = None \<Longrightarrow> p = concat (map rlp_enc its)
    \<Longrightarrow> take (length p) (st_r s) = p \<Longrightarrow> fits s (length p) \<Longrightarrow> length (st_r s) < bound
    \<Longrightarrow> \<exists>s'. decodeArrayElems n dec s acc = Some (s', Ok (acc @ xs)) \<and> took s p s'"
proof (induction its arbitrary: xs s p n acc)
  case Nil
  then show ?case by (auto simp: took_Nil)
next
  case (Cons it its)
  from Cons.prems(1,2) obtain x xs' m where xs: "xs = x # xs'" "M x it" "list_all2 M xs' its"
    "n = Suc m" "length xs' = m"
    by (auto simp: list_all2_Cons2)
  let ?e = "rlp_enc it" and ?p = "concat (map rlp_enc its)"
  have p: "p = ?e @ ?p" using Cons.prems(4) by simp
  note t = take_appendD [OF Cons.prems(5) [unfolded p]]
  have f: "fits s (length ?e)" using fits_le [OF Cons.prems(6)] p by simp
  from complete [OF Cons.prems(3,7) xs(2) t(1) f] obtain s1 where
    d: "dec s = Some (s1, Ok x)" "took s ?e s1" by blast
  have "\<exists>s'. decodeArrayElems m dec s1 (acc @ [x]) = Some (s', Ok ((acc @ [x]) @ xs')) \<and> took s1 ?p s'"
  proof (rule Cons.IH [OF xs(3,5) tookD(2) [OF d(2)] refl])
    show "take (length ?p) (st_r s1) = ?p" using t(2) tookD(1) [OF d(2)] by simp
    show "fits s1 (length ?p)" using took_fits [OF d(2) f] Cons.prems(6) p by simp
    show "length (st_r s1) < bound" using tookD(1) [OF d(2)] Cons.prems(7) by simp
  qed
  then show ?case using took_trans [OF d(2)] by (auto simp: d(1) xs p)
qed

lemma array_total:
  "st_kind s = None \<Longrightarrow> length (st_r s) < bound \<Longrightarrow> decodeArrayElems n dec s acc \<noteq> None"
proof (induction n arbitrary: s acc)
  case (Suc n)
  from total [OF Suc.prems(1,2)] obtain s1 r where d: "dec s = Some (s1, r)" by fastforce
  show ?case
  proof (cases r)
    case (Inr x)
    with d progress [OF Suc.prems(1), of s1 x] Suc.prems bound_le
    have "length (st_r s1) < length (st_r s)" "st_kind s1 = None" by auto
    with Suc show ?thesis by (simp add: d Inr)
  qed (simp add: d)
qed simp

lemma array_list_body:
  assumes "bound < 2 ^ 64"
  shows "list_body (\<lambda>s. decodeArrayElems n dec s []) (\<lambda>xs its. length xs = n \<and> list_all2 M xs its) bound"
proof (unfold_locales, goal_cases)
  case (2 s s' xs)
  from array_sound [OF 2(3,1,2)] show ?case by auto
next
  case (3 s xs its p ls)
  then show ?case using array_complete [of xs its n s p "[]"] by simp
next
  case (4 s)
  then show ?case by (rule array_total)
next
  case (5 s s')
  have "decodeArrayElems n dec s1 acc \<noteq> Some (s', Err EOL)" for s1 acc n s'
    by (induction n arbitrary: s1 acc) (auto split: option.splits sum.splits)
  then show ?case .
qed (use assms in simp)

end

subsection \<open>Structs\<close>

text \<open>The items a struct is decoded from: one per field, except that trailing items may be
  missing from the first missing field on if that field is optional; the missing fields are zero.\<close>

fun match_fields :: "(('a \<Rightarrow> item \<Rightarrow> bool) \<times> bool \<times> 'a) list \<Rightarrow> 'a list \<Rightarrow> item list \<Rightarrow> bool" where
  "match_fields [] vs its = (vs = [] \<and> its = [])"
| "match_fields ((m, opt, z) # fs) vs its =
     (case (vs, its) of
        (v # vs, it # its) \<Rightarrow> m v it \<and> match_fields fs vs its
      | (v # vs, []) \<Rightarrow> opt \<and> v = z \<and> vs = map (\<lambda>f. snd (snd f)) fs
      | ([], _) \<Rightarrow> False)"

definition fields_ok where
  "fields_ok fs ms bound = list_all2 (\<lambda>f m. elem_decoder (fst f) (fst m) bound \<and> snd f = snd m) fs ms"

lemma fields_ok_zeros: "fields_ok fs ms n \<Longrightarrow> map (\<lambda>f. snd (snd f)) fs = map (\<lambda>f. snd (snd f)) ms"
  unfolding fields_ok_def by (induction rule: list_all2_induct) auto

lemma fields_sound:
  assumes "fields_ok fs ms bound" "decodeFields fs s acc = Some (s', Ok ys)" "st_kind s = None"
    "length (st_r s) < 2 ^ 64"
  shows "\<exists>xs its. ys = acc @ xs \<and> match_fields ms xs its \<and> took s (concat (map rlp_enc its)) s'"
  using assms
proof (induction fs arbitrary: ms s acc)
  case Nil
  then show ?case by (intro exI [of _ "[]"]) (simp add: took_Nil fields_ok_def)
next
  case (Cons f fs)
  obtain dec opt z where f: "f = (dec, opt, z)" by (cases f) auto
  from Cons.prems(1) f obtain m ms' where ms: "ms = (m, opt, z) # ms'" "fields_ok fs ms' bound"
    and ed: "elem_decoder dec m bound" by (auto simp: fields_ok_def list_all2_Cons1)
  from Cons.prems(2) obtain s1 r where d: "dec s = Some (s1, r)" by (auto simp: f split: option.splits)
  show ?case
  proof (cases r)
    case (Inl e)
    with Cons.prems(2) d have e: "e = EOL" "opt" "s1 = s'" "ys = acc @ z # map (\<lambda>f. snd (snd f)) fs"
      by (auto simp: f split: if_splits)
    then have "s' = s"
      using elem_decoder.eol_only [OF ed, of s s1] d Inl Kind_EOL_only [OF Cons.prems(3), of s1] by auto
    with e Cons.prems(3) fields_ok_zeros [OF ms(2)] show ?thesis
      by (intro exI [of _ "z # map (\<lambda>f. snd (snd f)) fs"] exI [of _ "[]"]) (simp add: ms(1) took_Nil)
  next
    case (Inr x)
    from elem_decoder.sound [OF ed Cons.prems(3,4)] d Inr obtain it where
      it: "m x it" "took s (rlp_enc it) s1" by blast
    have "length (st_r s1) < 2 ^ 64" using tookD(1) [OF it(2)] Cons.prems(4) by simp
    with Cons.IH [OF ms(2), of s1 "acc @ [x]"] Cons.prems(2) d Inr tookD(2) [OF it(2)] obtain xs its where
      "ys = (acc @ [x]) @ xs" "match_fields ms' xs its" "took s1 (concat (map rlp_enc its)) s'"
      by (auto simp: f)
    with it took_trans show ?thesis
      by (intro exI [of _ "x # xs"] exI [of _ "it # its"]) (auto simp: ms(1))
  qed
qed

lemma fields_complete:
  assumes "fields_ok fs ms bound" "match_fields ms xs its" "st_kind s = None"
    "p = concat (map rlp_enc its)" "take (length p) (st_r s) = p" "fits s (length p)"
    "st_stack s = of_nat (length p) # ls" "length (st_r s) < bound"
  shows "\<exists>s'. decodeFields fs s acc = Some (s', Ok (acc @ xs)) \<and> took s p s'"
  using assms
proof (induction fs arbitrary: ms s p xs its acc)
  case Nil
  then show ?case by (simp add: took_Nil fields_ok_def)
next
  case (Cons f fs)
  obtain dec opt z where f: "f = (dec, opt, z)" by (cases f) auto
  from Cons.prems(1) f obtain m ms' where ms: "ms = (m, opt, z) # ms'" "fields_ok fs ms' bound"
    and ed: "elem_decoder dec m bound" by (auto simp: fields_ok_def list_all2_Cons1)
  show ?case
  proof (cases its)
    case Nil
    with Cons.prems(2) have xs: "opt" "xs = z # map (\<lambda>f. snd (snd f)) ms'"
      by (auto simp: ms(1) split: list.splits)
    have "Kind s = (s, KByte, 0, Some EOL)" using Cons.prems(3,4,7) Nil by (simp add: Kind_EOL)
    with elem_decoder.eol [OF ed] elem_decoder.total [OF ed Cons.prems(3,8)]
    have "dec s = Some (s, Err EOL)" by blast
    with xs Cons.prems(3,4) Nil fields_ok_zeros [OF ms(2)] show ?thesis by (simp add: f took_Nil)
  next
    case (Cons it its')
    with Cons.prems(2) obtain x xs' where xs: "xs = x # xs'" "m x it" "match_fields ms' xs' its'"
      by (auto simp: ms(1) split: list.splits)
    let ?e = "rlp_enc it" and ?p = "concat (map rlp_enc its')"
    have p: "p = ?e @ ?p" using Cons.prems(4) Cons by simp
    note t = take_appendD [OF Cons.prems(5) [unfolded p]]
    have ft: "fits s (length ?e)" using fits_le [OF Cons.prems(6)] p by simp
    from elem_decoder.complete [OF ed Cons.prems(3,8) xs(2) t(1) ft] obtain s1 where
      d: "dec s = Some (s1, Ok x)" "took s ?e s1" by blast
    have "\<exists>s'. decodeFields fs s1 (acc @ [x]) = Some (s', Ok ((acc @ [x]) @ xs')) \<and> took s1 ?p s'"
    proof (rule Cons.IH [OF ms(2) xs(3) tookD(2) [OF d(2)] refl])
      show "take (length ?p) (st_r s1) = ?p" using t(2) tookD(1) [OF d(2)] by simp
      show "fits s1 (length ?p)" using took_fits [OF d(2) ft] Cons.prems(6) p by simp
      show "st_stack s1 = of_nat (length ?p) # ls" using tookD(4) [OF d(2)] Cons.prems(7) p by simp
      show "length (st_r s1) < bound" using tookD(1) [OF d(2)] Cons.prems(8) by simp
    qed
    then show ?thesis using took_trans [OF d(2)] by (auto simp: f d(1) xs(1) p)
  qed
qed

lemma fields_total:
  "fields_ok fs ms bound \<Longrightarrow> st_kind s = None \<Longrightarrow> length (st_r s) < bound \<Longrightarrow> decodeFields fs s acc \<noteq> None"
proof (induction fs arbitrary: ms s acc)
  case (Cons f fs)
  obtain dec opt z where f: "f = (dec, opt, z)" by (cases f) auto
  from Cons.prems(1) f obtain m ms' where ms: "fields_ok fs ms' bound"
    and ed: "elem_decoder dec m bound" by (auto simp: fields_ok_def list_all2_Cons1)
  from elem_decoder.total [OF ed Cons.prems(2,3)] obtain s1 r where d: "dec s = Some (s1, r)" by fastforce
  show ?case
  proof (cases r)
    case (Inr x)
    have "length (st_r s) < 2 ^ 64" using elem_decoder.bound_le [OF ed] Cons.prems(3) by simp
    with elem_decoder.progress [OF ed Cons.prems(2)] d Inr Cons.prems(3)
    have "length (st_r s1) < bound" "st_kind s1 = None" by fastforce+
    with Cons.IH [OF ms] show ?thesis by (simp add: f d Inr)
  qed (simp add: f d)
qed simp

lemma fields_list_body:
  assumes "fields_ok fs ms bound" "bound < 2 ^ 64"
  shows "list_body (\<lambda>s. decodeFields fs s []) (match_fields ms) bound"
proof (unfold_locales, goal_cases)
  case (2 s s' xs)
  from fields_sound [OF assms(1) 2(3,1,2)] show ?case by auto
next
  case (3 s xs its p ls)
  from fields_complete [OF assms(1) 3(3,1,4,5,6,7,2), of "[]"] show ?case by simp
next
  case (4 s)
  then show ?case by (rule fields_total [OF assms(1)])
next
  case (5 s s')
  have "decodeFields fs s1 acc \<noteq> Some (s', Err EOL)" for s1 acc s'
    by (induction fs arbitrary: s1 acc) (auto split: option.splits sum.splits if_splits)
  then show ?case .
qed (use assms in simp)

subsection \<open>Strings, pointers and interfaces\<close>

lemma string_decoder:
  assumes iff: "\<And>s s' x. d s = (s', Ok x) \<longleftrightarrow> (\<exists>b. Bytes s = (s', Ok b) \<and> R x b)"
    and eol: "\<And>s s' k sz. Kind s = (s', k, sz, Some EOL) \<Longrightarrow> d s = (s', Err EOL)"
    and eol_only: "\<And>s s'. d s = (s', Err EOL) \<Longrightarrow> \<exists>k sz. Kind s = (s', k, sz, Some EOL)"
    and cached: "\<And>s s' k sz. Kind s = (s', k, sz, None) \<Longrightarrow> d s' = d s"
    and n: "n \<le> 2 ^ 64"
  shows "elem_decoder (\<lambda>s. mapVal f (Some (d s))) (\<lambda>v it. \<exists>x b. v = f x \<and> it = Str b \<and> R x b) n"
proof (unfold_locales, goal_cases)
  case (2 s s' v)
  then obtain x b where x: "v = f x" "Bytes s = (s', Ok b)" "R x b" by (auto simp: decoded_simps iff)
  from Bytes_sound [OF 2(1) x(2)] x show ?case by (intro exI [of _ "Str b"]) auto
next
  case (3 s v it)
  then obtain x b where x: "v = f x" "it = Str b" "R x b" by blast
  have "length b \<le> length (rlp_enc it)" by (simp add: x rlp_string_def)
  also have "\<dots> \<le> length (st_r s)" using 3(5) by (simp only: fits_def)
  also have "\<dots> < 2 ^ 64" using 3(2) n by linarith
  finally have "length b < 2 ^ 64" .
  then obtain s' where s': "Bytes s = (s', Ok b)" using Bytes_complete [OF 3(1)] 3(4,5) x(2) by auto
  from Bytes_sound [OF 3(1) s'] have "took s (rlp_enc it) s'" by (simp add: x)
  moreover have "d s = (s', Ok x)" using iff s' x by blast
  ultimately show ?case by (auto simp: decoded_simps x(1))
next
  case (4 s)
  then show ?case by (simp add: decoded_simps)
next
  case (5 s s' k sz)
  from eol [OF 5(1)] show ?case by (simp add: decoded_simps)
next
  case (6 s s')
  then show ?case using eol_only by (simp add: decoded_simps)
next
  case (7 s s' k sz)
  from cached [OF 7] show ?case by simp
qed (rule n)

text \<open>The header that \<open>Kind\<close> finds in front of an item.\<close>

fun item_head :: "item \<Rightarrow> kind \<times> nat" where
  "item_head (Str b) = (if length b = 1 \<and> b ! 0 < 0x80 then (KByte, 0) else (KString, length b))"
| "item_head (Lst its) = (KList, length (concat (map rlp_enc its)))"

lemma Kind_item:
  assumes "st_kind s = None" "take (length (rlp_enc it)) (st_r s) = rlp_enc it"
    "fits s (length (rlp_enc it))" "length (st_r s) < 2 ^ 64"
  shows "\<exists>s1 h. Kind s = (s1, fst (item_head it), of_nat (snd (item_head it)), None)
    \<and> took s h (s1\<lparr>st_kind := None\<rparr>) \<and> (snd (item_head it) = 0 \<longrightarrow> h = rlp_enc it)
    \<and> unat (of_nat (snd (item_head it)) :: u64) = snd (item_head it)"
proof -
  obtain h n bv where h: "rlp_enc it = h @ drop (length h) (rlp_enc it)"
    "length (rlp_enc it) = length h + n" "header (fst (item_head it)) n bv h" "snd (item_head it) = n"
  proof (cases it)
    case (Str b)
    have l: "length b < 2 ^ 64" if "length b \<le> length (rlp_enc it)"
      using that assms(3,4) by (simp add: fits_def)
    show ?thesis
    proof (cases b rule: rlp_string_cases)
      case (1 v)
      with Str show ?thesis by (intro that [of "[v]" 0 v]) auto
    next
      case 2
      then show ?thesis using Str l
        by (intro that [of "rlp_head 0x80 0xB7 (length b)" "length b" 0]) auto
    qed
  next
    case (Lst its)
    let ?p = "concat (map rlp_enc its)"
    have e: "rlp_enc it = rlp_head 0xC0 0xF7 (length ?p) @ ?p" by (simp add: Lst rlp_list_def)
    have "length ?p < 2 ^ 64" using assms(3,4) unfolding e by (simp add: fits_def)
    with e Lst show ?thesis by (intro that [of "rlp_head 0xC0 0xF7 (length ?p)" "length ?p" 0]) auto
  qed
  have t: "take (length h) (st_r s) = h"
    using take_appendD(1) [of h "drop (length h) (rlp_enc it)" "st_r s"] assms(2) h(1) by simp
  have f: "fits s (length h + n)" using assms(3) h(2) by simp
  then have "fits s (length h)" using fits_le by force
  from Kind_complete [OF t h(3) this fits_size_ok [OF f] assms(1)]
  show ?thesis unfolding h(4)
    using t h unat_of_nat_u64 [OF header_less [OF h(3)]]
    by (intro exI [of _ h] exI) (auto simp: took_def posn_def)
qed

lemma item_head_0: "fst (item_head it) \<noteq> KByte \<Longrightarrow> snd (item_head it) = 0 \<longleftrightarrow> it = Str [] \<or> it = Lst []"
  using rlp_enc_nonempty by (cases it) (auto split: if_splits)

lemma decodeNilPtr_Kind:
  assumes "Kind s = (s1, k, sz, None)"
  shows "decodeNilPtr nk dec s =
    (if k \<noteq> KByte \<and> sz = 0 then
       (if k \<noteq> nk then Some (s1, Err (ErrWrongEmptyKind k nk))
        else Some (s1\<lparr>st_kind := None\<rparr>, Ok (VNil nk)))
     else dec s1)"
  by (simp add: decodeNilPtr_def assms)

lemma Kind_empty_item:
  assumes "st_kind s = None" "took s (rlp_enc it) s'" "Kind s = (s1, k, sz, None)"
    "length (st_r s) < 2 ^ 64" "it = Str [] \<or> it = Lst []"
  shows "k \<noteq> KByte \<and> sz = 0"
proof -
  have "fits s 1"
    using Kind_sound [OF assms(3,1)] fits_le [of s _ 1] header_nonempty
    by (auto simp: Suc_le_eq)
  moreover have "length (rlp_enc it) = 1" using assms(5) by (auto simp: rlp_string_def rlp_list_def rlp_head_def)
  ultimately have "\<exists>s1. Kind s = (s1, fst (item_head it), of_nat (snd (item_head it)), None)"
    using Kind_item [OF assms(1), of it] assms(2,4) by (metis took_def)
  then show ?thesis using assms(3,5) by auto
qed

lemma nil_ptr_sound:
  assumes "elem_decoder dec M n" "st_kind s = None" "length (st_r s) < 2 ^ 64" "decodeNilPtr nk dec s = Some (s', Ok v)"
  shows "\<exists>it. (if it = Str [] then nk = KString \<and> v = VNil KString else if it = Lst [] then nk = KList \<and> v = VNil KList else M v it) \<and> took s (rlp_enc it) s'"
proof -
  from assms(4) obtain s1 k sz where K: "Kind s = (s1, k, sz, None)"
    by (cases "Kind s") (auto simp: decodeNilPtr_def split: option.splits)
  note d = assms(4) [unfolded decodeNilPtr_Kind [OF K]]
  show ?thesis
  proof (cases "k \<noteq> KByte \<and> sz = 0")
    case True
    with d have r: "k = nk" "s' = s1\<lparr>st_kind := None\<rparr>" "v = VNil nk" by (auto split: if_splits)
    from Kind_sound [OF K assms(2)] obtain h bv where h: "take (length h) (st_r s) = h"
      "header k (unat sz) bv h" "s1 = (adv (length h) s)\<lparr>st_byteval := bv, st_kind := Some k,
         st_size := sz, st_kinderr := None\<rparr>" by (elim exE conjE) (rule that)
    then have t: "took s h s'" by (simp add: r took_def posn_def)
    have "h = rlp_enc (if k = KString then Str [] else Lst [])"
      using True h(2) by (cases k) (simp_all add: rlp_string_def rlp_list_def)
    then show ?thesis using True t r
      by (cases k; intro exI [of _ "if k = KString then Str [] else Lst []"]) simp_all
  next
    case False
    with d have "dec s = Some (s', Ok v)" using elem_decoder.cached [OF assms(1) K] by simp
    from elem_decoder.sound [OF assms(1) assms(2,3) this] obtain it where
      it: "M v it" "took s (rlp_enc it) s'" by blast
    with False Kind_empty_item [OF assms(2) it(2) K assms(3)] show ?thesis by (intro exI [of _ it]) auto
  qed
qed

lemma nil_ptr_complete:
  assumes "elem_decoder dec M n" "st_kind s = None" "length (st_r s) < n"
    and "if it = Str [] then nk = KString \<and> v = VNil KString else if it = Lst [] then nk = KList \<and> v = VNil KList else M v it"
    and "take (length (rlp_enc it)) (st_r s) = rlp_enc it" "fits s (length (rlp_enc it))"
  shows "\<exists>s'. decodeNilPtr nk dec s = Some (s', Ok v) \<and> took s (rlp_enc it) s'"
proof -
  have l: "length (st_r s) < 2 ^ 64" using assms(3) elem_decoder.bound_le [OF assms(1)] by simp
  from Kind_item [OF assms(2,5,6) l] obtain s1 h where
    K: "Kind s = (s1, fst (item_head it), of_nat (snd (item_head it)), None)"
    "took s h (s1\<lparr>st_kind := None\<rparr>)" "snd (item_head it) = 0 \<longrightarrow> h = rlp_enc it"
    "unat (of_nat (snd (item_head it)) :: u64) = snd (item_head it)" by (elim exE conjE) (rule that)
  have z: "of_nat (snd (item_head it)) = (0 :: u64) \<longleftrightarrow> snd (item_head it) = 0"
  proof
    assume "of_nat (snd (item_head it)) = (0 :: u64)"
    with K(4) show "snd (item_head it) = 0" by simp
  qed simp
  show ?thesis
  proof (cases "it = Str [] \<or> it = Lst []")
    case True
    then consider "it = Str []" "nk = KString" "v = VNil KString" | "it = Lst []" "nk = KList" "v = VNil KList"
      using assms(4) by (auto split: if_splits)
    then have "fst (item_head it) \<noteq> KByte" "snd (item_head it) = 0" "fst (item_head it) = nk" "v = VNil nk"
      by (cases; simp)+
    then show ?thesis using K(2,3) decodeNilPtr_Kind [OF K(1), of nk dec] by simp
  next
    case False
    then have "decodeNilPtr nk dec s = dec s"
      using decodeNilPtr_Kind [OF K(1), of nk dec] item_head_0 [of it] z elem_decoder.cached [OF assms(1) K(1)] by auto
    then show ?thesis using elem_decoder.complete [OF assms(1) assms(2,3) _ assms(5,6)] assms(4) False by auto
  qed
qed

lemma nil_ptr_decoder:
  assumes ed: "elem_decoder dec M n"
  shows "elem_decoder (decodeNilPtr nk dec)
    (\<lambda>v it. if it = Str [] then nk = KString \<and> v = VNil KString
            else if it = Lst [] then nk = KList \<and> v = VNil KList else M v it) n"
proof (unfold_locales, goal_cases)
  case 1
  show ?case by (rule elem_decoder.bound_le [OF ed])
next
  case (2 s s' v)
  show ?case by (rule nil_ptr_sound [OF ed 2])
next
  case (3 s v it)
  show ?case by (rule nil_ptr_complete [OF ed 3])
next
  case (4 s)
  obtain s1 k sz e where K: "Kind s = (s1, k, sz, e)" by (cases "Kind s") auto
  show ?case
  proof (cases e)
    case None
    with K have "Kind s = (s1, k, sz, None)" by simp
    from decodeNilPtr_Kind [OF this, of nk dec] elem_decoder.cached [OF ed this]
    show ?thesis using elem_decoder.total [OF ed 4] by simp
  qed (simp add: decodeNilPtr_def K)
next
  case (5 s s' k sz)
  then show ?case by (simp add: decodeNilPtr_def)
next
  case (6 s s')
  obtain s1 k sz e where K: "Kind s = (s1, k, sz, e)" by (cases "Kind s") auto
  show ?case
  proof (cases e)
    case None
    then have "dec s = Some (s', Err EOL)"
      using 6 K elem_decoder.cached [OF ed, of s s1 k sz] by (auto simp: decodeNilPtr_Kind split: if_splits)
    then show ?thesis by (rule elem_decoder.eol_only [OF ed])
  qed (use 6 K in \<open>auto simp: decodeNilPtr_def\<close>)
next
  case (7 s s' k sz)
  show ?case unfolding decodeNilPtr_Kind [OF 7] decodeNilPtr_Kind [OF Kind_cached [OF 7]] ..
qed

text \<open>\<open>decodeInterface\<close> chooses by the kind.\<close>

definition by_kind :: "(stream \<Rightarrow> 'a decoded) \<Rightarrow> (stream \<Rightarrow> 'a decoded) \<Rightarrow> stream \<Rightarrow> 'a decoded" where
  "by_kind d1 d2 s =
     (case Kind s of (s, k, sz, Some err) \<Rightarrow> Some (s, Err err)
      | (s, k, sz, None) \<Rightarrow> if k = KList then d1 s else d2 s)"

lemma by_kind_Kind:
  assumes "elem_decoder d1 M1 n" "elem_decoder d2 M2 n" "Kind s = (s1, k, sz, None)"
  shows "by_kind d1 d2 s = (if k = KList then d1 s else d2 s)"
  using elem_decoder.cached [OF assms(1,3)] elem_decoder.cached [OF assms(2,3)]
  by (simp add: by_kind_def assms(3))

lemma by_kind_decoder:
  assumes ed: "elem_decoder d1 M1 n" "elem_decoder d2 M2 n"
    and M: "\<And>v it. M1 v it \<Longrightarrow> \<exists>its. it = Lst its" "\<And>v it. M2 v it \<Longrightarrow> \<exists>b. it = Str b"
  shows "elem_decoder (by_kind d1 d2) (\<lambda>v it. M1 v it \<or> M2 v it) n"
proof (unfold_locales, goal_cases)
  case 1
  show ?case by (rule elem_decoder.bound_le [OF ed(1)])
next
  case (2 s s' v)
  then obtain s1 k sz where K: "Kind s = (s1, k, sz, None)"
    by (cases "Kind s") (auto simp: by_kind_def split: option.splits)
  then show ?case
    using 2(3) elem_decoder.sound [OF ed(1) 2(1,2), of s' v] elem_decoder.sound [OF ed(2) 2(1,2), of s' v]
    by (auto simp: by_kind_Kind [OF ed K] split: if_splits)
next
  case (3 s v it)
  have l: "length (st_r s) < 2 ^ 64" using 3(2) elem_decoder.bound_le [OF ed(1)] by simp
  from Kind_item [OF 3(1,4,5) l] obtain s1 sz where K: "Kind s = (s1, fst (item_head it), sz, None)" by blast
  show ?case
  proof (cases "M1 v it")
    case True
    with M(1) have "fst (item_head it) = KList" by fastforce
    then show ?thesis using elem_decoder.complete [OF ed(1) 3(1,2) True 3(4,5)] by_kind_Kind [OF ed K] by simp
  next
    case False
    with 3(3) have m: "M2 v it" by simp
    then obtain b where "it = Str b" using M(2) by blast
    then have "fst (item_head it) \<noteq> KList" by simp
    then show ?thesis using elem_decoder.complete [OF ed(2) 3(1,2) m 3(4,5)] by_kind_Kind [OF ed K] by simp
  qed
next
  case (4 s)
  obtain s1 k sz e where K: "Kind s = (s1, k, sz, e)" by (cases "Kind s") auto
  show ?case
  proof (cases e)
    case None
    with K have "Kind s = (s1, k, sz, None)" by simp
    from by_kind_Kind [OF ed this] show ?thesis
      using elem_decoder.total [OF ed(1) 4] elem_decoder.total [OF ed(2) 4] by auto
  qed (simp add: by_kind_def K)
next
  case (5 s s' k sz)
  then show ?case by (simp add: by_kind_def)
next
  case (6 s s')
  obtain s1 k sz e where K: "Kind s = (s1, k, sz, e)" by (cases "Kind s") auto
  show ?case
  proof (cases e)
    case None
    with K have K': "Kind s = (s1, k, sz, None)" by simp
    show ?thesis
      using 6 elem_decoder.eol_only [OF ed(1), of s s'] elem_decoder.eol_only [OF ed(2), of s s']
      by (auto simp: by_kind_Kind [OF ed K'] split: if_splits)
  qed (use 6 K in \<open>auto simp: by_kind_def\<close>)
next
  case (7 s s' k sz)
  show ?case unfolding by_kind_def Kind_cached [OF 7] 7 ..
qed

subsection \<open>Typed decoding\<close>

fun value_of :: "item \<Rightarrow> goval" where
  "value_of (Str b) = VBytes b"
| "value_of (Lst its) = VSlice (map value_of its)"

text \<open>\<open>matches t v it\<close>: decoding the item \<open>it\<close> into the type \<open>t\<close> gives \<open>v\<close>.\<close>

fun matches :: "gotype \<Rightarrow> goval \<Rightarrow> item \<Rightarrow> bool" where
  "matches (TUint u) v it =
     (\<exists>i b. v = VUint i \<and> it = Str b \<and> b = be_bytes (unat i) \<and> length b \<le> Bits u div 8)"
| "matches TBool v it = (\<exists>c b. v = VBool c \<and> it = Str b \<and> b = (if c then [1] else []))"
| "matches TBigInt v it = (\<exists>n b. v = VBigInt (int n) \<and> it = Str b \<and> b = be_bytes n)"
| "matches TBytes v it = (\<exists>x b. v = VBytes x \<and> it = Str b \<and> b = x)"
| "matches (TByteArray n) v it = (\<exists>x b. v = VByteArray x \<and> it = Str b \<and> b = x \<and> length x = unat n)"
| "matches (TSlice t) v it = (\<exists>xs its. v = VSlice xs \<and> it = Lst its \<and> list_all2 (matches t) xs its)"
| "matches (TArray n t) v it =
     (\<exists>xs its. v = VSlice xs \<and> it = Lst its \<and> length xs = n \<and> list_all2 (matches t) xs its)"
| "matches (TStruct fs) v it =
     (\<exists>xs its. v = VStruct xs \<and> it = Lst its
        \<and> match_fields (map (\<lambda>f. (matches (fst f), snd f, zero_value (fst f))) fs) xs its)"
| "matches (TPtr t) v it = matches t v it"
| "matches (TNilPtr t k) v it =
     (if it = Str [] then k = KString \<and> v = VNil KString
      else if it = Lst [] then k = KList \<and> v = VNil KList else matches t v it)"
| "matches TIface v it = (v = value_of it)"

lemma prim_eol:
  assumes "Kind s = (s', k, sz, Some EOL)"
  shows "Bytes s = (s', Err EOL)" "stream_uint n s = (s', Err EOL)" "stream_Bool s = (s', Err EOL)"
    "decodeBigInt s = (s', Err EOL)" "decodeByteArray m s = (s', Err EOL)"
  by (cases k; simp add: Bytes_def stream_uint_def stream_Bool_def decodeBigInt_def decodeByteArray_def assms)+

lemma prim_cached:
  assumes "Kind s = (s', k, sz, None)"
  shows "Bytes s' = Bytes s" "stream_uint n s' = stream_uint n s" "stream_Bool s' = stream_Bool s"
    "decodeBigInt s' = decodeBigInt s" "decodeByteArray m s' = decodeByteArray m s"
  unfolding Bytes_def stream_uint_def stream_Bool_def decodeBigInt_def decodeByteArray_def
    Kind_cached [OF assms] assms by (rule refl)+

lemma readUint_not_EOL: "readUint n s = (s', Err e) \<Longrightarrow> e \<noteq> EOL"
  by (auto simp: readUint_def readByte_def willRead_def listLimit_def Let_def dest: readFull_not_EOL
      split: prod.splits sum.splits if_splits option.splits list.splits)

lemma prim_eol_only:
  "stream_uint n s = (s', Err EOL) \<Longrightarrow> \<exists>k sz. Kind s = (s', k, sz, Some EOL)"
  "decodeBigInt s = (s', Err EOL) \<Longrightarrow> \<exists>k sz. Kind s = (s', k, sz, Some EOL)"
  "decodeByteArray m s = (s', Err EOL) \<Longrightarrow> \<exists>k sz. Kind s = (s', k, sz, Some EOL)"
proof -
  obtain s1 k sz e where K: "Kind s = (s1, k, sz, e)" by (cases "Kind s") auto
  show "stream_uint n s = (s', Err EOL) \<Longrightarrow> \<exists>k sz. Kind s = (s', k, sz, Some EOL)"
    unfolding stream_uint_def K
    by (cases e; cases k) (auto dest: readUint_not_EOL split: prod.splits sum.splits if_splits)
  show "decodeBigInt s = (s', Err EOL) \<Longrightarrow> \<exists>k sz. Kind s = (s', k, sz, Some EOL)"
    unfolding decodeBigInt_def K Let_def
    by (cases e; cases k) (auto dest: readFull_not_EOL split: prod.splits sum.splits if_splits)
  show "decodeByteArray m s = (s', Err EOL) \<Longrightarrow> \<exists>k sz. Kind s = (s', k, sz, Some EOL)"
    unfolding decodeByteArray_def K
    by (cases e; cases k) (auto dest: readFull_not_EOL split: prod.splits sum.splits if_splits)
qed

lemma stream_Bool_eol_only:
  "stream_Bool s = (s', Err EOL) \<Longrightarrow> \<exists>k sz. Kind s = (s', k, sz, Some EOL)"
  using prim_eol_only(1) [of 8 s]
  by (auto simp: stream_Bool_def split: prod.splits sum.splits if_splits)

lemma Bytes_decoder:
  "n \<le> 2 ^ 64 \<Longrightarrow> elem_decoder (\<lambda>s. mapVal f (Some (Bytes s))) (\<lambda>v it. \<exists>x b. v = f x \<and> it = Str b \<and> b = x) n"
  by (rule string_decoder) (auto simp: prim_eol prim_cached Bytes_EOL)

abbreviation "maxlen \<equiv> 2 ^ 64 - 1 :: nat"

lemma interface_decoder: "elem_decoder (decodeInterface fuel) (\<lambda>v it. v = value_of it) (min fuel maxlen)"
proof (induction fuel)
  case 0
  show ?case by unfold_locales simp_all
next
  case (Suc fuel)
  let ?n = "min fuel (maxlen - 1)"
  have eq: "decodeInterface (Suc fuel) =
      by_kind (\<lambda>s. mapVal VSlice (decodeListSlice (Suc fuel) (decodeInterface fuel) s))
             (\<lambda>s. mapVal VBytes (Some (Bytes s)))"
    by (rule ext) (simp add: by_kind_def)
  have M: "(v = value_of it) \<longleftrightarrow>
      (\<exists>xs its. v = VSlice xs \<and> it = Lst its \<and> list_all2 (\<lambda>v it. v = value_of it) xs its)
      \<or> (\<exists>x b. v = VBytes x \<and> it = Str b \<and> b = x)" for v it
  proof -
    have "list_all2 (\<lambda>v it. v = value_of it) xs its \<longleftrightarrow> xs = map value_of its" for xs its
      by (auto simp: list_all2_conv_all_nth list_eq_iff_nth_eq)
    then show ?thesis by (cases it) auto
  qed
  have ed: "elem_decoder (decodeInterface fuel) (\<lambda>v it. v = value_of it) ?n"
    by (rule elem_decoder.decoder_mono [OF Suc.IH]) (rule min.mono, simp_all)
  have "list_body (slice_body (Suc fuel) (decodeInterface fuel)) (list_all2 (\<lambda>v it. v = value_of it)) ?n"
    using ed by (rule elem_decoder.slice_list_body) simp_all
  from by_kind_decoder [OF list_body.framed_decoder [OF this, of VSlice] Bytes_decoder [of "Suc ?n" VBytes]]
  have "elem_decoder (decodeInterface (Suc fuel)) (\<lambda>v it.
      (\<exists>xs its. v = VSlice xs \<and> it = Lst its \<and> list_all2 (\<lambda>v it. v = value_of it) xs its)
      \<or> (\<exists>x b. v = VBytes x \<and> it = Str b \<and> b = x)) (Suc ?n)"
    unfolding eq decodeListSlice_framed by fastforce
  moreover have "(\<lambda>v it. (\<exists>xs its. v = VSlice xs \<and> it = Lst its \<and> list_all2 (\<lambda>v it. v = value_of it) xs its)
      \<or> (\<exists>x b. v = VBytes x \<and> it = Str b \<and> b = x)) = (\<lambda>v it. v = value_of it)"
    by (intro ext M [symmetric])
  ultimately have "elem_decoder (decodeInterface (Suc fuel)) (\<lambda>v it. v = value_of it) (Suc ?n)"
    by (rule subst [where P = "\<lambda>m. elem_decoder _ m _", rotated])
  moreover have "Suc ?n = min (Suc fuel) maxlen" by simp
  ultimately show ?case by (simp only:)
qed

lemma makeDecoder_fun:
  "makeDecoder fuel (TUint u) = (\<lambda>s. mapVal VUint (Some (stream_uint (Bits u) s)))"
  "makeDecoder fuel TBool = (\<lambda>s. mapVal VBool (Some (stream_Bool s)))"
  "makeDecoder fuel TBigInt = (\<lambda>s. mapVal (\<lambda>n. VBigInt (int n)) (Some (decodeBigInt s)))"
  "makeDecoder fuel TBytes = (\<lambda>s. mapVal VBytes (Some (Bytes s)))"
  "makeDecoder fuel (TByteArray n) = (\<lambda>s. mapVal VByteArray (Some (decodeByteArray (unat n) s)))"
  "makeDecoder fuel (TSlice t) = (\<lambda>s. mapVal VSlice (decodeListSlice fuel (makeDecoder fuel t) s))"
  "makeDecoder fuel (TArray m t) = (\<lambda>s. mapVal VSlice (decodeListArray m (makeDecoder fuel t) s))"
  "makeDecoder fuel (TStruct fs) = (\<lambda>s. mapVal VStruct
       (decodeStruct (map (\<lambda>f. (makeDecoder fuel (fst f), snd f, zero_value (fst f))) fs) s))"
  "makeDecoder fuel (TPtr t) = (\<lambda>s. makeDecoder fuel t s)"
  "makeDecoder fuel (TNilPtr t nilKind) = (\<lambda>s. decodeNilPtr nilKind (makeDecoder fuel t) s)"
  "makeDecoder fuel TIface = (\<lambda>s. decodeInterface fuel s)"
  by (rule ext, simp only: makeDecoder.simps)+

lemma matches_fun:
  "matches (TUint u) = (\<lambda>v it. (\<exists>i b. v = VUint i \<and> it = Str b \<and> b = be_bytes (unat i) \<and> length b \<le> Bits u div 8))"
  "matches TBool = (\<lambda>v it. (\<exists>c b. v = VBool c \<and> it = Str b \<and> b = (if c then [1] else [])))"
  "matches TBigInt = (\<lambda>v it. (\<exists>n b. v = VBigInt (int n) \<and> it = Str b \<and> b = be_bytes n))"
  "matches TBytes = (\<lambda>v it. (\<exists>x b. v = VBytes x \<and> it = Str b \<and> b = x))"
  "matches (TByteArray n) = (\<lambda>v it. (\<exists>x b. v = VByteArray x \<and> it = Str b \<and> b = x \<and> length x = unat n))"
  "matches (TSlice t) = (\<lambda>v it. (\<exists>xs its. v = VSlice xs \<and> it = Lst its \<and> list_all2 (matches t) xs its))"
  "matches (TArray m t) = (\<lambda>v it. (\<exists>xs its. v = VSlice xs \<and> it = Lst its \<and> length xs = m \<and> list_all2 (matches t) xs its))"
  "matches (TStruct fs) = (\<lambda>v it. (\<exists>xs its. v = VStruct xs \<and> it = Lst its
        \<and> match_fields (map (\<lambda>f. (matches (fst f), snd f, zero_value (fst f))) fs) xs its))"
  "matches (TPtr t) = (\<lambda>v it. matches t v it)"
  "matches (TNilPtr t k) = (\<lambda>v it. (if it = Str [] then k = KString \<and> v = VNil KString
      else if it = Lst [] then k = KList \<and> v = VNil KList else matches t v it))"
  "matches TIface = (\<lambda>v it. (v = value_of it))"
  by (rule ext, rule ext, simp only: matches.simps)+

lemma makeDecoder_decoder: "elem_decoder (makeDecoder fuel t) (matches t) (min fuel maxlen)"
proof (induction t)
  case (TUint u)
  have "8 \<le> Bits u" "Bits u \<le> 64" by (cases u; simp)+
  note iff = stream_uint_iff [OF this]
  have "elem_decoder (\<lambda>s. mapVal VUint (Some (stream_uint (Bits u) s)))
    (\<lambda>v it. \<exists>x b. v = VUint x \<and> it = Str b \<and> (b = be_bytes (unat x) \<and> length b \<le> Bits u div 8)) (min fuel maxlen)"
    by (intro string_decoder) (auto simp: iff prim_eol prim_cached prim_eol_only)
  then show ?case unfolding makeDecoder_fun matches_fun .
next
  case TBool
  have "elem_decoder (\<lambda>s. mapVal VBool (Some (stream_Bool s)))
    (\<lambda>v it. \<exists>x b. v = VBool x \<and> it = Str b \<and> b = (if x then [1] else [])) (min fuel maxlen)"
    by (intro string_decoder) (auto simp: stream_Bool_iff prim_eol prim_cached stream_Bool_eol_only)
  then show ?case unfolding makeDecoder_fun matches_fun .
next
  case TBigInt
  have "elem_decoder (\<lambda>s. mapVal (\<lambda>n. VBigInt (int n)) (Some (decodeBigInt s)))
    (\<lambda>v it. \<exists>x b. v = VBigInt (int x) \<and> it = Str b \<and> b = be_bytes x) (min fuel maxlen)"
    by (intro string_decoder) (auto simp: decodeBigInt_iff prim_eol prim_cached prim_eol_only)
  then show ?case unfolding makeDecoder_fun matches_fun .
next
  case TBytes
  then show ?case unfolding makeDecoder_fun matches_fun by (intro Bytes_decoder) simp
next
  case (TByteArray n)
  have "unat n < 2 ^ 64" using unsigned_less [of n, where ?'a = nat] by simp
  note iff = decodeByteArray_iff [OF this]
  have "elem_decoder (\<lambda>s. mapVal VByteArray (Some (decodeByteArray (unat n) s)))
    (\<lambda>v it. \<exists>x b. v = VByteArray x \<and> it = Str b \<and> (b = x \<and> length x = unat n)) (min fuel maxlen)"
    by (intro string_decoder) (auto simp: iff prim_eol prim_cached prim_eol_only)
  then show ?case unfolding makeDecoder_fun matches_fun .
next
  case (TSlice t)
  have "list_body (slice_body fuel (makeDecoder fuel t)) (list_all2 (matches t)) (min fuel maxlen)"
    using TSlice by (rule elem_decoder.slice_list_body) simp_all
  from list_body.framed_decoder [OF this, of VSlice]
  have "elem_decoder (makeDecoder fuel (TSlice t)) (matches (TSlice t)) (Suc (min fuel maxlen))"
    unfolding makeDecoder_fun matches_fun decodeListSlice_framed .
  then show ?case by (rule elem_decoder.decoder_mono) simp
next
  case (TArray n t)
  have "list_body (\<lambda>s. decodeArrayElems n (makeDecoder fuel t) s [])
      (\<lambda>xs its. length xs = n \<and> list_all2 (matches t) xs its) (min fuel maxlen)"
    using TArray by (rule elem_decoder.array_list_body) simp
  from list_body.framed_decoder [OF this, of VSlice]
  have "elem_decoder (makeDecoder fuel (TArray n t)) (matches (TArray n t)) (Suc (min fuel maxlen))"
    unfolding makeDecoder_fun matches_fun decodeListArray_def .
  then show ?case by (rule elem_decoder.decoder_mono) simp
next
  case (TStruct fs)
  have d: "elem_decoder (makeDecoder fuel (fst f)) (matches (fst f)) (min fuel maxlen)" if "f \<in> set fs" for f
    using TStruct [OF that, of "fst f"] by (cases f) auto
  have "fields_ok (map (\<lambda>f. (makeDecoder fuel (fst f), snd f, zero_value (fst f))) fs)
     (map (\<lambda>f. (matches (fst f), snd f, zero_value (fst f))) fs) (min fuel maxlen)"
    using d by (simp add: fields_ok_def list_all2_conv_all_nth)
  then have "list_body (\<lambda>s. decodeFields (map (\<lambda>f. (makeDecoder fuel (fst f), snd f, zero_value (fst f))) fs) s [])
     (match_fields (map (\<lambda>f. (matches (fst f), snd f, zero_value (fst f))) fs)) (min fuel maxlen)"
    by (rule fields_list_body) simp
  from list_body.framed_decoder [OF this, of VStruct]
  have "elem_decoder (makeDecoder fuel (TStruct fs)) (matches (TStruct fs)) (Suc (min fuel maxlen))"
    unfolding makeDecoder_fun matches_fun decodeStruct_def .
  then show ?case by (rule elem_decoder.decoder_mono) simp
next
  case (TPtr t)
  then show ?case unfolding makeDecoder_fun matches_fun by simp
next
  case (TNilPtr t k)
  then show ?case using nil_ptr_decoder [of "makeDecoder fuel t" "matches t" "min fuel maxlen" k]
    unfolding makeDecoder_fun matches_fun by simp
next
  case TIface
  show ?case unfolding makeDecoder_fun matches_fun by (rule interface_decoder)
qed

interpretation md: elem_decoder "makeDecoder fuel t" "matches t" "min fuel maxlen" for fuel t
  by (rule makeDecoder_decoder)

interpretation ms: list_body "slice_body fuel (makeDecoder fuel t)" "list_all2 (matches t)" "min fuel maxlen"
  for fuel t
  by (rule md.slice_list_body) simp_all

subsection \<open>Decoding a whole input\<close>

lemma Reset_fits: "length b < 2 ^ 64 \<Longrightarrow> n \<le> length b \<Longrightarrow> fits (Reset b (of_nat (length b))) n"
  by (simp add: fits_def allows_def Reset_def unat_of_nat_u64)

lemma DecodeBytes_fuel:
  assumes "length b < 2 ^ 63"
  shows "DecodeBytes t b \<noteq> None"
proof -
  have "makeDecoder (length b + 1) t (Reset b (of_nat (length b))) \<noteq> None"
    using assms by (intro md.total) (simp_all add: Reset_def)
  then show ?thesis by (auto simp: DecodeBytes_def split: sum.splits)
qed

lemma DecodeBytes_sound:
  assumes "length b < 2 ^ 63" "DecodeBytes t b = Some (Ok v)"
  shows "\<exists>it. matches t v it \<and> b = rlp_enc it"
proof -
  let ?s = "Reset b (of_nat (length b))"
  from assms(2) obtain s' where d: "makeDecoder (length b + 1) t ?s = Some (s', Ok v)" "st_r s' = []"
    by (auto simp: DecodeBytes_def split: option.splits sum.splits if_splits)
  have "\<exists>it. matches t v it \<and> took ?s (rlp_enc it) s'"
    by (rule md.sound [OF _ _ d(1)]) (use assms(1) in \<open>simp_all add: Reset_def\<close>)
  then show ?thesis using tookD(1) [of ?s _ s'] d(2) by (auto simp: Reset_def)
qed

lemma DecodeBytes_complete:
  assumes "length (rlp_enc it) < 2 ^ 63" "matches t v it"
  shows "DecodeBytes t (rlp_enc it) = Some (Ok v)"
proof -
  let ?b = "rlp_enc it" let ?s = "Reset ?b (of_nat (length ?b))"
  have "\<exists>s'. makeDecoder (length ?b + 1) t ?s = Some (s', Ok v) \<and> took ?s (rlp_enc it) s'"
    by (rule md.complete [OF _ _ assms(2)])
       (use assms(1) Reset_fits [of ?b "length ?b"] in \<open>simp_all add: Reset_def\<close>)
  then show ?thesis using tookD(1) [of ?s ?b] by (auto simp: DecodeBytes_def Reset_def)
qed

text \<open>Types all of whose fields are mandatory: a decoded value determines the item it came from.\<close>

fun plain :: "gotype \<Rightarrow> bool" where
  "plain (TSlice t) = plain t"
| "plain (TArray n t) = plain t"
| "plain (TStruct fs) = (\<forall>f \<in> set fs. plain (fst f) \<and> \<not> snd f)"
| "plain (TPtr t) = plain t"
| "plain (TNilPtr t k) = plain t"
| "plain _ = True"

lemma item_of_value_of: "item_of (value_of it) = it \<and> encodable (value_of it)"
proof (induction it)
  case (Lst its)
  then have "map (item_of \<circ> value_of) its = map id its" by (intro map_cong) auto
  with Lst show ?case by auto
qed simp

lemma match_fields_req:
  "match_fields ms vs its \<Longrightarrow> (\<And>m. m \<in> set ms \<Longrightarrow> \<not> fst (snd m)) \<Longrightarrow>
   (\<And>m v it. m \<in> set ms \<Longrightarrow> fst m v it \<Longrightarrow> it = item_of v \<and> encodable v) \<Longrightarrow>
   its = map item_of vs \<and> (\<forall>v \<in> set vs. encodable v)"
proof (induction ms vs its rule: match_fields.induct)
  case (2 m opt z fs vs its)
  then show ?case by (fastforce split: list.splits)
qed simp

lemma list_all2_item_of:
  "list_all2 M vs its \<Longrightarrow> (\<And>v it. M v it \<Longrightarrow> it = item_of v \<and> encodable v) \<Longrightarrow>
   its = map item_of vs \<and> (\<forall>v \<in> set vs. encodable v)"
  by (induction rule: list_all2_induct) auto

lemma matches_item_of: "plain t \<Longrightarrow> matches t v it \<Longrightarrow> it = item_of v \<and> encodable v"
proof (induction t arbitrary: v it)
  case (TSlice t)
  then obtain xs its where x: "v = VSlice xs" "it = Lst its" "list_all2 (matches t) xs its" by auto
  have "its = map item_of xs \<and> (\<forall>v \<in> set xs. encodable v)"
    using x(3) by (rule list_all2_item_of) (use TSlice in simp)
  with x show ?case by simp
next
  case (TArray n t)
  then obtain xs its where x: "v = VSlice xs" "it = Lst its" "list_all2 (matches t) xs its" by auto
  have "its = map item_of xs \<and> (\<forall>v \<in> set xs. encodable v)"
    using x(3) by (rule list_all2_item_of) (use TArray in simp)
  with x show ?case by simp
next
  case (TStruct fs)
  then obtain xs its where x: "v = VStruct xs" "it = Lst its"
    "match_fields (map (\<lambda>f. (matches (fst f), snd f, zero_value (fst f))) fs) xs its" by auto
  have "its = map item_of xs \<and> (\<forall>v \<in> set xs. encodable v)"
  proof (rule match_fields_req [OF x(3)])
    fix m v it
    assume "m \<in> set (map (\<lambda>f. (matches (fst f), snd f, zero_value (fst f))) fs)" "fst m v it"
    then obtain f where f: "f \<in> set fs" "matches (fst f) v it" by auto
    have "plain (fst f)" using f(1) TStruct.prems(1) by simp
    moreover have "fst f \<in> Basic_BNFs.fsts f" by (cases f) simp
    ultimately show "it = item_of v \<and> encodable v" using TStruct.IH [OF f(1)] f(2) by blast
  qed (use TStruct.prems(1) in auto)
  with x show ?case by simp
next
  case TIface
  then show ?case using item_of_value_of by simp
next
  case (TNilPtr t k)
  then show ?case by (auto split: if_splits)
qed auto

subsection \<open>Values of a type\<close>

definition typed :: "gotype \<Rightarrow> goval \<Rightarrow> bool" where
  "typed t v = matches t v (item_of v)"

lemma plain_matches_iff: "plain t \<Longrightarrow> matches t v it \<longleftrightarrow> it = item_of v \<and> typed t v"
  using matches_item_of by (auto simp: typed_def)

lemma typed_encodable: "plain t \<Longrightarrow> typed t v \<Longrightarrow> encodable v"
  using matches_item_of by (auto simp: typed_def)

lemma EncodeToBytes_ok:
  assumes "encodable v" "length (rlp_enc (item_of v)) < 2 ^ 63"
  shows "EncodeToBytes v = Ok (Some (rlp_enc (item_of v)))"
proof -
  have "length (rlp_enc (item_of v)) < 2 ^ 64" using assms(2) by simp
  from encode_value_adds [OF assms(1) this, of newEncBuffer] obtain w where
    "encode_value v newEncBuffer = Ok w" "adds newEncBuffer w (rlp_enc (item_of v))" by blast
  then show ?thesis by (simp add: EncodeToBytes_def makeBytes_adds)
qed

lemma DecodeBytes_plain_iff:
  assumes "plain t" "length b < 2 ^ 63"
  shows "DecodeBytes t b = Some (Ok v) \<longleftrightarrow> typed t v \<and> b = rlp_enc (item_of v)"
  using DecodeBytes_sound [OF assms(2), of t v] DecodeBytes_complete [of "item_of v" t v] assms(2)
  by (auto simp: plain_matches_iff [OF assms(1)])

lemma match_fields_mandatory:
  "match_fields (map (\<lambda>t. (matches t, False, zero_value t)) ts) vs (map item_of vs) \<longleftrightarrow> list_all2 typed ts vs"
  by (induction ts arbitrary: vs) (auto simp: typed_def split: list.splits)

lemma typed_struct:
  "typed (TStruct (map (\<lambda>t. (t, False)) ts)) v \<longleftrightarrow> (\<exists>vs. v = VStruct vs \<and> list_all2 typed ts vs)"
proof -
  have e: "map (\<lambda>f. (matches (fst f), snd f, zero_value (fst f))) (map (\<lambda>t. (t, False)) ts)
      = map (\<lambda>t. (matches t, False, zero_value t)) ts" by simp
  show ?thesis
    by (cases v) (simp_all add: typed_def [of "TStruct _"] e match_fields_mandatory del: map_map)
qed

lemma typed_slice: "typed (TSlice t) v \<longleftrightarrow> (\<exists>vs. v = VSlice vs \<and> (\<forall>x \<in> set vs. typed t x))"
  by (cases v) (auto simp: typed_def list_all2_conv_all_nth all_set_conv_all_nth)

lemma typed_basic:
  "typed (TUint Uint64) v \<longleftrightarrow> (\<exists>i. v = VUint i)"
  "typed TBigInt v \<longleftrightarrow> (\<exists>d. v = VBigInt d \<and> 0 \<le> d)"
  "typed TBytes v \<longleftrightarrow> (\<exists>b. v = VBytes b)"
  "typed (TByteArray n) v \<longleftrightarrow> (\<exists>b. v = VByteArray b \<and> length b = unat n)"
  "n \<noteq> 0 \<Longrightarrow> typed (TNilPtr (TByteArray n) KString) v \<longleftrightarrow>
     v = VNil KString \<or> (\<exists>b. v = VByteArray b \<and> length b = unat n)"
proof -
  show "typed (TUint Uint64) v \<longleftrightarrow> (\<exists>i. v = VUint i)"
    using length_be_bytes_8 unsigned_less [where ?'a = nat and ?'b = 64] by (auto simp: typed_def)
  show "typed TBigInt v \<longleftrightarrow> (\<exists>d. v = VBigInt d \<and> 0 \<le> d)"
    by (cases v) (auto simp: typed_def intro!: exI [of _ "nat _"])
  assume n: "n \<noteq> 0"
  then have "unat n \<noteq> 0" by (simp add: unat_eq_zero)
  then show "typed (TNilPtr (TByteArray n) KString) v \<longleftrightarrow>
     v = VNil KString \<or> (\<exists>b. v = VByteArray b \<and> length b = unat n)"
    by (cases v) (auto simp: typed_def)
qed (auto simp: typed_def)

section \<open>Properties\<close>

text \<open>C12: The typed decoder accepts exactly the canonical encodings: \<open>DecodeBytes\<close> into a Go type
  returns \<open>v\<close> if and only if the whole input is the RLP encoding of an item that the type
  decodes to \<open>v\<close>.  No other input is accepted, in particular none with a non-minimal header, an
  element crossing the end of its list, or trailing bytes.\<close>

theorem DecodeBytes_iff:
  assumes "length b < 2 ^ 63"
  shows "DecodeBytes t b = Some (Ok v) \<longleftrightarrow> (\<exists>it. matches t v it \<and> b = rlp_enc it)"
  using DecodeBytes_sound [OF assms] DecodeBytes_complete [of _ t v] assms by auto

theorem DecodeBytes_iff_witness:
  "length ([0xC3, 0x82, 4, 0] :: bytes) < 2 ^ 63
   \<and> DecodeBytes (TStruct [(TUint Uint64, False), (TBytes, True)]) [0xC3, 0x82, 4, 0]
     = Some (Ok (VStruct [VUint 1024, VBytes []]))"
proof -
  have "matches (TStruct [(TUint Uint64, False), (TBytes, True)]) (VStruct [VUint 1024, VBytes []])
      (Lst [Str [4, 0]]) \<and> [0xC3, 0x82, 4, 0] = rlp_enc (Lst [Str [4, 0]])"
    by (simp add: be_bytes.simps rlp_list_def rlp_string_def rlp_head_def)
  moreover have l: "length ([0xC3, 0x82, 4, 0] :: bytes) < 2 ^ 63" by simp
  ultimately show ?thesis
    using DecodeBytes_iff [OF l, of "TStruct [(TUint Uint64, False), (TBytes, True)]"
        "VStruct [VUint 1024, VBytes []]"] by blast
qed

text \<open>C27: The decoder returns on every input: the loop over list elements and the recursion into
  nested lists end within the input's length, whatever the announced sizes are.\<close>

theorem DecodeBytes_returns:
  assumes "length b < 2 ^ 63"
  shows "\<exists>r. DecodeBytes t b = Some r"
  using DecodeBytes_fuel [OF assms] by auto

theorem DecodeBytes_returns_witness:
  "length ([0xF8, 0xFF, 0xC0] :: bytes) < 2 ^ 63 \<and> (\<exists>r. DecodeBytes (TSlice TIface) [0xF8, 0xFF, 0xC0] = Some r)"
  using DecodeBytes_returns [of "[0xF8, 0xFF, 0xC0]" "TSlice TIface"] by simp

text \<open>C13: Decoding inverts encoding: the bytes \<open>EncodeToBytes\<close> produces for a value of the type
  decode to that value.\<close>

theorem Encode_Decode:
  assumes "matches t v (item_of v)" "encodable v" "length (rlp_enc (item_of v)) < 2 ^ 63"
  shows "\<exists>b. EncodeToBytes v = Ok (Some b) \<and> DecodeBytes t b = Some (Ok v)"
proof -
  have "length (rlp_enc (item_of v)) < 2 ^ 64" using assms(3) by simp
  from encode_value_adds [OF assms(2) this, of newEncBuffer] obtain w where
    "encode_value v newEncBuffer = Ok w" "adds newEncBuffer w (rlp_enc (item_of v))" by blast
  then have "EncodeToBytes v = Ok (Some (rlp_enc (item_of v)))"
    by (simp add: EncodeToBytes_def makeBytes_adds)
  with DecodeBytes_complete [OF assms(3,1)] show ?thesis by blast
qed

theorem Encode_Decode_witness:
  "\<exists>b. EncodeToBytes (VStruct [VUint 7, VSlice [VBigInt 300]]) = Ok (Some b)
    \<and> DecodeBytes (TStruct [(TUint Uint8, False), (TSlice TBigInt, False)]) b
      = Some (Ok (VStruct [VUint 7, VSlice [VBigInt 300]]))"
proof (rule Encode_Decode)
  have "VBigInt 300 = VBigInt (int 300)" by simp
  then show "matches (TStruct [(TUint Uint8, False), (TSlice TBigInt, False)])
      (VStruct [VUint 7, VSlice [VBigInt 300]]) (item_of (VStruct [VUint 7, VSlice [VBigInt 300]]))"
    by (simp add: be_bytes.simps)
qed (simp_all add: be_bytes.simps rlp_list_def rlp_string_def rlp_head_def)

text \<open>C14: Re-encoding gives back the input: for types without optional fields, a value decoded by
  \<open>DecodeBytes\<close> is encoded by \<open>EncodeToBytes\<close> to exactly the bytes it was decoded from.\<close>

theorem Decode_Encode:
  assumes "plain t" "length b < 2 ^ 63" "DecodeBytes t b = Some (Ok v)"
  shows "EncodeToBytes v = Ok (Some b)"
proof -
  have "typed t v" "b = rlp_enc (item_of v)" using DecodeBytes_plain_iff [OF assms(1,2)] assms(3) by auto
  then show ?thesis using EncodeToBytes_ok [of v] typed_encodable [OF assms(1)] assms(2) by simp
qed

theorem Decode_Encode_witness:
  "plain (TStruct [(TBool, False)]) \<and> length ([0xC1, 1] :: bytes) < 2 ^ 63
   \<and> DecodeBytes (TStruct [(TBool, False)]) [0xC1, 1] = Some (Ok (VStruct [VBool True]))
   \<and> EncodeToBytes (VStruct [VBool True]) = Ok (Some [0xC1, 1])"
proof -
  have e: "[0xC1, 1] = rlp_enc (Lst [Str [1]])" by (simp add: rlp_list_def rlp_string_def rlp_head_def)
  have "matches (TStruct [(TBool, False)]) (VStruct [VBool True]) (Lst [Str [1]])" by auto
  then have d: "DecodeBytes (TStruct [(TBool, False)]) [0xC1, 1] = Some (Ok (VStruct [VBool True]))"
    using DecodeBytes_complete [of "Lst [Str [1]]"] unfolding e [symmetric] by simp
  show ?thesis using Decode_Encode [OF _ _ d] d by simp
qed

end
