(* ===== verification/Types_Block.thy ===== *)
theory Types_Block
  imports Rlp_Decode
begin

text \<open>
  Block headers (\<^verbatim>\<open>core/types/block.go\<close>, \<^verbatim>\<open>core/types/gen_header_rlp.go\<close>): the record, its
  RLP encoder and decoder, the checks and the copies that the rest of the node makes of it.
\<close>

section \<open>Definitions\<close>

text \<open>A hash or an address is the byte array of its length; a \<open>*big.Int\<close> or \<open>*common.Hash\<close> that
  may be nil is an option.\<close>

record Header =
  h_ParentHash :: bytes
  h_UncleHash :: bytes
  h_Coinbase :: bytes
  h_Root :: bytes
  h_TxHash :: bytes
  h_ReceiptHash :: bytes
  h_Bloom :: bytes
  h_Difficulty :: "int option"
  h_Number :: "int option"
  h_GasLimit :: u64
  h_GasUsed :: u64
  h_Time :: u64
  h_Extra :: bytes
  h_MixDigest :: bytes
  h_Nonce :: bytes
  h_BaseFee :: "int option"
  h_WithdrawalsHash :: "bytes option"
  h_ExcessDataGas :: "int option"

definition EncodeNonce :: "u64 \<Rightarrow> bytes" where
  "EncodeNonce i = map (\<lambda>k. ucast (drop_bit (8 * k) i)) (rev [0..<8])"

definition Nonce_Uint64 :: "bytes \<Rightarrow> u64" where
  "Nonce_Uint64 n = of_nat (be_val n)"

definition write_big :: "int option \<Rightarrow> encBuffer \<Rightarrow> rlp_err + encBuffer" where
  "write_big i w =
     (case i of None \<Rightarrow> Ok (eb_append [0x80] w)
      | Some i \<Rightarrow> if i < 0 then Err ErrNegativeBigInt else Ok (writeBigInt (nat i) w))"

definition Header_EncodeRLP :: "Header \<Rightarrow> encBuffer \<Rightarrow> rlp_err + encBuffer" where
  "Header_EncodeRLP obj w =
     (case eb_list w of (tmp0, w) \<Rightarrow>
      let w = writeBytes (h_ParentHash obj) w;
          w = writeBytes (h_UncleHash obj) w;
          w = writeBytes (h_Coinbase obj) w;
          w = writeBytes (h_Root obj) w;
          w = writeBytes (h_TxHash obj) w;
          w = writeBytes (h_ReceiptHash obj) w;
          w = writeBytes (h_Bloom obj) w
      in case write_big (h_Difficulty obj) w of Err e \<Rightarrow> Err e | Ok w \<Rightarrow>
      case write_big (h_Number obj) w of Err e \<Rightarrow> Err e | Ok w \<Rightarrow>
      let w = writeUint64 (h_GasLimit obj) w;
          w = writeUint64 (h_GasUsed obj) w;
          w = writeUint64 (h_Time obj) w;
          w = writeBytes (h_Extra obj) w;
          w = writeBytes (h_MixDigest obj) w;
          w = writeBytes (h_Nonce obj) w;
          tmp1 = h_BaseFee obj \<noteq> None;
          tmp2 = h_WithdrawalsHash obj \<noteq> None;
          tmp3 = h_ExcessDataGas obj \<noteq> None
      in case (if tmp1 \<or> tmp2 \<or> tmp3 then write_big (h_BaseFee obj) w else Ok w) of Err e \<Rightarrow> Err e | Ok w \<Rightarrow>
      let w = (if tmp2 \<or> tmp3
               then (case h_WithdrawalsHash obj of None \<Rightarrow> eb_append [0x80] w | Some h \<Rightarrow> writeBytes h w)
               else w)
      in case (if tmp3 then write_big (h_ExcessDataGas obj) w else Ok w) of Err e \<Rightarrow> Err e | Ok w \<Rightarrow>
      Ok (eb_listEnd tmp0 w))"

text \<open>\<open>rlp.EncodeToBytes\<close> of a header calls its \<open>EncodeRLP\<close> on a fresh buffer.\<close>

definition EncodeHeader :: "Header \<Rightarrow> rlp_err + bytes option" where
  "EncodeHeader h =
     (case Header_EncodeRLP h newEncBuffer of Err e \<Rightarrow> Err e | Ok buf \<Rightarrow> Ok (makeBytes buf))"

text \<open>The struct decoder of \<open>Header\<close>: the mandatory fields and those tagged \<open>optional\<close>.\<close>

definition header_req :: "gotype list" where
  "header_req =
     [TByteArray 32, TByteArray 32, TByteArray 20, TByteArray 32, TByteArray 32, TByteArray 32,
      TByteArray 256, TBigInt, TBigInt, TUint Uint64, TUint Uint64, TUint Uint64, TBytes,
      TByteArray 32, TByteArray 8]"

definition header_opt :: "gotype list" where
  "header_opt = [TBigInt, TPtr (TByteArray 32), TBigInt]"

definition header_type :: gotype where
  "header_type = TStruct (map (\<lambda>t. (t, False)) header_req @ map (\<lambda>t. (t, True)) header_opt)"

fun as_bytes :: "goval \<Rightarrow> bytes" where
  "as_bytes (VByteArray b) = b"
| "as_bytes (VBytes b) = b"
| "as_bytes _ = []"

fun as_hash_ptr :: "goval \<Rightarrow> bytes option" where
  "as_hash_ptr (VByteArray b) = Some b"
| "as_hash_ptr _ = None"

fun as_big :: "goval \<Rightarrow> int option" where
  "as_big (VBigInt i) = Some i"
| "as_big _ = None"

fun as_uint :: "goval \<Rightarrow> u64" where
  "as_uint (VUint i) = i"
| "as_uint _ = 0"

definition header_of :: "goval list \<Rightarrow> Header" where
  "header_of fs =
     \<lparr>h_ParentHash = as_bytes (fs ! 0), h_UncleHash = as_bytes (fs ! 1), h_Coinbase = as_bytes (fs ! 2),
      h_Root = as_bytes (fs ! 3), h_TxHash = as_bytes (fs ! 4), h_ReceiptHash = as_bytes (fs ! 5),
      h_Bloom = as_bytes (fs ! 6), h_Difficulty = as_big (fs ! 7), h_Number = as_big (fs ! 8),
      h_GasLimit = as_uint (fs ! 9), h_GasUsed = as_uint (fs ! 10), h_Time = as_uint (fs ! 11),
      h_Extra = as_bytes (fs ! 12), h_MixDigest = as_bytes (fs ! 13), h_Nonce = as_bytes (fs ! 14),
      h_BaseFee = as_big (fs ! 15), h_WithdrawalsHash = as_hash_ptr (fs ! 16),
      h_ExcessDataGas = as_big (fs ! 17)\<rparr>"

definition DecodeHeader :: "bytes \<Rightarrow> (rlp_err + Header) option" where
  "DecodeHeader b =
     (case DecodeBytes header_type b of Some (Ok (VStruct fs)) \<Rightarrow> Some (Ok (header_of fs))
      | Some (Err e) \<Rightarrow> Some (Err e) | _ \<Rightarrow> None)"

definition HeaderParentHashFromRLP :: "bytes \<Rightarrow> bytes" where
  "HeaderParentHashFromRLP hdr =
     (case SplitList hdr of Err e \<Rightarrow> replicate 32 0
      | Ok (listContent, _) \<Rightarrow>
          (case SplitString listContent of Err e \<Rightarrow> replicate 32 0
           | Ok (parentHash, _) \<Rightarrow>
               if length parentHash \<noteq> 32 then replicate 32 0 else parentHash))"

definition CopyHeader :: "Header \<Rightarrow> Header" where
  "CopyHeader h =
     h\<lparr>h_Difficulty := Some (case h_Difficulty h of None \<Rightarrow> 0 | Some d \<Rightarrow> d),
       h_Number := Some (case h_Number h of None \<Rightarrow> 0 | Some n \<Rightarrow> n)\<rparr>"

datatype sanity_err =
    ErrNumberTooLarge nat
  | ErrDifficultyTooLarge nat
  | ErrExtraTooLarge nat
  | ErrBaseFeeTooLarge nat

text \<open>\<open>big.Int.BitLen\<close> of the absolute value; \<open>IsUint64\<close>.\<close>

definition bigBitLen :: "int \<Rightarrow> nat" where
  "bigBitLen i = BitLen (nat \<bar>i\<bar>)"

definition IsUint64 :: "int \<Rightarrow> bool" where
  "IsUint64 i \<longleftrightarrow> 0 \<le> i \<and> i < 2 ^ 64"

definition SanityCheck :: "Header \<Rightarrow> sanity_err option" where
  "SanityCheck h =
     (if (case h_Number h of None \<Rightarrow> False | Some n \<Rightarrow> \<not> IsUint64 n)
      then Some (ErrNumberTooLarge (bigBitLen (the (h_Number h))))
      else if (case h_Difficulty h of None \<Rightarrow> False | Some d \<Rightarrow> bigBitLen d > 80)
      then Some (ErrDifficultyTooLarge (bigBitLen (the (h_Difficulty h))))
      else if length (h_Extra h) > 100 * 1024 then Some (ErrExtraTooLarge (length (h_Extra h)))
      else if (case h_BaseFee h of None \<Rightarrow> False | Some f \<Rightarrow> bigBitLen f > 256)
      then Some (ErrBaseFeeTooLarge (bigBitLen (the (h_BaseFee h))))
      else None)"

section \<open>Lemmas\<close>

text \<open>The value the reflective struct writer would see: the code generated for \<open>EncodeRLP\<close> writes
  the same bytes.\<close>

definition big_value :: "int option \<Rightarrow> goval" where
  "big_value i = (case i of None \<Rightarrow> VNilBigInt | Some i \<Rightarrow> VBigInt i)"

definition hash_value :: "bytes option \<Rightarrow> goval" where
  "hash_value h = (case h of None \<Rightarrow> VNil KString | Some b \<Rightarrow> VByteArray b)"

definition header_values :: "Header \<Rightarrow> goval list" where
  "header_values h =
     [VByteArray (h_ParentHash h), VByteArray (h_UncleHash h), VByteArray (h_Coinbase h),
      VByteArray (h_Root h), VByteArray (h_TxHash h), VByteArray (h_ReceiptHash h),
      VByteArray (h_Bloom h), big_value (h_Difficulty h), big_value (h_Number h),
      VUint (h_GasLimit h), VUint (h_GasUsed h), VUint (h_Time h), VBytes (h_Extra h),
      VByteArray (h_MixDigest h), VByteArray (h_Nonce h), big_value (h_BaseFee h),
      hash_value (h_WithdrawalsHash h), big_value (h_ExcessDataGas h)]"

definition header_len :: "Header \<Rightarrow> nat" where
  "header_len h =
     (if h_ExcessDataGas h \<noteq> None then 18 else if h_WithdrawalsHash h \<noteq> None then 17
      else if h_BaseFee h \<noteq> None then 16 else 15)"

definition header_value :: "Header \<Rightarrow> goval" where
  "header_value h = VStruct (take (header_len h) (header_values h))"

lemma encode_VByteArray: "length b < 2 ^ 64 \<Longrightarrow> encode_value (VByteArray b) w = Ok (writeBytes b w)"
proof -
  assume l: "length b < 2 ^ 64"
  consider "b = []" | c where "b = [c]" | "length b > 1" by (cases b; cases "tl b") auto
  then show ?thesis
  proof cases
    case 1
    then show ?thesis by (simp add: writeBytes_eq rlp_string_def rlp_head_def)
  next
    case (2 c)
    then show ?thesis by (simp add: writeBytes_eq rlp_string_def rlp_head_def byte_le_7F)
  next
    case 3
    then show ?thesis using l by (auto simp: writeBytes_eq encodeStringHeader_eq rlp_string_def)
  qed
qed

lemma encode_big_value: "encode_value (big_value i) w = write_big i w"
  by (simp add: big_value_def write_big_def split: option.split)

lemma encode_hash_value:
  "(\<And>b. h = Some b \<Longrightarrow> length b < 2 ^ 64) \<Longrightarrow>
   encode_value (hash_value h) w =
     Ok (case h of None \<Rightarrow> eb_append [0x80] w | Some h \<Rightarrow> writeBytes h w)"
  by (cases h) (simp_all add: hash_value_def encode_VByteArray del: encode_value.simps(6))

definition header_wf :: "Header \<Rightarrow> bool" where
  "header_wf h \<longleftrightarrow>
     length (h_ParentHash h) = 32 \<and> length (h_UncleHash h) = 32 \<and> length (h_Coinbase h) = 20
     \<and> length (h_Root h) = 32 \<and> length (h_TxHash h) = 32 \<and> length (h_ReceiptHash h) = 32
     \<and> length (h_Bloom h) = 256 \<and> length (h_MixDigest h) = 32 \<and> length (h_Nonce h) = 8
     \<and> (\<forall>b. h_WithdrawalsHash h = Some b \<longrightarrow> length b = 32)"

lemma Header_EncodeRLP_eq:
  assumes "header_wf h" "length (h_Extra h) < 2 ^ 64"
  shows "Header_EncodeRLP h w = encode_value (header_value h) w"
proof -
  have b: "encode_value (VByteArray b) w = Ok (writeBytes b w)"
    if "length b = 32 \<or> length b = 20 \<or> length b = 256 \<or> length b = 8" for b w
    using that by (intro encode_VByteArray) auto
  have hv: "encode_value (hash_value None) w = Ok (eb_append [0x80] w)"
    "length a = 32 \<Longrightarrow> encode_value (hash_value (Some a)) w = Ok (writeBytes a w)" for w a
    using encode_hash_value [of None w] encode_hash_value [of "Some a" w] by auto
  note wf = assms(1) [unfolded header_wf_def]
  show ?thesis
    unfolding Header_EncodeRLP_def header_value_def header_values_def header_len_def
    using wf
    by (cases "h_ExcessDataGas h"; cases "h_WithdrawalsHash h"; cases "h_BaseFee h")
       (simp_all add: b hv encode_big_value Let_def split_def del: encode_value.simps(6) split: sum.splits)
qed

text \<open>Headers whose integers can be encoded and whose optional fields are set in their order.\<close>

definition header_ok :: "Header \<Rightarrow> bool" where
  "header_ok h \<longleftrightarrow> header_wf h
     \<and> (\<exists>d. h_Difficulty h = Some d \<and> 0 \<le> d) \<and> (\<exists>n. h_Number h = Some n \<and> 0 \<le> n)
     \<and> (\<forall>f. h_BaseFee h = Some f \<longrightarrow> 0 \<le> f) \<and> (\<forall>f. h_ExcessDataGas h = Some f \<longrightarrow> 0 \<le> f)
     \<and> (h_WithdrawalsHash h \<noteq> None \<longrightarrow> h_BaseFee h \<noteq> None)
     \<and> (h_ExcessDataGas h \<noteq> None \<longrightarrow> h_WithdrawalsHash h \<noteq> None)"

lemma field_matches:
  "length b = 32 \<Longrightarrow> matches (TByteArray 32) (VByteArray b) (Str b)"
  "length b = 20 \<Longrightarrow> matches (TByteArray 20) (VByteArray b) (Str b)"
  "length b = 256 \<Longrightarrow> matches (TByteArray 256) (VByteArray b) (Str b)"
  "length b = 8 \<Longrightarrow> matches (TByteArray 8) (VByteArray b) (Str b)"
  "matches (TUint Uint64) (VUint i) (Str (be_bytes (unat i)))"
  "0 \<le> d \<Longrightarrow> matches TBigInt (VBigInt d) (Str (be_bytes (nat d)))"
  "matches TBytes (VBytes b) (Str b)"
proof -
  show "matches (TUint Uint64) (VUint i) (Str (be_bytes (unat i)))"
    using length_be_bytes_8 [of "unat i"] unsigned_less [of i, where ?'a = nat] by simp
  show "0 \<le> d \<Longrightarrow> matches TBigInt (VBigInt d) (Str (be_bytes (nat d)))"
    by (auto intro!: exI [of _ "nat d"])
qed simp_all

lemma header_matches:
  assumes "header_ok h"
  shows "matches header_type (VStruct (header_values h)) (item_of (header_value h))"
proof -
  obtain d n where dn: "h_Difficulty h = Some d" "0 \<le> d" "h_Number h = Some n" "0 \<le> n"
    using assms by (auto simp: header_ok_def)
  note ok = assms [unfolded header_ok_def header_wf_def]
  show ?thesis
    using ok dn
    by (cases "h_ExcessDataGas h"; cases "h_WithdrawalsHash h"; cases "h_BaseFee h")
       (simp_all add: header_type_def header_req_def header_opt_def header_value_def header_values_def header_len_def big_value_def
         hash_value_def field_matches del: matches.simps(1-5))
qed

lemma header_of_values: "header_of (header_values h) = h"
  by (cases h) (simp add: header_of_def header_values_def big_value_def hash_value_def split: option.split)

lemma header_encodable: "header_ok h \<Longrightarrow> encodable (header_value h)"
  by (auto simp: header_value_def header_values_def big_value_def hash_value_def header_ok_def
      dest!: in_set_takeD split: option.splits)

abbreviation header_bytes :: "Header \<Rightarrow> bytes" where
  "header_bytes h \<equiv> rlp_enc (item_of (header_value h))"

lemma EncodeHeader_eq:
  assumes "header_ok h" "length (header_bytes h) < 2 ^ 63" "length (h_Extra h) < 2 ^ 63"
  shows "EncodeHeader h = Ok (Some (header_bytes h))"
proof -
  have e: "Header_EncodeRLP h newEncBuffer = encode_value (header_value h) newEncBuffer"
    using assms by (intro Header_EncodeRLP_eq) (auto simp: header_ok_def)
  have "length (header_bytes h) < 2 ^ 64" using assms(2) by simp
  from encode_value_adds [OF header_encodable [OF assms(1)] this, of newEncBuffer] obtain w where
    "encode_value (header_value h) newEncBuffer = Ok w" "adds newEncBuffer w (header_bytes h)" by blast
  then show ?thesis by (simp add: EncodeHeader_def e makeBytes_adds)
qed

lemma DecodeHeader_bytes:
  assumes "header_ok h" "length (header_bytes h) < 2 ^ 63"
  shows "DecodeHeader (header_bytes h) = Some (Ok h)"
  using DecodeBytes_complete [OF assms(2) header_matches [OF assms(1)]]
  by (simp add: DecodeHeader_def header_of_values)

lemma match_fields_nth:
  "match_fields fs vs its \<Longrightarrow>
     length vs = length fs \<and> length its \<le> length fs
     \<and> (\<forall>i < length its. fst (fs ! i) (vs ! i) (its ! i))
     \<and> (\<forall>i. length its \<le> i \<longrightarrow> i < length fs \<longrightarrow> vs ! i = snd (snd (fs ! i)))
     \<and> (length its < length fs \<longrightarrow> fst (snd (fs ! length its)))"
proof (induction fs arbitrary: vs its)
  case (Cons f fs)
  obtain m opt z where f: "f = (m, opt, z)" by (cases f) auto
  from Cons.prems obtain v vs' where vs: "vs = v # vs'" by (cases vs) (auto simp: f)
  show ?case
  proof (cases its)
    case Nil
    with Cons.prems show ?thesis by (auto simp: f vs nth_Cons split: nat.split)
  next
    case (Cons it its')
    with Cons.prems have m: "m v it" "match_fields fs vs' its'" by (auto simp: f vs)
    have "fst ((f # fs) ! i) (vs ! i) (its ! i)" if "i < length its" for i
      using that m(1) Cons.IH [OF m(2)] Cons by (cases i) (auto simp: f vs)
    moreover have "vs ! i = snd (snd ((f # fs) ! i))" if "length its \<le> i" "i < length (f # fs)" for i
      using that Cons.IH [OF m(2)] Cons by (cases i) (auto simp: f vs)
    ultimately show ?thesis using Cons.IH [OF m(2)] Cons by (auto simp: f vs)
  qed
qed auto

lemma matches_arrayD: "matches (TByteArray n) v it \<Longrightarrow> \<exists>b. v = VByteArray b \<and> it = Str b \<and> length b = unat n"
  by auto

lemma matches_bigD: "matches TBigInt v it \<Longrightarrow> \<exists>d. v = VBigInt d \<and> 0 \<le> d \<and> it = Str (be_bytes (nat d))"
  by auto

lemma matches_uintD: "matches (TUint u) v it \<Longrightarrow> \<exists>i. v = VUint i \<and> it = Str (be_bytes (unat i))"
  by auto

lemma list18: "length xs = 18 \<Longrightarrow> xs = [xs ! 0, xs ! 1, xs ! 2, xs ! 3, xs ! 4, xs ! 5, xs ! 6, xs ! 7,
    xs ! 8, xs ! 9, xs ! 10, xs ! 11, xs ! 12, xs ! 13, xs ! 14, xs ! 15, xs ! 16, xs ! 17]"
  using map_nth [of xs, symmetric] by (simp add: upt_rec numeral_eq_Suc)

lemma header_field_item: "t \<in> set (header_req @ header_opt) \<Longrightarrow> matches t v it \<Longrightarrow> it = item_of v"
  by (auto simp: header_req_def header_opt_def)

lemma header_matches_nth:
  assumes "matches header_type (VStruct fs) it"
  obtains its where "it = Lst its" "length fs = 18" "15 \<le> length its" "length its \<le> 18"
    "its = map item_of (take (length its) fs)"
    "\<And>i. i < length its \<Longrightarrow> matches ((header_req @ header_opt) ! i) (fs ! i) (its ! i)"
    "\<And>i. length its \<le> i \<Longrightarrow> i < 18 \<Longrightarrow> fs ! i = zero_value ((header_req @ header_opt) ! i)"
proof -
  let ?ts = "map (\<lambda>t. (t, False)) header_req @ map (\<lambda>t. (t, True)) header_opt"
  let ?F = "map (\<lambda>f. (matches (fst f), snd f, zero_value (fst f))) ?ts"
  from assms obtain its where it: "it = Lst its" "match_fields ?F fs its" by (auto simp: header_type_def)
  note n = match_fields_nth [OF it(2)]
  have len: "length header_req = 15" "length header_opt = 3" by (simp_all add: header_req_def header_opt_def)
  have ts: "?ts ! i = ((header_req @ header_opt) ! i, 15 \<le> i)" if "i < 18" for i
    using that by (simp add: nth_append len)
  have req: "15 \<le> length its"
    using n len ts [of "length its"] by (cases "15 \<le> length its") (auto simp: nth_append)
  have m: "matches ((header_req @ header_opt) ! i) (fs ! i) (its ! i)" if "i < length its" for i
    using that n ts [of i] len by (auto simp: nth_append split: if_splits)
  have z: "fs ! i = zero_value ((header_req @ header_opt) ! i)" if "length its \<le> i" "i < 18" for i
    using that n ts [of i] len by (auto simp: nth_append split: if_splits)
  have "its = map item_of (take (length its) fs)"
  proof (rule nth_equalityI)
    fix i
    assume i: "i < length its"
    then have "(header_req @ header_opt) ! i \<in> set (header_req @ header_opt)"
      using n len by (intro nth_mem) auto
    from header_field_item [OF this m [OF i]] i show "its ! i = map item_of (take (length its) fs) ! i"
      using n len by simp
  qed (use n len in simp)
  then show ?thesis using that it(1) n len req m z by auto
qed

lemma header_matchesD:
  assumes "matches header_type (VStruct fs) it"
  shows "fs = header_values (header_of fs) \<and> header_ok (header_of fs)
    \<and> it = item_of (header_value (header_of fs))"
proof -
  from header_matches_nth [OF assms] obtain its where
    it: "it = Lst its" "length fs = 18" "15 \<le> length its" "length its \<le> 18"
    "its = map item_of (take (length its) fs)"
    and m: "\<And>i. i < length its \<Longrightarrow> matches ((header_req @ header_opt) ! i) (fs ! i) (its ! i)"
    and z: "\<And>i. length its \<le> i \<Longrightarrow> i < 18 \<Longrightarrow> fs ! i = zero_value ((header_req @ header_opt) ! i)" by blast
  have arr: "\<exists>b. fs ! i = VByteArray b \<and> length b = unat n"
    if "i < length its" "(header_req @ header_opt) ! i = TByteArray n" for i n
    using m [OF that(1)] that(2) by auto
  have big: "\<exists>d. fs ! i = VBigInt d \<and> 0 \<le> d" if "i < length its" "(header_req @ header_opt) ! i = TBigInt" for i
    using m [OF that(1)] that(2) by auto
  have uint: "\<exists>u. fs ! i = VUint u" if "i < length its" "(header_req @ header_opt) ! i = TUint Uint64" for i
    using m [OF that(1)] that(2) by auto
  have ptr: "\<exists>b. fs ! 16 = VByteArray b \<and> length b = 32" if "16 < length its"
    using m [OF that] by (auto simp: header_req_def header_opt_def)
  have x: "\<exists>b. fs ! 12 = VBytes b" using m [of 12] it(3) by (auto simp: header_req_def header_opt_def)
  note H = header_req_def header_opt_def
  have ne: "its \<noteq> []" using it(3) by auto
  obtain b0 b1 b2 b3 b4 b5 b6 b13 b14 where b:
    "fs ! 0 = VByteArray b0" "length b0 = 32" "fs ! 1 = VByteArray b1" "length b1 = 32"
    "fs ! 2 = VByteArray b2" "length b2 = 20" "fs ! 3 = VByteArray b3" "length b3 = 32"
    "fs ! 4 = VByteArray b4" "length b4 = 32" "fs ! 5 = VByteArray b5" "length b5 = 32"
    "fs ! 6 = VByteArray b6" "length b6 = 256" "fs ! 13 = VByteArray b13" "length b13 = 32"
    "fs ! 14 = VByteArray b14" "length b14 = 8"
    using arr [of 0 32] arr [of 1 32] arr [of 2 20] arr [of 3 32] arr [of 4 32] arr [of 5 32]
      arr [of 6 256] arr [of 13 32] arr [of 14 8] it(3) ne by (auto simp: H)
  obtain d n u1 u2 u3 e where c: "fs ! 7 = VBigInt d" "0 \<le> d" "fs ! 8 = VBigInt n" "0 \<le> n"
    "fs ! 9 = VUint u1" "fs ! 10 = VUint u2" "fs ! 11 = VUint u3" "fs ! 12 = VBytes e"
    using big [of 7] big [of 8] uint [of 9] uint [of 10] uint [of 11] x it(3) by (auto simp: H)
  have o15: "if 15 < length its then \<exists>d. fs ! 15 = VBigInt d \<and> 0 \<le> d else fs ! 15 = VNilBigInt"
    using big [of 15] z [of 15] it(3) by (auto simp: H)
  have o16: "if 16 < length its then \<exists>b. fs ! 16 = VByteArray b \<and> length b = 32 else fs ! 16 = VNil KString"
    using ptr z [of 16] by (auto simp: H)
  have o17: "if 17 < length its then \<exists>d. fs ! 17 = VBigInt d \<and> 0 \<le> d else fs ! 17 = VNilBigInt"
    using big [of 17] z [of 17] by (auto simp: H)
  define h where "h = header_of fs"
  have h15: "(h_BaseFee h \<noteq> None) = (15 < length its)" "big_value (h_BaseFee h) = fs ! 15"
    "\<forall>f. h_BaseFee h = Some f \<longrightarrow> 0 \<le> f"
    using o15 by (auto simp: h_def header_of_def big_value_def split: if_splits)
  have h16: "(h_WithdrawalsHash h \<noteq> None) = (16 < length its)" "hash_value (h_WithdrawalsHash h) = fs ! 16"
    "\<forall>b. h_WithdrawalsHash h = Some b \<longrightarrow> length b = 32"
    using o16 by (auto simp: h_def header_of_def hash_value_def split: if_splits)
  have h17: "(h_ExcessDataGas h \<noteq> None) = (17 < length its)" "big_value (h_ExcessDataGas h) = fs ! 17"
    "\<forall>f. h_ExcessDataGas h = Some f \<longrightarrow> 0 \<le> f"
    using o17 by (auto simp: h_def header_of_def big_value_def split: if_splits)
  have hd: "h_ParentHash h = b0" "h_UncleHash h = b1" "h_Coinbase h = b2" "h_Root h = b3" "h_TxHash h = b4"
    "h_ReceiptHash h = b5" "h_Bloom h = b6" "h_MixDigest h = b13" "h_Nonce h = b14"
    "h_Difficulty h = Some d" "h_Number h = Some n" "h_GasLimit h = u1" "h_GasUsed h = u2" "h_Time h = u3"
    "h_Extra h = e"
    by (simp_all add: h_def header_of_def b c del: One_nat_def)
  have "fs = header_values h"
    by (subst list18 [OF it(2)]) (simp only: header_values_def h15 h16 h17 hd b c big_value_def [of "Some _"] option.case)
  moreover have "header_ok h"
    using h15 h16 h17 it(3) b c by (auto simp: header_ok_def header_wf_def hd)
  moreover have "length its = header_len h"
    using h15(1) h16(1) h17(1) it(3,4)
    by (cases "15 < length its"; cases "16 < length its"; cases "17 < length its") (simp_all add: header_len_def)
  ultimately show ?thesis using it(1,5) unfolding h_def by (simp add: header_value_def)
qed

lemma rlp_enc_elem_le: "it \<in> set its \<Longrightarrow> length (rlp_enc it) \<le> length (rlp_enc (Lst its))"
proof -
  assume "it \<in> set its"
  then have "length (rlp_enc it) \<le> length (concat (map rlp_enc its))" by (induction its) auto
  then show ?thesis by (simp add: rlp_list_def)
qed

lemma Extra_le: "length (h_Extra h) \<le> length (header_bytes h)"
proof -
  have "Str (h_Extra h) \<in> set (map item_of (take (header_len h) (header_values h)))"
    by (auto simp: header_len_def header_values_def)
  from rlp_enc_elem_le [OF this] show ?thesis by (simp add: header_value_def rlp_string_def split: if_splits)
qed

section \<open>Properties\<close>

text \<open>C18: Header decoding is the exact inverse of header encoding: \<open>DecodeBytes\<close> into a \<open>Header\<close>
  returns \<open>h\<close> if and only if \<open>h\<close> is a well-formed header and the input is its encoding, and those
  are the bytes that the generated \<open>EncodeRLP\<close> writes.  No header has two encodings.\<close>

theorem DecodeHeader_iff:
  assumes "length b < 2 ^ 63"
  shows "(DecodeHeader b = Some (Ok h) \<longleftrightarrow> header_ok h \<and> b = header_bytes h)
    \<and> (header_ok h \<and> b = header_bytes h \<longrightarrow> EncodeHeader h = Ok (Some b))"
proof (rule conjI)
  show "DecodeHeader b = Some (Ok h) \<longleftrightarrow> header_ok h \<and> b = header_bytes h"
  proof
    assume "DecodeHeader b = Some (Ok h)"
    then obtain fs where fs: "DecodeBytes header_type b = Some (Ok (VStruct fs))" "h = header_of fs"
      by (auto simp: DecodeHeader_def split: option.splits sum.splits goval.splits)
    from DecodeBytes_sound [OF assms fs(1)] obtain it where
      it: "matches header_type (VStruct fs) it" "b = rlp_enc it" by blast
    from header_matchesD [OF it(1)] fs(2) it(2) show "header_ok h \<and> b = header_bytes h" by auto
  qed (use assms DecodeHeader_bytes in auto)
  show "header_ok h \<and> b = header_bytes h \<longrightarrow> EncodeHeader h = Ok (Some b)"
    using assms Extra_le [of h] by (auto intro!: EncodeHeader_eq)
qed

text \<open>The header of \<open>CopyHeader(&Header{})\<close>.\<close>

definition zero_header :: Header where
  "zero_header =
     \<lparr>h_ParentHash = replicate 32 0, h_UncleHash = replicate 32 0, h_Coinbase = replicate 20 0,
      h_Root = replicate 32 0, h_TxHash = replicate 32 0, h_ReceiptHash = replicate 32 0,
      h_Bloom = replicate 256 0, h_Difficulty = Some 0, h_Number = Some 0, h_GasLimit = 0,
      h_GasUsed = 0, h_Time = 0, h_Extra = [], h_MixDigest = replicate 32 0, h_Nonce = replicate 8 0,
      h_BaseFee = None, h_WithdrawalsHash = None, h_ExcessDataGas = None\<rparr>"

lemma zero_header_ok: "header_ok zero_header" "length (header_bytes zero_header) < 2 ^ 63"
  by (simp_all add: header_ok_def header_wf_def zero_header_def header_value_def header_values_def
      header_len_def big_value_def rlp_list_def rlp_string_def rlp_head_def be_bytes.simps)

theorem DecodeHeader_iff_witness:
  "length (header_bytes zero_header) < 2 ^ 63
   \<and> DecodeHeader (header_bytes zero_header) = Some (Ok zero_header)
   \<and> EncodeHeader zero_header = Ok (Some (header_bytes zero_header))"
  using DecodeHeader_iff [OF zero_header_ok(2), of zero_header] zero_header_ok by blast

text \<open>C28: \<open>HeaderParentHashFromRLP\<close> reads the parent hash out of an encoded header without decoding
  the rest.\<close>

theorem HeaderParentHashFromRLP_ok:
  assumes "header_ok h" "length (header_bytes h) < 2 ^ 63"
  shows "HeaderParentHashFromRLP (header_bytes h) = h_ParentHash h"
proof -
  obtain fs where fs: "take (header_len h) (header_values h) = VByteArray (h_ParentHash h) # fs"
    by (cases "h_ExcessDataGas h"; cases "h_WithdrawalsHash h"; cases "h_BaseFee h")
       (simp_all add: header_values_def header_len_def)
  let ?p = "rlp_string (h_ParentHash h) @ concat (map (\<lambda>v. rlp_enc (item_of v)) fs)"
  have b: "header_bytes h = rlp_list ?p" by (simp add: header_value_def fs comp_def)
  have l: "length (rlp_list ?p) < 2 ^ 64" using assms(2) unfolding b by simp
  then have "length ?p < 2 ^ 64" by (simp add: rlp_list_def)
  with Split_rlp_string have "SplitString ?p = Ok (h_ParentHash h, concat (map (\<lambda>v. rlp_enc (item_of v)) fs))"
    by (simp add: SplitString_def)
  moreover have "SplitList (rlp_list ?p) = Ok (?p, [])"
    using Split_rlp_list [of ?p "[]"] l by (simp add: SplitList_def)
  moreover have "length (h_ParentHash h) = 32" using assms(1) by (simp add: header_ok_def header_wf_def)
  ultimately show ?thesis unfolding b HeaderParentHashFromRLP_def by simp
qed

theorem HeaderParentHashFromRLP_ok_witness:
  "header_ok zero_header \<and> length (header_bytes zero_header) < 2 ^ 63
   \<and> HeaderParentHashFromRLP (header_bytes zero_header) = replicate 32 0"
  using HeaderParentHashFromRLP_ok [OF zero_header_ok] zero_header_ok by (simp add: zero_header_def)

lemma Nonce_roundtrip: "Nonce_Uint64 (EncodeNonce i) = i"
proof -
  have v: "be_val (map (\<lambda>k. ucast (drop_bit (8 * k) i) :: byte) (rev [0..<n])) = unat i mod 256 ^ n" for n
  proof (induction n)
    case (Suc n)
    have "unat (ucast (drop_bit (8 * n) i) :: byte) = unat i div 256 ^ n mod 256"
      by (simp add: unsigned_ucast_eq unat_drop_bit_div take_bit_eq_mod power_mult)
    then show ?case using Suc mod_mult2_eq [of "unat i" "256 ^ n" 256] by (simp add: mult.commute)
  qed simp
  have "unat i mod 256 ^ 8 = unat i"
    using unsigned_less [of i, where ?'a = nat] by (intro mod_less) simp
  then show ?thesis using v [of 8] by (simp add: Nonce_Uint64_def EncodeNonce_def)
qed

text \<open>A header that passes \<open>SanityCheck\<close> has bounded fields.\<close>

lemma bigBitLen_le: "0 \<le> i \<Longrightarrow> bigBitLen i \<le> k \<longleftrightarrow> i < 2 ^ k"
  by (simp add: bigBitLen_def BitLen_le)

lemma SanityCheck_ok:
  assumes "header_ok h"
  shows "SanityCheck h = None \<longleftrightarrow>
    the (h_Number h) < 2 ^ 64 \<and> the (h_Difficulty h) < 2 ^ 80 \<and> length (h_Extra h) \<le> 102400
    \<and> (\<forall>f. h_BaseFee h = Some f \<longrightarrow> f < 2 ^ 256)"
proof -
  have le: "k < bigBitLen i \<longleftrightarrow> \<not> i < 2 ^ k" if "0 \<le> i" for i k
    using bigBitLen_le [OF that, of k] by linarith
  obtain d n where dn: "h_Difficulty h = Some d" "0 \<le> d" "h_Number h = Some n" "0 \<le> n"
    using assms by (auto simp: header_ok_def)
  have f: "0 \<le> f" if "h_BaseFee h = Some f" for f using that assms by (simp add: header_ok_def)
  show ?thesis
    by (cases "h_BaseFee h"; cases "n < 2 ^ 64"; cases "d < 2 ^ 80")
       (simp_all add: SanityCheck_def dn le f IsUint64_def not_less)
qed

end
