(* ===== verification/Types_Tx.thy ===== *)
theory Types_Tx
  imports Types_Block
begin

text \<open>
  Transactions (\<^verbatim>\<open>core/types/transaction.go\<close>, \<^verbatim>\<open>tx_legacy.go\<close>, \<^verbatim>\<open>tx_access_list.go\<close>,
  \<^verbatim>\<open>tx_dynamic_fee.go\<close>): the consensus contents, the EIP-2718 envelope, the signature values and
  the fees.  The \<open>*big.Int\<close> fields are the non-nil ones that \<open>copy\<close> and the decoders leave.
\<close>

section \<open>Definitions\<close>

record LegacyTx =
  lt_Nonce :: u64
  lt_GasPrice :: int
  lt_Gas :: u64
  lt_To :: "bytes option"
  lt_Value :: int
  lt_Data :: bytes
  lt_V :: int
  lt_R :: int
  lt_S :: int

record AccessTuple =
  at_Address :: bytes
  at_StorageKeys :: "bytes list"

record AccessListTx =
  al_ChainID :: int
  al_Nonce :: u64
  al_GasPrice :: int
  al_Gas :: u64
  al_To :: "bytes option"
  al_Value :: int
  al_Data :: bytes
  al_AccessList :: "AccessTuple list"
  al_V :: int
  al_R :: int
  al_S :: int

record DynamicFeeTx =
  df_ChainID :: int
  df_Nonce :: u64
  df_GasTipCap :: int
  df_GasFeeCap :: int
  df_Gas :: u64
  df_To :: "bytes option"
  df_Value :: int
  df_Data :: bytes
  df_AccessList :: "AccessTuple list"
  df_V :: int
  df_R :: int
  df_S :: int

text \<open>The fields of type \<open>*uint256.Int\<close> are their values; the RLP coding of that type, which goes
  through an external package, is an argument of the functions that need it.\<close>

record BlobTx =
  bl_ChainID :: int
  bl_Nonce :: u64
  bl_GasTipCap :: int
  bl_GasFeeCap :: int
  bl_Gas :: u64
  bl_To :: "bytes option"
  bl_Value :: int
  bl_Data :: bytes
  bl_AccessList :: "AccessTuple list"
  bl_BlobFeeCap :: int
  bl_BlobHashes :: "bytes list"
  bl_V :: int
  bl_R :: int
  bl_S :: int

datatype TxData =
    Legacy LegacyTx
  | AccessList AccessListTx
  | DynamicFee DynamicFeeTx
  | Blob BlobTx

record blobCodec =
  bc_encode :: "BlobTx \<Rightarrow> rlp_err + bytes option"
  bc_decode :: "bytes \<Rightarrow> (rlp_err + BlobTx) option"

datatype tx_err =
    ErrRLP rlp_err
  | ErrShortTypedTx
  | ErrTxTypeNotSupported
  | ErrInvalidSig
  | ErrUnexpectedProtection
  | ErrGasFeeCapTooLow

fun txType :: "TxData \<Rightarrow> byte" where
  "txType (Legacy _) = 0"
| "txType (AccessList _) = 1"
| "txType (DynamicFee _) = 2"
| "txType (Blob _) = 3"

subsection \<open>Encoding\<close>

definition to_value :: "bytes option \<Rightarrow> goval" where
  "to_value a = (case a of None \<Rightarrow> VNil KString | Some b \<Rightarrow> VByteArray b)"

definition tuple_value :: "AccessTuple \<Rightarrow> goval" where
  "tuple_value t = VStruct [VByteArray (at_Address t), VSlice (map VByteArray (at_StorageKeys t))]"

definition legacy_value :: "LegacyTx \<Rightarrow> goval" where
  "legacy_value tx = VStruct
     [VUint (lt_Nonce tx), VBigInt (lt_GasPrice tx), VUint (lt_Gas tx), to_value (lt_To tx),
      VBigInt (lt_Value tx), VBytes (lt_Data tx), VBigInt (lt_V tx), VBigInt (lt_R tx), VBigInt (lt_S tx)]"

definition accessList_value :: "AccessListTx \<Rightarrow> goval" where
  "accessList_value tx = VStruct
     [VBigInt (al_ChainID tx), VUint (al_Nonce tx), VBigInt (al_GasPrice tx), VUint (al_Gas tx),
      to_value (al_To tx), VBigInt (al_Value tx), VBytes (al_Data tx),
      VSlice (map tuple_value (al_AccessList tx)), VBigInt (al_V tx), VBigInt (al_R tx), VBigInt (al_S tx)]"

definition dynamicFee_value :: "DynamicFeeTx \<Rightarrow> goval" where
  "dynamicFee_value tx = VStruct
     [VBigInt (df_ChainID tx), VUint (df_Nonce tx), VBigInt (df_GasTipCap tx), VBigInt (df_GasFeeCap tx),
      VUint (df_Gas tx), to_value (df_To tx), VBigInt (df_Value tx), VBytes (df_Data tx),
      VSlice (map tuple_value (df_AccessList tx)), VBigInt (df_V tx), VBigInt (df_R tx), VBigInt (df_S tx)]"

fun encodeInner :: "blobCodec \<Rightarrow> TxData \<Rightarrow> rlp_err + bytes option" where
  "encodeInner bc (Legacy tx) = EncodeToBytes (legacy_value tx)"
| "encodeInner bc (AccessList tx) = EncodeToBytes (accessList_value tx)"
| "encodeInner bc (DynamicFee tx) = EncodeToBytes (dynamicFee_value tx)"
| "encodeInner bc (Blob tx) = bc_encode bc tx"

definition encodeTyped :: "blobCodec \<Rightarrow> TxData \<Rightarrow> rlp_err + bytes option" where
  "encodeTyped bc tx = map_sum id (map_option (\<lambda>b. txType tx # b)) (encodeInner bc tx)"

definition MarshalBinary :: "blobCodec \<Rightarrow> TxData \<Rightarrow> rlp_err + bytes option" where
  "MarshalBinary bc tx = (if txType tx = 0 then encodeInner bc tx else encodeTyped bc tx)"

definition Transaction_EncodeRLP :: "blobCodec \<Rightarrow> TxData \<Rightarrow> rlp_err + bytes option" where
  "Transaction_EncodeRLP bc tx =
     (if txType tx = 0 then encodeInner bc tx
      else (case encodeTyped bc tx of Err e \<Rightarrow> Err e | Ok None \<Rightarrow> Ok None
            | Ok (Some b) \<Rightarrow> EncodeToBytes (VBytes b)))"

subsection \<open>Decoding\<close>

definition tuple_type :: gotype where
  "tuple_type = TStruct (map (\<lambda>t. (t, False)) [TByteArray 20, TSlice (TByteArray 32)])"

definition legacy_type :: gotype where
  "legacy_type = TStruct (map (\<lambda>t. (t, False))
     [TUint Uint64, TBigInt, TUint Uint64, TNilPtr (TByteArray 20) KString, TBigInt, TBytes,
      TBigInt, TBigInt, TBigInt])"

definition accessList_type :: gotype where
  "accessList_type = TStruct (map (\<lambda>t. (t, False))
     [TBigInt, TUint Uint64, TBigInt, TUint Uint64, TNilPtr (TByteArray 20) KString, TBigInt, TBytes,
      TSlice tuple_type, TBigInt, TBigInt, TBigInt])"

definition dynamicFee_type :: gotype where
  "dynamicFee_type = TStruct (map (\<lambda>t. (t, False))
     [TBigInt, TUint Uint64, TBigInt, TBigInt, TUint Uint64, TNilPtr (TByteArray 20) KString, TBigInt,
      TBytes, TSlice tuple_type, TBigInt, TBigInt, TBigInt])"

fun the_uint :: "goval \<Rightarrow> u64" where
  "the_uint (VUint i) = i" | "the_uint _ = 0"

fun the_big :: "goval \<Rightarrow> int" where
  "the_big (VBigInt i) = i" | "the_big _ = 0"

fun the_bytes :: "goval \<Rightarrow> bytes" where
  "the_bytes (VBytes b) = b" | "the_bytes (VByteArray b) = b" | "the_bytes _ = []"

fun the_to :: "goval \<Rightarrow> bytes option" where
  "the_to (VByteArray b) = Some b" | "the_to _ = None"

fun the_list :: "goval \<Rightarrow> goval list" where
  "the_list (VSlice vs) = vs" | "the_list (VStruct vs) = vs" | "the_list _ = []"

definition tuple_of :: "goval \<Rightarrow> AccessTuple" where
  "tuple_of v = (let fs = the_list v in
     \<lparr>at_Address = the_bytes (fs ! 0), at_StorageKeys = map the_bytes (the_list (fs ! 1))\<rparr>)"

definition legacy_of :: "goval \<Rightarrow> LegacyTx" where
  "legacy_of v = (let fs = the_list v in
     \<lparr>lt_Nonce = the_uint (fs ! 0), lt_GasPrice = the_big (fs ! 1), lt_Gas = the_uint (fs ! 2),
      lt_To = the_to (fs ! 3), lt_Value = the_big (fs ! 4), lt_Data = the_bytes (fs ! 5),
      lt_V = the_big (fs ! 6), lt_R = the_big (fs ! 7), lt_S = the_big (fs ! 8)\<rparr>)"

definition accessList_of :: "goval \<Rightarrow> AccessListTx" where
  "accessList_of v = (let fs = the_list v in
     \<lparr>al_ChainID = the_big (fs ! 0), al_Nonce = the_uint (fs ! 1), al_GasPrice = the_big (fs ! 2),
      al_Gas = the_uint (fs ! 3), al_To = the_to (fs ! 4), al_Value = the_big (fs ! 5),
      al_Data = the_bytes (fs ! 6), al_AccessList = map tuple_of (the_list (fs ! 7)),
      al_V = the_big (fs ! 8), al_R = the_big (fs ! 9), al_S = the_big (fs ! 10)\<rparr>)"

definition dynamicFee_of :: "goval \<Rightarrow> DynamicFeeTx" where
  "dynamicFee_of v = (let fs = the_list v in
     \<lparr>df_ChainID = the_big (fs ! 0), df_Nonce = the_uint (fs ! 1), df_GasTipCap = the_big (fs ! 2),
      df_GasFeeCap = the_big (fs ! 3), df_Gas = the_uint (fs ! 4), df_To = the_to (fs ! 5),
      df_Value = the_big (fs ! 6), df_Data = the_bytes (fs ! 7),
      df_AccessList = map tuple_of (the_list (fs ! 8)),
      df_V = the_big (fs ! 9), df_R = the_big (fs ! 10), df_S = the_big (fs ! 11)\<rparr>)"

definition lift_tx :: "(goval \<Rightarrow> TxData) \<Rightarrow> (rlp_err + goval) option \<Rightarrow> (tx_err + TxData) option" where
  "lift_tx f r = map_option (map_sum ErrRLP f) r"

definition decodeTyped :: "blobCodec \<Rightarrow> bytes \<Rightarrow> (tx_err + TxData) option" where
  "decodeTyped bc b =
     (if length b \<le> 1 then Some (Err ErrShortTypedTx)
      else if b ! 0 = 1 then lift_tx (AccessList \<circ> accessList_of) (DecodeBytes accessList_type (drop 1 b))
      else if b ! 0 = 2 then lift_tx (DynamicFee \<circ> dynamicFee_of) (DecodeBytes dynamicFee_type (drop 1 b))
      else if b ! 0 = 3 then map_option (map_sum ErrRLP Blob) (bc_decode bc (drop 1 b))
      else Some (Err ErrTxTypeNotSupported))"

definition UnmarshalBinary :: "blobCodec \<Rightarrow> bytes \<Rightarrow> (tx_err + TxData) option" where
  "UnmarshalBinary bc b =
     (if length b > 0 \<and> b ! 0 > 0x7F then lift_tx (Legacy \<circ> legacy_of) (DecodeBytes legacy_type b)
      else decodeTyped bc b)"

definition Transaction_DecodeRLP ::
  "blobCodec \<Rightarrow> nat \<Rightarrow> stream \<Rightarrow> (stream \<times> (tx_err + TxData)) option" where
  "Transaction_DecodeRLP bc fuel s =
     (case Kind s of (s, k, sz, Some err) \<Rightarrow> Some (s, Err (ErrRLP err))
      | (s, k, sz, None) \<Rightarrow>
          if k = KList then
            map_option (map_prod id (map_sum ErrRLP (Legacy \<circ> legacy_of))) (makeDecoder fuel legacy_type s)
          else
            (case Bytes s of (s, Err err) \<Rightarrow> Some (s, Err (ErrRLP err))
             | (s, Ok b) \<Rightarrow> map_option (\<lambda>r. (s, r)) (decodeTyped bc b)))"

subsection \<open>Accessors of the consensus contents\<close>

text \<open>\<open>big.Int.Uint64\<close> returns the low 64 bits of the absolute value.\<close>

definition big_Uint64 :: "int \<Rightarrow> u64" where
  "big_Uint64 i = of_int \<bar>i\<bar>"

definition deriveChainId :: "int \<Rightarrow> int" where
  "deriveChainId v =
     (if bigBitLen v \<le> 64 then
        let v = big_Uint64 v in
        if v = 27 \<or> v = 28 then 0 else uint ((v - 35) div 2)
      else (v - 35) div 2)"

fun tx_chainID :: "TxData \<Rightarrow> int" where
  "tx_chainID (Legacy tx) = deriveChainId (lt_V tx)"
| "tx_chainID (AccessList tx) = al_ChainID tx"
| "tx_chainID (DynamicFee tx) = df_ChainID tx"
| "tx_chainID (Blob tx) = bl_ChainID tx"

fun tx_accessList :: "TxData \<Rightarrow> AccessTuple list" where
  "tx_accessList (Legacy tx) = []"
| "tx_accessList (AccessList tx) = al_AccessList tx"
| "tx_accessList (DynamicFee tx) = df_AccessList tx"
| "tx_accessList (Blob tx) = bl_AccessList tx"

fun tx_data :: "TxData \<Rightarrow> bytes" where
  "tx_data (Legacy tx) = lt_Data tx"
| "tx_data (AccessList tx) = al_Data tx"
| "tx_data (DynamicFee tx) = df_Data tx"
| "tx_data (Blob tx) = bl_Data tx"

fun tx_gas :: "TxData \<Rightarrow> u64" where
  "tx_gas (Legacy tx) = lt_Gas tx"
| "tx_gas (AccessList tx) = al_Gas tx"
| "tx_gas (DynamicFee tx) = df_Gas tx"
| "tx_gas (Blob tx) = bl_Gas tx"

fun tx_gasPrice :: "TxData \<Rightarrow> int" where
  "tx_gasPrice (Legacy tx) = lt_GasPrice tx"
| "tx_gasPrice (AccessList tx) = al_GasPrice tx"
| "tx_gasPrice (DynamicFee tx) = df_GasFeeCap tx"
| "tx_gasPrice (Blob tx) = bl_GasFeeCap tx"

fun tx_gasTipCap :: "TxData \<Rightarrow> int" where
  "tx_gasTipCap (Legacy tx) = lt_GasPrice tx"
| "tx_gasTipCap (AccessList tx) = al_GasPrice tx"
| "tx_gasTipCap (DynamicFee tx) = df_GasTipCap tx"
| "tx_gasTipCap (Blob tx) = bl_GasTipCap tx"

fun tx_gasFeeCap :: "TxData \<Rightarrow> int" where
  "tx_gasFeeCap (Legacy tx) = lt_GasPrice tx"
| "tx_gasFeeCap (AccessList tx) = al_GasPrice tx"
| "tx_gasFeeCap (DynamicFee tx) = df_GasFeeCap tx"
| "tx_gasFeeCap (Blob tx) = bl_GasFeeCap tx"

fun tx_value :: "TxData \<Rightarrow> int" where
  "tx_value (Legacy tx) = lt_Value tx"
| "tx_value (AccessList tx) = al_Value tx"
| "tx_value (DynamicFee tx) = df_Value tx"
| "tx_value (Blob tx) = bl_Value tx"

fun tx_nonce :: "TxData \<Rightarrow> u64" where
  "tx_nonce (Legacy tx) = lt_Nonce tx"
| "tx_nonce (AccessList tx) = al_Nonce tx"
| "tx_nonce (DynamicFee tx) = df_Nonce tx"
| "tx_nonce (Blob tx) = bl_Nonce tx"

fun tx_to :: "TxData \<Rightarrow> bytes option" where
  "tx_to (Legacy tx) = lt_To tx"
| "tx_to (AccessList tx) = al_To tx"
| "tx_to (DynamicFee tx) = df_To tx"
| "tx_to (Blob tx) = bl_To tx"

definition BlobTxDataGasPerBlob :: u64 where
  "BlobTxDataGasPerBlob = 2 ^ 17"

fun tx_blobGas :: "TxData \<Rightarrow> u64" where
  "tx_blobGas (Blob tx) = BlobTxDataGasPerBlob * of_nat (length (bl_BlobHashes tx))"
| "tx_blobGas _ = 0"

fun tx_blobGasFeeCap :: "TxData \<Rightarrow> int option" where
  "tx_blobGasFeeCap (Blob tx) = Some (bl_BlobFeeCap tx)"
| "tx_blobGasFeeCap _ = None"

fun rawSignatureValues :: "TxData \<Rightarrow> int \<times> int \<times> int" where
  "rawSignatureValues (Legacy tx) = (lt_V tx, lt_R tx, lt_S tx)"
| "rawSignatureValues (AccessList tx) = (al_V tx, al_R tx, al_S tx)"
| "rawSignatureValues (DynamicFee tx) = (df_V tx, df_R tx, df_S tx)"
| "rawSignatureValues (Blob tx) = (bl_V tx, bl_R tx, bl_S tx)"

text \<open>\<open>u256\<close> is the value that \<open>uint256.Int.SetFromBig\<close> stores.\<close>

fun setSignatureValues :: "(int \<Rightarrow> int) \<Rightarrow> int option \<Rightarrow> int \<Rightarrow> int \<Rightarrow> int \<Rightarrow> TxData \<Rightarrow> TxData" where
  "setSignatureValues u256 chainID v r s (Legacy tx) = Legacy (tx\<lparr>lt_V := v, lt_R := r, lt_S := s\<rparr>)"
| "setSignatureValues u256 chainID v r s (AccessList tx) =
     AccessList (tx\<lparr>al_ChainID := (case chainID of None \<Rightarrow> 0 | Some i \<Rightarrow> i), al_V := v, al_R := r, al_S := s\<rparr>)"
| "setSignatureValues u256 chainID v r s (DynamicFee tx) =
     DynamicFee (tx\<lparr>df_ChainID := (case chainID of None \<Rightarrow> 0 | Some i \<Rightarrow> i), df_V := v, df_R := r, df_S := s\<rparr>)"
| "setSignatureValues u256 chainID v r s (Blob tx) =
     Blob (tx\<lparr>bl_ChainID := (case chainID of None \<Rightarrow> 0 | Some i \<Rightarrow> u256 i),
              bl_V := u256 v, bl_R := u256 r, bl_S := u256 s\<rparr>)"

subsection \<open>Fees\<close>

fun effectiveGasPrice :: "TxData \<Rightarrow> int option \<Rightarrow> int" where
  "effectiveGasPrice (Legacy tx) baseFee = lt_GasPrice tx"
| "effectiveGasPrice (AccessList tx) baseFee = al_GasPrice tx"
| "effectiveGasPrice (DynamicFee tx) baseFee =
     (case baseFee of None \<Rightarrow> df_GasFeeCap tx
      | Some bf \<Rightarrow> let tip = df_GasFeeCap tx - bf in (if tip > df_GasTipCap tx then df_GasTipCap tx else tip) + bf)"
| "effectiveGasPrice (Blob tx) baseFee =
     (case baseFee of None \<Rightarrow> bl_GasFeeCap tx
      | Some bf \<Rightarrow> let tip = bl_GasFeeCap tx - bf in (if tip > bl_GasTipCap tx then bl_GasTipCap tx else tip) + bf)"

definition Cost :: "TxData \<Rightarrow> int" where
  "Cost tx =
     (let total = tx_gasPrice tx * uint (tx_gas tx);
          total = (case tx_blobGasFeeCap tx of None \<Rightarrow> total | Some cap \<Rightarrow> total + cap * uint (tx_blobGas tx))
      in total + tx_value tx)"

definition EffectiveGasTip :: "TxData \<Rightarrow> int option \<Rightarrow> int \<times> tx_err option" where
  "EffectiveGasTip tx baseFee =
     (case baseFee of None \<Rightarrow> (tx_gasTipCap tx, None)
      | Some bf \<Rightarrow>
          (min (tx_gasTipCap tx) (tx_gasFeeCap tx - bf),
           if tx_gasFeeCap tx < bf then Some ErrGasFeeCapTooLow else None))"

definition EffectiveGasTipValue :: "TxData \<Rightarrow> int option \<Rightarrow> int" where
  "EffectiveGasTipValue tx baseFee = fst (EffectiveGasTip tx baseFee)"

text \<open>\<open>big.Int.Cmp\<close>.\<close>

definition big_Cmp :: "int \<Rightarrow> int \<Rightarrow> int" where
  "big_Cmp x y = (if x < y then - 1 else if x = y then 0 else 1)"

definition EffectiveGasTipCmp :: "TxData \<Rightarrow> TxData \<Rightarrow> int option \<Rightarrow> int" where
  "EffectiveGasTipCmp tx other baseFee =
     (if baseFee = None then big_Cmp (tx_gasTipCap tx) (tx_gasTipCap other)
      else big_Cmp (EffectiveGasTipValue tx baseFee) (EffectiveGasTipValue other baseFee))"

subsection \<open>Signature values\<close>

definition secp256k1N :: int where
  "secp256k1N = 0xfffffffffffffffffffffffffffffffebaaedce6af48a03bbfd25e8cd0364141"

definition secp256k1halfN :: int where
  "secp256k1halfN = secp256k1N div 2"

definition ValidateSignatureValues :: "byte \<Rightarrow> int \<Rightarrow> int \<Rightarrow> bool \<Rightarrow> bool" where
  "ValidateSignatureValues v r s homestead =
     (if r < 1 \<or> s < 1 then False
      else if homestead \<and> s > secp256k1halfN then False
      else r < secp256k1N \<and> s < secp256k1N \<and> (v = 0 \<or> v = 1))"

definition isProtectedV :: "int \<Rightarrow> bool" where
  "isProtectedV V =
     (if bigBitLen V \<le> 8 then
        let v = big_Uint64 V in v \<noteq> 27 \<and> v \<noteq> 28 \<and> v \<noteq> 1 \<and> v \<noteq> 0
      else True)"

fun Protected :: "TxData \<Rightarrow> bool" where
  "Protected (Legacy tx) = isProtectedV (lt_V tx)"
| "Protected _ = True"

definition sanityCheckSignature :: "int \<Rightarrow> int \<Rightarrow> int \<Rightarrow> bool \<Rightarrow> tx_err option" where
  "sanityCheckSignature v r s maybeProtected =
     (if isProtectedV v \<and> \<not> maybeProtected then Some ErrUnexpectedProtection
      else
        let plainV = (if isProtectedV v then ucast (big_Uint64 v - 35 - 2 * big_Uint64 (deriveChainId v))
                      else if maybeProtected then ucast (big_Uint64 v - 27)
                      else ucast (big_Uint64 v)) :: byte
        in if \<not> ValidateSignatureValues plainV r s False then Some ErrInvalidSig else None)"

section \<open>Lemmas\<close>

definition tuple_ok :: "AccessTuple \<Rightarrow> bool" where
  "tuple_ok t \<longleftrightarrow> length (at_Address t) = 20 \<and> (\<forall>k \<in> set (at_StorageKeys t). length k = 32)"

definition to_ok :: "bytes option \<Rightarrow> bool" where
  "to_ok a \<longleftrightarrow> (\<forall>b. a = Some b \<longrightarrow> length b = 20)"

text \<open>Transactions with the lengths of the Go arrays and non-negative integers.\<close>

fun tx_ok :: "TxData \<Rightarrow> bool" where
  "tx_ok (Legacy tx) \<longleftrightarrow> to_ok (lt_To tx) \<and> 0 \<le> lt_GasPrice tx \<and> 0 \<le> lt_Value tx
     \<and> 0 \<le> lt_V tx \<and> 0 \<le> lt_R tx \<and> 0 \<le> lt_S tx"
| "tx_ok (AccessList tx) \<longleftrightarrow> to_ok (al_To tx) \<and> 0 \<le> al_ChainID tx \<and> 0 \<le> al_GasPrice tx
     \<and> 0 \<le> al_Value tx \<and> list_all tuple_ok (al_AccessList tx) \<and> 0 \<le> al_V tx \<and> 0 \<le> al_R tx \<and> 0 \<le> al_S tx"
| "tx_ok (DynamicFee tx) \<longleftrightarrow> to_ok (df_To tx) \<and> 0 \<le> df_ChainID tx \<and> 0 \<le> df_GasTipCap tx
     \<and> 0 \<le> df_GasFeeCap tx \<and> 0 \<le> df_Value tx \<and> list_all tuple_ok (df_AccessList tx)
     \<and> 0 \<le> df_V tx \<and> 0 \<le> df_R tx \<and> 0 \<le> df_S tx"
| "tx_ok (Blob tx) \<longleftrightarrow> True"

lemma all_map_ex: "(\<forall>x \<in> set vs. \<exists>a. x = f a \<and> P a) \<longleftrightarrow> (\<exists>as. vs = map f as \<and> list_all P as)"
proof (induction vs)
  case (Cons v vs)
  have "(\<forall>x \<in> set (v # vs). \<exists>a. x = f a \<and> P a) \<longleftrightarrow> (\<exists>a as. v = f a \<and> P a \<and> vs = map f as \<and> list_all P as)"
    by (simp only: list.set ball_simps Cons.IH) blast
  also have "\<dots> \<longleftrightarrow> (\<exists>as. v # vs = map f as \<and> list_all P as)"
  proof
    assume "\<exists>a as. v = f a \<and> P a \<and> vs = map f as \<and> list_all P as"
    then obtain a as where "v = f a" "P a" "vs = map f as" "list_all P as" by blast
    then show "\<exists>as. v # vs = map f as \<and> list_all P as" by (intro exI [of _ "a # as"]) simp
  next
    assume "\<exists>as. v # vs = map f as \<and> list_all P as"
    then obtain a as where "v # vs = map f (a # as)" "list_all P (a # as)" by (metis Cons_eq_map_D list.map(2))
    then show "\<exists>a as. v = f a \<and> P a \<and> vs = map f as \<and> list_all P as" by auto
  qed
  finally show ?case .
qed simp

lemma plain_types [simp]: "plain legacy_type" "plain accessList_type" "plain dynamicFee_type" "plain tuple_type"
  by (auto simp: legacy_type_def accessList_type_def dynamicFee_type_def tuple_type_def)

lemma typed_to: "typed (TNilPtr (TByteArray 20) KString) v \<longleftrightarrow> (\<exists>a. v = to_value a \<and> to_ok a)"
proof -
  have "typed (TNilPtr (TByteArray 20) KString) v \<longleftrightarrow>
      v = VNil KString \<or> (\<exists>b. v = VByteArray b \<and> length b = 20)"
    by (subst typed_basic(5)) simp_all
  then show ?thesis by (auto simp: to_value_def to_ok_def split: option.splits)
qed

lemma the_to_value [simp]: "the_to (to_value a) = a"
  by (cases a) (simp_all add: to_value_def)

lemma typed_keys:
  "typed (TSlice (TByteArray 32)) v \<longleftrightarrow> (\<exists>ks. v = VSlice (map VByteArray ks) \<and> (\<forall>k \<in> set ks. length k = 32))"
proof -
  have "(\<forall>x \<in> set vs. typed (TByteArray 32) x) \<longleftrightarrow>
      (\<exists>ks. vs = map VByteArray ks \<and> (\<forall>k \<in> set ks. length k = 32))" for vs
    using all_map_ex [of vs VByteArray "\<lambda>k. length k = 32"] by (simp add: typed_basic list_all_iff)
  then show ?thesis by (auto simp: typed_slice)
qed

lemma typed_tuple: "typed tuple_type v \<longleftrightarrow> (\<exists>t. v = tuple_value t \<and> tuple_ok t)"
proof
  assume "typed tuple_type v"
  then obtain a ks where "v = VStruct [VByteArray a, VSlice (map VByteArray ks)]" "length a = 20"
    "\<forall>k \<in> set ks. length k = 32"
    unfolding tuple_type_def typed_struct list_all2_Cons1 list_all2_Nil typed_keys typed_basic(4) by auto
  then show "\<exists>t. v = tuple_value t \<and> tuple_ok t"
    by (intro exI [of _ "\<lparr>at_Address = a, at_StorageKeys = ks\<rparr>"]) (simp add: tuple_value_def tuple_ok_def)
next
  assume "\<exists>t. v = tuple_value t \<and> tuple_ok t"
  then show "typed tuple_type v"
    by (auto simp: tuple_type_def typed_struct tuple_value_def tuple_ok_def typed_keys typed_basic(4) simp del: list.map)
qed

lemma tuple_of_value [simp]: "tuple_of (tuple_value t) = t"
  by (simp add: tuple_of_def tuple_value_def comp_def)

lemma typed_tuples:
  "typed (TSlice tuple_type) v \<longleftrightarrow> (\<exists>ts. v = VSlice (map tuple_value ts) \<and> list_all tuple_ok ts)"
proof -
  have "(\<forall>x \<in> set vs. typed tuple_type x) \<longleftrightarrow> (\<exists>ts. vs = map tuple_value ts \<and> list_all tuple_ok ts)" for vs
    by (simp only: typed_tuple all_map_ex)
  then show ?thesis by (auto simp: typed_slice)
qed

lemma legacy_of_value [simp]: "legacy_of (legacy_value tx) = tx"
  by (cases tx) (simp add: legacy_of_def legacy_value_def)

lemma accessList_of_value [simp]: "accessList_of (accessList_value tx) = tx"
  by (cases tx) (simp add: accessList_of_def accessList_value_def comp_def)

lemma dynamicFee_of_value [simp]: "dynamicFee_of (dynamicFee_value tx) = tx"
  by (cases tx) (simp add: dynamicFee_of_def dynamicFee_value_def comp_def)

lemmas typed_fields = typed_basic(1-4) typed_to typed_tuples

lemma typed_legacy: "typed legacy_type v \<longleftrightarrow> (\<exists>tx. v = legacy_value tx \<and> tx_ok (Legacy tx :: TxData))"
proof
  assume "typed legacy_type v"
  then obtain n gp g to va d V R S where v: "v = VStruct [VUint n, VBigInt gp, VUint g, to_value to, VBigInt va, VBytes d,
      VBigInt V, VBigInt R, VBigInt S]" "to_ok to" "0 \<le> gp" "0 \<le> va" "0 \<le> V" "0 \<le> R" "0 \<le> S"
    unfolding legacy_type_def typed_struct list_all2_Cons1 list_all2_Nil typed_fields by auto
  then show "\<exists>tx. v = legacy_value tx \<and> tx_ok (Legacy tx :: TxData)"
    by (intro exI [of _ "\<lparr>lt_Nonce = n, lt_GasPrice = gp, lt_Gas = g, lt_To = to, lt_Value = va, lt_Data = d,
      lt_V = V, lt_R = R, lt_S = S\<rparr>"]) (simp add: legacy_value_def)
next
  assume "\<exists>tx. v = legacy_value tx \<and> tx_ok (Legacy tx :: TxData)"
  then show "typed legacy_type v"
    by (auto simp: legacy_type_def typed_struct legacy_value_def typed_fields simp del: list.map)
qed

lemma typed_accessList:
  "typed accessList_type v \<longleftrightarrow> (\<exists>tx. v = accessList_value tx \<and> tx_ok (AccessList tx :: TxData))"
proof
  assume "typed accessList_type v"
  then obtain c n gp g to va d ts V R S where v: "v = VStruct [VBigInt c, VUint n, VBigInt gp, VUint g, to_value to,
      VBigInt va, VBytes d, VSlice (map tuple_value ts), VBigInt V, VBigInt R, VBigInt S]" "to_ok to" "0 \<le> c" "0 \<le> gp"
      "0 \<le> va" "list_all tuple_ok ts" "0 \<le> V" "0 \<le> R" "0 \<le> S"
    unfolding accessList_type_def typed_struct list_all2_Cons1 list_all2_Nil typed_fields by auto
  then show "\<exists>tx. v = accessList_value tx \<and> tx_ok (AccessList tx :: TxData)"
    by (intro exI [of _ "\<lparr>al_ChainID = c, al_Nonce = n, al_GasPrice = gp, al_Gas = g, al_To = to, al_Value = va,
      al_Data = d, al_AccessList = ts, al_V = V, al_R = R, al_S = S\<rparr>"]) (simp add: accessList_value_def)
next
  assume "\<exists>tx. v = accessList_value tx \<and> tx_ok (AccessList tx :: TxData)"
  then show "typed accessList_type v"
    by (auto simp: accessList_type_def typed_struct accessList_value_def typed_fields simp del: list.map)
qed

lemma typed_dynamicFee:
  "typed dynamicFee_type v \<longleftrightarrow> (\<exists>tx. v = dynamicFee_value tx \<and> tx_ok (DynamicFee tx :: TxData))"
proof
  assume "typed dynamicFee_type v"
  then obtain c n tip cap g to va d ts V R S where v: "v = VStruct [VBigInt c, VUint n, VBigInt tip, VBigInt cap,
      VUint g, to_value to, VBigInt va, VBytes d, VSlice (map tuple_value ts), VBigInt V, VBigInt R, VBigInt S]"
      "to_ok to" "0 \<le> c" "0 \<le> tip" "0 \<le> cap" "0 \<le> va" "list_all tuple_ok ts" "0 \<le> V" "0 \<le> R" "0 \<le> S"
    unfolding dynamicFee_type_def typed_struct list_all2_Cons1 list_all2_Nil typed_fields by auto
  then show "\<exists>tx. v = dynamicFee_value tx \<and> tx_ok (DynamicFee tx :: TxData)"
    by (intro exI [of _ "\<lparr>df_ChainID = c, df_Nonce = n, df_GasTipCap = tip, df_GasFeeCap = cap, df_Gas = g, df_To = to,
      df_Value = va, df_Data = d, df_AccessList = ts, df_V = V, df_R = R, df_S = S\<rparr>"])
      (simp add: dynamicFee_value_def)
next
  assume "\<exists>tx. v = dynamicFee_value tx \<and> tx_ok (DynamicFee tx :: TxData)"
  then show "typed dynamicFee_type v"
    by (auto simp: dynamicFee_type_def typed_struct dynamicFee_value_def typed_fields simp del: list.map)
qed

text \<open>The value tree of the consensus contents and the bytes of the envelope.\<close>

fun inner_value :: "TxData \<Rightarrow> goval" where
  "inner_value (Legacy tx) = legacy_value tx"
| "inner_value (AccessList tx) = accessList_value tx"
| "inner_value (DynamicFee tx) = dynamicFee_value tx"
| "inner_value (Blob tx) = VStruct []"

fun is_Blob :: "TxData \<Rightarrow> bool" where
  "is_Blob (Blob _) = True"
| "is_Blob _ = False"

abbreviation inner_bytes :: "TxData \<Rightarrow> bytes" where
  "inner_bytes tx \<equiv> rlp_enc (item_of (inner_value tx))"

definition tx_bytes :: "TxData \<Rightarrow> bytes" where
  "tx_bytes tx = (if txType tx = 0 then inner_bytes tx else txType tx # inner_bytes tx)"

lemma inner_typed:
  "typed legacy_type (legacy_value l) \<longleftrightarrow> tx_ok (Legacy l :: TxData)"
  "typed accessList_type (accessList_value a) \<longleftrightarrow> tx_ok (AccessList a :: TxData)"
  "typed dynamicFee_type (dynamicFee_value d) \<longleftrightarrow> tx_ok (DynamicFee d :: TxData)"
proof -
  show "typed legacy_type (legacy_value l) \<longleftrightarrow> tx_ok (Legacy l :: TxData)"
    unfolding typed_legacy by (auto dest: arg_cong [of _ _ legacy_of])
  show "typed accessList_type (accessList_value a) \<longleftrightarrow> tx_ok (AccessList a :: TxData)"
    unfolding typed_accessList by (auto dest: arg_cong [of _ _ accessList_of])
  show "typed dynamicFee_type (dynamicFee_value d) \<longleftrightarrow> tx_ok (DynamicFee d :: TxData)"
    unfolding typed_dynamicFee by (auto dest: arg_cong [of _ _ dynamicFee_of])
qed

lemma inner_encodable: "tx_ok tx \<Longrightarrow> \<not> is_Blob tx \<Longrightarrow> encodable (inner_value tx)"
  using typed_encodable [OF plain_types(1)] typed_encodable [OF plain_types(2)]
    typed_encodable [OF plain_types(3)]
  by (cases tx) (simp_all add: inner_typed [symmetric] del: tx_ok.simps)

lemma encodeInner_ok:
  assumes "tx_ok tx" "\<not> is_Blob tx" "length (inner_bytes tx) < 2 ^ 63"
  shows "encodeInner bc tx = Ok (Some (inner_bytes tx))"
  using EncodeToBytes_ok [OF inner_encodable [OF assms(1,2)]] assms by (cases tx) simp_all

lemma MarshalBinary_ok:
  assumes "tx_ok tx" "\<not> is_Blob tx" "length (tx_bytes tx) < 2 ^ 63"
  shows "MarshalBinary bc tx = Ok (Some (tx_bytes tx))"
  using encodeInner_ok [OF assms(1,2)] assms(3)
  by (simp add: MarshalBinary_def encodeTyped_def tx_bytes_def split: if_splits)

lemma decode_contents:
  assumes "plain t" "length b < 2 ^ 63" and t: "\<And>v. typed t v \<longleftrightarrow> (\<exists>x. v = f x \<and> P x)" and g: "\<And>x. g (f x) = x"
  shows "lift_tx (C \<circ> g) (DecodeBytes t b) = Some (Ok tx) \<longleftrightarrow>
      (\<exists>x. tx = C x \<and> P x \<and> b = rlp_enc (item_of (f x)))"
proof -
  have "lift_tx (C \<circ> g) (DecodeBytes t b) = Some (Ok tx) \<longleftrightarrow> (\<exists>v. DecodeBytes t b = Some (Ok v) \<and> tx = C (g v))"
    by (cases "DecodeBytes t b") (auto simp: lift_tx_def map_sum_Inr_iff)
  then show ?thesis unfolding DecodeBytes_plain_iff [OF assms(1,2)] t using g by metis
qed

lemma decode_inner:
  assumes "length b < 2 ^ 63"
  shows "lift_tx (Legacy \<circ> legacy_of) (DecodeBytes legacy_type b) = Some (Ok tx) \<longleftrightarrow>
      (\<exists>l. tx = Legacy l \<and> tx_ok tx \<and> b = inner_bytes tx)"
    and "lift_tx (AccessList \<circ> accessList_of) (DecodeBytes accessList_type b) = Some (Ok tx) \<longleftrightarrow>
      (\<exists>l. tx = AccessList l \<and> tx_ok tx \<and> b = inner_bytes tx)"
    and "lift_tx (DynamicFee \<circ> dynamicFee_of) (DecodeBytes dynamicFee_type b) = Some (Ok tx) \<longleftrightarrow>
      (\<exists>l. tx = DynamicFee l \<and> tx_ok tx \<and> b = inner_bytes tx)"
  unfolding decode_contents [OF plain_types(1) assms typed_legacy legacy_of_value]
    decode_contents [OF plain_types(2) assms typed_accessList accessList_of_value]
    decode_contents [OF plain_types(3) assms typed_dynamicFee dynamicFee_of_value]
  by auto

lemma rlp_head_list: "n < 2 ^ 64 \<Longrightarrow> rlp_head 0xC0 0xF7 n \<noteq> [] \<and> 0x7F < hd (rlp_head 0xC0 0xF7 n)"
  using unat_tag [of "length (be_bytes n)"] length_be_bytes_8 [of n]
  by (auto simp: rlp_head_def word_less_nat_alt unat_word_ariths unat_of_nat)

lemma inner_head:
  assumes "\<not> is_Blob tx" "length (inner_bytes tx) < 2 ^ 63"
  shows "inner_bytes tx \<noteq> []" "0x7F < hd (inner_bytes tx)"
proof -
  obtain p where p: "inner_bytes tx = rlp_list p"
    using assms(1) by (cases tx) (simp_all add: legacy_value_def accessList_value_def dynamicFee_value_def)
  then have "length p < 2 ^ 64" using assms(2) by (simp add: rlp_list_def)
  from rlp_head_list [OF this] show "inner_bytes tx \<noteq> []" "0x7F < hd (inner_bytes tx)"
    by (auto simp: p rlp_list_def)
qed

lemma decodeTyped_iff:
  assumes "length b < 2 ^ 63" "\<not> is_Blob tx"
  shows "decodeTyped bc b = Some (Ok tx) \<longleftrightarrow> tx_ok tx \<and> txType tx \<noteq> 0 \<and> b = tx_bytes tx"
proof -
  have short: "\<not> (b = tx_bytes tx \<and> txType tx \<noteq> 0)" if "length b \<le> 1"
    using that inner_head(1) [OF assms(2)] assms(1) by (auto simp: tx_bytes_def)
  have d: "length (drop 1 b) < 2 ^ 63" using assms(1) by simp
  have blob: "map_option (map_sum ErrRLP Blob) r \<noteq> Some (Ok tx)" for r :: "(rlp_err + BlobTx) option"
    using assms(2) by (cases r) (auto simp: map_sum_Inr_iff)
  show ?thesis
  proof (cases "length b \<le> 1")
    case False
    then obtain x xs where b: "b = x # xs" by (cases b) auto
    show ?thesis using False assms(2) blob d
      by (cases tx) (auto simp: decodeTyped_def decode_inner b tx_bytes_def simp del: tx_ok.simps)
  qed (use short in \<open>auto simp: decodeTyped_def\<close>)
qed

section \<open>Properties\<close>


definition sample_legacy :: LegacyTx where
  "sample_legacy = \<lparr>lt_Nonce = 7, lt_GasPrice = 0, lt_Gas = 0, lt_To = None, lt_Value = 1, lt_Data = [0xFF],
     lt_V = 27, lt_R = 1, lt_S = 1\<rparr>"

definition sample_codec :: "blobCodec" where
  "sample_codec = \<lparr>bc_encode = \<lambda>_. Ok (Some []), bc_decode = \<lambda>_. Some (Err ErrExpectedList)\<rparr>"

definition sample_bytes :: bytes where
  "sample_bytes = [0xCA, 7, 0x80, 0x80, 0x80, 1, 0x81, 0xFF, 27, 1, 1]"

lemma sample_tx_bytes: "tx_ok (Legacy sample_legacy :: TxData)" "tx_bytes (Legacy sample_legacy :: TxData) = sample_bytes"
  by (simp_all add: sample_legacy_def sample_bytes_def to_ok_def tx_bytes_def legacy_value_def to_value_def
      rlp_list_def rlp_string_def rlp_head_def be_bytes_pos)


lemma big_Uint64_small: "0 \<le> v \<Longrightarrow> v < 2 ^ 64 \<Longrightarrow> uint (big_Uint64 v) = v"
  by (simp add: big_Uint64_def unsigned_of_int take_bit_int_eq_self)

lemma deriveChainId_ge:
  assumes "35 \<le> v"
  shows "deriveChainId v = (v - 35) div 2"
proof (cases "v < 2 ^ 64")
  case True
  have b: "bigBitLen v \<le> 64" using True assms by (subst bigBitLen_le) simp_all
  note u = big_Uint64_small [of v]
  have "big_Uint64 v \<noteq> 27" "big_Uint64 v \<noteq> 28"
    using u True assms by (auto simp: word_uint_eq_iff)
  moreover have "uint ((big_Uint64 v - 35) div 2) = (v - 35) div 2"
    using u True assms by (simp add: uint_div uint_word_ariths mod_pos_pos_trivial)
  ultimately show ?thesis using b by (simp add: deriveChainId_def Let_def)
next
  case False
  then have "\<not> bigBitLen v \<le> 64" using assms by (subst bigBitLen_le) simp_all
  then show ?thesis by (simp add: deriveChainId_def)
qed

lemma isProtectedV_iff: "0 \<le> v \<Longrightarrow> isProtectedV v \<longleftrightarrow> v \<noteq> 0 \<and> v \<noteq> 1 \<and> v \<noteq> 27 \<and> v \<noteq> 28"
proof (cases "v < 2 ^ 8")
  case True
  assume "0 \<le> v"
  moreover have "bigBitLen v \<le> 8" using True \<open>0 \<le> v\<close> by (subst bigBitLen_le) simp_all
  moreover have "uint (big_Uint64 v) = v" using True \<open>0 \<le> v\<close> by (intro big_Uint64_small) simp_all
  ultimately show ?thesis by (auto simp: isProtectedV_def Let_def word_uint_eq_iff)
next
  case False
  assume "0 \<le> v"
  then have "\<not> bigBitLen v \<le> 8" using False by (subst bigBitLen_le) simp_all
  then show ?thesis using False by (auto simp: isProtectedV_def)
qed

lemma word_sub_double_div: "(x :: u64) - 2 * (x div 2) = x mod 2"
  by (metis minus_mult_div_eq_mod)

lemma word_mod_2: "(x :: u64) mod 2 = 0 \<or> (x :: u64) mod 2 = 1"
  by (metis even_iff_mod_2_eq_zero odd_iff_mod_2_eq_one)

lemma plainV_protected:
  assumes "0 \<le> v" "isProtectedV v"
  shows "big_Uint64 v - 35 - 2 * big_Uint64 (deriveChainId v) \<in> {0, 1}"
proof (cases "v < 2 ^ 64")
  case True
  have b: "bigBitLen v \<le> 64" using True assms by (subst bigBitLen_le) simp_all
  have "big_Uint64 v \<noteq> 27" "big_Uint64 v \<noteq> 28"
    using big_Uint64_small [OF assms(1) True] assms isProtectedV_iff [of v] by (auto simp: word_uint_eq_iff)
  then have "deriveChainId v = uint ((big_Uint64 v - 35) div 2)" using b by (simp add: deriveChainId_def Let_def)
  then have "big_Uint64 (deriveChainId v) = (big_Uint64 v - 35) div 2" by (simp add: big_Uint64_def)
  then show ?thesis using word_mod_2 by (simp add: word_sub_double_div)
next
  case False
  then have "deriveChainId v = (v - 35) div 2" using deriveChainId_ge [of v] by simp
  then have "big_Uint64 v - 35 - 2 * big_Uint64 (deriveChainId v) = of_int (v - 35 - 2 * ((v - 35) div 2))"
    using False by (simp add: big_Uint64_def)
  also have "v - 35 - 2 * ((v - 35) div 2) = (v - 35) mod 2" by presburger
  finally have e: "big_Uint64 v - 35 - 2 * big_Uint64 (deriveChainId v) = of_int ((v - 35) mod 2)" .
  have "(v - 35) mod 2 = 0 \<or> (v - 35) mod 2 = 1" by presburger
  then show ?thesis unfolding e by auto
qed

text \<open>C32: The signature check accepts exactly the signatures with \<open>r\<close> and \<open>s\<close> in the curve order and a
  recovery value of the right form: any protected \<open>v\<close> where protection is allowed, \<open>27\<close> or \<open>28\<close> for
  an unprotected legacy transaction, \<open>0\<close> or \<open>1\<close> for a typed one.\<close>

theorem sanityCheckSignature_spec:
  assumes "0 \<le> v"
  shows "sanityCheckSignature v r s maybeProtected =
    (if isProtectedV v \<and> \<not> maybeProtected then Some ErrUnexpectedProtection
     else if 1 \<le> r \<and> r < secp256k1N \<and> 1 \<le> s \<and> s < secp256k1N
        \<and> (isProtectedV v \<or> v \<in> (if maybeProtected then {27, 28} else {0, 1})) then None
     else Some ErrInvalidSig)"
proof (cases "isProtectedV v")
  case True
  define x where "x = big_Uint64 v - 35 - 2 * big_Uint64 (deriveChainId v)"
  have "x \<in> {0, 1}" using plainV_protected [OF assms True] by (simp only: x_def)
  then have "ucast x \<in> {0, 1 :: byte}" by auto
  then show ?thesis using True unfolding sanityCheckSignature_def x_def [symmetric]
    by (auto simp: Let_def ValidateSignatureValues_def)
next
  case False
  then have "v \<in> {0, 1, 27, 28}" using isProtectedV_iff [OF assms] by auto
  then show ?thesis using False
    by (auto simp: sanityCheckSignature_def Let_def ValidateSignatureValues_def big_Uint64_def)
qed

theorem sanityCheckSignature_spec_witness:
  "sanityCheckSignature 37 1 1 True = None \<and> sanityCheckSignature 37 1 1 False = Some ErrUnexpectedProtection
   \<and> sanityCheckSignature 0 1 1 True = Some ErrInvalidSig"
  using sanityCheckSignature_spec [of 37 1 1 True] sanityCheckSignature_spec [of 37 1 1 False]
    sanityCheckSignature_spec [of 0 1 1 True]
  by (simp add: isProtectedV_iff secp256k1N_def)

text \<open>The price a transaction pays splits into the base fee and the miner's tip: for a
  non-negative base fee the effective gas price is the effective tip plus the base fee and never
  exceeds the fee cap, and the tip is negative exactly when \<open>ErrGasFeeCapTooLow\<close> is reported for a
  transaction with a non-negative tip cap.\<close>

theorem effectiveGasPrice_split:
  assumes "0 \<le> bf" "0 \<le> tx_gasTipCap tx"
  shows "effectiveGasPrice tx (Some bf) = EffectiveGasTipValue tx (Some bf) + bf
    \<and> effectiveGasPrice tx (Some bf) \<le> tx_gasFeeCap tx
    \<and> (snd (EffectiveGasTip tx (Some bf)) = Some ErrGasFeeCapTooLow \<longleftrightarrow> EffectiveGasTipValue tx (Some bf) < 0)"
  using assms by (cases tx) (auto simp: EffectiveGasTipValue_def EffectiveGasTip_def Let_def min_def)

theorem effectiveGasPrice_split_witness:
  "EffectiveGasTipValue (Legacy sample_legacy) (Some 7) = - 7
   \<and> snd (EffectiveGasTip (Legacy sample_legacy) (Some 7)) = Some ErrGasFeeCapTooLow"
  using effectiveGasPrice_split [of 7 "Legacy sample_legacy"]
  by (simp add: sample_legacy_def)

end
