(* ===== verification/Chain_Config.thy ===== *)
theory Chain_Config
  imports Go_Prelude
begin

text \<open>
  Chain configuration (\<^verbatim>\<open>params/config.go\<close>): the fork schedule, the order check made when a
  configuration is loaded, and the compatibility check against the configuration stored with an
  existing chain.  A \<open>*big.Int\<close> or \<open>*uint64\<close> that may be nil is an option.
\<close>

section \<open>Definitions\<close>

record CliqueConfig =
  cq_Period :: u64
  cq_Epoch :: u64

record ChainConfig =
  ChainID :: "int option"
  HomesteadBlock :: "int option"
  DAOForkBlock :: "int option"
  DAOForkSupport :: bool
  EIP150Block :: "int option"
  EIP155Block :: "int option"
  EIP158Block :: "int option"
  ByzantiumBlock :: "int option"
  ConstantinopleBlock :: "int option"
  PetersburgBlock :: "int option"
  IstanbulBlock :: "int option"
  MuirGlacierBlock :: "int option"
  BerlinBlock :: "int option"
  LondonBlock :: "int option"
  ArrowGlacierBlock :: "int option"
  GrayGlacierBlock :: "int option"
  MergeNetsplitBlock :: "int option"
  ShanghaiTime :: "u64 option"
  CancunTime :: "u64 option"
  PragueTime :: "u64 option"
  TerminalTotalDifficulty :: "int option"
  TerminalTotalDifficultyPassed :: bool
  Ethash :: "unit option"
  Clique :: "CliqueConfig option"

subsection \<open>Fork activation\<close>

definition isBlockForked :: "int option \<Rightarrow> int option \<Rightarrow> bool" where
  "isBlockForked s head = (case (s, head) of (Some s, Some head) \<Rightarrow> s \<le> head | _ \<Rightarrow> False)"

definition isTimestampForked :: "u64 option \<Rightarrow> u64 \<Rightarrow> bool" where
  "isTimestampForked s head = (case s of None \<Rightarrow> False | Some s \<Rightarrow> s \<le> head)"

definition IsHomestead :: "ChainConfig \<Rightarrow> int option \<Rightarrow> bool" where
  "IsHomestead c num = isBlockForked (HomesteadBlock c) num"

definition IsDAOFork :: "ChainConfig \<Rightarrow> int option \<Rightarrow> bool" where
  "IsDAOFork c num = isBlockForked (DAOForkBlock c) num"

definition IsEIP150 :: "ChainConfig \<Rightarrow> int option \<Rightarrow> bool" where
  "IsEIP150 c num = isBlockForked (EIP150Block c) num"

definition IsEIP155 :: "ChainConfig \<Rightarrow> int option \<Rightarrow> bool" where
  "IsEIP155 c num = isBlockForked (EIP155Block c) num"

definition IsEIP158 :: "ChainConfig \<Rightarrow> int option \<Rightarrow> bool" where
  "IsEIP158 c num = isBlockForked (EIP158Block c) num"

definition IsByzantium :: "ChainConfig \<Rightarrow> int option \<Rightarrow> bool" where
  "IsByzantium c num = isBlockForked (ByzantiumBlock c) num"

definition IsConstantinople :: "ChainConfig \<Rightarrow> int option \<Rightarrow> bool" where
  "IsConstantinople c num = isBlockForked (ConstantinopleBlock c) num"

definition IsMuirGlacier :: "ChainConfig \<Rightarrow> int option \<Rightarrow> bool" where
  "IsMuirGlacier c num = isBlockForked (MuirGlacierBlock c) num"

definition IsPetersburg :: "ChainConfig \<Rightarrow> int option \<Rightarrow> bool" where
  "IsPetersburg c num = (isBlockForked (PetersburgBlock c) num
     \<or> PetersburgBlock c = None \<and> isBlockForked (ConstantinopleBlock c) num)"

definition IsIstanbul :: "ChainConfig \<Rightarrow> int option \<Rightarrow> bool" where
  "IsIstanbul c num = isBlockForked (IstanbulBlock c) num"

definition IsBerlin :: "ChainConfig \<Rightarrow> int option \<Rightarrow> bool" where
  "IsBerlin c num = isBlockForked (BerlinBlock c) num"

definition IsLondon :: "ChainConfig \<Rightarrow> int option \<Rightarrow> bool" where
  "IsLondon c num = isBlockForked (LondonBlock c) num"

definition IsArrowGlacier :: "ChainConfig \<Rightarrow> int option \<Rightarrow> bool" where
  "IsArrowGlacier c num = isBlockForked (ArrowGlacierBlock c) num"

definition IsGrayGlacier :: "ChainConfig \<Rightarrow> int option \<Rightarrow> bool" where
  "IsGrayGlacier c num = isBlockForked (GrayGlacierBlock c) num"

definition IsTerminalPoWBlock :: "ChainConfig \<Rightarrow> int \<Rightarrow> int \<Rightarrow> bool" where
  "IsTerminalPoWBlock c parentTotalDiff totalDiff =
     (case TerminalTotalDifficulty c of None \<Rightarrow> False
      | Some ttd \<Rightarrow> parentTotalDiff < ttd \<and> ttd \<le> totalDiff)"

definition IsShanghai :: "ChainConfig \<Rightarrow> u64 \<Rightarrow> bool" where
  "IsShanghai c t = isTimestampForked (ShanghaiTime c) t"

definition IsCancun :: "ChainConfig \<Rightarrow> u64 \<Rightarrow> bool" where
  "IsCancun c t = isTimestampForked (CancunTime c) t"

definition IsPrague :: "ChainConfig \<Rightarrow> u64 \<Rightarrow> bool" where
  "IsPrague c t = isTimestampForked (PragueTime c) t"

record Rules =
  r_ChainID :: int
  r_IsHomestead :: bool
  r_IsEIP150 :: bool
  r_IsEIP155 :: bool
  r_IsEIP158 :: bool
  r_IsByzantium :: bool
  r_IsConstantinople :: bool
  r_IsPetersburg :: bool
  r_IsIstanbul :: bool
  r_IsBerlin :: bool
  r_IsLondon :: bool
  r_IsMerge :: bool
  r_IsShanghai :: bool
  r_IsCancun :: bool
  r_IsPrague :: bool

definition config_Rules :: "ChainConfig \<Rightarrow> int option \<Rightarrow> bool \<Rightarrow> u64 \<Rightarrow> Rules" where
  "config_Rules c num isMerge timestamp =
     \<lparr>r_ChainID = (case ChainID c of None \<Rightarrow> 0 | Some i \<Rightarrow> i),
      r_IsHomestead = IsHomestead c num, r_IsEIP150 = IsEIP150 c num, r_IsEIP155 = IsEIP155 c num,
      r_IsEIP158 = IsEIP158 c num, r_IsByzantium = IsByzantium c num,
      r_IsConstantinople = IsConstantinople c num, r_IsPetersburg = IsPetersburg c num,
      r_IsIstanbul = IsIstanbul c num, r_IsBerlin = IsBerlin c num, r_IsLondon = IsLondon c num,
      r_IsMerge = isMerge, r_IsShanghai = IsShanghai c timestamp, r_IsCancun = IsCancun c timestamp,
      r_IsPrague = IsPrague c timestamp\<rparr>"

subsection \<open>The order of the forks\<close>

record fork =
  fk_name :: string
  fk_block :: "int option"
  fk_timestamp :: "u64 option"
  fk_optional :: bool

definition block_fork :: "string \<Rightarrow> int option \<Rightarrow> bool \<Rightarrow> fork" where
  "block_fork n b opt = \<lparr>fk_name = n, fk_block = b, fk_timestamp = None, fk_optional = opt\<rparr>"

definition time_fork :: "string \<Rightarrow> u64 option \<Rightarrow> bool \<Rightarrow> fork" where
  "time_fork n t opt = \<lparr>fk_name = n, fk_block = None, fk_timestamp = t, fk_optional = opt\<rparr>"

definition config_forks :: "ChainConfig \<Rightarrow> fork list" where
  "config_forks c =
     [block_fork ''homesteadBlock'' (HomesteadBlock c) False,
      block_fork ''daoForkBlock'' (DAOForkBlock c) True,
      block_fork ''eip150Block'' (EIP150Block c) False,
      block_fork ''eip155Block'' (EIP155Block c) False,
      block_fork ''eip158Block'' (EIP158Block c) False,
      block_fork ''byzantiumBlock'' (ByzantiumBlock c) False,
      block_fork ''constantinopleBlock'' (ConstantinopleBlock c) False,
      block_fork ''petersburgBlock'' (PetersburgBlock c) False,
      block_fork ''istanbulBlock'' (IstanbulBlock c) False,
      block_fork ''muirGlacierBlock'' (MuirGlacierBlock c) True,
      block_fork ''berlinBlock'' (BerlinBlock c) False,
      block_fork ''londonBlock'' (LondonBlock c) False,
      block_fork ''arrowGlacierBlock'' (ArrowGlacierBlock c) True,
      block_fork ''grayGlacierBlock'' (GrayGlacierBlock c) True,
      block_fork ''mergeNetsplitBlock'' (MergeNetsplitBlock c) True,
      time_fork ''shanghaiTime'' (ShanghaiTime c) False,
      time_fork ''cancunTime'' (CancunTime c) True,
      time_fork ''pragueTime'' (PragueTime c) True]"

datatype order_err =
    NotEnabledButBlock string string
  | NotEnabledButTimestamp string string
  | BlockOrder string string
  | TimestampOrder string string
  | RevertedToBlocks string string

definition fork_set :: "fork \<Rightarrow> bool" where
  "fork_set f \<longleftrightarrow> fk_block f \<noteq> None \<or> fk_timestamp f \<noteq> None"

definition check_fork :: "fork \<Rightarrow> fork \<Rightarrow> order_err option" where
  "check_fork lastFork cur =
     (if fk_block lastFork = None \<and> fk_timestamp lastFork = None \<and> fork_set cur then
        Some (if fk_block cur \<noteq> None then NotEnabledButBlock (fk_name lastFork) (fk_name cur)
              else NotEnabledButTimestamp (fk_name lastFork) (fk_name cur))
      else if fk_block lastFork \<noteq> None \<and> fk_block cur \<noteq> None
              \<or> fk_timestamp lastFork \<noteq> None \<and> fk_timestamp cur \<noteq> None then
        (if fk_block lastFork \<noteq> None \<and> the (fk_block lastFork) > the (fk_block cur) then
           Some (BlockOrder (fk_name lastFork) (fk_name cur))
         else if fk_timestamp lastFork \<noteq> None \<and> the (fk_timestamp lastFork) > the (fk_timestamp cur) then
           Some (TimestampOrder (fk_name lastFork) (fk_name cur))
         else if fk_timestamp lastFork \<noteq> None \<and> fk_block cur \<noteq> None then
           Some (RevertedToBlocks (fk_name lastFork) (fk_name cur))
         else None)
      else None)"

text \<open>The loop; \<open>lastFork\<close> is absent while its name is still empty.\<close>

fun check_forks :: "fork option \<Rightarrow> fork list \<Rightarrow> order_err option" where
  "check_forks lastFork [] = None"
| "check_forks lastFork (cur # rest) =
     (case (case lastFork of None \<Rightarrow> None | Some l \<Rightarrow> check_fork l cur) of
        Some e \<Rightarrow> Some e
      | None \<Rightarrow> check_forks (if \<not> fk_optional cur \<or> fork_set cur then Some cur else lastFork) rest)"

definition CheckConfigForkOrder :: "ChainConfig \<Rightarrow> order_err option" where
  "CheckConfigForkOrder c = check_forks None (config_forks c)"

subsection \<open>Compatibility with a stored configuration\<close>

definition configBlockEqual :: "int option \<Rightarrow> int option \<Rightarrow> bool" where
  "configBlockEqual x y = (x = y)"

definition configTimestampEqual :: "u64 option \<Rightarrow> u64 option \<Rightarrow> bool" where
  "configTimestampEqual x y = (x = y)"

definition isForkBlockIncompatible :: "int option \<Rightarrow> int option \<Rightarrow> int option \<Rightarrow> bool" where
  "isForkBlockIncompatible s1 s2 head \<longleftrightarrow>
     (isBlockForked s1 head \<or> isBlockForked s2 head) \<and> \<not> configBlockEqual s1 s2"

definition isForkTimestampIncompatible :: "u64 option \<Rightarrow> u64 option \<Rightarrow> u64 \<Rightarrow> bool" where
  "isForkTimestampIncompatible s1 s2 head \<longleftrightarrow>
     (isTimestampForked s1 head \<or> isTimestampForked s2 head) \<and> \<not> configTimestampEqual s1 s2"

record ConfigCompatError =
  ce_What :: string
  ce_StoredBlock :: "int option"
  ce_NewBlock :: "int option"
  ce_StoredTime :: "u64 option"
  ce_NewTime :: "u64 option"
  ce_RewindToBlock :: u64
  ce_RewindToTime :: u64

text \<open>The \<open>switch\<close> that both constructors make: the earlier of the two scheduled positions.\<close>

definition rewind_to :: "'a::linorder option \<Rightarrow> 'a option \<Rightarrow> 'a option" where
  "rewind_to stored new =
     (case (stored, new) of
        (None, _) \<Rightarrow> new
      | (Some _, None) \<Rightarrow> stored
      | (Some s, Some n) \<Rightarrow> if s < n then stored else new)"

definition newBlockCompatError :: "string \<Rightarrow> int option \<Rightarrow> int option \<Rightarrow> ConfigCompatError" where
  "newBlockCompatError what storedblock newblock =
     \<lparr>ce_What = what, ce_StoredBlock = storedblock, ce_NewBlock = newblock,
      ce_StoredTime = None, ce_NewTime = None,
      ce_RewindToBlock = (case rewind_to storedblock newblock of
         Some r \<Rightarrow> if r > 0 then of_int r - 1 else 0 | None \<Rightarrow> 0),
      ce_RewindToTime = 0\<rparr>"

definition newTimestampCompatError :: "string \<Rightarrow> u64 option \<Rightarrow> u64 option \<Rightarrow> ConfigCompatError" where
  "newTimestampCompatError what storedtime newtime =
     \<lparr>ce_What = what, ce_StoredBlock = None, ce_NewBlock = None,
      ce_StoredTime = storedtime, ce_NewTime = newtime, ce_RewindToBlock = 0,
      ce_RewindToTime = (case rewind_to storedtime newtime of Some r \<Rightarrow> r - 1 | None \<Rightarrow> 0)\<rparr>"

definition checkCompatible ::
  "ChainConfig \<Rightarrow> ChainConfig \<Rightarrow> int option \<Rightarrow> u64 \<Rightarrow> ConfigCompatError option" where
  "checkCompatible c newcfg headNumber headTimestamp =
     (if isForkBlockIncompatible (HomesteadBlock c) (HomesteadBlock newcfg) headNumber then
        Some (newBlockCompatError ''Homestead fork block'' (HomesteadBlock c) (HomesteadBlock newcfg))
      else if isForkBlockIncompatible (DAOForkBlock c) (DAOForkBlock newcfg) headNumber then
        Some (newBlockCompatError ''DAO fork block'' (DAOForkBlock c) (DAOForkBlock newcfg))
      else if IsDAOFork c headNumber \<and> DAOForkSupport c \<noteq> DAOForkSupport newcfg then
        Some (newBlockCompatError ''DAO fork support flag'' (DAOForkBlock c) (DAOForkBlock newcfg))
      else if isForkBlockIncompatible (EIP150Block c) (EIP150Block newcfg) headNumber then
        Some (newBlockCompatError ''EIP150 fork block'' (EIP150Block c) (EIP150Block newcfg))
      else if isForkBlockIncompatible (EIP155Block c) (EIP155Block newcfg) headNumber then
        Some (newBlockCompatError ''EIP155 fork block'' (EIP155Block c) (EIP155Block newcfg))
      else if isForkBlockIncompatible (EIP158Block c) (EIP158Block newcfg) headNumber then
        Some (newBlockCompatError ''EIP158 fork block'' (EIP158Block c) (EIP158Block newcfg))
      else if IsEIP158 c headNumber \<and> \<not> configBlockEqual (ChainID c) (ChainID newcfg) then
        Some (newBlockCompatError ''EIP158 chain ID'' (EIP158Block c) (EIP158Block newcfg))
      else if isForkBlockIncompatible (ByzantiumBlock c) (ByzantiumBlock newcfg) headNumber then
        Some (newBlockCompatError ''Byzantium fork block'' (ByzantiumBlock c) (ByzantiumBlock newcfg))
      else if isForkBlockIncompatible (ConstantinopleBlock c) (ConstantinopleBlock newcfg) headNumber then
        Some (newBlockCompatError ''Constantinople fork block'' (ConstantinopleBlock c) (ConstantinopleBlock newcfg))
      else if isForkBlockIncompatible (PetersburgBlock c) (PetersburgBlock newcfg) headNumber
              \<and> isForkBlockIncompatible (ConstantinopleBlock c) (PetersburgBlock newcfg) headNumber then
        Some (newBlockCompatError ''Petersburg fork block'' (PetersburgBlock c) (PetersburgBlock newcfg))
      else if isForkBlockIncompatible (IstanbulBlock c) (IstanbulBlock newcfg) headNumber then
        Some (newBlockCompatError ''Istanbul fork block'' (IstanbulBlock c) (IstanbulBlock newcfg))
      else if isForkBlockIncompatible (MuirGlacierBlock c) (MuirGlacierBlock newcfg) headNumber then
        Some (newBlockCompatError ''Muir Glacier fork block'' (MuirGlacierBlock c) (MuirGlacierBlock newcfg))
      else if isForkBlockIncompatible (BerlinBlock c) (BerlinBlock newcfg) headNumber then
        Some (newBlockCompatError ''Berlin fork block'' (BerlinBlock c) (BerlinBlock newcfg))
      else if isForkBlockIncompatible (LondonBlock c) (LondonBlock newcfg) headNumber then
        Some (newBlockCompatError ''London fork block'' (LondonBlock c) (LondonBlock newcfg))
      else if isForkBlockIncompatible (ArrowGlacierBlock c) (ArrowGlacierBlock newcfg) headNumber then
        Some (newBlockCompatError ''Arrow Glacier fork block'' (ArrowGlacierBlock c) (ArrowGlacierBlock newcfg))
      else if isForkBlockIncompatible (GrayGlacierBlock c) (GrayGlacierBlock newcfg) headNumber then
        Some (newBlockCompatError ''Gray Glacier fork block'' (GrayGlacierBlock c) (GrayGlacierBlock newcfg))
      else if isForkBlockIncompatible (MergeNetsplitBlock c) (MergeNetsplitBlock newcfg) headNumber then
        Some (newBlockCompatError ''Merge netsplit fork block'' (MergeNetsplitBlock c) (MergeNetsplitBlock newcfg))
      else if isForkTimestampIncompatible (ShanghaiTime c) (ShanghaiTime newcfg) headTimestamp then
        Some (newTimestampCompatError ''Shanghai fork timestamp'' (ShanghaiTime c) (ShanghaiTime newcfg))
      else if isForkTimestampIncompatible (CancunTime c) (CancunTime newcfg) headTimestamp then
        Some (newTimestampCompatError ''Cancun fork timestamp'' (CancunTime c) (CancunTime newcfg))
      else if isForkTimestampIncompatible (PragueTime c) (PragueTime newcfg) headTimestamp then
        Some (newTimestampCompatError ''Prague fork timestamp'' (PragueTime c) (PragueTime newcfg))
      else None)"

text \<open>The loop of \<open>CheckCompatible\<close> with a bound on its rounds; \<open>None\<close> when the bound is used up.\<close>

fun CheckCompatible_loop :: "nat \<Rightarrow> ChainConfig \<Rightarrow> ChainConfig \<Rightarrow> u64 \<Rightarrow> u64 \<Rightarrow>
    ConfigCompatError option \<Rightarrow> ConfigCompatError option option" where
  "CheckCompatible_loop 0 c newcfg bhead btime lasterr = None"
| "CheckCompatible_loop (Suc n) c newcfg bhead btime lasterr =
     (case checkCompatible c newcfg (Some (uint bhead)) btime of
        None \<Rightarrow> Some lasterr
      | Some err \<Rightarrow>
          if (case lasterr of None \<Rightarrow> False | Some l \<Rightarrow>
                ce_RewindToBlock err = ce_RewindToBlock l \<and> ce_RewindToTime err = ce_RewindToTime l)
          then Some lasterr
          else if ce_RewindToTime err > 0
          then CheckCompatible_loop n c newcfg bhead (ce_RewindToTime err) (Some err)
          else CheckCompatible_loop n c newcfg (ce_RewindToBlock err) btime (Some err))"

definition CheckCompatible :: "nat \<Rightarrow> ChainConfig \<Rightarrow> ChainConfig \<Rightarrow> u64 \<Rightarrow> u64 \<Rightarrow>
    ConfigCompatError option option" where
  "CheckCompatible fuel c newcfg height time = CheckCompatible_loop fuel c newcfg height time None"

section \<open>Lemmas\<close>

subsection \<open>Order of the forks\<close>

lemma check_forks_append: "check_forks l (xs @ ys) = None \<Longrightarrow> check_forks l xs = None"
  by (induction xs arbitrary: l) (auto split: option.splits if_splits)

lemma check_forks_Some:
  "check_forks l (xs @ cur # ys) = None \<Longrightarrow> \<not> fk_optional cur \<Longrightarrow> check_forks (Some cur) ys = None"
  by (induction xs arbitrary: l) (auto split: option.splits if_splits)

lemma check_forks_block_le:
  assumes "check_forks (Some l) fs = None" "\<forall>f \<in> set fs. fk_timestamp f = None" "fk_timestamp l = None"
    and "f \<in> set fs" "fk_block f = Some b"
  shows "\<exists>bl. fk_block l = Some bl \<and> bl \<le> b"
  using assms
proof (induction fs arbitrary: l)
  case (Cons cur fs)
  from Cons.prems(1) have c: "check_fork l cur = None"
    and r: "check_forks (Some (if \<not> fk_optional cur \<or> fork_set cur then cur else l)) fs = None"
    by (auto split: option.splits if_splits)
  show ?case
  proof (cases "f = cur")
    case True
    then show ?thesis using c Cons.prems by (auto simp: check_fork_def fork_set_def split: if_splits)
  next
    case False
    then have f: "f \<in> set fs" using Cons.prems(4) by simp
    show ?thesis
    proof (cases "\<not> fk_optional cur \<or> fork_set cur")
      case True
      with r Cons.IH [of cur] f Cons.prems obtain bc where "fk_block cur = Some bc" "bc \<le> b" by auto
      then show ?thesis using c Cons.prems by (auto simp: check_fork_def fork_set_def split: if_splits)
    next
      case False
      then show ?thesis using r Cons.IH [of l] f Cons.prems by auto
    qed
  qed
qed simp

lemma check_forks_time_le:
  assumes "check_forks (Some l) fs = None" "\<forall>f \<in> set fs. fk_block f = None" "fk_block l = None"
    and "f \<in> set fs" "fk_timestamp f = Some b"
  shows "\<exists>bl. fk_timestamp l = Some bl \<and> bl \<le> b"
  using assms
proof (induction fs arbitrary: l)
  case (Cons cur fs)
  from Cons.prems(1) have c: "check_fork l cur = None"
    and r: "check_forks (Some (if \<not> fk_optional cur \<or> fork_set cur then cur else l)) fs = None"
    by (auto split: option.splits if_splits)
  show ?case
  proof (cases "f = cur")
    case True
    then show ?thesis using c Cons.prems by (auto simp: check_fork_def fork_set_def split: if_splits)
  next
    case False
    then have f: "f \<in> set fs" using Cons.prems(4) by simp
    show ?thesis
    proof (cases "\<not> fk_optional cur \<or> fork_set cur")
      case True
      with r Cons.IH [of cur] f Cons.prems obtain bc where "fk_timestamp cur = Some bc" "bc \<le> b" by auto
      then show ?thesis using c Cons.prems by (auto simp: check_fork_def fork_set_def split: if_splits)
    next
      case False
      then show ?thesis using r Cons.IH [of l] f Cons.prems by auto
    qed
  qed
qed simp

text \<open>A mandatory fork \<open>l\<close> listed before a fork \<open>f\<close> is active wherever \<open>f\<close> is.\<close>

lemma split_at_two:
  assumes "i < j" "j < length xs"
  shows "xs = take i xs @ xs ! i # (slice xs (Suc i) j @ [xs ! j]) @ drop (Suc j) xs"
proof -
  have "drop (Suc i) xs = slice xs (Suc i) j @ xs ! j # drop (Suc j) xs"
    using assms slice_append_drop [of "Suc i" j xs] Cons_nth_drop_Suc [of j xs] by simp
  then show ?thesis using assms id_take_nth_drop [of i xs] by simp
qed

lemma check_forks_between:
  assumes "check_forks None fs = None" "i < j" "j < length fs" "\<not> fk_optional (fs ! i)"
  shows "check_forks (Some (fs ! i)) (slice fs (Suc i) j @ [fs ! j]) = None"
proof -
  have "check_forks None (take i fs @ fs ! i # (slice fs (Suc i) j @ [fs ! j]) @ drop (Suc j) fs) = None"
    using assms(1) split_at_two [OF assms(2,3)] by simp
  from check_forks_Some [OF this assms(4)] show ?thesis by (rule check_forks_append)
qed

lemma config_fork_before:
  assumes "CheckConfigForkOrder c = None" "i < j" "j < 18" "\<not> fk_optional (config_forks c ! i)"
    and "list_all (\<lambda>f. fk_timestamp f = None) (config_forks c ! i # slice (config_forks c) (Suc i) j @ [config_forks c ! j])"
    and "isBlockForked (fk_block (config_forks c ! j)) num"
  shows "isBlockForked (fk_block (config_forks c ! i)) num"
proof -
  have j: "j < length (config_forks c)" using assms(3) by (simp add: config_forks_def)
  obtain b where b: "fk_block (config_forks c ! j) = Some b"
    using assms(6) by (auto simp: isBlockForked_def split: option.splits)
  from check_forks_block_le [OF check_forks_between [OF assms(1) [unfolded CheckConfigForkOrder_def] assms(2) j assms(4)] _ _ _ b]
  show ?thesis using assms(5,6) b by (auto simp: isBlockForked_def list_all_iff split: option.splits)
qed

lemma config_time_fork_before:
  assumes "CheckConfigForkOrder c = None" "i < j" "j < 18" "\<not> fk_optional (config_forks c ! i)"
    and "list_all (\<lambda>f. fk_block f = None) (config_forks c ! i # slice (config_forks c) (Suc i) j @ [config_forks c ! j])"
    and "isTimestampForked (fk_timestamp (config_forks c ! j)) t"
  shows "isTimestampForked (fk_timestamp (config_forks c ! i)) t"
proof -
  have j: "j < length (config_forks c)" using assms(3) by (simp add: config_forks_def)
  obtain b where b: "fk_timestamp (config_forks c ! j) = Some b"
    using assms(6) by (auto simp: isTimestampForked_def split: option.splits)
  from check_forks_time_le [OF check_forks_between [OF assms(1) [unfolded CheckConfigForkOrder_def] assms(2) j assms(4)] _ _ _ b]
  show ?thesis using assms(5,6) b by (auto simp: isTimestampForked_def list_all_iff)
qed

lemmas config_fork_simps = config_forks_def slice_def IsHomestead_def IsEIP150_def IsEIP155_def IsEIP158_def
  IsByzantium_def IsConstantinople_def IsPetersburg_def IsIstanbul_def IsBerlin_def IsLondon_def
  IsShanghai_def IsCancun_def IsPrague_def block_fork_def time_fork_def

lemma forks_ordered:
  assumes "CheckConfigForkOrder c = None"
  shows "IsLondon c num \<Longrightarrow> IsBerlin c num" "IsBerlin c num \<Longrightarrow> IsIstanbul c num"
    "IsIstanbul c num \<Longrightarrow> isBlockForked (PetersburgBlock c) num"
    "isBlockForked (PetersburgBlock c) num \<Longrightarrow> IsConstantinople c num"
    "IsConstantinople c num \<Longrightarrow> IsByzantium c num" "IsByzantium c num \<Longrightarrow> IsEIP158 c num"
    "IsEIP158 c num \<Longrightarrow> IsEIP155 c num" "IsEIP155 c num \<Longrightarrow> IsEIP150 c num"
    "IsEIP150 c num \<Longrightarrow> IsHomestead c num"
    "IsPrague c t \<Longrightarrow> IsShanghai c t" "IsCancun c t \<Longrightarrow> IsShanghai c t"
proof -
  note before = config_fork_before [OF assms, of _ _ num]
  note tbefore = config_time_fork_before [OF assms, of _ _ t]
  show "IsLondon c num \<Longrightarrow> IsBerlin c num" using before [of 10 11] by (simp add: config_fork_simps)
  show "IsBerlin c num \<Longrightarrow> IsIstanbul c num" using before [of 8 10] by (simp add: config_fork_simps)
  show "IsIstanbul c num \<Longrightarrow> isBlockForked (PetersburgBlock c) num" using before [of 7 8] by (simp add: config_fork_simps)
  show "isBlockForked (PetersburgBlock c) num \<Longrightarrow> IsConstantinople c num" using before [of 6 7] by (simp add: config_fork_simps)
  show "IsConstantinople c num \<Longrightarrow> IsByzantium c num" using before [of 5 6] by (simp add: config_fork_simps)
  show "IsByzantium c num \<Longrightarrow> IsEIP158 c num" using before [of 4 5] by (simp add: config_fork_simps)
  show "IsEIP158 c num \<Longrightarrow> IsEIP155 c num" using before [of 3 4] by (simp add: config_fork_simps)
  show "IsEIP155 c num \<Longrightarrow> IsEIP150 c num" using before [of 2 3] by (simp add: config_fork_simps)
  show "IsEIP150 c num \<Longrightarrow> IsHomestead c num" using before [of 0 2] by (simp add: config_fork_simps)
  show "IsPrague c t \<Longrightarrow> IsShanghai c t" using tbefore [of 15 17] by (simp add: config_fork_simps)
  show "IsCancun c t \<Longrightarrow> IsShanghai c t" using tbefore [of 15 16] by (simp add: config_fork_simps)
qed

subsection \<open>Compatibility\<close>

text \<open>The checks of \<open>checkCompatible\<close> in their order, each with its condition on the head and its
  error; the function reports the first one whose condition holds.\<close>

definition block_check :: "string \<Rightarrow> int option \<Rightarrow> int option \<Rightarrow> (int \<Rightarrow> u64 \<Rightarrow> bool) \<times> ConfigCompatError" where
  "block_check w s n = (\<lambda>h t. isForkBlockIncompatible s n (Some h), newBlockCompatError w s n)"

definition time_check :: "string \<Rightarrow> u64 option \<Rightarrow> u64 option \<Rightarrow> (int \<Rightarrow> u64 \<Rightarrow> bool) \<times> ConfigCompatError" where
  "time_check w s n = (\<lambda>h t. isForkTimestampIncompatible s n t, newTimestampCompatError w s n)"

definition compat_checks :: "ChainConfig \<Rightarrow> ChainConfig \<Rightarrow> ((int \<Rightarrow> u64 \<Rightarrow> bool) \<times> ConfigCompatError) list" where
  "compat_checks c n =
     [block_check ''Homestead fork block'' (HomesteadBlock c) (HomesteadBlock n),
      block_check ''DAO fork block'' (DAOForkBlock c) (DAOForkBlock n),
      (\<lambda>h t. IsDAOFork c (Some h) \<and> DAOForkSupport c \<noteq> DAOForkSupport n,
        newBlockCompatError ''DAO fork support flag'' (DAOForkBlock c) (DAOForkBlock n)),
      block_check ''EIP150 fork block'' (EIP150Block c) (EIP150Block n),
      block_check ''EIP155 fork block'' (EIP155Block c) (EIP155Block n),
      block_check ''EIP158 fork block'' (EIP158Block c) (EIP158Block n),
      (\<lambda>h t. IsEIP158 c (Some h) \<and> \<not> configBlockEqual (ChainID c) (ChainID n),
        newBlockCompatError ''EIP158 chain ID'' (EIP158Block c) (EIP158Block n)),
      block_check ''Byzantium fork block'' (ByzantiumBlock c) (ByzantiumBlock n),
      block_check ''Constantinople fork block'' (ConstantinopleBlock c) (ConstantinopleBlock n),
      (\<lambda>h t. isForkBlockIncompatible (PetersburgBlock c) (PetersburgBlock n) (Some h)
           \<and> isForkBlockIncompatible (ConstantinopleBlock c) (PetersburgBlock n) (Some h),
        newBlockCompatError ''Petersburg fork block'' (PetersburgBlock c) (PetersburgBlock n)),
      block_check ''Istanbul fork block'' (IstanbulBlock c) (IstanbulBlock n),
      block_check ''Muir Glacier fork block'' (MuirGlacierBlock c) (MuirGlacierBlock n),
      block_check ''Berlin fork block'' (BerlinBlock c) (BerlinBlock n),
      block_check ''London fork block'' (LondonBlock c) (LondonBlock n),
      block_check ''Arrow Glacier fork block'' (ArrowGlacierBlock c) (ArrowGlacierBlock n),
      block_check ''Gray Glacier fork block'' (GrayGlacierBlock c) (GrayGlacierBlock n),
      block_check ''Merge netsplit fork block'' (MergeNetsplitBlock c) (MergeNetsplitBlock n),
      time_check ''Shanghai fork timestamp'' (ShanghaiTime c) (ShanghaiTime n),
      time_check ''Cancun fork timestamp'' (CancunTime c) (CancunTime n),
      time_check ''Prague fork timestamp'' (PragueTime c) (PragueTime n)]"

fun first_check :: "((int \<Rightarrow> u64 \<Rightarrow> bool) \<times> 'e) list \<Rightarrow> int \<Rightarrow> u64 \<Rightarrow> 'e option" where
  "first_check [] h t = None"
| "first_check ((p, e) # cs) h t = (if p h t then Some e else first_check cs h t)"

lemma checkCompatible_first:
  "checkCompatible c n (Some h) t = first_check (compat_checks c n) h t"
  by (simp add: checkCompatible_def compat_checks_def block_check_def time_check_def cong: if_cong)

text \<open>What the loop relies on: conditions are monotone in the head, and going back to the reported
  block or time switches a condition off unless the reported position is zero.\<close>

definition rewinds :: "(int \<Rightarrow> u64 \<Rightarrow> bool) \<times> ConfigCompatError \<Rightarrow> bool" where
  "rewinds ch \<longleftrightarrow>
     (\<forall>h t h' t'. fst ch h t \<longrightarrow> h \<le> h' \<longrightarrow> t \<le> t' \<longrightarrow> fst ch h' t')
   \<and> (\<forall>h t. fst ch (uint (h :: u64)) t \<longrightarrow>
        (if ce_RewindToTime (snd ch) > 0
         then ce_RewindToTime (snd ch) < t \<and> \<not> fst ch (uint h) (ce_RewindToTime (snd ch))
         else ce_RewindToBlock (snd ch) \<le> h
            \<and> (ce_RewindToBlock (snd ch) = 0 \<or> \<not> fst ch (uint (ce_RewindToBlock (snd ch))) t)))"

lemma rewindsD:
  assumes "rewinds (p, e)" "p (uint (h :: u64)) t"
  shows "ce_RewindToTime e > 0 \<Longrightarrow> ce_RewindToTime e < t" "ce_RewindToTime e > 0 \<Longrightarrow> \<not> p (uint h) (ce_RewindToTime e)"
    "ce_RewindToTime e = 0 \<Longrightarrow> ce_RewindToBlock e \<le> h"
    "ce_RewindToTime e = 0 \<Longrightarrow> ce_RewindToBlock e = 0 \<or> \<not> p (uint (ce_RewindToBlock e)) t"
  using assms by (auto simp: rewinds_def split: if_splits)

lemma rewind_to_le:
  assumes "(\<exists>a. s = Some a \<and> a \<le> h) \<or> (\<exists>a. n = Some a \<and> a \<le> h)"
  obtains r where "rewind_to s n = Some r" "r \<le> h" "s = Some r \<or> n = Some r"
    "\<And>h'. (\<exists>a. s = Some a \<and> a \<le> h') \<or> (\<exists>a. n = Some a \<and> a \<le> h') \<Longrightarrow> r \<le> h'"
proof (cases s)
  case None
  with assms that show ?thesis by (auto simp: rewind_to_def)
next
  case (Some a)
  show ?thesis
  proof (cases n)
    case None
    with Some assms that show ?thesis by (auto simp: rewind_to_def)
  next
    case n: (Some b)
    show ?thesis
      by (rule that [of "if a < b then a else b"]) (use Some n assms in \<open>auto simp: rewind_to_def\<close>)
  qed
qed

lemma isBlockForked_iff: "isBlockForked s (Some h) \<longleftrightarrow> (\<exists>a. s = Some a \<and> a \<le> h)"
  by (cases s) (auto simp: isBlockForked_def)

lemma isTimestampForked_iff: "isTimestampForked s t \<longleftrightarrow> (\<exists>a. s = Some a \<and> a \<le> t)"
  by (cases s) (auto simp: isTimestampForked_def)

lemma uint_pred: "0 < r \<Longrightarrow> r \<le> uint (h :: u64) \<Longrightarrow> uint (of_int r - 1 :: u64) = r - 1"
  using uint_lt2p [of h] by (simp add: uint_word_ariths unsigned_of_int take_bit_int_eq_self mod_pos_pos_trivial)

lemma rewindsI_block:
  assumes mono: "\<And>h t h' t'. p h t \<Longrightarrow> h \<le> h' \<Longrightarrow> p h' t'"
    and fork: "\<And>h t. p h t \<Longrightarrow> isBlockForked s (Some h) \<or> isBlockForked n (Some h)"
  shows "rewinds (p, newBlockCompatError w s n)"
proof -
  define e where "e = newBlockCompatError w s n"
  have t0: "ce_RewindToTime e = 0" by (simp add: e_def newBlockCompatError_def)
  have b: "ce_RewindToBlock e \<le> h \<and> (ce_RewindToBlock e = 0 \<or> \<not> p (uint (ce_RewindToBlock e)) t)"
    if "p (uint h) t" for h t
  proof -
    from fork [OF that] obtain r where r: "rewind_to s n = Some r" "r \<le> uint h"
      "\<And>h'. isBlockForked s (Some h') \<or> isBlockForked n (Some h') \<Longrightarrow> r \<le> h'"
      unfolding isBlockForked_iff by (rule rewind_to_le) blast
    show ?thesis
    proof (cases "r > 0")
      case True
      note u = uint_pred [OF True r(2)]
      have "of_int r - 1 \<le> h" using u r(2) by (simp add: word_le_def)
      moreover have "\<not> p (uint (of_int r - 1 :: u64)) t" using fork r(3) u by fastforce
      ultimately show ?thesis using r(1) True by (simp add: e_def newBlockCompatError_def)
    qed (use r(1) in \<open>simp add: e_def newBlockCompatError_def\<close>)
  qed
  show ?thesis unfolding rewinds_def using mono t0 b by (simp add: e_def)
qed

lemma rewindsI_time:
  assumes "s \<noteq> Some 0" "n \<noteq> Some 0"
  shows "rewinds (time_check w s n)"
proof -
  define e where "e = newTimestampCompatError w s n"
  have b0: "ce_RewindToBlock e = 0" by (simp add: e_def newTimestampCompatError_def)
  have step: "ce_RewindToTime e < t \<and> \<not> isForkTimestampIncompatible s n (ce_RewindToTime e)"
    if "isForkTimestampIncompatible s n t" for t
  proof -
    from that have "isTimestampForked s t \<or> isTimestampForked n t" by (simp add: isForkTimestampIncompatible_def)
    then obtain r where r: "rewind_to s n = Some r" "r \<le> t" "s = Some r \<or> n = Some r"
      "\<And>t'. isTimestampForked s t' \<or> isTimestampForked n t' \<Longrightarrow> r \<le> t'"
      unfolding isTimestampForked_iff by (rule rewind_to_le) blast
    have "r \<noteq> 0" using r(3) assms by auto
    then have "r - 1 < r" by (simp add: word_less_nat_alt unat_minus_one unat_gt_0)
    then have "r - 1 < t" "\<not> r \<le> r - 1" using r(2) by auto
    then show ?thesis using r(1,4) by (auto simp: e_def newTimestampCompatError_def isForkTimestampIncompatible_def)
  qed
  have mono: "isForkTimestampIncompatible s n t'" if "isForkTimestampIncompatible s n t" "t \<le> t'" for t t'
    using that by (auto simp: isForkTimestampIncompatible_def isTimestampForked_iff)
  show ?thesis
    unfolding rewinds_def time_check_def fst_conv snd_conv e_def [symmetric] using step mono b0 by auto
qed


lemma compat_checks_rewind:
  assumes "\<forall>t \<in> {ShanghaiTime c, CancunTime c, PragueTime c, ShanghaiTime n, CancunTime n, PragueTime n}. t \<noteq> Some 0"
  shows "\<forall>ch \<in> set (compat_checks c n). rewinds ch"
proof -
  have b: "rewinds (block_check w s m)" for w s m
    unfolding block_check_def
    by (rule rewindsI_block) (auto simp: isForkBlockIncompatible_def isBlockForked_iff)
  have dao: "rewinds (\<lambda>h t. IsDAOFork c (Some h) \<and> Q, newBlockCompatError w (DAOForkBlock c) m)" for Q w m
    by (rule rewindsI_block) (auto simp: IsDAOFork_def isBlockForked_iff)
  have chain: "rewinds (\<lambda>h t. IsEIP158 c (Some h) \<and> Q, newBlockCompatError w (EIP158Block c) m)" for Q w m
    by (rule rewindsI_block) (auto simp: IsEIP158_def isBlockForked_iff)
  have petersburg: "rewinds (\<lambda>h t. isForkBlockIncompatible s m (Some h) \<and> isForkBlockIncompatible s' m (Some h),
      newBlockCompatError w s m)" for s s' m w
    by (rule rewindsI_block) (auto simp: isForkBlockIncompatible_def isBlockForked_iff)
  from assms have "rewinds (time_check w1 (ShanghaiTime c) (ShanghaiTime n))"
    "rewinds (time_check w2 (CancunTime c) (CancunTime n))" "rewinds (time_check w3 (PragueTime c) (PragueTime n))"
    for w1 w2 w3 by (auto intro: rewindsI_time)
  with b dao chain petersburg show ?thesis by (simp add: compat_checks_def)
qed

lemma first_check_None: "first_check cs h t = None \<longleftrightarrow> (\<forall>ch \<in> set cs. \<not> fst ch h t)"
  by (induction cs h t rule: first_check.induct) auto

lemma first_check_lower:
  assumes "\<forall>ch \<in> set cs. rewinds ch" "first_check cs h t = None" "h' \<le> h" "t' \<le> t"
  shows "first_check cs h' t' = None"
proof -
  have "fst ch h t" if "rewinds ch" "fst ch h' t'" for ch
    using that assms(3,4) unfolding rewinds_def by blast
  then show ?thesis using assms(1,2) unfolding first_check_None by blast
qed

lemma first_check_split:
  assumes "first_check cs h t = Some e"
  shows "\<exists>xs p ys. cs = xs @ (p, e) # ys \<and> p h t \<and> first_check xs h t = None"
  using assms
proof (induction cs h t rule: first_check.induct)
  case (2 p d cs h t)
  show ?case
  proof (cases "p h t")
    case True
    then have "(p, d) # cs = [] @ (p, e) # cs" using 2(2) by simp
    then show ?thesis using True by (metis first_check.simps(1))
  next
    case False
    with 2 obtain xs q ys where "cs = xs @ (q, e) # ys" "q h t" "first_check xs h t = None" by auto
    then have "(p, d) # cs = ((p, d) # xs) @ (q, e) # ys" "first_check ((p, d) # xs) h t = None" using False by simp_all
    then show ?thesis using \<open>q h t\<close> by blast
  qed
qed simp

lemma first_check_append: "first_check xs h t = None \<Longrightarrow> first_check (xs @ ys) h t = first_check ys h t"
  by (induction xs h t rule: first_check.induct) (auto split: if_splits)

text \<open>A reported conflict is settled at a position it sends the chain back to.\<close>

definition settles :: "ChainConfig \<Rightarrow> ChainConfig \<Rightarrow> u64 \<Rightarrow> u64 \<Rightarrow> ConfigCompatError \<Rightarrow> bool" where
  "settles c n h t e \<longleftrightarrow>
     (\<exists>h' t'. h' \<le> h \<and> t' \<le> t
        \<and> (if ce_RewindToTime e > 0 then t' = ce_RewindToTime e else h' = ce_RewindToBlock e)
        \<and> (checkCompatible c n (Some (uint h')) t' = None \<or> ce_RewindToTime e = 0 \<and> ce_RewindToBlock e = 0))"

lemma settles_mono: "settles c n h t e \<Longrightarrow> h \<le> h' \<Longrightarrow> t \<le> t' \<Longrightarrow> settles c n h' t' e"
  unfolding settles_def by (meson order.trans)

definition reached :: "ConfigCompatError option \<Rightarrow> u64 \<Rightarrow> u64 \<Rightarrow> bool" where
  "reached lasterr h t \<longleftrightarrow>
     (\<forall>l. lasterr = Some l \<longrightarrow> (if ce_RewindToTime l > 0 then t = ce_RewindToTime l else h = ce_RewindToBlock l))"

text \<open>One more round cannot repeat the positions of the previous error unless they are zero.\<close>

lemma repeated_zero:
  assumes "rewinds (p, e)" "p (uint h) t" "reached (Some l) h t"
    and "ce_RewindToBlock e = ce_RewindToBlock l" "ce_RewindToTime e = ce_RewindToTime l"
  shows "ce_RewindToTime l = 0 \<and> ce_RewindToBlock l = 0"
  using rewindsD [OF assms(1,2)] assms(2-) by (auto simp: reached_def word_gt_0 split: if_splits)

lemma loop_returns:
  assumes rew: "\<forall>ch \<in> set (compat_checks c n). rewinds ch"
    and "compat_checks c n = xs @ ys" "first_check xs (uint h) t = None" "length ys + 2 \<le> fuel" "reached lasterr h t"
  shows "\<exists>r. CheckCompatible_loop fuel c n h t lasterr = Some r
     \<and> (r = None \<longrightarrow> lasterr = None \<and> checkCompatible c n (Some (uint h)) t = None)
     \<and> (\<forall>e. r = Some e \<longrightarrow> settles c n h t e)"
  using assms(2-)
proof (induction "length ys" arbitrary: xs ys h t fuel lasterr rule: less_induct)
  case less
  from less.prems(3) obtain f where f: "fuel = Suc f" "length ys + 1 \<le> f" by (cases fuel) auto
  have chk: "checkCompatible c n (Some (uint h)) t = first_check ys (uint h) t"
    by (simp add: checkCompatible_first less.prems(1) first_check_append less.prems(2))
  show ?case
  proof (cases "first_check ys (uint h) t")
    case None
    have "settles c n h t l" if "lasterr = Some l" for l
      unfolding settles_def using less.prems(4) that chk None
      by (intro exI [of _ h] exI [of _ t]) (auto simp: reached_def)
    then show ?thesis using chk None f by (cases lasterr) auto
  next
    case (Some e)
    from first_check_split [OF this] obtain as p bs where
      ys: "ys = as @ (p, e) # bs" "p (uint h) t" "first_check as (uint h) t = None" by blast
    have re: "rewinds (p, e)" using rew less.prems(1) ys(1) by simp
    have before: "first_check (xs @ as) (uint h) t = None" by (simp add: first_check_append less.prems(2) ys(3))
    define again where "again = (case lasterr of None \<Rightarrow> False | Some l \<Rightarrow>
      ce_RewindToBlock e = ce_RewindToBlock l \<and> ce_RewindToTime e = ce_RewindToTime l)"
    show ?thesis
    proof (cases again)
      case True
      then obtain l where l: "lasterr = Some l" "ce_RewindToBlock e = ce_RewindToBlock l"
        "ce_RewindToTime e = ce_RewindToTime l" by (auto simp: again_def split: option.splits)
      have z: "ce_RewindToTime l = 0" "ce_RewindToBlock l = 0"
        using repeated_zero [OF re ys(2) _ l(2,3)] less.prems(4) l(1) by auto
      then have "settles c n h t l"
        unfolding settles_def by (intro exI [of _ 0] exI [of _ t]) auto
      then show ?thesis using l chk Some f by auto
    next
      case False
      define h1 t1 where "h1 = (if ce_RewindToTime e > 0 then h else ce_RewindToBlock e)"
        and "t1 = (if ce_RewindToTime e > 0 then ce_RewindToTime e else t)"
      have le: "h1 \<le> h" "t1 \<le> t"
        using rewindsD(1,3) [OF re ys(2)] by (auto simp: h1_def t1_def word_gt_0)
      have reach: "reached (Some e) h1 t1" by (simp add: reached_def h1_def t1_def)
      have step: "CheckCompatible_loop fuel c n h t lasterr = CheckCompatible_loop f c n h1 t1 (Some e)"
        using False chk Some by (simp add: f(1) again_def h1_def t1_def)
      have low: "first_check (xs @ as) (uint h1) t1 = None"
        using first_check_lower [OF _ before, of "uint h1" t1] rew less.prems(1) ys(1) le by (auto simp: word_le_def)
      show ?thesis
      proof (cases "p (uint h1) t1")
        case True
        then have z: "ce_RewindToTime e = 0" "ce_RewindToBlock e = 0"
          using rewindsD(2,4) [OF re ys(2)] by (auto simp: h1_def t1_def word_gt_0 split: if_splits)
        have "checkCompatible c n (Some (uint h1)) t1 = Some e"
          using low True by (simp add: checkCompatible_first less.prems(1) ys(1) first_check_append [OF low, simplified])
        moreover obtain f' where "f = Suc f'" using f(2) by (cases f) auto
        moreover have "settles c n h t e" unfolding settles_def using z by (intro exI [of _ 0] exI [of _ t]) auto
        ultimately show ?thesis by (simp add: step)
      next
        case False
        have "first_check (xs @ as @ [(p, e)]) (uint h1) t1 = None"
          using first_check_append [OF low, of "[(p, e)]"] False by simp
        from less.hyps [OF _ _ this _ reach, of bs f] less.prems(1) ys(1) f(2)
        obtain r where r: "CheckCompatible_loop f c n h1 t1 (Some e) = Some r" "r \<noteq> None"
          "\<forall>e. r = Some e \<longrightarrow> settles c n h1 t1 e" by auto
        then show ?thesis using settles_mono [OF _ le] by (auto simp: step)
      qed
    qed
  qed
qed

section \<open>Properties\<close>

text \<open>C30: A configuration that passes \<open>CheckConfigForkOrder\<close> activates the mandatory forks in
  order: at any block where London is active, so are Berlin, Istanbul, Petersburg and every fork
  before them, each fork implying its predecessor, and at any time where Cancun or Prague is active,
  so is Shanghai.\<close>

theorem CheckConfigForkOrder_active:
  assumes "CheckConfigForkOrder c = None"
  shows "(IsLondon c num \<longrightarrow> IsBerlin c num) \<and> (IsBerlin c num \<longrightarrow> IsIstanbul c num)
    \<and> (IsIstanbul c num \<longrightarrow> IsPetersburg c num) \<and> (IsPetersburg c num \<longrightarrow> IsConstantinople c num)
    \<and> (IsConstantinople c num \<longrightarrow> IsByzantium c num) \<and> (IsByzantium c num \<longrightarrow> IsEIP158 c num)
    \<and> (IsEIP158 c num \<longrightarrow> IsEIP155 c num) \<and> (IsEIP155 c num \<longrightarrow> IsEIP150 c num)
    \<and> (IsEIP150 c num \<longrightarrow> IsHomestead c num)
    \<and> (IsPrague c t \<longrightarrow> IsShanghai c t) \<and> (IsCancun c t \<longrightarrow> IsShanghai c t)"
proof -
  have "IsPetersburg c num" if "isBlockForked (PetersburgBlock c) num"
    using that by (simp add: IsPetersburg_def)
  moreover have "IsConstantinople c num" if "IsPetersburg c num"
    using that forks_ordered(4) [OF assms] by (auto simp: IsPetersburg_def IsConstantinople_def)
  ultimately show ?thesis using forks_ordered [OF assms] by blast
qed

definition empty_config :: ChainConfig where
  "empty_config = \<lparr>ChainID = Some 1, HomesteadBlock = None, DAOForkBlock = None, DAOForkSupport = False,
     EIP150Block = None, EIP155Block = None, EIP158Block = None, ByzantiumBlock = None,
     ConstantinopleBlock = None, PetersburgBlock = None, IstanbulBlock = None, MuirGlacierBlock = None,
     BerlinBlock = None, LondonBlock = None, ArrowGlacierBlock = None, GrayGlacierBlock = None,
     MergeNetsplitBlock = None, ShanghaiTime = None, CancunTime = None, PragueTime = None,
     TerminalTotalDifficulty = None, TerminalTotalDifficultyPassed = False, Ethash = None, Clique = None\<rparr>"

definition london_config :: "int \<Rightarrow> ChainConfig" where
  "london_config n = empty_config\<lparr>HomesteadBlock := Some 0, EIP150Block := Some 0, EIP155Block := Some 0,
     EIP158Block := Some 0, ByzantiumBlock := Some 0, ConstantinopleBlock := Some 0, PetersburgBlock := Some 0,
     IstanbulBlock := Some 0, BerlinBlock := Some 0, LondonBlock := Some n\<rparr>"

lemmas config_eval = empty_config_def london_config_def CheckConfigForkOrder_def config_forks_def
  block_fork_def time_fork_def check_fork_def fork_set_def

theorem CheckConfigForkOrder_active_witness:
  "CheckConfigForkOrder (london_config 5) = None \<and> IsHomestead (london_config 5) (Some 7)"
proof -
  have ok: "CheckConfigForkOrder (london_config 5) = None" by (simp add: config_eval)
  have "IsLondon (london_config 5) (Some 7)" by (simp add: IsLondon_def isBlockForked_def config_eval)
  with CheckConfigForkOrder_active [OF ok, of "Some 7" 0] ok show ?thesis by blast
qed



definition prague_first :: ChainConfig where
  "prague_first = (london_config 0)\<lparr>ShanghaiTime := Some 0, PragueTime := Some 0\<rparr>"

definition cancun_later :: ChainConfig where
  "cancun_later = (london_config 0)\<lparr>ShanghaiTime := Some 0, CancunTime := Some 100\<rparr>"

lemmas compat_eval = checkCompatible_def isForkBlockIncompatible_def isForkTimestampIncompatible_def
  isBlockForked_def isTimestampForked_def configBlockEqual_def configTimestampEqual_def IsDAOFork_def
  IsEIP158_def newTimestampCompatError_def rewind_to_def

lemma prague_first_step:
  "checkCompatible prague_first cancun_later (Some 0) t =
     Some (if t < 100 then newTimestampCompatError ''Prague fork timestamp'' (Some 0) None
           else newTimestampCompatError ''Cancun fork timestamp'' None (Some 100))"
  by (simp add: compat_eval prague_first_def cancun_later_def config_eval not_less)

lemma prague_first_loops:
  "CheckCompatible_loop n prague_first cancun_later 0 99
          (Some (newTimestampCompatError ''Cancun fork timestamp'' None (Some 100))) = None
   \<and> CheckCompatible_loop n prague_first cancun_later 0 (- 1)
          (Some (newTimestampCompatError ''Prague fork timestamp'' (Some 0) None)) = None"
proof (induction n)
  case (Suc n)
  have "(100 :: u64) \<le> - 1" by (rule word_n1_ge)
  moreover have "(99 :: u64) < 100" by simp
  ultimately show ?case using Suc
    by (simp add: prague_first_step not_less newTimestampCompatError_def rewind_to_def)
qed simp

text \<open>C31: With a fork at time zero the loop of \<open>CheckCompatible\<close> may not end, even for two
  configurations that both pass \<open>CheckConfigForkOrder\<close>: the rewind time of such a fork is
  \<open>0 - 1\<close>, which wraps around to the largest time and undoes the previous rewind.\<close>

theorem CheckCompatible_diverges:
  "CheckConfigForkOrder prague_first = None \<and> CheckConfigForkOrder cancun_later = None
   \<and> CheckCompatible fuel prague_first cancun_later 0 50 = None"
proof -
  have "CheckConfigForkOrder prague_first = None" "CheckConfigForkOrder cancun_later = None"
    by (simp_all add: config_eval prague_first_def cancun_later_def)
  moreover have "CheckCompatible fuel prague_first cancun_later 0 50 = None"
  proof (cases fuel)
    case (Suc n)
    have "(50 :: u64) < 100" by simp
    then show ?thesis using Suc prague_first_loops [of n]
      by (simp add: CheckCompatible_def prague_first_step newTimestampCompatError_def rewind_to_def word_gt_0)
  qed (simp add: CheckCompatible_def)
  ultimately show ?thesis by blast
qed

definition shanghai_config :: "int \<Rightarrow> u64 \<Rightarrow> ChainConfig" where
  "shanghai_config n t = (london_config n)\<lparr>ShanghaiTime := Some t\<rparr>"

text \<open>When a block fork and a time fork both conflict, the error that \<open>CheckCompatible\<close> returns
  carries only the time to go back to: at that time the configurations may still disagree on the
  block fork.  Here London moves from block 100 to 200 and Shanghai from time 4000 to 4500, and the
  chain stands at block 1000, which it may have reached before time 3999.\<close>

theorem CheckCompatible_mixed:
  "\<exists>e. CheckCompatible 22 (shanghai_config 100 4000) (shanghai_config 200 4500) 1000 5000 = Some (Some e)
     \<and> ce_RewindToTime e = 3999 \<and> ce_RewindToBlock e = 0
     \<and> checkCompatible (shanghai_config 100 4000) (shanghai_config 200 4500) (Some 1000) (ce_RewindToTime e) \<noteq> None"
proof -
  have le: "4000 \<le> t" if "4500 \<le> t" for t :: u64
    using that by (rule order.trans [rotated]) simp
  have chk: "checkCompatible (shanghai_config 100 4000) (shanghai_config 200 4500) (Some h) t =
    (if 100 \<le> h then Some (newBlockCompatError ''London fork block'' (Some 100) (Some 200))
     else if 4000 \<le> t then Some (newTimestampCompatError ''Shanghai fork timestamp'' (Some 4000) (Some 4500))
     else None)" for h t
    by (auto simp: compat_eval shanghai_config_def config_eval dest: le)
  have "(22 :: nat) = Suc (Suc (Suc 19))" by simp
  then show ?thesis
    by (simp only: CheckCompatible_def CheckCompatible_loop.simps)
       (simp add: chk newBlockCompatError_def newTimestampCompatError_def rewind_to_def)
qed

end
