(* ===== verification/Tx_Signing.thy ===== *)
theory Tx_Signing
  imports Types_Tx Chain_Config
begin

text \<open>
  Signers (\<^verbatim>\<open>core/types/transaction_signing.go\<close>, \<open>WithSignature\<close> of
  \<^verbatim>\<open>core/types/transaction.go\<close>): the signature hash of every signer, the signature values it
  writes into a transaction and the sender it derives from them.  The hash function and the curve
  are code outside the repository: they are the arguments of type \<open>crypto\<close>.
\<close>

section \<open>Definitions\<close>

type_synonym address = bytes

record 'k crypto =
  Keccak256 :: "bytes \<Rightarrow> bytes"
  Ecrecover :: "bytes \<Rightarrow> bytes \<Rightarrow> unit + bytes"
  Sign :: "bytes \<Rightarrow> 'k \<Rightarrow> unit + bytes"

datatype sig_err =
    SigTx tx_err
  | ErrInvalidChainId int int
  | ErrEcrecover
  | ErrInvalidPublicKey
  | ErrSign
  | PanicSignatureSize nat

datatype Signer =
    CancunSigner int
  | LondonSigner int
  | EIP2930Signer int
  | EIP155Signer int
  | HomesteadSigner
  | FrontierSigner

definition NewEIP155Signer :: "int option \<Rightarrow> int" where
  "NewEIP155Signer chainId = (case chainId of None \<Rightarrow> 0 | Some c \<Rightarrow> c)"

definition MakeSigner :: "ChainConfig \<Rightarrow> int option \<Rightarrow> u64 \<Rightarrow> Signer" where
  "MakeSigner config blockNumber blockTime =
     (if IsCancun config blockTime then CancunSigner (NewEIP155Signer (ChainID config))
      else if IsLondon config blockNumber then LondonSigner (NewEIP155Signer (ChainID config))
      else if IsBerlin config blockNumber then EIP2930Signer (NewEIP155Signer (ChainID config))
      else if IsEIP155 config blockNumber then EIP155Signer (NewEIP155Signer (ChainID config))
      else if IsHomestead config blockNumber then HomesteadSigner
      else FrontierSigner)"

definition LatestSigner :: "ChainConfig \<Rightarrow> Signer" where
  "LatestSigner config =
     (case ChainID config of None \<Rightarrow> HomesteadSigner
      | Some c \<Rightarrow>
          if CancunTime config \<noteq> None then CancunSigner c
          else if LondonBlock config \<noteq> None then LondonSigner c
          else if BerlinBlock config \<noteq> None then EIP2930Signer c
          else if EIP155Block config \<noteq> None then EIP155Signer c
          else HomesteadSigner)"

definition LatestSignerForChainID :: "int option \<Rightarrow> Signer" where
  "LatestSignerForChainID chainID = (case chainID of None \<Rightarrow> HomesteadSigner | Some c \<Rightarrow> CancunSigner c)"

fun signer_ChainID :: "Signer \<Rightarrow> int option" where
  "signer_ChainID (CancunSigner c) = Some c"
| "signer_ChainID (LondonSigner c) = Some c"
| "signer_ChainID (EIP2930Signer c) = Some c"
| "signer_ChainID (EIP155Signer c) = Some c"
| "signer_ChainID HomesteadSigner = None"
| "signer_ChainID FrontierSigner = None"

subsection \<open>Signature hashes\<close>

text \<open>The bytes that \<open>rlp.Encode\<close> writes to the hasher: none when the encoding fails.\<close>

definition encoded :: "goval \<Rightarrow> bytes" where
  "encoded v = (case EncodeToBytes v of Ok (Some b) \<Rightarrow> b | _ \<Rightarrow> [])"

definition rlpHash :: "'k crypto \<Rightarrow> goval \<Rightarrow> bytes" where
  "rlpHash C x = Keccak256 C (encoded x)"

definition prefixedRlpHash :: "'k crypto \<Rightarrow> byte \<Rightarrow> goval \<Rightarrow> bytes" where
  "prefixedRlpHash C prefix x = Keccak256 C (prefix # encoded x)"

definition frontier_Hash :: "'k crypto \<Rightarrow> TxData \<Rightarrow> bytes" where
  "frontier_Hash C tx = rlpHash C (VSlice
     [VUint (tx_nonce tx), VBigInt (tx_gasPrice tx), VUint (tx_gas tx), to_value (tx_to tx),
      VBigInt (tx_value tx), VBytes (tx_data tx)])"

definition eip155_Hash :: "'k crypto \<Rightarrow> int \<Rightarrow> TxData \<Rightarrow> bytes" where
  "eip155_Hash C chainId tx = rlpHash C (VSlice
     [VUint (tx_nonce tx), VBigInt (tx_gasPrice tx), VUint (tx_gas tx), to_value (tx_to tx),
      VBigInt (tx_value tx), VBytes (tx_data tx), VBigInt chainId, VUint 0, VUint 0])"

definition eip2930_Hash :: "'k crypto \<Rightarrow> int \<Rightarrow> TxData \<Rightarrow> bytes" where
  "eip2930_Hash C chainId tx =
     (if txType tx = 0 then
        rlpHash C (VSlice
          [VUint (tx_nonce tx), VBigInt (tx_gasPrice tx), VUint (tx_gas tx), to_value (tx_to tx),
           VBigInt (tx_value tx), VBytes (tx_data tx), VBigInt chainId, VUint 0, VUint 0])
      else if txType tx = 1 then
        prefixedRlpHash C (txType tx) (VSlice
          [VBigInt chainId, VUint (tx_nonce tx), VBigInt (tx_gasPrice tx), VUint (tx_gas tx),
           to_value (tx_to tx), VBigInt (tx_value tx), VBytes (tx_data tx),
           VSlice (map tuple_value (tx_accessList tx))])
      else replicate 32 0)"

definition london_Hash :: "'k crypto \<Rightarrow> int \<Rightarrow> TxData \<Rightarrow> bytes" where
  "london_Hash C chainId tx =
     (if txType tx \<noteq> 2 then eip2930_Hash C chainId tx
      else prefixedRlpHash C (txType tx) (VSlice
        [VBigInt chainId, VUint (tx_nonce tx), VBigInt (tx_gasTipCap tx), VBigInt (tx_gasFeeCap tx),
         VUint (tx_gas tx), to_value (tx_to tx), VBigInt (tx_value tx), VBytes (tx_data tx),
         VSlice (map tuple_value (tx_accessList tx))]))"

fun tx_blobHashes :: "TxData \<Rightarrow> bytes list" where
  "tx_blobHashes (Blob tx) = bl_BlobHashes tx"
| "tx_blobHashes _ = []"

definition cancun_Hash :: "'k crypto \<Rightarrow> int \<Rightarrow> TxData \<Rightarrow> bytes" where
  "cancun_Hash C chainId tx =
     (if txType tx \<noteq> 3 then london_Hash C chainId tx
      else prefixedRlpHash C (txType tx) (VSlice
        [VBigInt chainId, VUint (tx_nonce tx), VBigInt (tx_gasTipCap tx), VBigInt (tx_gasFeeCap tx),
         VUint (tx_gas tx), to_value (tx_to tx), VBigInt (tx_value tx), VBytes (tx_data tx),
         VSlice (map tuple_value (tx_accessList tx)), VBigInt (the (tx_blobGasFeeCap tx)),
         VSlice (map VByteArray (tx_blobHashes tx))]))"

fun signer_Hash :: "'k crypto \<Rightarrow> Signer \<Rightarrow> TxData \<Rightarrow> bytes" where
  "signer_Hash C (CancunSigner c) tx = cancun_Hash C c tx"
| "signer_Hash C (LondonSigner c) tx = london_Hash C c tx"
| "signer_Hash C (EIP2930Signer c) tx = eip2930_Hash C c tx"
| "signer_Hash C (EIP155Signer c) tx = eip155_Hash C c tx"
| "signer_Hash C HomesteadSigner tx = frontier_Hash C tx"
| "signer_Hash C FrontierSigner tx = frontier_Hash C tx"

subsection \<open>Signature values\<close>

definition decodeSignature :: "bytes \<Rightarrow> sig_err + int \<times> int \<times> int" where
  "decodeSignature sig =
     (if length sig \<noteq> 65 then Err (PanicSignatureSize (length sig))
      else Ok (int (be_val (take 32 sig)), int (be_val (slice sig 32 64)), uint (sig ! 64 + 27)))"

definition frontier_SignatureValues :: "TxData \<Rightarrow> bytes \<Rightarrow> sig_err + int \<times> int \<times> int" where
  "frontier_SignatureValues tx sig =
     (if txType tx \<noteq> 0 then Err (SigTx ErrTxTypeNotSupported) else decodeSignature sig)"

definition eip155_SignatureValues :: "int \<Rightarrow> TxData \<Rightarrow> bytes \<Rightarrow> sig_err + int \<times> int \<times> int" where
  "eip155_SignatureValues chainId tx sig =
     (if txType tx \<noteq> 0 then Err (SigTx ErrTxTypeNotSupported)
      else (case decodeSignature sig of Err e \<Rightarrow> Err e
        | Ok (R, S, V) \<Rightarrow> Ok (R, S, if chainId \<noteq> 0 then uint (sig ! 64 + 35) + chainId * 2 else V)))"

text \<open>The branch shared by the typed transactions: the chain ID must match or be unset.\<close>

definition typed_SignatureValues :: "int \<Rightarrow> int \<Rightarrow> bytes \<Rightarrow> sig_err + int \<times> int \<times> int" where
  "typed_SignatureValues txChainID chainId sig =
     (if txChainID \<noteq> 0 \<and> txChainID \<noteq> chainId then Err (ErrInvalidChainId txChainID chainId)
      else (case decodeSignature sig of Err e \<Rightarrow> Err e | Ok (R, S, _) \<Rightarrow> Ok (R, S, uint (sig ! 64))))"

definition eip2930_SignatureValues :: "int \<Rightarrow> TxData \<Rightarrow> bytes \<Rightarrow> sig_err + int \<times> int \<times> int" where
  "eip2930_SignatureValues chainId tx sig =
     (case tx of Legacy _ \<Rightarrow> eip155_SignatureValues chainId tx sig
      | AccessList txdata \<Rightarrow> typed_SignatureValues (al_ChainID txdata) chainId sig
      | _ \<Rightarrow> Err (SigTx ErrTxTypeNotSupported))"

definition london_SignatureValues :: "int \<Rightarrow> TxData \<Rightarrow> bytes \<Rightarrow> sig_err + int \<times> int \<times> int" where
  "london_SignatureValues chainId tx sig =
     (case tx of DynamicFee txdata \<Rightarrow> typed_SignatureValues (df_ChainID txdata) chainId sig
      | _ \<Rightarrow> eip2930_SignatureValues chainId tx sig)"

definition cancun_SignatureValues :: "int \<Rightarrow> TxData \<Rightarrow> bytes \<Rightarrow> sig_err + int \<times> int \<times> int" where
  "cancun_SignatureValues chainId tx sig =
     (case tx of Blob txdata \<Rightarrow> typed_SignatureValues (bl_ChainID txdata) chainId sig
      | _ \<Rightarrow> london_SignatureValues chainId tx sig)"

fun SignatureValues :: "Signer \<Rightarrow> TxData \<Rightarrow> bytes \<Rightarrow> sig_err + int \<times> int \<times> int" where
  "SignatureValues (CancunSigner c) tx sig = cancun_SignatureValues c tx sig"
| "SignatureValues (LondonSigner c) tx sig = london_SignatureValues c tx sig"
| "SignatureValues (EIP2930Signer c) tx sig = eip2930_SignatureValues c tx sig"
| "SignatureValues (EIP155Signer c) tx sig = eip155_SignatureValues c tx sig"
| "SignatureValues HomesteadSigner tx sig = frontier_SignatureValues tx sig"
| "SignatureValues FrontierSigner tx sig = frontier_SignatureValues tx sig"

definition WithSignature :: "(int \<Rightarrow> int) \<Rightarrow> Signer \<Rightarrow> TxData \<Rightarrow> bytes \<Rightarrow> sig_err + TxData" where
  "WithSignature u256 signer tx sig =
     (case SignatureValues signer tx sig of Err e \<Rightarrow> Err e
      | Ok (r, s, v) \<Rightarrow> Ok (setSignatureValues u256 (signer_ChainID signer) v r s tx))"

definition SignTx :: "'k crypto \<Rightarrow> (int \<Rightarrow> int) \<Rightarrow> TxData \<Rightarrow> Signer \<Rightarrow> 'k \<Rightarrow> sig_err + TxData" where
  "SignTx C u256 tx s prv =
     (case Sign C (signer_Hash C s tx) prv of Err _ \<Rightarrow> Err ErrSign
      | Ok sig \<Rightarrow> WithSignature u256 s tx sig)"

subsection \<open>Senders\<close>

text \<open>\<open>copy(sig[n-len(b):n], b)\<close> into a zeroed array; \<open>b\<close> is at most \<open>n\<close> bytes long.\<close>

definition left_pad :: "nat \<Rightarrow> bytes \<Rightarrow> bytes" where
  "left_pad n b = replicate (n - length b) 0 @ b"

definition recoverPlain :: "'k crypto \<Rightarrow> bytes \<Rightarrow> int \<Rightarrow> int \<Rightarrow> int \<Rightarrow> bool \<Rightarrow> sig_err + address" where
  "recoverPlain C sighash R S Vb homestead =
     (if bigBitLen Vb > 8 then Err (SigTx ErrInvalidSig)
      else
        let V = ucast (big_Uint64 Vb - 27) :: byte in
        if \<not> ValidateSignatureValues V R S homestead then Err (SigTx ErrInvalidSig)
        else
          let r = be_bytes (nat R); s = be_bytes (nat S);
              sig = left_pad 32 r @ left_pad 32 s @ [V]
          in (case Ecrecover C sighash sig of Err _ \<Rightarrow> Err ErrEcrecover
              | Ok pub \<Rightarrow>
                  if length pub = 0 \<or> pub ! 0 \<noteq> 4 then Err ErrInvalidPublicKey
                  else Ok (take 20 (drop 12 (Keccak256 C (drop 1 pub))))))"

definition frontier_Sender :: "'k crypto \<Rightarrow> TxData \<Rightarrow> sig_err + address" where
  "frontier_Sender C tx =
     (if txType tx \<noteq> 0 then Err (SigTx ErrTxTypeNotSupported)
      else (case rawSignatureValues tx of (v, r, s) \<Rightarrow> recoverPlain C (frontier_Hash C tx) r s v False))"

definition homestead_Sender :: "'k crypto \<Rightarrow> TxData \<Rightarrow> sig_err + address" where
  "homestead_Sender C tx =
     (if txType tx \<noteq> 0 then Err (SigTx ErrTxTypeNotSupported)
      else (case rawSignatureValues tx of (v, r, s) \<Rightarrow> recoverPlain C (frontier_Hash C tx) r s v True))"

definition eip155_Sender :: "'k crypto \<Rightarrow> int \<Rightarrow> TxData \<Rightarrow> sig_err + address" where
  "eip155_Sender C chainId tx =
     (if txType tx \<noteq> 0 then Err (SigTx ErrTxTypeNotSupported)
      else if \<not> Protected tx then homestead_Sender C tx
      else if tx_chainID tx \<noteq> chainId then Err (ErrInvalidChainId (tx_chainID tx) chainId)
      else (case rawSignatureValues tx of (V, R, S) \<Rightarrow>
              recoverPlain C (eip155_Hash C chainId tx) R S (V - chainId * 2 - 8) True))"

definition eip2930_Sender :: "'k crypto \<Rightarrow> int \<Rightarrow> TxData \<Rightarrow> sig_err + address" where
  "eip2930_Sender C chainId tx =
     (case rawSignatureValues tx of (V, R, S) \<Rightarrow>
      if txType tx = 0 \<and> \<not> Protected tx then homestead_Sender C tx
      else if txType tx \<noteq> 0 \<and> txType tx \<noteq> 1 then Err (SigTx ErrTxTypeNotSupported)
      else if tx_chainID tx \<noteq> chainId then Err (ErrInvalidChainId (tx_chainID tx) chainId)
      else recoverPlain C (eip2930_Hash C chainId tx) R S
             (if txType tx = 0 then V - chainId * 2 - 8 else V + 27) True)"

definition london_Sender :: "'k crypto \<Rightarrow> int \<Rightarrow> TxData \<Rightarrow> sig_err + address" where
  "london_Sender C chainId tx =
     (if txType tx \<noteq> 2 then eip2930_Sender C chainId tx
      else if tx_chainID tx \<noteq> chainId then Err (ErrInvalidChainId (tx_chainID tx) chainId)
      else (case rawSignatureValues tx of (V, R, S) \<Rightarrow>
              recoverPlain C (london_Hash C chainId tx) R S (V + 27) True))"

definition cancun_Sender :: "'k crypto \<Rightarrow> int \<Rightarrow> TxData \<Rightarrow> sig_err + address" where
  "cancun_Sender C chainId tx =
     (if txType tx \<noteq> 3 then london_Sender C chainId tx
      else if tx_chainID tx \<noteq> chainId then Err (ErrInvalidChainId (tx_chainID tx) chainId)
      else (case rawSignatureValues tx of (V, R, S) \<Rightarrow>
              recoverPlain C (cancun_Hash C chainId tx) R S (V + 27) True))"

fun signer_Sender :: "'k crypto \<Rightarrow> Signer \<Rightarrow> TxData \<Rightarrow> sig_err + address" where
  "signer_Sender C (CancunSigner c) tx = cancun_Sender C c tx"
| "signer_Sender C (LondonSigner c) tx = london_Sender C c tx"
| "signer_Sender C (EIP2930Signer c) tx = eip2930_Sender C c tx"
| "signer_Sender C (EIP155Signer c) tx = eip155_Sender C c tx"
| "signer_Sender C HomesteadSigner tx = homestead_Sender C tx"
| "signer_Sender C FrontierSigner tx = frontier_Sender C tx"

text \<open>\<open>Sender\<close> with the transaction's cache of the last signer and address.\<close>

definition Sender :: "'k crypto \<Rightarrow> Signer \<Rightarrow> TxData \<Rightarrow> (Signer \<times> address) option \<Rightarrow>
    (sig_err + address) \<times> (Signer \<times> address) option" where
  "Sender C signer tx cache =
     (case cache of
        Some (s, from) \<Rightarrow>
          if s = signer then (Ok from, cache)
          else (case signer_Sender C signer tx of
                  Err e \<Rightarrow> (Err e, cache) | Ok addr \<Rightarrow> (Ok addr, Some (signer, addr)))
      | None \<Rightarrow> (case signer_Sender C signer tx of
                   Err e \<Rightarrow> (Err e, cache) | Ok addr \<Rightarrow> (Ok addr, Some (signer, addr))))"

section \<open>Lemmas\<close>

lemma be_bytes_dropWhile: "be_bytes (be_val b) = dropWhile (\<lambda>x. x = 0) b"
proof (induction b)
  case (Cons x b)
  then show ?case using be_bytes_be_val [of "x # b"] by (cases "x = 0") simp_all
qed simp

lemma left_pad_be_val: "left_pad (length b) (be_bytes (be_val b)) = b"
proof -
  have "replicate (length b - length (dropWhile (\<lambda>x. x = 0) b)) 0 = takeWhile (\<lambda>x. x = 0) b"
  proof (induction b)
    case (Cons x b)
    then show ?case
      using length_dropWhile_le [of "\<lambda>x. x = 0" b] by (auto simp: Suc_diff_le)
  qed simp
  then show ?thesis by (simp add: left_pad_def be_bytes_dropWhile)
qed

text \<open>What \<open>crypto.Sign\<close> and \<open>crypto.Ecrecover\<close> promise: a signature is \<open>[R || S || V]\<close> with \<open>V\<close> 0 or 1
  and \<open>S\<close> in the lower half of the order, and recovery returns the uncompressed public key.\<close>

definition sign_ok :: "'k crypto \<Rightarrow> ('k \<Rightarrow> bytes) \<Rightarrow> bool" where
  "sign_ok C pub \<longleftrightarrow> (\<forall>h prv sig. Sign C h prv = Ok sig \<longrightarrow>
     length sig = 65 \<and> (sig ! 64 = 0 \<or> sig ! 64 = 1)
     \<and> 1 \<le> be_val (take 32 sig) \<and> int (be_val (take 32 sig)) < secp256k1N
     \<and> 1 \<le> be_val (slice sig 32 64) \<and> int (be_val (slice sig 32 64)) \<le> secp256k1halfN
     \<and> Ecrecover C h sig = Ok (4 # pub prv))"

definition PubkeyToAddress :: "'k crypto \<Rightarrow> bytes \<Rightarrow> address" where
  "PubkeyToAddress C pub = take 20 (drop 12 (Keccak256 C pub))"

lemma recoverPlain_signed:
  assumes "sign_ok C pub" "Sign C h prv = Ok sig"
  shows "recoverPlain C h (int (be_val (take 32 sig))) (int (be_val (slice sig 32 64))) (uint (sig ! 64) + 27) hs
    = Ok (PubkeyToAddress C (pub prv))"
proof -
  note ok = assms(1) [unfolded sign_ok_def, rule_format, OF assms(2)]
  let ?R = "be_val (take 32 sig)" and ?S = "be_val (slice sig 32 64)"
  have V: "ucast (big_Uint64 (uint (sig ! 64) + 27) - 27) = sig ! 64" "bigBitLen (uint (sig ! 64) + 27) \<le> 8"
    using ok by (auto simp: big_Uint64_def bigBitLen_le)
  have "int ?S < secp256k1N" using ok by (simp add: secp256k1halfN_def secp256k1N_def)
  then have valid: "ValidateSignatureValues (sig ! 64) (int ?R) (int ?S) hs"
    using ok by (auto simp: ValidateSignatureValues_def)
  have "left_pad 32 (be_bytes ?R) = take 32 sig" "left_pad 32 (be_bytes ?S) = slice sig 32 64"
    using left_pad_be_val [of "take 32 sig"] left_pad_be_val [of "slice sig 32 64"] ok by simp_all
  moreover have "take 32 sig @ slice sig 32 64 @ [sig ! 64] = sig"
  proof -
    have "drop 64 sig = [sig ! 64]" using ok by (simp add: Cons_nth_drop_Suc [symmetric])
    then show ?thesis using slice_append_drop [of 32 64 sig] by simp
  qed
  ultimately show ?thesis using V valid ok
    by (simp add: recoverPlain_def Let_def PubkeyToAddress_def)
qed

text \<open>The signature hash depends neither on the signature values nor on the chain ID stored in the
  transaction.\<close>

lemma set_sig_accessors [simp]:
  "txType (setSignatureValues u cid v r s tx) = txType tx"
  "tx_nonce (setSignatureValues u cid v r s tx) = tx_nonce tx"
  "tx_gasPrice (setSignatureValues u cid v r s tx) = tx_gasPrice tx"
  "tx_gasTipCap (setSignatureValues u cid v r s tx) = tx_gasTipCap tx"
  "tx_gasFeeCap (setSignatureValues u cid v r s tx) = tx_gasFeeCap tx"
  "tx_gas (setSignatureValues u cid v r s tx) = tx_gas tx"
  "tx_to (setSignatureValues u cid v r s tx) = tx_to tx"
  "tx_value (setSignatureValues u cid v r s tx) = tx_value tx"
  "tx_data (setSignatureValues u cid v r s tx) = tx_data tx"
  "tx_accessList (setSignatureValues u cid v r s tx) = tx_accessList tx"
  "tx_blobGasFeeCap (setSignatureValues u cid v r s tx) = tx_blobGasFeeCap tx"
  "tx_blobHashes (setSignatureValues u cid v r s tx) = tx_blobHashes tx"
  by (cases tx; simp)+

lemma set_sig_hashes [simp]:
  "frontier_Hash C (setSignatureValues u cid v r s tx) = frontier_Hash C tx"
  "eip155_Hash C c (setSignatureValues u cid v r s tx) = eip155_Hash C c tx"
  "eip2930_Hash C c (setSignatureValues u cid v r s tx) = eip2930_Hash C c tx"
  "london_Hash C c (setSignatureValues u cid v r s tx) = london_Hash C c tx"
  "cancun_Hash C c (setSignatureValues u cid v r s tx) = cancun_Hash C c tx"
  by (simp_all add: cancun_Hash_def london_Hash_def eip2930_Hash_def eip155_Hash_def frontier_Hash_def)

lemma protected_V:
  assumes "0 < c" "b = 0 \<or> b = (1 :: byte)"
  shows "isProtectedV (uint (b + 35) + c * 2)" "deriveChainId (uint (b + 35) + c * 2) = c"
proof -
  have u: "uint (b + 35) = uint b + 35" "uint b \<in> {0, 1}" using assms(2) by auto
  then show "isProtectedV (uint (b + 35) + c * 2)" using assms(1) by (subst isProtectedV_iff) auto
  show "deriveChainId (uint (b + 35) + c * 2) = c"
    using u assms(1) by (subst deriveChainId_ge) auto
qed

text \<open>The chain IDs for which a signer can be used: positive, and in the range of \<open>uint256.Int\<close>.\<close>

definition chain_ok :: "Signer \<Rightarrow> bool" where
  "chain_ok signer \<longleftrightarrow> (\<forall>c. signer_ChainID signer = Some c \<longrightarrow> 0 < c \<and> c < 2 ^ 256)"

definition u256_ok :: "(int \<Rightarrow> int) \<Rightarrow> bool" where
  "u256_ok u256 \<longleftrightarrow> (\<forall>x. 0 \<le> x \<and> x < 2 ^ 256 \<longrightarrow> u256 x = x)"

text \<open>What \<open>SignTx\<close> stores, by kind of transaction.\<close>

definition signed_by :: "'k crypto \<Rightarrow> (int \<Rightarrow> int) \<Rightarrow> Signer \<Rightarrow> 'k \<Rightarrow> TxData \<Rightarrow> TxData \<Rightarrow> bytes \<Rightarrow> int \<Rightarrow> bool" where
  "signed_by C u256 signer prv tx tx' sig v \<longleftrightarrow>
     Sign C (signer_Hash C signer tx) prv = Ok sig
   \<and> tx' = setSignatureValues u256 (signer_ChainID signer) v (int (be_val (take 32 sig))) (int (be_val (slice sig 32 64))) tx
   \<and> rawSignatureValues tx' = (v, int (be_val (take 32 sig)), int (be_val (slice sig 32 64)))
   \<and> v = (if txType tx \<noteq> 0 then uint (sig ! 64)
          else case signer_ChainID signer of None \<Rightarrow> uint (sig ! 64) + 27
               | Some c \<Rightarrow> uint (sig ! 64 + 35) + c * 2)
   \<and> (\<forall>c. signer_ChainID signer = Some c \<longrightarrow> tx_chainID tx' = c \<and> Protected tx')
   \<and> (signer_ChainID signer = None \<longrightarrow> txType tx = 0)"

lemma SignTx_values:
  assumes "sign_ok C pub" "u256_ok u256" "chain_ok signer" "SignTx C u256 tx signer prv = Ok tx'"
  shows "\<exists>sig v. signed_by C u256 signer prv tx tx' sig v"
proof -
  obtain sig r s v where sig: "Sign C (signer_Hash C signer tx) prv = Ok sig"
    and vals: "SignatureValues signer tx sig = Ok (r, s, v)"
    and tx': "tx' = setSignatureValues u256 (signer_ChainID signer) v r s tx"
    using assms(4) by (auto simp: SignTx_def WithSignature_def split: sum.splits)
  note ok = assms(1) [unfolded sign_ok_def, rule_format, OF sig]
  have dec: "decodeSignature sig = Ok (int (be_val (take 32 sig)), int (be_val (slice sig 32 64)), uint (sig ! 64 + 27))"
    using ok by (simp add: decodeSignature_def)
  have v27: "uint (sig ! 64 + 27) = uint (sig ! 64) + 27" using ok by auto
  have rs: "r = int (be_val (take 32 sig))" "s = int (be_val (slice sig 32 64))"
    and none: "signer_ChainID signer = None \<Longrightarrow> txType tx = 0"
    and v: "v = (if txType tx \<noteq> 0 then uint (sig ! 64)
              else case signer_ChainID signer of None \<Rightarrow> uint (sig ! 64) + 27
                   | Some c \<Rightarrow> uint (sig ! 64 + 35) + c * 2)"
    using vals assms(3) dec v27
    by (cases signer; cases tx; simp add: cancun_SignatureValues_def london_SignatureValues_def eip2930_SignatureValues_def
      eip155_SignatureValues_def frontier_SignatureValues_def typed_SignatureValues_def chain_ok_def split: if_splits)+
  have small: "0 \<le> r" "r < 2 ^ 256" "0 \<le> s" "s < 2 ^ 256" "0 \<le> uint (sig ! 64)" "uint (sig ! 64) < 2 ^ 256"
    using ok rs uint_bounded [of "sig ! 64"] by (simp_all add: secp256k1N_def secp256k1halfN_def)
  have raw: "rawSignatureValues tx' = (v, r, s)"
    using tx' small v assms(2) by (cases tx) (simp_all add: u256_ok_def)
  have prot: "tx_chainID tx' = c \<and> Protected tx'" if "signer_ChainID signer = Some c" for c
    using that tx' v assms(2,3) ok protected_V [of c "sig ! 64"]
    by (cases tx) (auto simp: chain_ok_def u256_ok_def)
  have "signed_by C u256 signer prv tx tx' sig v"
    unfolding signed_by_def rs [symmetric] using sig tx' raw v prot none by blast
  then show ?thesis by blast
qed

lemma Hash_delegates:
  "txType tx \<noteq> 3 \<Longrightarrow> cancun_Hash C c tx = london_Hash C c tx"
  "txType tx \<noteq> 2 \<Longrightarrow> london_Hash C c tx = eip2930_Hash C c tx"
  by (simp_all add: cancun_Hash_def london_Hash_def)

lemmas signer_Sender_defs = cancun_Sender_def london_Sender_def eip2930_Sender_def eip155_Sender_def
  homestead_Sender_def frontier_Sender_def

lemmas SignatureValues_defs = cancun_SignatureValues_def london_SignatureValues_def
  eip2930_SignatureValues_def eip155_SignatureValues_def frontier_SignatureValues_def

section \<open>Properties\<close>

text \<open>C16: Signing and sender recovery fit together: for every signer and every kind of transaction it
  accepts, the sender derived from a transaction that \<open>SignTx\<close> returned is the address of the signing
  key.  The chain ID of the signer must be positive.\<close>

theorem Sender_SignTx:
  assumes "sign_ok C pub" "u256_ok u256" "chain_ok signer" "SignTx C u256 tx signer prv = Ok tx'"
  shows "signer_Sender C signer tx' = Ok (PubkeyToAddress C (pub prv))"
proof -
  obtain sig v where s: "signed_by C u256 signer prv tx tx' sig v" using SignTx_values [OF assms] by blast
  then have sig: "Sign C (signer_Hash C signer tx) prv = Ok sig"
    and raw: "rawSignatureValues tx' = (v, int (be_val (take 32 sig)), int (be_val (slice sig 32 64)))"
    and v: "v = (if txType tx \<noteq> 0 then uint (sig ! 64)
          else case signer_ChainID signer of None \<Rightarrow> uint (sig ! 64) + 27
               | Some c \<Rightarrow> uint (sig ! 64 + 35) + c * 2)"
    and chain: "\<forall>c. signer_ChainID signer = Some c \<longrightarrow> tx_chainID tx' = c \<and> Protected tx'"
    and none: "signer_ChainID signer = None \<longrightarrow> txType tx = 0"
    unfolding signed_by_def by blast+
  have ty: "txType tx' = txType tx" and hash: "frontier_Hash C tx' = frontier_Hash C tx"
    "eip155_Hash C c tx' = eip155_Hash C c tx" "eip2930_Hash C c tx' = eip2930_Hash C c tx"
    "london_Hash C c tx' = london_Hash C c tx" "cancun_Hash C c tx' = cancun_Hash C c tx" for c
    using s by (simp_all add: signed_by_def)
  have v35: "uint (sig ! 64 + 35) = uint (sig ! 64) + 35"
    using assms(1) [unfolded sign_ok_def, rule_format, OF sig] by auto
  have vv: "signer_ChainID signer = Some c \<Longrightarrow> txType tx = 0 \<Longrightarrow> v - c * 2 - 8 = uint (sig ! 64) + 27"
    "txType tx \<noteq> 0 \<Longrightarrow> v = uint (sig ! 64)" "signer_ChainID signer = None \<Longrightarrow> v = uint (sig ! 64) + 27" for c
    using v v35 none by auto
  note rec = recoverPlain_signed [OF assms(1) sig]
  have ok: "SignatureValues signer tx sig \<noteq> Err e" for e
    using assms(4) sig by (auto simp: SignTx_def WithSignature_def split: sum.splits)
  show ?thesis
    using rec [of True] rec [of False] raw chain none ok [of "SigTx ErrTxTypeNotSupported"] vv
    by (cases signer; cases tx) (simp_all add: signer_Sender_defs SignatureValues_defs ty hash Hash_delegates add.commute [of "uint _" 27])
qed

definition sample_crypto :: "unit crypto" where
  "sample_crypto = \<lparr>Keccak256 = \<lambda>_. replicate 32 7,
     Ecrecover = \<lambda>_ _. Ok (4 # replicate 64 9),
     Sign = \<lambda>_ _. Ok (replicate 31 0 @ [1] @ replicate 31 0 @ [1] @ [0])\<rparr>"

lemma sample_crypto_ok: "sign_ok sample_crypto (\<lambda>_. replicate 64 9)" "u256_ok (\<lambda>x. x)" "chain_ok (LondonSigner 5)"
proof -
  have z: "be_val (replicate n 0 @ b) = be_val b" for n b
    by (induction n) simp_all
  have "be_val (take 32 (replicate 31 0 @ [1] @ replicate 31 0 @ [1] @ [0])) = 1"
    "be_val (slice (replicate 31 0 @ [1] @ replicate 31 0 @ [1] @ [0]) 32 64) = 1"
    using z [of 31 "[1]"] by (simp_all add: slice_def)
  then show "sign_ok sample_crypto (\<lambda>_. replicate 64 9)"
    by (simp add: sign_ok_def sample_crypto_def secp256k1N_def secp256k1halfN_def nth_append)
qed (simp_all add: u256_ok_def chain_ok_def)

theorem Sender_SignTx_witness:
  "\<exists>tx'. SignTx sample_crypto (\<lambda>x. x) (Legacy sample_legacy) (LondonSigner 5) () = Ok tx'
     \<and> signer_Sender sample_crypto (LondonSigner 5) tx' = Ok (replicate 20 7)"
proof -
  have "\<exists>tx'. SignTx sample_crypto (\<lambda>x. x) (Legacy sample_legacy) (LondonSigner 5) () = Ok tx'"
    by (simp add: SignTx_def WithSignature_def SignatureValues_defs decodeSignature_def sample_crypto_def)
  then obtain tx' where "SignTx sample_crypto (\<lambda>x. x) (Legacy sample_legacy) (LondonSigner 5) () = Ok tx'" by blast
  with Sender_SignTx [OF sample_crypto_ok this] show ?thesis
    by (simp add: PubkeyToAddress_def sample_crypto_def)
qed

text \<open>C33: Replay protection: a transaction signed for one chain is rejected by every signer of a
  different chain.\<close>

theorem Sender_other_chain:
  assumes "sign_ok C pub" "u256_ok u256" "chain_ok signer" "SignTx C u256 tx signer prv = Ok tx'"
    and "signer_ChainID signer = Some c" "signer_ChainID other = Some c'" "c' \<noteq> c"
  shows "signer_Sender C other tx' \<in> {Err (ErrInvalidChainId c c'), Err (SigTx ErrTxTypeNotSupported)}"
proof -
  obtain sig v where "signed_by C u256 signer prv tx tx' sig v" using SignTx_values [OF assms(1-4)] by blast
  then have "tx_chainID tx' = c" "Protected tx'"
    using assms(5) unfolding signed_by_def by blast+
  then show ?thesis using assms(6,7)
    by (cases other) (auto simp: signer_Sender_defs split: prod.splits)
qed

theorem Sender_other_chain_witness:
  "\<exists>tx'. SignTx sample_crypto (\<lambda>x. x) (Legacy sample_legacy) (LondonSigner 5) () = Ok tx'
     \<and> signer_Sender sample_crypto (CancunSigner 6) tx' \<in> {Err (ErrInvalidChainId 5 6), Err (SigTx ErrTxTypeNotSupported)}"
proof -
  have "\<exists>tx'. SignTx sample_crypto (\<lambda>x. x) (Legacy sample_legacy) (LondonSigner 5) () = Ok tx'"
    by (simp add: SignTx_def WithSignature_def SignatureValues_defs decodeSignature_def sample_crypto_def)
  then obtain tx' where "SignTx sample_crypto (\<lambda>x. x) (Legacy sample_legacy) (LondonSigner 5) () = Ok tx'" by blast
  with Sender_other_chain [OF sample_crypto_ok this, of 5 "CancunSigner 6" 6] show ?thesis by simp
qed

text \<open>With chain ID zero the EIP-155 signer signs the nine-field hash, but the value \<open>v\<close> it stores
  marks the transaction as unprotected, so that its sender is derived from the six-field hash.\<close>

lemma zero_chain_sender:
  assumes "sign_ok C pub" "SignTx C u256 tx (EIP155Signer 0) prv = Ok tx'"
  shows "\<exists>sig. Sign C (eip155_Hash C 0 tx) prv = Ok sig \<and> signer_Sender C (EIP155Signer 0) tx' =
    recoverPlain C (frontier_Hash C tx) (int (be_val (take 32 sig))) (int (be_val (slice sig 32 64)))
      (uint (sig ! 64) + 27) True"
proof -
  obtain sig r s v where sig: "Sign C (eip155_Hash C 0 tx) prv = Ok sig"
    and vals: "eip155_SignatureValues 0 tx sig = Ok (r, s, v)"
    and tx': "tx' = setSignatureValues u256 (Some 0) v r s tx"
    using assms(2) by (auto simp: SignTx_def WithSignature_def split: sum.splits)
  note ok = assms(1) [unfolded sign_ok_def, rule_format, OF sig]
  have v27: "uint (sig ! 64 + 27) = uint (sig ! 64) + 27" "uint (sig ! 64) \<in> {0, 1}" using ok by auto
  from vals ok v27 obtain l where l: "tx = Legacy l" "r = int (be_val (take 32 sig))" "s = int (be_val (slice sig 32 64))"
    "v = uint (sig ! 64) + 27"
    by (cases tx) (auto simp: eip155_SignatureValues_def decodeSignature_def split: if_splits)
  have h: "frontier_Hash C tx' = frontier_Hash C tx" unfolding tx' by (rule set_sig_hashes)
  have "\<not> Protected tx'" "txType tx' = 0" "rawSignatureValues tx' = (v, r, s)"
    using tx' l v27(2) by (auto simp: isProtectedV_iff)
  then have "signer_Sender C (EIP155Signer 0) tx' = recoverPlain C (frontier_Hash C tx) r s v True"
    by (simp add: eip155_Sender_def homestead_Sender_def h)
  then show ?thesis using sig l by blast
qed

end
