(* ===== verification/State_Access.thy ===== *)
theory State_Access
  imports Tx_Signing
begin

text \<open>
  The per-transaction access list (\<^verbatim>\<open>core/state/access_list.go\<close>) and the transient storage
  (\<^verbatim>\<open>core/state/transient_storage.go\<close>).  The access list keeps the slots of an address in a slice
  indexed from the address map, with -1 for an address without slots; deletions are only made in the
  reverse order of the additions.
\<close>

type_synonym hash = bytes

section \<open>Definitions\<close>

definition zero_hash :: hash where
  "zero_hash = replicate 32 0"

record accessList =
  al_addresses :: "address \<Rightarrow> int option"
  al_slots :: "hash set list"

definition newAccessList :: accessList where
  "newAccessList = \<lparr>al_addresses = Map.empty, al_slots = []\<rparr>"

definition ContainsAddress :: "address \<Rightarrow> accessList \<Rightarrow> bool" where
  "ContainsAddress addr al \<longleftrightarrow> al_addresses al addr \<noteq> None"

definition Contains :: "address \<Rightarrow> hash \<Rightarrow> accessList \<Rightarrow> bool \<times> bool" where
  "Contains addr slot al =
     (case al_addresses al addr of None \<Rightarrow> (False, False)
      | Some idx \<Rightarrow> if idx = -1 then (True, False) else (True, slot \<in> al_slots al ! nat idx))"

definition AddAddress :: "address \<Rightarrow> accessList \<Rightarrow> accessList \<times> bool" where
  "AddAddress addr al =
     (if al_addresses al addr \<noteq> None then (al, False)
      else (al\<lparr>al_addresses := (al_addresses al)(addr \<mapsto> -1)\<rparr>, True))"

text \<open>The two flags tell whether the address and the slot were added.\<close>

definition AddSlot :: "address \<Rightarrow> hash \<Rightarrow> accessList \<Rightarrow> accessList \<times> bool \<times> bool" where
  "AddSlot addr slot al =
     (if al_addresses al addr = None \<or> al_addresses al addr = Some (-1) then
        (al\<lparr>al_addresses := (al_addresses al)(addr \<mapsto> int (length (al_slots al))), al_slots := al_slots al @ [{slot}]\<rparr>,
         al_addresses al addr = None, True)
      else
        let idx = nat (the (al_addresses al addr)); slotmap = al_slots al ! idx
        in if slot \<notin> slotmap then (al\<lparr>al_slots := (al_slots al)[idx := insert slot slotmap]\<rparr>, False, True)
           else (al, False, False))"

text \<open>\<open>None\<close> when the code panics: the address or its slots are missing.\<close>

definition DeleteSlot :: "address \<Rightarrow> hash \<Rightarrow> accessList \<Rightarrow> accessList option" where
  "DeleteSlot addr slot al =
     (case al_addresses al addr of None \<Rightarrow> None
      | Some i \<Rightarrow>
          if i < 0 \<or> nat i \<ge> length (al_slots al) then None
          else
            let idx = nat i; slotmap = al_slots al ! idx - {slot}
            in Some (if slotmap = {} then
                       al\<lparr>al_slots := take idx (al_slots al), al_addresses := (al_addresses al)(addr \<mapsto> -1)\<rparr>
                     else al\<lparr>al_slots := (al_slots al)[idx := slotmap]\<rparr>))"

definition DeleteAddress :: "address \<Rightarrow> accessList \<Rightarrow> accessList" where
  "DeleteAddress addr al = al\<lparr>al_addresses := (al_addresses al)(addr := None)\<rparr>"

type_synonym transientStorage = "address \<Rightarrow> (hash \<Rightarrow> hash option) option"

definition newTransientStorage :: transientStorage where
  "newTransientStorage = Map.empty"

definition ts_Set :: "address \<Rightarrow> hash \<Rightarrow> hash \<Rightarrow> transientStorage \<Rightarrow> transientStorage" where
  "ts_Set addr key val t =
     (let t = (case t addr of None \<Rightarrow> t(addr \<mapsto> Map.empty) | Some _ \<Rightarrow> t)
      in case t addr of None \<Rightarrow> t | Some m \<Rightarrow> t(addr \<mapsto> m(key \<mapsto> val)))"

definition ts_Get :: "address \<Rightarrow> hash \<Rightarrow> transientStorage \<Rightarrow> hash" where
  "ts_Get addr key t =
     (case t addr of None \<Rightarrow> zero_hash
      | Some m \<Rightarrow> (case m key of None \<Rightarrow> zero_hash | Some v \<Rightarrow> v))"

section \<open>Lemmas\<close>

text \<open>Indices point into the slice, different addresses to different places, and no place is empty.\<close>

definition al_inv :: "accessList \<Rightarrow> bool" where
  "al_inv al \<longleftrightarrow>
     (\<forall>a i. al_addresses al a = Some i \<longrightarrow> i = -1 \<or> 0 \<le> i \<and> nat i < length (al_slots al))
     \<and> (\<forall>a b i. al_addresses al a = Some i \<longrightarrow> al_addresses al b = Some i \<longrightarrow> i \<noteq> -1 \<longrightarrow> a = b)
     \<and> {} \<notin> set (al_slots al)"

lemma newAccessList_inv: "al_inv newAccessList"
  by (simp add: al_inv_def newAccessList_def)

lemma AddAddress_inv: "al_inv al \<Longrightarrow> al_inv (fst (AddAddress addr al))"
  by (auto simp: al_inv_def AddAddress_def)

lemma al_index:
  assumes "al_inv al" "\<not> (al_addresses al addr = None \<or> al_addresses al addr = Some (-1))"
  obtains i where "al_addresses al addr = Some i" "0 \<le> i" "nat i < length (al_slots al)"
proof -
  from assms(2) obtain i where i: "al_addresses al addr = Some i" "i \<noteq> -1" by auto
  with assms(1) have "0 \<le> i \<and> nat i < length (al_slots al)" unfolding al_inv_def by blast
  with i(1) that show thesis by blast
qed

lemma AddSlot_inv: "al_inv al \<Longrightarrow> al_inv (fst (AddSlot addr slot al))"
proof -
  assume inv: "al_inv al"
  show ?thesis
  proof (cases "al_addresses al addr = None \<or> al_addresses al addr = Some (-1)")
    case True
    have "i \<noteq> int (length (al_slots al))" if "al_addresses al a = Some i" for a i
      using inv that unfolding al_inv_def by fastforce
    then show ?thesis using True inv by (auto simp: al_inv_def AddSlot_def less_Suc_eq)
  next
    case False
    from al_index [OF inv False] obtain i where
      i: "al_addresses al addr = Some i" "0 \<le> i" "nat i < length (al_slots al)" .
    then show ?thesis using False inv
      by (auto simp: al_inv_def AddSlot_def Let_def dest!: set_update_subset_insert [THEN subsetD])
  qed
qed

text \<open>Deletions undo the additions exactly.\<close>

lemma DeleteAddress_Add: "snd (AddAddress addr al) \<Longrightarrow> DeleteAddress addr (fst (AddAddress addr al)) = al"
  by (auto simp: AddAddress_def DeleteAddress_def fun_upd_idem split: if_splits)

lemma DeleteSlot_Add:
  assumes "al_inv al" "AddSlot addr slot al = (al', a, True)"
  shows "DeleteSlot addr slot al' = Some (if a then fst (AddAddress addr al) else al)"
proof (cases "al_addresses al addr = None \<or> al_addresses al addr = Some (-1)")
  case True
  then show ?thesis using assms(2)
    by (auto simp: AddSlot_def DeleteSlot_def AddAddress_def Let_def fun_upd_idem)
next
  case False
  from al_index [OF assms(1) False] obtain i where
    i: "al_addresses al addr = Some i" "0 \<le> i" "nat i < length (al_slots al)" .
  have ne: "al_slots al ! nat i \<noteq> {}" using assms(1) i(3) unfolding al_inv_def by (metis nth_mem)
  have "a = False" "slot \<notin> al_slots al ! nat i" "al' = al\<lparr>al_slots := (al_slots al)[nat i := insert slot (al_slots al ! nat i)]\<rparr>"
    using assms(2) False i by (auto simp: AddSlot_def Let_def split: if_splits)
  moreover from this ne have "\<not> al_slots al ! nat i \<subseteq> {slot}" by blast
  ultimately show ?thesis using i by (simp add: DeleteSlot_def Let_def)
qed

lemma ts_Get_Set: "ts_Get b k' (ts_Set a k v t) = (if a = b \<and> k = k' then v else ts_Get b k' t)"
  by (auto simp: ts_Get_def ts_Set_def split: option.splits)

end
