(* ===== verification/State_DB.thy ===== *)
theory State_DB
  imports State_Access Rlp_Raw
begin

text \<open>
  The world state of a block under execution (\<^verbatim>\<open>core/state/statedb.go\<close>, \<^verbatim>\<open>state_object.go\<close>,
  \<^verbatim>\<open>journal.go\<close>): accounts loaded on demand into live objects, a journal of the changes made by the
  current transaction, and snapshots to which the changes can be rolled back.  The account trie, the
  snapshot layer and the code database are read through interfaces; they are the argument of type
  \<open>backend\<close>.  A pointer to a state object is the entry of the object map at its address; changing the
  object writes the entry back.  The prefetcher and the metrics are left out.
\<close>

section \<open>Definitions\<close>

subsection \<open>Data\<close>

definition BytesToHash :: "bytes \<Rightarrow> hash" where
  "BytesToHash b = (if length b > 32 then drop (length b - 32) b else left_pad 32 b)"

record StateAccount =
  ac_Nonce :: u64
  ac_Balance :: "int option"
  ac_Root :: hash
  ac_CodeHash :: "bytes option"

record snapAccount =
  sa_Nonce :: u64
  sa_Balance :: int
  sa_Root :: bytes
  sa_CodeHash :: bytes

record 'e snapshotReader =
  sn_Account :: "address \<Rightarrow> 'e + snapAccount option"
  sn_Storage :: "address \<Rightarrow> hash \<Rightarrow> 'e + bytes"

record ('t, 'e) backend =
  be_Keccak256 :: "bytes \<Rightarrow> bytes"
  be_snap :: "'e snapshotReader option"
  be_GetAccount :: "address \<Rightarrow> 'e + StateAccount option"
  be_OpenStorageTrie :: "address \<Rightarrow> hash \<Rightarrow> 'e + 't"
  be_GetStorage :: "'t \<Rightarrow> address \<Rightarrow> hash \<Rightarrow> 'e + bytes"
  be_ContractCode :: "address \<Rightarrow> hash \<Rightarrow> bytes option \<times> 'e option"

definition EmptyRootHash :: hash where
  "EmptyRootHash = [0x56, 0xe8, 0x1f, 0x17, 0x1b, 0xcc, 0x55, 0xa6, 0xff, 0x83, 0x45, 0xe6, 0x92, 0xc0, 0xf8, 0x6e,
     0x5b, 0x48, 0xe0, 0x1b, 0x99, 0x6c, 0xad, 0xc0, 0x01, 0x62, 0x2f, 0xb5, 0xe3, 0x63, 0xb4, 0x21]"

definition EmptyCodeHash :: "('t, 'e) backend \<Rightarrow> hash" where
  "EmptyCodeHash B = be_Keccak256 B []"

record 't stateObject =
  so_address :: address
  so_Nonce :: u64
  so_Balance :: int
  so_Root :: hash
  so_CodeHash :: bytes
  so_trie :: "'t option"
  so_code :: "bytes option"
  so_originStorage :: "hash \<Rightarrow> hash option"
  so_pendingStorage :: "hash \<Rightarrow> hash option"
  so_dirtyStorage :: "hash \<Rightarrow> hash option"
  so_dirtyCode :: bool
  so_suicided :: bool
  so_deleted :: bool

record Log =
  l_Address :: address
  l_Topics :: "hash list"
  l_Data :: bytes
  l_BlockNumber :: u64
  l_TxHash :: hash
  l_TxIndex :: u64
  l_BlockHash :: hash
  l_Index :: u64
  l_Removed :: bool

datatype 't journalEntry =
    createObjectChange address
  | resetObjectChange "'t stateObject" bool
  | suicideChange address bool int
  | balanceChange address int
  | nonceChange address u64
  | storageChange address hash hash
  | codeChange address "bytes option" bytes
  | refundChange u64
  | addLogChange hash
  | addPreimageChange hash
  | touchChange address
  | accessListAddAccountChange address
  | accessListAddSlotChange address hash
  | transientStorageChange address hash hash

datatype 'e state_err =
    ErrGetAccount address 'e
  | ErrGetStorage 'e
  | ErrSplit rlp_err
  | ErrLoadCode bytes 'e

record ('t, 'e) StateDB =
  sdb_objects :: "address \<Rightarrow> 't stateObject option"
  sdb_pending :: "address set"
  sdb_dirty :: "address set"
  sdb_destruct :: "address set"
  sdb_dbErr :: "'e state_err option"
  sdb_refund :: u64
  sdb_thash :: hash
  sdb_txIndex :: int
  sdb_logs :: "hash \<Rightarrow> Log list"
  sdb_logSize :: u64
  sdb_preimages :: "hash \<Rightarrow> bytes option"
  sdb_accessList :: accessList
  sdb_transient :: transientStorage
  sdb_entries :: "'t journalEntry list"
  sdb_dirties :: "address \<Rightarrow> int option"
  sdb_revisions :: "(int \<times> nat) list"
  sdb_nextRevisionId :: int

text \<open>A hash without logs reads as the empty list.\<close>

definition StateDB_New :: "('t, 'e) StateDB" where
  "StateDB_New =
     \<lparr>sdb_objects = Map.empty, sdb_pending = {}, sdb_dirty = {}, sdb_destruct = {}, sdb_dbErr = None,
      sdb_refund = 0, sdb_thash = zero_hash, sdb_txIndex = 0, sdb_logs = (\<lambda>_. []), sdb_logSize = 0,
      sdb_preimages = Map.empty, sdb_accessList = newAccessList, sdb_transient = newTransientStorage,
      sdb_entries = [], sdb_dirties = Map.empty, sdb_revisions = [], sdb_nextRevisionId = 0\<rparr>"

subsection \<open>The journal\<close>

definition ripemd :: address where
  "ripemd = replicate 19 0 @ [3]"

fun dirtied :: "'t journalEntry \<Rightarrow> address option" where
  "dirtied (createObjectChange a) = Some a"
| "dirtied (suicideChange a _ _) = Some a"
| "dirtied (balanceChange a _) = Some a"
| "dirtied (nonceChange a _) = Some a"
| "dirtied (storageChange a _ _) = Some a"
| "dirtied (codeChange a _ _) = Some a"
| "dirtied (touchChange a) = Some a"
| "dirtied _ = None"

text \<open>\<open>j.dirties[addr]++\<close>, and \<open>j.dirties[addr]--\<close> with the entry deleted at zero.\<close>

definition dirty_inc :: "address \<Rightarrow> (address \<Rightarrow> int option) \<Rightarrow> address \<Rightarrow> int option" where
  "dirty_inc a d = d(a \<mapsto> (case d a of None \<Rightarrow> 0 | Some n \<Rightarrow> n) + 1)"

definition dirty_dec :: "address \<Rightarrow> (address \<Rightarrow> int option) \<Rightarrow> address \<Rightarrow> int option" where
  "dirty_dec a d =
     (let n = (case d a of None \<Rightarrow> 0 | Some n \<Rightarrow> n) - 1 in if n = 0 then d(a := None) else d(a \<mapsto> n))"

definition journal_append :: "'t journalEntry \<Rightarrow> ('t, 'e) StateDB \<Rightarrow> ('t, 'e) StateDB" where
  "journal_append e s =
     (let s = s\<lparr>sdb_entries := sdb_entries s @ [e]\<rparr>
      in case dirtied e of None \<Rightarrow> s | Some a \<Rightarrow> s\<lparr>sdb_dirties := dirty_inc a (sdb_dirties s)\<rparr>)"

definition journal_dirty :: "address \<Rightarrow> ('t, 'e) StateDB \<Rightarrow> ('t, 'e) StateDB" where
  "journal_dirty a s = s\<lparr>sdb_dirties := dirty_inc a (sdb_dirties s)\<rparr>"

definition setError :: "'e state_err \<Rightarrow> ('t, 'e) StateDB \<Rightarrow> ('t, 'e) StateDB" where
  "setError err s = (if sdb_dbErr s = None then s\<lparr>sdb_dbErr := Some err\<rparr> else s)"

subsection \<open>Loading accounts\<close>

definition newObject :: "('t, 'e) backend \<Rightarrow> address \<Rightarrow> StateAccount \<Rightarrow> 't stateObject" where
  "newObject B addr dat =
     \<lparr>so_address = addr, so_Nonce = ac_Nonce dat,
      so_Balance = (case ac_Balance dat of None \<Rightarrow> 0 | Some b \<Rightarrow> b),
      so_Root = (if ac_Root dat = zero_hash then EmptyRootHash else ac_Root dat),
      so_CodeHash = (case ac_CodeHash dat of None \<Rightarrow> EmptyCodeHash B | Some h \<Rightarrow> h),
      so_trie = None, so_code = None, so_originStorage = Map.empty, so_pendingStorage = Map.empty,
      so_dirtyStorage = Map.empty, so_dirtyCode = False, so_suicided = False, so_deleted = False\<rparr>"

definition setStateObject :: "'t stateObject \<Rightarrow> ('t, 'e) StateDB \<Rightarrow> ('t, 'e) StateDB" where
  "setStateObject obj s = s\<lparr>sdb_objects := (sdb_objects s)(so_address obj \<mapsto> obj)\<rparr>"

text \<open>The account from the snapshot: \<open>None\<close> when it has none or reading fails, \<open>Some None\<close> when there is no
  such account.\<close>

definition snap_read :: "('t, 'e) backend \<Rightarrow> address \<Rightarrow> StateAccount option option" where
  "snap_read B addr =
     (case be_snap B of None \<Rightarrow> None
      | Some sn \<Rightarrow>
          (case sn_Account sn addr of Err _ \<Rightarrow> None
           | Ok None \<Rightarrow> Some None
           | Ok (Some acc) \<Rightarrow>
               Some (Some \<lparr>ac_Nonce = sa_Nonce acc, ac_Balance = Some (sa_Balance acc),
                 ac_Root = (let root = BytesToHash (sa_Root acc) in if root = zero_hash then EmptyRootHash else root),
                 ac_CodeHash = Some (if sa_CodeHash acc = [] then EmptyCodeHash B else sa_CodeHash acc)\<rparr>)))"

definition getDeletedStateObject :: "('t, 'e) backend \<Rightarrow> address \<Rightarrow> ('t, 'e) StateDB \<Rightarrow>
    ('t, 'e) StateDB \<times> 't stateObject option" where
  "getDeletedStateObject B addr s =
     (case sdb_objects s addr of Some obj \<Rightarrow> (s, Some obj)
      | None \<Rightarrow>
          (case snap_read B addr of Some None \<Rightarrow> (s, None)
           | Some (Some dat) \<Rightarrow> let obj = newObject B addr dat in (setStateObject obj s, Some obj)
           | None \<Rightarrow>
               (case be_GetAccount B addr of Err e \<Rightarrow> (setError (ErrGetAccount addr e) s, None)
                | Ok None \<Rightarrow> (s, None)
                | Ok (Some dat) \<Rightarrow> let obj = newObject B addr dat in (setStateObject obj s, Some obj))))"

definition getStateObject :: "('t, 'e) backend \<Rightarrow> address \<Rightarrow> ('t, 'e) StateDB \<Rightarrow>
    ('t, 'e) StateDB \<times> 't stateObject option" where
  "getStateObject B addr s =
     (case getDeletedStateObject B addr s of
        (s, Some obj) \<Rightarrow> if \<not> so_deleted obj then (s, Some obj) else (s, None)
      | (s, None) \<Rightarrow> (s, None))"

text \<open>The new object, and the previous one unless it was deleted.\<close>

definition createObject :: "('t, 'e) backend \<Rightarrow> address \<Rightarrow> ('t, 'e) StateDB \<Rightarrow>
    ('t, 'e) StateDB \<times> 't stateObject \<times> 't stateObject option" where
  "createObject B addr s =
     (case getDeletedStateObject B addr s of (s, prev) \<Rightarrow>
      let newobj = newObject B addr \<lparr>ac_Nonce = 0, ac_Balance = None, ac_Root = zero_hash, ac_CodeHash = None\<rparr>
      in case prev of
           None \<Rightarrow> (setStateObject newobj (journal_append (createObjectChange addr) s), newobj, None)
         | Some p \<Rightarrow>
             let prevdestruct = so_address p \<in> sdb_destruct s;
                 s = s\<lparr>sdb_destruct := insert (so_address p) (sdb_destruct s)\<rparr>;
                 s = setStateObject newobj (journal_append (resetObjectChange p prevdestruct) s)
             in (s, newobj, if \<not> so_deleted p then Some p else None))"

definition GetOrNewStateObject :: "('t, 'e) backend \<Rightarrow> address \<Rightarrow> ('t, 'e) StateDB \<Rightarrow>
    ('t, 'e) StateDB \<times> 't stateObject" where
  "GetOrNewStateObject B addr s =
     (case getStateObject B addr s of
        (s, Some obj) \<Rightarrow> (s, obj)
      | (s, None) \<Rightarrow> (case createObject B addr s of (s, obj, _) \<Rightarrow> (s, obj)))"

definition CreateAccount :: "('t, 'e) backend \<Rightarrow> address \<Rightarrow> ('t, 'e) StateDB \<Rightarrow> ('t, 'e) StateDB" where
  "CreateAccount B addr s =
     (case createObject B addr s of
        (s, newObj, None) \<Rightarrow> s
      | (s, newObj, Some prev) \<Rightarrow> setStateObject (newObj\<lparr>so_Balance := so_Balance prev\<rparr>) s)"

subsection \<open>Methods of state objects\<close>

definition so_empty :: "('t, 'e) backend \<Rightarrow> 't stateObject \<Rightarrow> bool" where
  "so_empty B obj = (so_Nonce obj = 0 \<and> so_Balance obj = 0 \<and> so_CodeHash obj = EmptyCodeHash B)"

definition touch :: "'t stateObject \<Rightarrow> ('t, 'e) StateDB \<Rightarrow> ('t, 'e) StateDB" where
  "touch obj s =
     (let s = journal_append (touchChange (so_address obj)) s
      in if so_address obj = ripemd then journal_dirty (so_address obj) s else s)"

definition so_SetBalance :: "'t stateObject \<Rightarrow> int \<Rightarrow> ('t, 'e) StateDB \<Rightarrow> ('t, 'e) StateDB" where
  "so_SetBalance obj amount s =
     setStateObject (obj\<lparr>so_Balance := amount\<rparr>) (journal_append (balanceChange (so_address obj) (so_Balance obj)) s)"

definition so_AddBalance :: "('t, 'e) backend \<Rightarrow> 't stateObject \<Rightarrow> int \<Rightarrow> ('t, 'e) StateDB \<Rightarrow> ('t, 'e) StateDB" where
  "so_AddBalance B obj amount s =
     (if amount = 0 then (if so_empty B obj then touch obj s else s)
      else so_SetBalance obj (so_Balance obj + amount) s)"

definition so_SubBalance :: "'t stateObject \<Rightarrow> int \<Rightarrow> ('t, 'e) StateDB \<Rightarrow> ('t, 'e) StateDB" where
  "so_SubBalance obj amount s = (if amount = 0 then s else so_SetBalance obj (so_Balance obj - amount) s)"

definition so_SetNonce :: "'t stateObject \<Rightarrow> u64 \<Rightarrow> ('t, 'e) StateDB \<Rightarrow> ('t, 'e) StateDB" where
  "so_SetNonce obj nonce s =
     setStateObject (obj\<lparr>so_Nonce := nonce\<rparr>) (journal_append (nonceChange (so_address obj) (so_Nonce obj)) s)"

text \<open>\<open>Code\<close> caches what it loads.\<close>

definition so_Code :: "('t, 'e) backend \<Rightarrow> 't stateObject \<Rightarrow> ('t, 'e) StateDB \<Rightarrow>
    ('t, 'e) StateDB \<times> 't stateObject \<times> bytes option" where
  "so_Code B obj s =
     (if so_code obj \<noteq> None then (s, obj, so_code obj)
      else if so_CodeHash obj = EmptyCodeHash B then (s, obj, None)
      else (case be_ContractCode B (so_address obj) (BytesToHash (so_CodeHash obj)) of (code, err) \<Rightarrow>
        let s = (case err of None \<Rightarrow> s | Some e \<Rightarrow> setError (ErrLoadCode (so_CodeHash obj) e) s);
            obj = obj\<lparr>so_code := code\<rparr>
        in (setStateObject obj s, obj, code)))"

definition setCode :: "hash \<Rightarrow> bytes option \<Rightarrow> 't stateObject \<Rightarrow> 't stateObject" where
  "setCode codeHash code obj = obj\<lparr>so_code := code, so_CodeHash := codeHash, so_dirtyCode := True\<rparr>"

definition so_SetCode :: "('t, 'e) backend \<Rightarrow> 't stateObject \<Rightarrow> hash \<Rightarrow> bytes option \<Rightarrow> ('t, 'e) StateDB \<Rightarrow> ('t, 'e) StateDB" where
  "so_SetCode B obj codeHash code s =
     (case so_Code B obj s of (s, obj, prevcode) \<Rightarrow>
        setStateObject (setCode codeHash code obj) (journal_append (codeChange (so_address obj) prevcode (so_CodeHash obj)) s))"

text \<open>The storage trie is opened on first use.\<close>

definition getTrie :: "('t, 'e) backend \<Rightarrow> 't stateObject \<Rightarrow> 'e + 't stateObject \<times> 't" where
  "getTrie B obj =
     (case so_trie obj of Some tr \<Rightarrow> Ok (obj, tr)
      | None \<Rightarrow> (case be_OpenStorageTrie B (so_address obj) (so_Root obj) of Err e \<Rightarrow> Err e
                 | Ok tr \<Rightarrow> Ok (obj\<lparr>so_trie := Some tr\<rparr>, tr)))"

text \<open>The encoded slot from the snapshot or else from the trie.\<close>

definition readStorage :: "('t, 'e) backend \<Rightarrow> 't stateObject \<Rightarrow> hash \<Rightarrow> 't stateObject \<times> ('e + bytes)" where
  "readStorage B obj key =
     (let from_trie = (case getTrie B obj of Err e \<Rightarrow> (obj, Err e)
                       | Ok (obj, tr) \<Rightarrow> (obj, be_GetStorage B tr (so_address obj) key))
      in case be_snap B of None \<Rightarrow> from_trie
         | Some sn \<Rightarrow> (case sn_Storage sn (so_address obj) key of Err e \<Rightarrow> from_trie | Ok enc \<Rightarrow> (obj, Ok enc)))"

definition decodeSlot :: "bytes \<Rightarrow> hash \<times> rlp_err option" where
  "decodeSlot enc =
     (if enc = [] then (zero_hash, None)
      else (case Split enc of Err e \<Rightarrow> (BytesToHash [], Some e)
            | Ok (_, content, _) \<Rightarrow> (BytesToHash content, None)))"

definition so_GetCommittedState :: "('t, 'e) backend \<Rightarrow> 't stateObject \<Rightarrow> hash \<Rightarrow> ('t, 'e) StateDB \<Rightarrow>
    ('t, 'e) StateDB \<times> 't stateObject \<times> hash" where
  "so_GetCommittedState B obj key s =
     (case so_pendingStorage obj key of Some v \<Rightarrow> (s, obj, v)
      | None \<Rightarrow> (case so_originStorage obj key of Some v \<Rightarrow> (s, obj, v)
      | None \<Rightarrow>
          if so_address obj \<in> sdb_destruct s then (s, obj, zero_hash)
          else (case readStorage B obj key of
                  (obj, Err e) \<Rightarrow> (setError (ErrGetStorage e) (setStateObject obj s), obj, zero_hash)
                | (obj, Ok enc) \<Rightarrow>
                    (case decodeSlot enc of (v, err) \<Rightarrow>
                       let s = (case err of None \<Rightarrow> s | Some e \<Rightarrow> setError (ErrSplit e) s);
                           obj = obj\<lparr>so_originStorage := (so_originStorage obj)(key \<mapsto> v)\<rparr>
                       in (setStateObject obj s, obj, v)))))"

definition so_GetState :: "('t, 'e) backend \<Rightarrow> 't stateObject \<Rightarrow> hash \<Rightarrow> ('t, 'e) StateDB \<Rightarrow>
    ('t, 'e) StateDB \<times> 't stateObject \<times> hash" where
  "so_GetState B obj key s =
     (case so_dirtyStorage obj key of Some v \<Rightarrow> (s, obj, v) | None \<Rightarrow> so_GetCommittedState B obj key s)"

definition setState :: "hash \<Rightarrow> hash \<Rightarrow> 't stateObject \<Rightarrow> 't stateObject" where
  "setState key val obj = obj\<lparr>so_dirtyStorage := (so_dirtyStorage obj)(key \<mapsto> val)\<rparr>"

definition so_SetState :: "('t, 'e) backend \<Rightarrow> 't stateObject \<Rightarrow> hash \<Rightarrow> hash \<Rightarrow> ('t, 'e) StateDB \<Rightarrow> ('t, 'e) StateDB" where
  "so_SetState B obj key val s =
     (case so_GetState B obj key s of (s, obj, prev) \<Rightarrow>
        if prev = val then s
        else setStateObject (setState key val obj) (journal_append (storageChange (so_address obj) key prev) s))"

definition so_finalise :: "'t stateObject \<Rightarrow> 't stateObject" where
  "so_finalise obj = obj\<lparr>so_pendingStorage := so_pendingStorage obj ++ so_dirtyStorage obj, so_dirtyStorage := Map.empty\<rparr>"

subsection \<open>Reading the state\<close>

definition Exist :: "('t, 'e) backend \<Rightarrow> address \<Rightarrow> ('t, 'e) StateDB \<Rightarrow> ('t, 'e) StateDB \<times> bool" where
  "Exist B addr s = (case getStateObject B addr s of (s, obj) \<Rightarrow> (s, obj \<noteq> None))"

definition Empty :: "('t, 'e) backend \<Rightarrow> address \<Rightarrow> ('t, 'e) StateDB \<Rightarrow> ('t, 'e) StateDB \<times> bool" where
  "Empty B addr s =
     (case getStateObject B addr s of (s, None) \<Rightarrow> (s, True) | (s, Some so) \<Rightarrow> (s, so_empty B so))"

definition GetBalance :: "('t, 'e) backend \<Rightarrow> address \<Rightarrow> ('t, 'e) StateDB \<Rightarrow> ('t, 'e) StateDB \<times> int" where
  "GetBalance B addr s =
     (case getStateObject B addr s of (s, None) \<Rightarrow> (s, 0) | (s, Some obj) \<Rightarrow> (s, so_Balance obj))"

definition GetNonce :: "('t, 'e) backend \<Rightarrow> address \<Rightarrow> ('t, 'e) StateDB \<Rightarrow> ('t, 'e) StateDB \<times> u64" where
  "GetNonce B addr s =
     (case getStateObject B addr s of (s, None) \<Rightarrow> (s, 0) | (s, Some obj) \<Rightarrow> (s, so_Nonce obj))"

definition GetCode :: "('t, 'e) backend \<Rightarrow> address \<Rightarrow> ('t, 'e) StateDB \<Rightarrow> ('t, 'e) StateDB \<times> bytes option" where
  "GetCode B addr s =
     (case getStateObject B addr s of (s, None) \<Rightarrow> (s, None)
      | (s, Some obj) \<Rightarrow> (case so_Code B obj s of (s, _, code) \<Rightarrow> (s, code)))"

definition GetCodeHash :: "('t, 'e) backend \<Rightarrow> address \<Rightarrow> ('t, 'e) StateDB \<Rightarrow> ('t, 'e) StateDB \<times> hash" where
  "GetCodeHash B addr s =
     (case getStateObject B addr s of (s, None) \<Rightarrow> (s, zero_hash) | (s, Some obj) \<Rightarrow> (s, BytesToHash (so_CodeHash obj)))"

definition GetState :: "('t, 'e) backend \<Rightarrow> address \<Rightarrow> hash \<Rightarrow> ('t, 'e) StateDB \<Rightarrow> ('t, 'e) StateDB \<times> hash" where
  "GetState B addr key s =
     (case getStateObject B addr s of (s, None) \<Rightarrow> (s, zero_hash)
      | (s, Some obj) \<Rightarrow> (case so_GetState B obj key s of (s, _, v) \<Rightarrow> (s, v)))"

definition GetCommittedState :: "('t, 'e) backend \<Rightarrow> address \<Rightarrow> hash \<Rightarrow> ('t, 'e) StateDB \<Rightarrow> ('t, 'e) StateDB \<times> hash" where
  "GetCommittedState B addr key s =
     (case getStateObject B addr s of (s, None) \<Rightarrow> (s, zero_hash)
      | (s, Some obj) \<Rightarrow> (case so_GetCommittedState B obj key s of (s, _, v) \<Rightarrow> (s, v)))"

definition HasSuicided :: "('t, 'e) backend \<Rightarrow> address \<Rightarrow> ('t, 'e) StateDB \<Rightarrow> ('t, 'e) StateDB \<times> bool" where
  "HasSuicided B addr s =
     (case getStateObject B addr s of (s, None) \<Rightarrow> (s, False) | (s, Some obj) \<Rightarrow> (s, so_suicided obj))"

definition GetTransientState :: "address \<Rightarrow> hash \<Rightarrow> ('t, 'e) StateDB \<Rightarrow> hash" where
  "GetTransientState addr key s = ts_Get addr key (sdb_transient s)"

subsection \<open>Changing the state\<close>

definition AddBalance :: "('t, 'e) backend \<Rightarrow> address \<Rightarrow> int \<Rightarrow> ('t, 'e) StateDB \<Rightarrow> ('t, 'e) StateDB" where
  "AddBalance B addr amount s = (case GetOrNewStateObject B addr s of (s, obj) \<Rightarrow> so_AddBalance B obj amount s)"

definition SubBalance :: "('t, 'e) backend \<Rightarrow> address \<Rightarrow> int \<Rightarrow> ('t, 'e) StateDB \<Rightarrow> ('t, 'e) StateDB" where
  "SubBalance B addr amount s = (case GetOrNewStateObject B addr s of (s, obj) \<Rightarrow> so_SubBalance obj amount s)"

definition SetBalance :: "('t, 'e) backend \<Rightarrow> address \<Rightarrow> int \<Rightarrow> ('t, 'e) StateDB \<Rightarrow> ('t, 'e) StateDB" where
  "SetBalance B addr amount s = (case GetOrNewStateObject B addr s of (s, obj) \<Rightarrow> so_SetBalance obj amount s)"

definition SetNonce :: "('t, 'e) backend \<Rightarrow> address \<Rightarrow> u64 \<Rightarrow> ('t, 'e) StateDB \<Rightarrow> ('t, 'e) StateDB" where
  "SetNonce B addr nonce s = (case GetOrNewStateObject B addr s of (s, obj) \<Rightarrow> so_SetNonce obj nonce s)"

definition SetCode :: "('t, 'e) backend \<Rightarrow> address \<Rightarrow> bytes option \<Rightarrow> ('t, 'e) StateDB \<Rightarrow> ('t, 'e) StateDB" where
  "SetCode B addr code s =
     (case GetOrNewStateObject B addr s of (s, obj) \<Rightarrow>
        so_SetCode B obj (be_Keccak256 B (case code of None \<Rightarrow> [] | Some c \<Rightarrow> c)) code s)"

definition SetState :: "('t, 'e) backend \<Rightarrow> address \<Rightarrow> hash \<Rightarrow> hash \<Rightarrow> ('t, 'e) StateDB \<Rightarrow> ('t, 'e) StateDB" where
  "SetState B addr key val s = (case GetOrNewStateObject B addr s of (s, obj) \<Rightarrow> so_SetState B obj key val s)"

definition Suicide :: "('t, 'e) backend \<Rightarrow> address \<Rightarrow> ('t, 'e) StateDB \<Rightarrow> ('t, 'e) StateDB \<times> bool" where
  "Suicide B addr s =
     (case getStateObject B addr s of (s, None) \<Rightarrow> (s, False)
      | (s, Some obj) \<Rightarrow>
          (setStateObject (obj\<lparr>so_suicided := True, so_Balance := 0\<rparr>)
             (journal_append (suicideChange addr (so_suicided obj) (so_Balance obj)) s), True))"

definition setTransientState :: "address \<Rightarrow> hash \<Rightarrow> hash \<Rightarrow> ('t, 'e) StateDB \<Rightarrow> ('t, 'e) StateDB" where
  "setTransientState addr key val s = s\<lparr>sdb_transient := ts_Set addr key val (sdb_transient s)\<rparr>"

definition SetTransientState :: "address \<Rightarrow> hash \<Rightarrow> hash \<Rightarrow> ('t, 'e) StateDB \<Rightarrow> ('t, 'e) StateDB" where
  "SetTransientState addr key val s =
     (let prev = GetTransientState addr key s
      in if prev = val then s
         else setTransientState addr key val (journal_append (transientStorageChange addr key prev) s))"

definition AddLog :: "Log \<Rightarrow> ('t, 'e) StateDB \<Rightarrow> ('t, 'e) StateDB" where
  "AddLog log s =
     (let s = journal_append (addLogChange (sdb_thash s)) s;
          log = log\<lparr>l_TxHash := sdb_thash s, l_TxIndex := of_int (sdb_txIndex s), l_Index := sdb_logSize s\<rparr>
      in s\<lparr>sdb_logs := (sdb_logs s)(sdb_thash s := sdb_logs s (sdb_thash s) @ [log]), sdb_logSize := sdb_logSize s + 1\<rparr>)"

definition AddPreimage :: "hash \<Rightarrow> bytes \<Rightarrow> ('t, 'e) StateDB \<Rightarrow> ('t, 'e) StateDB" where
  "AddPreimage h preimage s =
     (if sdb_preimages s h = None then
        let s = journal_append (addPreimageChange h) s in s\<lparr>sdb_preimages := (sdb_preimages s)(h \<mapsto> preimage)\<rparr>
      else s)"

definition AddRefund :: "u64 \<Rightarrow> ('t, 'e) StateDB \<Rightarrow> ('t, 'e) StateDB" where
  "AddRefund gas s =
     (let s = journal_append (refundChange (sdb_refund s)) s in s\<lparr>sdb_refund := sdb_refund s + gas\<rparr>)"

text \<open>\<open>SubRefund\<close> panics when the counter would go below zero: \<open>None\<close>.\<close>

definition SubRefund :: "u64 \<Rightarrow> ('t, 'e) StateDB \<Rightarrow> ('t, 'e) StateDB option" where
  "SubRefund gas s =
     (let s = journal_append (refundChange (sdb_refund s)) s
      in if gas > sdb_refund s then None else Some (s\<lparr>sdb_refund := sdb_refund s - gas\<rparr>))"

definition AddAddressToAccessList :: "address \<Rightarrow> ('t, 'e) StateDB \<Rightarrow> ('t, 'e) StateDB" where
  "AddAddressToAccessList addr s =
     (case AddAddress addr (sdb_accessList s) of (al, added) \<Rightarrow>
        let s = s\<lparr>sdb_accessList := al\<rparr> in if added then journal_append (accessListAddAccountChange addr) s else s)"

definition AddSlotToAccessList :: "address \<Rightarrow> hash \<Rightarrow> ('t, 'e) StateDB \<Rightarrow> ('t, 'e) StateDB" where
  "AddSlotToAccessList addr slot s =
     (case AddSlot addr slot (sdb_accessList s) of (al, addrMod, slotMod) \<Rightarrow>
        let s = s\<lparr>sdb_accessList := al\<rparr>;
            s = (if addrMod then journal_append (accessListAddAccountChange addr) s else s)
        in if slotMod then journal_append (accessListAddSlotChange addr slot) s else s)"

subsection \<open>Reverting\<close>

text \<open>\<open>None\<close> when the code panics.\<close>

fun revert :: "('t, 'e) backend \<Rightarrow> 't journalEntry \<Rightarrow> ('t, 'e) StateDB \<Rightarrow> ('t, 'e) StateDB option" where
  "revert B (createObjectChange a) s =
     Some (s\<lparr>sdb_objects := (sdb_objects s)(a := None), sdb_dirty := sdb_dirty s - {a}\<rparr>)"
| "revert B (resetObjectChange prev prevdestruct) s =
     (let s = setStateObject prev s
      in Some (if \<not> prevdestruct then s\<lparr>sdb_destruct := sdb_destruct s - {so_address prev}\<rparr> else s))"
| "revert B (suicideChange a prev prevbalance) s =
     (case getStateObject B a s of (s, None) \<Rightarrow> Some s
      | (s, Some obj) \<Rightarrow> Some (setStateObject (obj\<lparr>so_suicided := prev, so_Balance := prevbalance\<rparr>) s))"
| "revert B (touchChange a) s = Some s"
| "revert B (balanceChange a prev) s =
     (case getStateObject B a s of (s, None) \<Rightarrow> None | (s, Some obj) \<Rightarrow> Some (setStateObject (obj\<lparr>so_Balance := prev\<rparr>) s))"
| "revert B (nonceChange a prev) s =
     (case getStateObject B a s of (s, None) \<Rightarrow> None | (s, Some obj) \<Rightarrow> Some (setStateObject (obj\<lparr>so_Nonce := prev\<rparr>) s))"
| "revert B (codeChange a prevcode prevhash) s =
     (case getStateObject B a s of (s, None) \<Rightarrow> None
      | (s, Some obj) \<Rightarrow> Some (setStateObject (setCode (BytesToHash prevhash) prevcode obj) s))"
| "revert B (storageChange a key prevalue) s =
     (case getStateObject B a s of (s, None) \<Rightarrow> None | (s, Some obj) \<Rightarrow> Some (setStateObject (setState key prevalue obj) s))"
| "revert B (transientStorageChange a key prevalue) s = Some (setTransientState a key prevalue s)"
| "revert B (refundChange prev) s = Some (s\<lparr>sdb_refund := prev\<rparr>)"
| "revert B (addLogChange txhash) s =
     (if sdb_logs s txhash = [] then None
      else Some (s\<lparr>sdb_logs := (sdb_logs s)(txhash := butlast (sdb_logs s txhash)), sdb_logSize := sdb_logSize s - 1\<rparr>))"
| "revert B (addPreimageChange h) s = Some (s\<lparr>sdb_preimages := (sdb_preimages s)(h := None)\<rparr>)"
| "revert B (accessListAddAccountChange a) s = Some (s\<lparr>sdb_accessList := DeleteAddress a (sdb_accessList s)\<rparr>)"
| "revert B (accessListAddSlotChange a slot) s =
     map_option (\<lambda>al. s\<lparr>sdb_accessList := al\<rparr>) (DeleteSlot a slot (sdb_accessList s))"

text \<open>The loop of \<open>journal.revert\<close> over the entries, last one first.\<close>

fun revert_entries :: "('t, 'e) backend \<Rightarrow> 't journalEntry list \<Rightarrow> ('t, 'e) StateDB \<Rightarrow> ('t, 'e) StateDB option" where
  "revert_entries B [] s = Some s"
| "revert_entries B (e # es) s =
     (case revert B e s of None \<Rightarrow> None
      | Some s \<Rightarrow>
          revert_entries B es
            (case dirtied e of None \<Rightarrow> s | Some a \<Rightarrow> s\<lparr>sdb_dirties := dirty_dec a (sdb_dirties s)\<rparr>))"

definition journal_revert :: "('t, 'e) backend \<Rightarrow> nat \<Rightarrow> ('t, 'e) StateDB \<Rightarrow> ('t, 'e) StateDB option" where
  "journal_revert B snapshot s =
     (case revert_entries B (rev (drop snapshot (sdb_entries s))) s of None \<Rightarrow> None
      | Some s' \<Rightarrow> Some (s'\<lparr>sdb_entries := take snapshot (sdb_entries s')\<rparr>))"

definition Snapshot :: "('t, 'e) StateDB \<Rightarrow> ('t, 'e) StateDB \<times> int" where
  "Snapshot s =
     (let id = sdb_nextRevisionId s
      in (s\<lparr>sdb_nextRevisionId := id + 1, sdb_revisions := sdb_revisions s @ [(id, length (sdb_entries s))]\<rparr>, id))"

text \<open>\<open>sort.Search\<close>: binary search between \<open>i\<close> and \<open>j\<close>.\<close>

function sort_Search :: "(nat \<Rightarrow> bool) \<Rightarrow> nat \<Rightarrow> nat \<Rightarrow> nat" where
  "sort_Search f i j =
     (if i < j then let h = (i + j) div 2 in if \<not> f h then sort_Search f (h + 1) j else sort_Search f i h else i)"
  by auto
termination by (relation "measure (\<lambda>(f, i, j). j - i)") auto

declare sort_Search.simps [simp del]

text \<open>Reverting to an unknown revision panics.\<close>

definition RevertToSnapshot :: "('t, 'e) backend \<Rightarrow> int \<Rightarrow> ('t, 'e) StateDB \<Rightarrow> ('t, 'e) StateDB option" where
  "RevertToSnapshot B revid s =
     (let revs = sdb_revisions s;
          idx = sort_Search (\<lambda>i. fst (revs ! i) \<ge> revid) 0 (length revs)
      in if idx = length revs \<or> fst (revs ! idx) \<noteq> revid then None
         else (case journal_revert B (snd (revs ! idx)) s of None \<Rightarrow> None
               | Some s \<Rightarrow> Some (s\<lparr>sdb_revisions := take idx (sdb_revisions s)\<rparr>)))"

subsection \<open>Between transactions\<close>

definition clearJournalAndRefund :: "('t, 'e) StateDB \<Rightarrow> ('t, 'e) StateDB" where
  "clearJournalAndRefund s =
     (let s = (if sdb_entries s \<noteq> [] then s\<lparr>sdb_entries := [], sdb_dirties := Map.empty, sdb_refund := 0\<rparr> else s)
      in s\<lparr>sdb_revisions := []\<rparr>)"

text \<open>The loop over the dirty accounts changes every account on its own, so its order does not matter.\<close>

definition Finalise :: "('t, 'e) backend \<Rightarrow> bool \<Rightarrow> ('t, 'e) StateDB \<Rightarrow> ('t, 'e) StateDB" where
  "Finalise B deleteEmptyObjects s =
     (let doomed = (\<lambda>obj. so_suicided obj \<or> deleteEmptyObjects \<and> so_empty B obj);
          objects = (\<lambda>a. if sdb_dirties s a = None then sdb_objects s a
                         else map_option (\<lambda>obj. if doomed obj then obj\<lparr>so_deleted := True\<rparr> else so_finalise obj) (sdb_objects s a));
          changed = {a. sdb_dirties s a \<noteq> None \<and> sdb_objects s a \<noteq> None};
          destructed = {so_address obj |a obj. sdb_dirties s a \<noteq> None \<and> sdb_objects s a = Some obj \<and> doomed obj}
      in clearJournalAndRefund (s\<lparr>sdb_objects := objects, sdb_pending := sdb_pending s \<union> changed,
           sdb_dirty := sdb_dirty s \<union> changed, sdb_destruct := sdb_destruct s \<union> destructed\<rparr>))"

definition SetTxContext :: "hash \<Rightarrow> int \<Rightarrow> ('t, 'e) StateDB \<Rightarrow> ('t, 'e) StateDB" where
  "SetTxContext thash ti s = s\<lparr>sdb_thash := thash, sdb_txIndex := ti\<rparr>"

end
