(* ===== verification/Step_Systems.thy ===== *)
theory Step_Systems
  imports Go_Prelude
begin

text \<open>
  Invariants of transition systems.  A component whose goroutines interleave is a step relation on
  its state; the locale turns the preservation of an invariant by every step into a fact about all
  reachable states.
\<close>

locale step_invariant =
  fixes init :: "'s \<Rightarrow> bool" and step :: "'s \<Rightarrow> 's \<Rightarrow> bool" and inv :: "'s \<Rightarrow> bool"
  assumes init_inv: "init s \<Longrightarrow> inv s"
    and step_inv: "step s s' \<Longrightarrow> inv s \<Longrightarrow> inv s'"
begin

lemma steps_inv: "step\<^sup>*\<^sup>* s s' \<Longrightarrow> inv s \<Longrightarrow> inv s'"
  by (induction rule: rtranclp_induct) (auto intro: step_inv)

lemma reach_inv: "init s0 \<Longrightarrow> step\<^sup>*\<^sup>* s0 s \<Longrightarrow> inv s"
  using steps_inv init_inv by blast

end

end
