(* ===== verification/State_Journal.thy ===== *)
theory State_Journal
  imports State_DB Step_Systems
begin

text \<open>
  What of the world state can be observed, that every operation extends the journal by entries that undo
  it, and that reverting to a snapshot restores what was observable when it was taken.
\<close>

section \<open>Lemmas\<close>

subsection \<open>What can be observed\<close>

text \<open>The account an address stands for, whether it is live or still to be loaded.\<close>

definition stored :: "('t, 'e) backend \<Rightarrow> address \<Rightarrow> 't stateObject option" where
  "stored B a =
     (case snap_read B a of Some None \<Rightarrow> None
      | Some (Some dat) \<Rightarrow> Some (newObject B a dat)
      | None \<Rightarrow> (case be_GetAccount B a of Err _ \<Rightarrow> None | Ok None \<Rightarrow> None | Ok (Some dat) \<Rightarrow> Some (newObject B a dat)))"

definition account :: "('t, 'e) backend \<Rightarrow> ('t, 'e) StateDB \<Rightarrow> address \<Rightarrow> 't stateObject option" where
  "account B s a = (case sdb_objects s a of None \<Rightarrow> stored B a | Some obj \<Rightarrow> Some obj)"

text \<open>What the accessors of an object return, caches aside; \<open>D\<close> is the set of destructed accounts.\<close>

definition code_view :: "('t, 'e) backend \<Rightarrow> address \<Rightarrow> bytes \<Rightarrow> bytes option \<Rightarrow> bytes option" where
  "code_view B a h code =
     (if code \<noteq> None then code else if h = EmptyCodeHash B then None else fst (be_ContractCode B a (BytesToHash h)))"

definition read_view :: "('t, 'e) backend \<Rightarrow> address \<Rightarrow> hash \<Rightarrow> 't option \<Rightarrow> hash \<Rightarrow> 'e + bytes" where
  "read_view B a root tr k =
     (let from_trie = (case tr of Some t \<Rightarrow> be_GetStorage B t a k
                       | None \<Rightarrow> (case be_OpenStorageTrie B a root of Err e \<Rightarrow> Err e | Ok t \<Rightarrow> be_GetStorage B t a k))
      in case be_snap B of None \<Rightarrow> from_trie
         | Some sn \<Rightarrow> (case sn_Storage sn a k of Err e \<Rightarrow> from_trie | Ok enc \<Rightarrow> Ok enc))"

definition committed_view :: "('t, 'e) backend \<Rightarrow> address set \<Rightarrow> 't stateObject \<Rightarrow> hash \<Rightarrow> hash" where
  "committed_view B D obj k =
     (case so_pendingStorage obj k of Some v \<Rightarrow> v
      | None \<Rightarrow> (case so_originStorage obj k of Some v \<Rightarrow> v
      | None \<Rightarrow> if so_address obj \<in> D then zero_hash
                else (case read_view B (so_address obj) (so_Root obj) (so_trie obj) k of Err _ \<Rightarrow> zero_hash | Ok enc \<Rightarrow> fst (decodeSlot enc))))"

definition state_view :: "('t, 'e) backend \<Rightarrow> address set \<Rightarrow> 't stateObject \<Rightarrow> hash \<Rightarrow> hash" where
  "state_view B D obj k = (case so_dirtyStorage obj k of Some v \<Rightarrow> v | None \<Rightarrow> committed_view B D obj k)"

record account_view =
  v_address :: address
  v_Nonce :: u64
  v_Balance :: int
  v_Root :: hash
  v_CodeHash :: bytes
  v_code :: "bytes option"
  v_state :: "hash \<Rightarrow> hash"
  v_committed :: "hash \<Rightarrow> hash"
  v_suicided :: bool
  v_deleted :: bool

definition view :: "('t, 'e) backend \<Rightarrow> address set \<Rightarrow> 't stateObject \<Rightarrow> account_view" where
  "view B D obj =
     \<lparr>v_address = so_address obj, v_Nonce = so_Nonce obj, v_Balance = so_Balance obj, v_Root = so_Root obj,
      v_CodeHash = so_CodeHash obj, v_code = code_view B (so_address obj) (so_CodeHash obj) (so_code obj),
      v_state = state_view B D obj, v_committed = committed_view B D obj,
      v_suicided = so_suicided obj, v_deleted = so_deleted obj\<rparr>"

record observation =
  ob_account :: "address \<Rightarrow> account_view option"
  ob_destruct :: "address set"
  ob_refund :: u64
  ob_logs :: "hash \<Rightarrow> Log list"
  ob_logSize :: u64
  ob_preimages :: "hash \<Rightarrow> bytes option"
  ob_accessList :: accessList
  ob_transient :: "address \<Rightarrow> hash \<Rightarrow> hash"

definition obs :: "('t, 'e) backend \<Rightarrow> ('t, 'e) StateDB \<Rightarrow> observation" where
  "obs B s =
     \<lparr>ob_account = (\<lambda>a. map_option (view B (sdb_destruct s)) (account B s a)), ob_destruct = sdb_destruct s,
      ob_refund = sdb_refund s, ob_logs = sdb_logs s, ob_logSize = sdb_logSize s,
      ob_preimages = sdb_preimages s, ob_accessList = sdb_accessList s, ob_transient = (\<lambda>a k. ts_Get a k (sdb_transient s))\<rparr>"

text \<open>Every account is found under its own address, its code hash is one, and the access list is consistent.\<close>

definition obs_ok :: "observation \<Rightarrow> bool" where
  "obs_ok ob \<longleftrightarrow> (\<forall>a v. ob_account ob a = Some v \<longrightarrow> v_address v = a \<and> length (v_CodeHash v) = 32) \<and> al_inv (ob_accessList ob)"

text \<open>What the model relies on of the database: hashes have 32 bytes.\<close>

definition backend_ok :: "('t, 'e) backend \<Rightarrow> bool" where
  "backend_ok B \<longleftrightarrow> (\<forall>b. length (be_Keccak256 B b) = 32)
     \<and> (\<forall>a obj. stored B a = Some obj \<longrightarrow> length (so_CodeHash obj) = 32)"

subsection \<open>Reading changes nothing observable\<close>

lemma obs_more [simp]:
  "obs B (s\<lparr>sdb_entries := x\<rparr>) = obs B s" "obs B (s\<lparr>sdb_dirties := d\<rparr>) = obs B s" "obs B (setError e s) = obs B s"
  "obs B (s\<lparr>sdb_revisions := r\<rparr>) = obs B s" "obs B (s\<lparr>sdb_nextRevisionId := n\<rparr>) = obs B s" "obs B (s\<lparr>sdb_dirty := y\<rparr>) = obs B s"
  "obs B (s\<lparr>sdb_thash := h, sdb_txIndex := t\<rparr>) = obs B s"
  by (simp_all add: obs_def account_def setError_def)

lemma obs_append [simp]: "obs B (journal_append e s) = obs B s" "obs B (journal_dirty a s) = obs B s"
  by (simp_all add: journal_append_def journal_dirty_def Let_def split: option.splits)

lemma obs_set: "obs B (setStateObject obj s) =
    (obs B s)\<lparr>ob_account := (ob_account (obs B s))(so_address obj \<mapsto> view B (sdb_destruct s) obj)\<rparr>"
  by (auto simp: obs_def setStateObject_def account_def fun_eq_iff)

lemma obs_sel [simp]:
  "ob_account (obs B s) a = map_option (view B (sdb_destruct s)) (account B s a)" "ob_destruct (obs B s) = sdb_destruct s"
  "ob_accessList (obs B s) = sdb_accessList s" "ob_logs (obs B s) = sdb_logs s" "ob_refund (obs B s) = sdb_refund s"
  "ob_logSize (obs B s) = sdb_logSize s" "ob_preimages (obs B s) = sdb_preimages s"
  "ob_transient (obs B s) a k = ts_Get a k (sdb_transient s)"
  by (simp_all add: obs_def)

lemma stored_address: "stored B a = Some obj \<Longrightarrow> so_address obj = a"
  by (auto simp: stored_def newObject_def split: option.splits sum.splits)

text \<open>Overwriting an account by one that looks the same.\<close>

lemma obs_set_same:
  "account B s (so_address obj) = Some obj' \<Longrightarrow> view B (sdb_destruct s) obj = view B (sdb_destruct s) obj' \<Longrightarrow>
     obs B (setStateObject obj s) = obs B s"
  by (simp add: obs_set) (simp add: obs_def fun_upd_idem)

lemma getDeletedStateObject_cases:
  obtains (live) obj where "sdb_objects s a = Some obj" "getDeletedStateObject B a s = (s, Some obj)"
  | (load) obj where "sdb_objects s a = None" "stored B a = Some obj" "getDeletedStateObject B a s = (setStateObject obj s, Some obj)"
  | (none) "sdb_objects s a = None" "stored B a = None" "getDeletedStateObject B a s = (s, None)"
  | (err) e where "sdb_objects s a = None" "stored B a = None" "getDeletedStateObject B a s = (setError e s, None)"
proof (cases "sdb_objects s a")
  case objects: None
  note defs = getDeletedStateObject_def stored_def Let_def objects
  show ?thesis
  proof (cases "snap_read B a")
    case None
    show ?thesis
    proof (cases "be_GetAccount B a")
      case (Inl e)
      show ?thesis by (rule err [of "ErrGetAccount a e"]) (simp_all add: defs None Inl)
    next
      case (Inr r)
      show ?thesis
      proof (cases r)
        case None': None
        show ?thesis by (rule none) (simp_all add: defs None Inr None')
      next
        case (Some d)
        show ?thesis by (rule load [of "newObject B a d"]) (simp_all add: defs None Inr Some)
      qed
    qed
  next
    case snap: (Some r)
    show ?thesis
    proof (cases r)
      case None
      show ?thesis by (rule none) (simp_all add: defs snap None)
    next
      case (Some d)
      show ?thesis by (rule load [of "newObject B a d"]) (simp_all add: defs snap Some)
    qed
  qed
qed (auto simp: getDeletedStateObject_def intro: live)

lemma getDeletedStateObject_obs:
  assumes "getDeletedStateObject B a s = (s', r)"
  shows "obs B s' = obs B s" "r = account B s a" "r = Some obj \<Longrightarrow> sdb_objects s' a = Some obj" "sdb_destruct s' = sdb_destruct s"
    "sdb_entries s' = sdb_entries s" "sdb_revisions s' = sdb_revisions s" "sdb_nextRevisionId s' = sdb_nextRevisionId s"
    "sdb_dirties s' = sdb_dirties s"
proof -
  have same: "obs B (setStateObject obj s) = obs B s" if "sdb_objects s a = None" "stored B a = Some obj" for obj
    using that stored_address [OF that(2)] by (intro obs_set_same [of _ _ _ obj]) (simp_all add: account_def)
  show "obs B s' = obs B s"
    by (rule getDeletedStateObject_cases [of s a B]) (use assms same in auto)
  show "r = account B s a"
    by (rule getDeletedStateObject_cases [of s a B]) (use assms in \<open>auto simp: account_def\<close>)
  show "sdb_objects s' a = Some obj" if "r = Some obj"
    by (rule getDeletedStateObject_cases [of s a B]) (use assms that stored_address [of B a] in \<open>auto simp: setStateObject_def\<close>)
  show "sdb_destruct s' = sdb_destruct s" "sdb_entries s' = sdb_entries s" "sdb_revisions s' = sdb_revisions s"
      "sdb_nextRevisionId s' = sdb_nextRevisionId s" "sdb_dirties s' = sdb_dirties s"
    by (rule getDeletedStateObject_cases [of s a B]; use assms in \<open>auto simp: setStateObject_def setError_def split: if_splits\<close>)+
qed

lemma getStateObject_obs:
  assumes "getStateObject B a s = (s', r)"
  shows "obs B s' = obs B s" "r = (case account B s a of None \<Rightarrow> None | Some obj \<Rightarrow> if so_deleted obj then None else Some obj)"
    "r = Some obj \<Longrightarrow> sdb_objects s' a = Some obj" "sdb_destruct s' = sdb_destruct s"
    "sdb_entries s' = sdb_entries s" "sdb_revisions s' = sdb_revisions s" "sdb_nextRevisionId s' = sdb_nextRevisionId s"
    "sdb_dirties s' = sdb_dirties s"
proof -
  obtain s1 r1 where g: "getDeletedStateObject B a s = (s1, r1)" by (cases "getDeletedStateObject B a s")
  note d = getDeletedStateObject_obs [OF g]
  have s: "s' = s1" "r = (case r1 of None \<Rightarrow> None | Some obj \<Rightarrow> if so_deleted obj then None else Some obj)"
    using assms by (auto simp: getStateObject_def g split: option.splits if_splits)
  show "obs B s' = obs B s" "r = (case account B s a of None \<Rightarrow> None | Some obj \<Rightarrow> if so_deleted obj then None else Some obj)"
    "sdb_destruct s' = sdb_destruct s" "sdb_entries s' = sdb_entries s" "sdb_revisions s' = sdb_revisions s"
    "sdb_nextRevisionId s' = sdb_nextRevisionId s" "sdb_dirties s' = sdb_dirties s"
    using s d by simp_all
  show "sdb_objects s' a = Some obj" if "r = Some obj"
    using that s d(3) by (auto split: option.splits if_splits)
qed

lemma snd_readStorage:
  "snd (readStorage B obj k) = read_view B (so_address obj) (so_Root obj) (so_trie obj) k"
  by (simp add: readStorage_def read_view_def getTrie_def Let_def split: option.splits sum.splits)

lemma readStorage_obj:
  "readStorage B obj k = (obj', r) \<Longrightarrow> obj' = obj \<or> (\<exists>tr. so_trie obj = None \<and>
     be_OpenStorageTrie B (so_address obj) (so_Root obj) = Ok tr \<and> obj' = obj\<lparr>so_trie := Some tr\<rparr>)"
  by (auto simp: readStorage_def getTrie_def Let_def split: option.splits sum.splits)

text \<open>How a change of a field shows in the view.\<close>

lemma view_upd [simp]:
  "view B D (obj\<lparr>so_Balance := b\<rparr>) = (view B D obj)\<lparr>v_Balance := b\<rparr>"
  "view B D (obj\<lparr>so_Nonce := n\<rparr>) = (view B D obj)\<lparr>v_Nonce := n\<rparr>"
  "view B D (obj\<lparr>so_suicided := x\<rparr>) = (view B D obj)\<lparr>v_suicided := x\<rparr>"
  "view B D (setState k v obj) = (view B D obj)\<lparr>v_state := (state_view B D obj)(k := v)\<rparr>"
  "view B D (setCode h c obj) = (view B D obj)\<lparr>v_CodeHash := h, v_code := code_view B (so_address obj) h c\<rparr>"
  by (simp_all add: view_def state_view_def committed_view_def setState_def setCode_def fun_eq_iff cong: option.case_cong)

lemma view_sel [simp]:
  "v_address (view B D obj) = so_address obj" "v_CodeHash (view B D obj) = so_CodeHash obj" "v_deleted (view B D obj) = so_deleted obj"
  "v_Balance (view B D obj) = so_Balance obj" "v_Nonce (view B D obj) = so_Nonce obj" "v_suicided (view B D obj) = so_suicided obj"
  "v_state (view B D obj) = state_view B D obj" "v_code (view B D obj) = code_view B (so_address obj) (so_CodeHash obj) (so_code obj)"
  by (simp_all add: view_def)

text \<open>Only the account itself sees whether it was destructed.\<close>

lemma view_destruct: "(so_address obj \<in> D \<longleftrightarrow> so_address obj \<in> D') \<Longrightarrow> view B D obj = view B D' obj"
  by (simp add: view_def state_view_def committed_view_def fun_eq_iff cong: option.case_cong)

lemma view_trie:
  "so_trie obj = None \<Longrightarrow> be_OpenStorageTrie B (so_address obj) (so_Root obj) = Ok tr \<Longrightarrow>
     view B D (obj\<lparr>so_trie := Some tr\<rparr>) = view B D obj"
  by (simp add: view_def state_view_def committed_view_def read_view_def fun_eq_iff cong: option.case_cong)

lemma view_origin:
  "so_pendingStorage obj k = None \<Longrightarrow> so_originStorage obj k = None \<Longrightarrow> committed_view B D obj k = v \<Longrightarrow>
     view B D (obj\<lparr>so_originStorage := (so_originStorage obj)(k \<mapsto> v)\<rparr>) = view B D obj"
  by (auto simp: view_def state_view_def committed_view_def fun_eq_iff split: option.splits)

lemma view_code:
  "so_code obj = None \<Longrightarrow> so_CodeHash obj \<noteq> EmptyCodeHash B \<Longrightarrow>
     be_ContractCode B (so_address obj) (BytesToHash (so_CodeHash obj)) = (code, err) \<Longrightarrow>
     view B D (obj\<lparr>so_code := code\<rparr>) = view B D obj"
  by (simp add: view_def code_view_def state_view_def committed_view_def fun_eq_iff cong: option.case_cong)

subsection \<open>Reverting, seen from outside\<close>

definition ob_live :: "observation \<Rightarrow> address \<Rightarrow> account_view option" where
  "ob_live ob a = (case ob_account ob a of None \<Rightarrow> None | Some v \<Rightarrow> if v_deleted v then None else Some v)"

definition ob_change :: "address \<Rightarrow> (account_view \<Rightarrow> account_view) \<Rightarrow> observation \<Rightarrow> observation option" where
  "ob_change a f ob = map_option (\<lambda>v. ob\<lparr>ob_account := (ob_account ob)(a \<mapsto> f v)\<rparr>) (ob_live ob a)"

fun orevert :: "('t, 'e) backend \<Rightarrow> 't journalEntry \<Rightarrow> observation \<Rightarrow> observation option" where
  "orevert B (createObjectChange a) ob =
     Some (ob\<lparr>ob_account := (ob_account ob)(a := map_option (view B (ob_destruct ob)) (stored B a))\<rparr>)"
| "orevert B (resetObjectChange prev prevdestruct) ob =
     (let D = (if prevdestruct then ob_destruct ob else ob_destruct ob - {so_address prev})
      in Some (ob\<lparr>ob_account := (ob_account ob)(so_address prev \<mapsto> view B D prev), ob_destruct := D\<rparr>))"
| "orevert B (suicideChange a prev prevbalance) ob =
     Some (case ob_change a (\<lambda>v. v\<lparr>v_suicided := prev, v_Balance := prevbalance\<rparr>) ob of None \<Rightarrow> ob | Some ob \<Rightarrow> ob)"
| "orevert B (touchChange a) ob = Some ob"
| "orevert B (balanceChange a prev) ob = ob_change a (\<lambda>v. v\<lparr>v_Balance := prev\<rparr>) ob"
| "orevert B (nonceChange a prev) ob = ob_change a (\<lambda>v. v\<lparr>v_Nonce := prev\<rparr>) ob"
| "orevert B (codeChange a prevcode prevhash) ob =
     ob_change a (\<lambda>v. v\<lparr>v_CodeHash := BytesToHash prevhash, v_code := code_view B (v_address v) (BytesToHash prevhash) prevcode\<rparr>) ob"
| "orevert B (storageChange a key prevalue) ob = ob_change a (\<lambda>v. v\<lparr>v_state := (v_state v)(key := prevalue)\<rparr>) ob"
| "orevert B (transientStorageChange a key prevalue) ob =
     Some (ob\<lparr>ob_transient := (ob_transient ob)(a := (ob_transient ob a)(key := prevalue))\<rparr>)"
| "orevert B (refundChange prev) ob = Some (ob\<lparr>ob_refund := prev\<rparr>)"
| "orevert B (addLogChange txhash) ob =
     (if ob_logs ob txhash = [] then None
      else Some (ob\<lparr>ob_logs := (ob_logs ob)(txhash := butlast (ob_logs ob txhash)), ob_logSize := ob_logSize ob - 1\<rparr>))"
| "orevert B (addPreimageChange h) ob = Some (ob\<lparr>ob_preimages := (ob_preimages ob)(h := None)\<rparr>)"
| "orevert B (accessListAddAccountChange a) ob = Some (ob\<lparr>ob_accessList := DeleteAddress a (ob_accessList ob)\<rparr>)"
| "orevert B (accessListAddSlotChange a slot) ob =
     map_option (\<lambda>al. ob\<lparr>ob_accessList := al\<rparr>) (DeleteSlot a slot (ob_accessList ob))"

lemma obs_okD:
  assumes "obs_ok (obs B s)" "account B s a = Some obj"
  shows "so_address obj = a" "length (so_CodeHash obj) = 32"
proof -
  have "ob_account (obs B s) a = Some (view B (sdb_destruct s) obj)" using assms(2) by simp
  with assms(1) have "v_address (view B (sdb_destruct s) obj) = a \<and> length (v_CodeHash (view B (sdb_destruct s) obj)) = 32"
    unfolding obs_ok_def by blast
  then show "so_address obj = a" "length (so_CodeHash obj) = 32" by simp_all
qed

lemma ob_live_obs:
  "ob_live (obs B s) a = map_option (view B (sdb_destruct s))
     (case account B s a of None \<Rightarrow> None | Some obj \<Rightarrow> if so_deleted obj then None else Some obj)"
  by (simp add: ob_live_def split: option.splits)

text \<open>Changing the live object of an address.\<close>

lemma change_obs:
  assumes "obs_ok (obs B s)" "getStateObject B a s = (s', r)"
    and "\<And>obj. so_address (g obj) = so_address obj" "\<And>obj. view B (sdb_destruct s) (g obj) = f (view B (sdb_destruct s) obj)"
  shows "map_option (\<lambda>obj. obs B (setStateObject (g obj) s')) r = ob_change a f (obs B s)"
proof -
  note g = getStateObject_obs [OF assms(2)]
  show ?thesis
  proof (cases r)
    case None
    then show ?thesis using g(2) by (auto simp: ob_change_def ob_live_obs split: option.splits if_splits)
  next
    case (Some obj)
    then have acc: "account B s a = Some obj" "\<not> so_deleted obj" using g(2) by (auto split: option.splits if_splits)
    then have "so_address obj = a" using obs_okD [OF assms(1)] by blast
    then show ?thesis using acc g(1,4) assms(3,4) by (simp add: Some obs_set ob_change_def ob_live_obs)
  qed
qed

lemma account_set: "account B (setStateObject obj s) a = (if a = so_address obj then Some obj else account B s a)"
  by (simp add: account_def setStateObject_def)

lemma account_other [simp]: "account B (s\<lparr>sdb_destruct := D\<rparr>) = account B s"
  by (simp add: account_def fun_eq_iff)

lemma view_other:
  assumes "obs_ok (obs B s)" "b \<noteq> a" "sdb_destruct s - {a} = D - {a}"
  shows "map_option (view B D) (account B s b) = map_option (view B (sdb_destruct s)) (account B s b)"
proof (cases "account B s b")
  case (Some obj)
  have "so_address obj = b" by (rule obs_okD(1) [OF assms(1) Some])
  then show ?thesis using assms(2,3) by (auto simp: Some intro!: view_destruct)
qed simp

lemma revert_obs:
  assumes "obs_ok (obs B s)"
  shows "map_option (obs B) (revert B e s) = orevert B e (obs B s)"
proof (cases e)
  case (createObjectChange a)
  then show ?thesis by (simp add: obs_def account_def fun_eq_iff)
next
  case (resetObjectChange prev pd)
  have "map_option (view B (sdb_destruct s - {so_address prev})) (account B s b) = map_option (view B (sdb_destruct s)) (account B s b)"
    if "b \<noteq> so_address prev" for b by (rule view_other [OF assms that]) auto
  then show ?thesis
    by (simp add: resetObjectChange obs_def account_set Let_def fun_eq_iff) (simp add: setStateObject_def)
next
  case (suicideChange a prev bal)
  obtain s' r where g: "getStateObject B a s = (s', r)" by (cases "getStateObject B a s")
  have "map_option (\<lambda>obj. obs B (setStateObject (obj\<lparr>so_suicided := prev, so_Balance := bal\<rparr>) s')) r =
      ob_change a (\<lambda>v. v\<lparr>v_suicided := prev, v_Balance := bal\<rparr>) (obs B s)"
    by (rule change_obs [OF assms g]) simp_all
  then show ?thesis using getStateObject_obs(1) [OF g] by (auto simp: suicideChange g split: option.splits)
next
  case (balanceChange a prev)
  obtain s' r where g: "getStateObject B a s = (s', r)" by (cases "getStateObject B a s")
  have "map_option (\<lambda>obj. obs B (setStateObject (obj\<lparr>so_Balance := prev\<rparr>) s')) r = ob_change a (\<lambda>v. v\<lparr>v_Balance := prev\<rparr>) (obs B s)"
    by (rule change_obs [OF assms g]) simp_all
  then show ?thesis by (auto simp: balanceChange g split: option.splits)
next
  case (nonceChange a prev)
  obtain s' r where g: "getStateObject B a s = (s', r)" by (cases "getStateObject B a s")
  have "map_option (\<lambda>obj. obs B (setStateObject (obj\<lparr>so_Nonce := prev\<rparr>) s')) r = ob_change a (\<lambda>v. v\<lparr>v_Nonce := prev\<rparr>) (obs B s)"
    by (rule change_obs [OF assms g]) simp_all
  then show ?thesis by (auto simp: nonceChange g split: option.splits)
next
  case (storageChange a key prev)
  obtain s' r where g: "getStateObject B a s = (s', r)" by (cases "getStateObject B a s")
  have "map_option (\<lambda>obj. obs B (setStateObject (setState key prev obj) s')) r =
      ob_change a (\<lambda>v. v\<lparr>v_state := (v_state v)(key := prev)\<rparr>) (obs B s)"
    by (rule change_obs [OF assms g]) (simp_all, simp add: setState_def)
  then show ?thesis by (auto simp: storageChange g split: option.splits)
next
  case (codeChange a prevcode prevhash)
  obtain s' r where g: "getStateObject B a s = (s', r)" by (cases "getStateObject B a s")
  have "map_option (\<lambda>obj. obs B (setStateObject (setCode (BytesToHash prevhash) prevcode obj) s')) r =
      ob_change a (\<lambda>v. v\<lparr>v_CodeHash := BytesToHash prevhash, v_code := code_view B (v_address v) (BytesToHash prevhash) prevcode\<rparr>) (obs B s)"
    by (rule change_obs [OF assms g]) (simp_all, simp add: setCode_def)
  then show ?thesis by (auto simp: codeChange g split: option.splits)
next
  case (transientStorageChange a key prev)
  then show ?thesis by (auto simp: obs_def account_def setTransientState_def ts_Get_Set fun_eq_iff)
next
  case (accessListAddSlotChange a slot)
  then show ?thesis by (auto simp: obs_def account_def option.map_comp comp_def)
qed (auto simp: obs_def account_def)

subsection \<open>Operations extend the journal by what undoes them\<close>

fun orev :: "('t, 'e) backend \<Rightarrow> 't journalEntry list \<Rightarrow> observation \<Rightarrow> observation option" where
  "orev B [] ob = Some ob"
| "orev B (e # es) ob = (case orevert B e ob of None \<Rightarrow> None | Some ob' \<Rightarrow> if obs_ok ob' then orev B es ob' else None)"

lemma orev_append: "orev B (xs @ ys) ob = (case orev B xs ob of None \<Rightarrow> None | Some ob' \<Rightarrow> orev B ys ob')"
  by (induction xs arbitrary: ob) (auto split: option.splits)

definition ext :: "('t, 'e) backend \<Rightarrow> ('t, 'e) StateDB \<Rightarrow> ('t, 'e) StateDB \<Rightarrow> bool" where
  "ext B s s' \<longleftrightarrow> obs_ok (obs B s') \<and> sdb_revisions s' = sdb_revisions s \<and> sdb_nextRevisionId s' = sdb_nextRevisionId s
     \<and> (\<exists>new. sdb_entries s' = sdb_entries s @ new \<and> orev B (rev new) (obs B s') = Some (obs B s))"

lemma ext_same:
  "obs_ok (obs B s) \<Longrightarrow> obs B s' = obs B s \<Longrightarrow> sdb_entries s' = sdb_entries s \<Longrightarrow> sdb_revisions s' = sdb_revisions s \<Longrightarrow>
     sdb_nextRevisionId s' = sdb_nextRevisionId s \<Longrightarrow> ext B s s'"
  by (simp add: ext_def)

lemma ext_trans: "ext B s1 s2 \<Longrightarrow> ext B s2 s3 \<Longrightarrow> ext B s1 s3"
  unfolding ext_def by (fastforce simp: orev_append)

lemma ext_ok: "ext B s s' \<Longrightarrow> obs_ok (obs B s')"
  by (simp add: ext_def)

lemma ext_entry:
  assumes "obs_ok (obs B s)" "obs_ok (obs B s')" "sdb_entries s' = sdb_entries s @ [e]" "orevert B e (obs B s') = Some (obs B s)"
    "sdb_revisions s' = sdb_revisions s" "sdb_nextRevisionId s' = sdb_nextRevisionId s"
  shows "ext B s s'"
  using assms by (auto simp: ext_def intro!: exI [of _ "[e]"])

lemma append_sel [simp]:
  "sdb_entries (journal_append e s) = sdb_entries s @ [e]" "sdb_revisions (journal_append e s) = sdb_revisions s"
  "sdb_nextRevisionId (journal_append e s) = sdb_nextRevisionId s" "sdb_destruct (journal_append e s) = sdb_destruct s"
  "sdb_objects (journal_append e s) = sdb_objects s" "sdb_refund (journal_append e s) = sdb_refund s"
  "sdb_thash (journal_append e s) = sdb_thash s" "sdb_txIndex (journal_append e s) = sdb_txIndex s"
  "sdb_logs (journal_append e s) = sdb_logs s" "sdb_logSize (journal_append e s) = sdb_logSize s"
  "sdb_preimages (journal_append e s) = sdb_preimages s" "sdb_accessList (journal_append e s) = sdb_accessList s"
  "sdb_transient (journal_append e s) = sdb_transient s"
  by (simp_all add: journal_append_def Let_def split: option.splits)

lemma set_sel [simp]:
  "sdb_entries (setStateObject obj s) = sdb_entries s" "sdb_revisions (setStateObject obj s) = sdb_revisions s"
  "sdb_nextRevisionId (setStateObject obj s) = sdb_nextRevisionId s" "sdb_destruct (setStateObject obj s) = sdb_destruct s"
  "sdb_objects (setStateObject obj s) a = (if a = so_address obj then Some obj else sdb_objects s a)"
  by (simp_all add: setStateObject_def)

lemma setError_sel [simp]:
  "sdb_entries (setError e s) = sdb_entries s" "sdb_revisions (setError e s) = sdb_revisions s"
  "sdb_nextRevisionId (setError e s) = sdb_nextRevisionId s" "sdb_destruct (setError e s) = sdb_destruct s"
  "sdb_objects (setError e s) = sdb_objects s" "account B (setError e s) = account B s"
  by (simp_all add: setError_def account_def fun_eq_iff)

lemma account_append [simp]: "account B (journal_append e s) = account B s"
  by (simp add: account_def fun_eq_iff)

lemma obs_ok_upd:
  "obs_ok (obs B s) \<Longrightarrow> v_address v = a \<Longrightarrow> length (v_CodeHash v) = 32 \<Longrightarrow>
     obs_ok ((obs B s)\<lparr>ob_account := (ob_account (obs B s))(a \<mapsto> v)\<rparr>)"
  by (auto simp: obs_ok_def)

text \<open>A journalled change of a live object.\<close>

lemma ext_change:
  assumes "obs_ok (obs B s)" "account B s a = Some obj" "so_address obj' = a" "\<not> so_deleted obj'" "length (so_CodeHash obj') = 32"
    and "\<And>ob ob'. ob_change a f ob = Some ob' \<Longrightarrow> orevert B e ob = Some ob'" "f (view B (sdb_destruct s) obj') = view B (sdb_destruct s) obj"
  shows "ext B s (setStateObject obj' (journal_append e s))"
proof (rule ext_entry [OF assms(1), of _ e])
  let ?s' = "setStateObject obj' (journal_append e s)"
  have o: "obs B ?s' = (obs B s)\<lparr>ob_account := (ob_account (obs B s))(a \<mapsto> view B (sdb_destruct s) obj')\<rparr>"
    using assms(3) by (simp add: obs_set)
  show "obs_ok (obs B ?s')" unfolding o by (rule obs_ok_upd) (use assms in simp_all)
  have "ob_account (obs B s) a = Some (view B (sdb_destruct s) obj)" using assms(2) by simp
  then have same: "(ob_account (obs B s))(a \<mapsto> view B (sdb_destruct s) obj) = ob_account (obs B s)" by (rule fun_upd_idem)
  have "ob_change a f (obs B ?s') = Some ((obs B s)\<lparr>ob_account := (ob_account (obs B s))(a \<mapsto> view B (sdb_destruct s) obj)\<rparr>)"
    unfolding o using assms(4,7) by (simp add: ob_change_def ob_live_def)
  then show "orevert B e (obs B ?s') = Some (obs B s)" unfolding same by (intro assms(6)) simp
qed simp_all

definition blank :: "('t, 'e) backend \<Rightarrow> address \<Rightarrow> 't stateObject" where
  "blank B a = newObject B a \<lparr>ac_Nonce = 0, ac_Balance = None, ac_Root = zero_hash, ac_CodeHash = None\<rparr>"

lemma blank_sel [simp]: "so_address (blank B a) = a" "\<not> so_deleted (blank B a)" "backend_ok B \<Longrightarrow> length (so_CodeHash (blank B a)) = 32"
  by (simp_all add: blank_def newObject_def backend_ok_def EmptyCodeHash_def)

lemma createObject_ext:
  assumes "backend_ok B" "obs_ok (obs B s)" "createObject B a s = (s', obj, prev)"
  shows "ext B s s'" "obj = blank B a" "account B s' a = Some obj"
    "prev = (case account B s a of None \<Rightarrow> None | Some p \<Rightarrow> if so_deleted p then None else Some p)"
proof -
  obtain s1 r where g: "getDeletedStateObject B a s = (s1, r)" by (cases "getDeletedStateObject B a s")
  note d = getDeletedStateObject_obs [OF g]
  have ok1: "obs_ok (obs B s1)" using assms(2) d(1) by simp
  show "obj = blank B a" "account B s' a = Some obj"
      "prev = (case account B s a of None \<Rightarrow> None | Some p \<Rightarrow> if so_deleted p then None else Some p)"
    using assms(3) d(2) by (auto simp: createObject_def g blank_def [symmetric] Let_def account_set split: option.splits)
  show "ext B s s'"
  proof (cases r)
    case None
    have s': "s' = setStateObject (blank B a) (journal_append (createObjectChange a) s1)"
      using assms(3) by (auto simp: createObject_def g None blank_def [symmetric] Let_def)
    have st: "stored B a = None" "ob_account (obs B s) a = None"
      using None d(2) by (auto simp: account_def split: option.splits)
    show ?thesis
    proof (rule ext_entry [OF assms(2), of _ "createObjectChange a"])
      have o: "obs B s' = (obs B s)\<lparr>ob_account := (ob_account (obs B s))(a \<mapsto> view B (sdb_destruct s) (blank B a))\<rparr>"
        using d by (simp add: s' obs_set)
      show "obs_ok (obs B s')" unfolding o by (rule obs_ok_upd [OF assms(2)]) (use assms(1) in simp_all)
      show "orevert B (createObjectChange a) (obs B s') = Some (obs B s)"
        unfolding o using st by (simp add: fun_upd_idem)
    qed (use d in \<open>simp_all add: s'\<close>)
  next
    case (Some p)
    have acc: "account B s a = Some p" using Some d(2) by simp
    have pa: "so_address p = a" by (rule obs_okD(1) [OF assms(2) acc])
    let ?D = "insert a (sdb_destruct s)"
    have s': "s' = setStateObject (blank B a) (journal_append (resetObjectChange p (a \<in> sdb_destruct s)) (s1\<lparr>sdb_destruct := ?D\<rparr>))"
      using assms(3) d(4) by (auto simp: createObject_def g Some blank_def [symmetric] Let_def pa)
    show ?thesis
    proof (rule ext_entry [OF assms(2), of _ "resetObjectChange p (a \<in> sdb_destruct s)"])
      have "map_option (view B ?D) (account B s1 b) = ob_account (obs B s) b" if "b \<noteq> a" for b
      proof -
        have "map_option (view B ?D) (account B s1 b) = map_option (view B (sdb_destruct s1)) (account B s1 b)"
          by (rule view_other [OF ok1 that]) (use d(4) in auto)
        also have "\<dots> = ob_account (obs B s1) b" by simp
        finally show ?thesis unfolding d(1) .
      qed
      then have eq: "(\<lambda>b. map_option (view B ?D) (account B s1 b))(a \<mapsto> v) = (ob_account (obs B s))(a \<mapsto> v)" for v
        by (simp add: fun_eq_iff)
      have "obs B (s1\<lparr>sdb_destruct := ?D\<rparr>) = (obs B s1)\<lparr>ob_account := (\<lambda>b. map_option (view B ?D) (account B s1 b)), ob_destruct := ?D\<rparr>"
        by (simp add: obs_def)
      then have o: "obs B s' = (obs B s)\<lparr>ob_account := (ob_account (obs B s))(a \<mapsto> view B ?D (blank B a)), ob_destruct := ?D\<rparr>"
        unfolding s' obs_set by (simp add: d(1) eq)
      show "obs_ok (obs B s')"
        unfolding o using obs_ok_upd [OF assms(2), of "view B ?D (blank B a)" a] assms(1) by (simp add: obs_ok_def)
      show "orevert B (resetObjectChange p (a \<in> sdb_destruct s)) (obs B s') = Some (obs B s)"
        unfolding o using acc pa by (auto simp: Let_def fun_upd_idem insert_absorb)
    qed (use d in \<open>simp_all add: s'\<close>)
  qed
qed

lemma getStateObject_ext: "obs_ok (obs B s) \<Longrightarrow> getStateObject B a s = (s', r) \<Longrightarrow> ext B s s'"
  using getStateObject_obs [of B a s s' r] by (auto intro: ext_same)

lemma getStateObject_live:
  assumes "obs_ok (obs B s)" "getStateObject B a s = (s', Some obj)"
  shows "account B s' a = Some obj" "so_address obj = a" "\<not> so_deleted obj" "length (so_CodeHash obj) = 32"
proof -
  note g = getStateObject_obs [OF assms(2)]
  show acc: "account B s' a = Some obj" using g(3) by (simp add: account_def)
  have "obs_ok (obs B s')" using g(1) assms(1) by simp
  then show "so_address obj = a" "length (so_CodeHash obj) = 32" using obs_okD [OF _ acc] by auto
  show "\<not> so_deleted obj" using g(2) by (auto split: option.splits if_splits)
qed

lemma GetOrNewStateObject_ext:
  assumes "backend_ok B" "obs_ok (obs B s)" "GetOrNewStateObject B a s = (s', obj)"
  shows "ext B s s'" "account B s' a = Some obj" "so_address obj = a" "\<not> so_deleted obj" "length (so_CodeHash obj) = 32"
proof -
  obtain s1 r where g: "getStateObject B a s = (s1, r)" by (cases "getStateObject B a s")
  have e1: "ext B s s1" by (rule getStateObject_ext [OF assms(2) g])
  obtain s2 newobj prev where c: "createObject B a s1 = (s2, newobj, prev)" by (cases "createObject B a s1") auto
  note create = createObject_ext [OF assms(1) ext_ok [OF e1] c]
  have "ext B s s' \<and> account B s' a = Some obj \<and> so_address obj = a \<and> \<not> so_deleted obj \<and> length (so_CodeHash obj) = 32"
  proof (cases r)
    case None
    then have "s' = s2" "obj = newobj" using assms(3) g c by (auto simp: GetOrNewStateObject_def)
    then show ?thesis using create e1 assms(1) by (auto intro: ext_trans)
  next
    case (Some x)
    then have "s' = s1" "obj = x" using assms(3) g by (auto simp: GetOrNewStateObject_def)
    then show ?thesis using e1 getStateObject_live [OF assms(2)] g Some by auto
  qed
  then show "ext B s s'" "account B s' a = Some obj" "so_address obj = a" "\<not> so_deleted obj" "length (so_CodeHash obj) = 32" by auto
qed

text \<open>Filling the caches of an object.\<close>

definition refreshed :: "('t, 'e) backend \<Rightarrow> ('t, 'e) StateDB \<Rightarrow> 't stateObject \<Rightarrow> ('t, 'e) StateDB \<Rightarrow> 't stateObject \<Rightarrow> bool" where
  "refreshed B s obj s' obj' \<longleftrightarrow> obs B s' = obs B s \<and> account B s' (so_address obj) = Some obj'
     \<and> view B (sdb_destruct s) obj' = view B (sdb_destruct s) obj \<and> sdb_destruct s' = sdb_destruct s
     \<and> sdb_entries s' = sdb_entries s \<and> sdb_revisions s' = sdb_revisions s \<and> sdb_nextRevisionId s' = sdb_nextRevisionId s"

lemma view_eqD:
  assumes "view B D obj' = view B D obj"
  shows "so_address obj' = so_address obj" "so_deleted obj' = so_deleted obj" "so_CodeHash obj' = so_CodeHash obj"
    "so_Balance obj' = so_Balance obj" "so_Nonce obj' = so_Nonce obj" "state_view B D obj' = state_view B D obj"
  using assms by (simp_all add: view_def)

lemma refreshed_self: "account B s (so_address obj) = Some obj \<Longrightarrow> refreshed B s obj s obj"
  by (simp add: refreshed_def)

lemma refreshed_set:
  assumes "account B s (so_address obj) = Some obj" "view B (sdb_destruct s) obj' = view B (sdb_destruct s) obj"
  shows "refreshed B s obj (setStateObject obj' s) obj'"
proof -
  have a: "so_address obj' = so_address obj" by (rule view_eqD [OF assms(2)])
  have "obs B (setStateObject obj' s) = obs B s" by (rule obs_set_same [of _ _ _ obj]) (use assms a in simp_all)
  then show ?thesis using a assms(2) by (simp add: refreshed_def account_set)
qed

lemma refreshed_error: "refreshed B s obj s' obj' \<Longrightarrow> refreshed B s obj (setError e s') obj'"
  by (simp add: refreshed_def)

lemma account_error: "account B (setError e s) = account B s" by simp

lemma refreshed_from_error: "refreshed B (setError e s) obj s' obj' \<Longrightarrow> refreshed B s obj s' obj'"
  by (simp add: refreshed_def)

lemma so_Code_refreshed:
  assumes "account B s (so_address obj) = Some obj" "so_Code B obj s = (s', obj', code)"
  shows "refreshed B s obj s' obj' \<and> code = code_view B (so_address obj) (so_CodeHash obj) (so_code obj)"
proof (cases "so_code obj \<noteq> None \<or> so_CodeHash obj = EmptyCodeHash B")
  case True
  then show ?thesis using assms refreshed_self [OF assms(1)] by (auto simp: so_Code_def code_view_def)
next
  case False
  obtain c err where c: "be_ContractCode B (so_address obj) (BytesToHash (so_CodeHash obj)) = (c, err)" by fastforce
  have v: "view B (sdb_destruct s) (obj\<lparr>so_code := c\<rparr>) = view B (sdb_destruct s) obj" by (rule view_code) (use False c in auto)
  have "refreshed B s obj (setStateObject (obj\<lparr>so_code := c\<rparr>) t) (obj\<lparr>so_code := c\<rparr>)"
    if "t = s \<or> t = setError e s" for t e
    using that refreshed_set [OF assms(1) v] refreshed_set [of B "setError e s" obj "obj\<lparr>so_code := c\<rparr>"] assms(1) v
    by (auto dest: refreshed_from_error)
  then show ?thesis using assms(2) False by (auto simp: so_Code_def c code_view_def Let_def split: option.splits)
qed

lemma so_GetCommittedState_refreshed:
  assumes "account B s (so_address obj) = Some obj" "so_GetCommittedState B obj k s = (s', obj', v)"
  shows "refreshed B s obj s' obj' \<and> v = committed_view B (sdb_destruct s) obj k"
proof (cases "so_pendingStorage obj k \<noteq> None \<or> so_originStorage obj k \<noteq> None \<or> so_address obj \<in> sdb_destruct s")
  case True
  then show ?thesis using assms refreshed_self [OF assms(1)]
    by (auto simp: so_GetCommittedState_def committed_view_def split: option.splits)
next
  case False
  let ?D = "sdb_destruct s"
  obtain obj1 r where rd: "readStorage B obj k = (obj1, r)" by (cases "readStorage B obj k")
  then have r: "r = read_view B (so_address obj) (so_Root obj) (so_trie obj) k" using snd_readStorage [of B obj k] by simp
  have v1: "view B ?D obj1 = view B ?D obj" using readStorage_obj [OF rd] view_trie [of obj B] by auto
  have same: "so_pendingStorage obj1 = so_pendingStorage obj" "so_originStorage obj1 = so_originStorage obj"
    using readStorage_obj [OF rd] by auto
  have c1: "committed_view B ?D obj1 = committed_view B ?D obj" using v1 by (simp add: view_def)
  show ?thesis
  proof (cases r)
    case (Inl e)
    then show ?thesis using assms False rd refreshed_error [OF refreshed_set [OF assms(1) v1]]
      by (auto simp: so_GetCommittedState_def committed_view_def r [symmetric])
  next
    case (Inr enc)
    obtain w err where w: "decodeSlot enc = (w, err)" by fastforce
    have cv: "committed_view B ?D obj k = w" using False Inr w by (simp add: committed_view_def r [symmetric])
    let ?o = "obj1\<lparr>so_originStorage := (so_originStorage obj1)(k \<mapsto> w)\<rparr>"
    have v2: "view B ?D ?o = view B ?D obj" using view_origin [of obj1 k B ?D w] False same c1 cv v1 by auto
    have "refreshed B s obj (setStateObject ?o t) ?o" if "t = s \<or> t = setError e s" for t e
      using that refreshed_set [OF assms(1) v2] refreshed_set [of B "setError e s" obj ?o] assms(1) v2
      by (auto dest: refreshed_from_error)
    then show ?thesis using assms(2) False rd Inr w cv by (auto simp: so_GetCommittedState_def Let_def split: option.splits)
  qed
qed

lemma so_GetState_refreshed:
  assumes "account B s (so_address obj) = Some obj" "so_GetState B obj k s = (s', obj', v)"
  shows "refreshed B s obj s' obj' \<and> v = state_view B (sdb_destruct s) obj k"
  using assms so_GetCommittedState_refreshed [OF assms(1)] refreshed_self [OF assms(1)]
  by (auto simp: so_GetState_def state_view_def split: option.splits)

text \<open>An object that is live in a state: what the methods of an object are called on.\<close>

definition live_in :: "('t, 'e) backend \<Rightarrow> ('t, 'e) StateDB \<Rightarrow> 't stateObject \<Rightarrow> bool" where
  "live_in B s obj \<longleftrightarrow> obs_ok (obs B s) \<and> account B s (so_address obj) = Some obj \<and> \<not> so_deleted obj \<and> length (so_CodeHash obj) = 32"

lemma live_new: "backend_ok B \<Longrightarrow> obs_ok (obs B s) \<Longrightarrow> GetOrNewStateObject B a s = (s', obj) \<Longrightarrow> ext B s s' \<and> live_in B s' obj"
  using GetOrNewStateObject_ext [of B s a s' obj] ext_ok [of B s s'] by (auto simp: live_in_def)

lemma live_get: "obs_ok (obs B s) \<Longrightarrow> getStateObject B a s = (s', Some obj) \<Longrightarrow> ext B s s' \<and> live_in B s' obj \<and> so_address obj = a"
  using getStateObject_live [of B s a s' obj] getStateObject_ext [of B s a s' "Some obj"] ext_ok [of B s s']
  by (auto simp: live_in_def)

lemma live_refreshed: "live_in B s obj \<Longrightarrow> refreshed B s obj s' obj' \<Longrightarrow> ext B s s' \<and> live_in B s' obj'"
  using view_eqD [of B "sdb_destruct s" obj' obj] by (auto simp: live_in_def refreshed_def intro: ext_same)

lemma live_change:
  assumes "live_in B s obj" "so_address obj' = so_address obj" "\<not> so_deleted obj'" "length (so_CodeHash obj') = 32"
    and "\<And>ob ob'. ob_change (so_address obj) f ob = Some ob' \<Longrightarrow> orevert B e ob = Some ob'"
    "f (view B (sdb_destruct s) obj') = view B (sdb_destruct s) obj"
  shows "ext B s (setStateObject obj' (journal_append e s))"
  using assms by (intro ext_change [where a = "so_address obj" and obj = obj and f = f]) (auto simp: live_in_def)

lemma view_same [simp]:
  "(view B D obj)\<lparr>v_Balance := so_Balance obj\<rparr> = view B D obj" "(view B D obj)\<lparr>v_Nonce := so_Nonce obj\<rparr> = view B D obj"
  "(view B D obj)\<lparr>v_state := state_view B D obj\<rparr> = view B D obj"
  "(view B D obj)\<lparr>v_suicided := so_suicided obj, v_Balance := so_Balance obj\<rparr> = view B D obj"
  "(view B D obj)\<lparr>v_CodeHash := so_CodeHash obj, v_code := code_view B (so_address obj) (so_CodeHash obj) (so_code obj)\<rparr> = view B D obj"
  by (simp_all add: view_def)

lemma ext_journal: "obs_ok (obs B s) \<Longrightarrow> orevert B e (obs B s) = Some (obs B s) \<Longrightarrow> ext B s (journal_append e s)"
  by (rule ext_entry) simp_all

lemma so_SetBalance_ext: "live_in B s obj \<Longrightarrow> ext B s (so_SetBalance obj x s)"
  unfolding so_SetBalance_def
  by (rule live_change [where f = "\<lambda>v. v\<lparr>v_Balance := so_Balance obj\<rparr>"]) (auto simp: live_in_def)

lemma so_SetNonce_ext: "live_in B s obj \<Longrightarrow> ext B s (so_SetNonce obj x s)"
  unfolding so_SetNonce_def
  by (rule live_change [where f = "\<lambda>v. v\<lparr>v_Nonce := so_Nonce obj\<rparr>"]) (auto simp: live_in_def)

lemma touch_ext: "live_in B s obj \<Longrightarrow> ext B s (touch obj s)"
proof -
  assume "live_in B s obj"
  then have e: "ext B s (journal_append (touchChange (so_address obj)) s)" by (intro ext_journal) (simp_all add: live_in_def)
  moreover have "ext B s' (journal_dirty a s')" if "obs_ok (obs B s')" for a s'
    by (rule ext_same [OF that]) (simp_all add: journal_dirty_def)
  ultimately show ?thesis using ext_ok [OF e] by (auto simp: touch_def Let_def intro: ext_trans)
qed

lemma ext_refl: "obs_ok (obs B s) \<Longrightarrow> ext B s s"
  by (rule ext_same) simp_all

lemma so_AddBalance_ext: "live_in B s obj \<Longrightarrow> ext B s (so_AddBalance B obj x s)"
  using so_SetBalance_ext touch_ext ext_refl by (fastforce simp: so_AddBalance_def live_in_def)

lemma so_SubBalance_ext: "live_in B s obj \<Longrightarrow> ext B s (so_SubBalance obj x s)"
  using so_SetBalance_ext ext_refl by (fastforce simp: so_SubBalance_def live_in_def)

lemma BytesToHash_32 [simp]: "length h = 32 \<Longrightarrow> BytesToHash h = h"
  by (simp add: BytesToHash_def left_pad_def)

lemma code_view_idem [simp]: "code_view B a h (code_view B a h c) = code_view B a h c"
  by (simp add: code_view_def)

lemma setCode_sel [simp]:
  "so_address (setCode h c obj) = so_address obj" "so_deleted (setCode h c obj) = so_deleted obj" "so_CodeHash (setCode h c obj) = h"
  "so_address (setState k v obj) = so_address obj" "so_deleted (setState k v obj) = so_deleted obj"
  "so_CodeHash (setState k v obj) = so_CodeHash obj"
  by (simp_all add: setCode_def setState_def)

lemma so_SetCode_ext:
  assumes "live_in B s obj" "length h = 32"
  shows "ext B s (so_SetCode B obj h code s)"
proof -
  obtain s1 obj1 prev where c: "so_Code B obj s = (s1, obj1, prev)" by (cases "so_Code B obj s") auto
  have acc: "account B s (so_address obj) = Some obj" using assms(1) by (simp add: live_in_def)
  note rf = so_Code_refreshed [OF acc c]
  have r: "ext B s s1" "live_in B s1 obj1" using live_refreshed [OF assms(1)] rf by blast+
  have v: "view B (sdb_destruct s) obj1 = view B (sdb_destruct s) obj" using rf by (simp add: refreshed_def)
  have same: "so_address obj1 = so_address obj" "so_CodeHash obj1 = so_CodeHash obj" using view_eqD [OF v] by simp_all
  have "code_view B (so_address obj1) (so_CodeHash obj1) (so_code obj1) = code_view B (so_address obj) (so_CodeHash obj) (so_code obj)"
    using arg_cong [OF v, of v_code] by (simp only: view_sel)
  then have prev: "prev = code_view B (so_address obj1) (so_CodeHash obj1) (so_code obj1)" using rf by simp
  have "ext B s1 (setStateObject (setCode h code obj1) (journal_append (codeChange (so_address obj1) prev (so_CodeHash obj1)) s1))"
    by (rule live_change [OF r(2), where f = "\<lambda>v. v\<lparr>v_CodeHash := BytesToHash (so_CodeHash obj1),
           v_code := code_view B (v_address v) (BytesToHash (so_CodeHash obj1)) prev\<rparr>"])
       (use r(2) assms(2) in \<open>auto simp: live_in_def prev\<close>)
  then show ?thesis using r(1) by (auto simp: so_SetCode_def c intro: ext_trans)
qed

lemma so_SetState_ext:
  assumes "live_in B s obj"
  shows "ext B s (so_SetState B obj key val s)"
proof -
  obtain s1 obj1 prev where c: "so_GetState B obj key s = (s1, obj1, prev)" by (cases "so_GetState B obj key s") auto
  have acc: "account B s (so_address obj) = Some obj" using assms(1) by (simp add: live_in_def)
  note rf = so_GetState_refreshed [OF acc c]
  have r: "ext B s s1" "live_in B s1 obj1" using live_refreshed [OF assms(1)] rf by blast+
  have D: "sdb_destruct s1 = sdb_destruct s" and v: "view B (sdb_destruct s) obj1 = view B (sdb_destruct s) obj"
    using rf by (simp_all add: refreshed_def)
  have prev: "prev = state_view B (sdb_destruct s1) obj1 key" using rf view_eqD(6) [OF v] D by simp
  have "ext B s1 (setStateObject (setState key val obj1) (journal_append (storageChange (so_address obj1) key prev) s1))"
    by (rule live_change [OF r(2), where f = "\<lambda>v. v\<lparr>v_state := (v_state v)(key := prev)\<rparr>"])
       (use r(2) in \<open>auto simp: live_in_def prev\<close>)
  then show ?thesis using r(1) by (auto simp: so_SetState_def c intro: ext_trans)
qed

text \<open>A setter is a method on the object that \<open>GetOrNewStateObject\<close> returns.\<close>

lemma setter_ext:
  assumes "backend_ok B" "obs_ok (obs B s)" "\<And>s obj. live_in B s obj \<Longrightarrow> ext B s (f obj s)"
  shows "ext B s (case GetOrNewStateObject B a s of (s, obj) \<Rightarrow> f obj s)"
proof -
  obtain s1 obj where g: "GetOrNewStateObject B a s = (s1, obj)" by (cases "GetOrNewStateObject B a s")
  from live_new [OF assms(1,2) g] have "ext B s s1" "ext B s1 (f obj s1)" using assms(3) by blast+
  then show ?thesis by (auto simp: g intro: ext_trans)
qed

lemma setters_ext:
  assumes "backend_ok B" "obs_ok (obs B s)"
  shows "ext B s (AddBalance B a x s)" "ext B s (SubBalance B a x s)" "ext B s (SetBalance B a x s)" "ext B s (SetNonce B a n s)"
    "ext B s (SetCode B a c s)" "ext B s (SetState B a k v s)"
proof -
  have "length (be_Keccak256 B b) = 32" for b using assms(1) by (simp add: backend_ok_def)
  then show "ext B s (SetCode B a c s)" unfolding SetCode_def by (intro setter_ext [OF assms] so_SetCode_ext)
qed (unfold AddBalance_def SubBalance_def SetBalance_def SetNonce_def SetState_def,
     (intro setter_ext [OF assms] so_AddBalance_ext so_SubBalance_ext so_SetBalance_ext so_SetNonce_ext so_SetState_ext; assumption)+)

lemma CreateAccount_ext:
  assumes "backend_ok B" "obs_ok (obs B s)"
  shows "ext B s (CreateAccount B a s)"
proof -
  obtain s1 obj prev where c: "createObject B a s = (s1, obj, prev)" by (cases "createObject B a s") auto
  note e = createObject_ext [OF assms c]
  show ?thesis
  proof (cases prev)
    case None
    then show ?thesis using e(1) by (simp add: CreateAccount_def c)
  next
    case (Some p)
    have acc: "account B s a = Some p" using e(4) Some by (auto split: option.splits if_splits)
    have pa: "so_address p = a" by (rule obs_okD(1) [OF assms(2) acc])
    let ?r = "resetObjectChange p (a \<in> sdb_destruct s)"
    have en: "sdb_entries s1 = sdb_entries s @ [?r]"
      using c acc getDeletedStateObject_obs [of B a s] pa
      by (auto simp: createObject_def Let_def split: prod.splits option.splits)
    then have un: "orevert B ?r (obs B s1) = Some (obs B s)" using e(1) by (auto simp: ext_def split: option.splits if_splits)
    let ?n = "obj\<lparr>so_Balance := so_Balance p\<rparr>"
    have o: "obs B (setStateObject ?n s1) = (obs B s1)\<lparr>ob_account := (ob_account (obs B s1))(a \<mapsto> view B (sdb_destruct s1) ?n)\<rparr>"
      using e(2) by (simp add: obs_set)
    have "ext B s (setStateObject ?n s1)"
    proof (rule ext_entry [OF assms(2), of _ ?r])
      show "obs_ok (obs B (setStateObject ?n s1))"
        unfolding o by (rule obs_ok_upd [OF ext_ok [OF e(1)]]) (use e(2) assms(1) in simp_all)
      show "orevert B ?r (obs B (setStateObject ?n s1)) = Some (obs B s)"
        using un pa unfolding o by (cases "a \<in> sdb_destruct s") (simp_all add: Let_def)
    qed (use e(1) en in \<open>simp_all add: ext_def\<close>)
    then show ?thesis by (simp add: CreateAccount_def c Some)
  qed
qed

lemma Suicide_ext:
  assumes "obs_ok (obs B s)"
  shows "ext B s (fst (Suicide B a s))"
proof -
  obtain s1 r where g: "getStateObject B a s = (s1, r)" by (cases "getStateObject B a s")
  show ?thesis
  proof (cases r)
    case None
    then show ?thesis using getStateObject_ext [OF assms g] by (simp add: Suicide_def g)
  next
    case (Some obj)
    have l: "ext B s s1" "live_in B s1 obj" "so_address obj = a" using live_get [OF assms] g Some by auto
    let ?e = "suicideChange a (so_suicided obj) (so_Balance obj)"
    have "ext B s1 (setStateObject (obj\<lparr>so_suicided := True, so_Balance := 0\<rparr>) (journal_append ?e s1))"
      by (rule live_change [OF l(2), where f = "\<lambda>v. v\<lparr>v_suicided := so_suicided obj, v_Balance := so_Balance obj\<rparr>"])
         (use l in \<open>auto simp: live_in_def\<close>)
    then show ?thesis using l(1) by (auto simp: Suicide_def g Some intro: ext_trans)
  qed
qed

text \<open>Changes outside the accounts.\<close>

lemma SetTransientState_ext: "obs_ok (obs B s) \<Longrightarrow> ext B s (SetTransientState a k v s)"
proof -
  assume ok: "obs_ok (obs B s)"
  let ?p = "ts_Get a k (sdb_transient s)"
  have "ext B s (setTransientState a k v (journal_append (transientStorageChange a k ?p) s))"
    by (rule ext_entry [OF ok, of _ "transientStorageChange a k ?p"])
       (use ok in \<open>auto simp: obs_def obs_ok_def account_def setTransientState_def ts_Get_Set fun_eq_iff\<close>)
  then show ?thesis using ext_refl [OF ok] by (simp add: SetTransientState_def GetTransientState_def Let_def)
qed

lemma AddLog_ext: "obs_ok (obs B s) \<Longrightarrow> ext B s (AddLog l s)"
  by (rule ext_entry [of _ _ _ "addLogChange (sdb_thash s)"])
     (auto simp: AddLog_def Let_def obs_def obs_ok_def account_def)

lemma AddPreimage_ext: "obs_ok (obs B s) \<Longrightarrow> ext B s (AddPreimage h p s)"
proof (cases "sdb_preimages s h")
  case None
  assume "obs_ok (obs B s)"
  then show ?thesis using None
    by (intro ext_entry [of _ _ _ "addPreimageChange h"])
       (auto simp: AddPreimage_def Let_def obs_def obs_ok_def account_def fun_upd_idem)
qed (simp add: AddPreimage_def ext_refl)

lemma AddRefund_ext: "obs_ok (obs B s) \<Longrightarrow> ext B s (AddRefund g s)"
  by (rule ext_entry [of _ _ _ "refundChange (sdb_refund s)"]) (auto simp: AddRefund_def Let_def obs_def obs_ok_def account_def)

lemma obs_refund: "obs B (s\<lparr>sdb_refund := r\<rparr>) = (obs B s)\<lparr>ob_refund := r\<rparr>"
  by (simp add: obs_def account_def)

lemma SubRefund_ext:
  assumes "obs_ok (obs B s)" "SubRefund g s = Some s'"
  shows "ext B s s'"
proof -
  have s': "s' = (journal_append (refundChange (sdb_refund s)) s)\<lparr>sdb_refund := sdb_refund s - g\<rparr>"
    using assms(2) by (auto simp: SubRefund_def Let_def split: if_splits)
  have "(obs B s)\<lparr>ob_refund := sdb_refund s\<rparr> = obs B s" by (simp add: obs_def)
  moreover have "obs_ok ((obs B s)\<lparr>ob_refund := r\<rparr>)" for r using assms(1) by (simp add: obs_ok_def)
  ultimately show ?thesis
    by (intro ext_entry [OF assms(1), of _ "refundChange (sdb_refund s)"]) (simp_all add: s' obs_refund)
qed

lemma AddAddressToAccessList_ext:
  assumes "obs_ok (obs B s)"
  shows "ext B s (AddAddressToAccessList a s)"
proof (cases "AddAddress a (sdb_accessList s)")
  case (Pair al added)
  have inv: "al_inv (sdb_accessList s)" using assms by (simp add: obs_ok_def)
  have ok: "obs_ok (obs B (AddAddressToAccessList a s))"
    using assms AddAddress_inv [OF inv, of a] Pair
    by (auto simp: AddAddressToAccessList_def Let_def obs_def obs_ok_def account_def)
  show ?thesis
  proof (cases added)
    case True
    then have "DeleteAddress a al = sdb_accessList s" using DeleteAddress_Add [of a "sdb_accessList s"] Pair by simp
    then show ?thesis using ok True Pair
      by (intro ext_entry [OF assms, of _ "accessListAddAccountChange a"])
         (auto simp: AddAddressToAccessList_def Let_def obs_def account_def)
  next
    case False
    then have "AddAddressToAccessList a s = s" using Pair by (auto simp: AddAddressToAccessList_def AddAddress_def split: if_splits)
    then show ?thesis using ext_refl [OF assms] by simp
  qed
qed

lemma obs_accessList: "obs B (s\<lparr>sdb_accessList := al\<rparr>) = (obs B s)\<lparr>ob_accessList := al\<rparr>"
  by (simp add: obs_def account_def)

lemma obs_ok_accessList: "obs_ok (obs B s) \<Longrightarrow> al_inv al \<Longrightarrow> obs_ok ((obs B s)\<lparr>ob_accessList := al\<rparr>)"
  by (simp add: obs_ok_def)

lemma AddSlotToAccessList_ext:
  assumes "obs_ok (obs B s)"
  shows "ext B s (AddSlotToAccessList a slot s)"
proof -
  let ?al = "sdb_accessList s"
  obtain al am sm where A: "AddSlot a slot ?al = (al, am, sm)" by (cases "AddSlot a slot ?al") auto
  have inv: "al_inv ?al" using assms by (simp add: obs_ok_def)
  have inv': "al_inv al" using AddSlot_inv [OF inv, of a slot] A by simp
  have same: "(obs B s)\<lparr>ob_accessList := ?al\<rparr> = obs B s" by (simp add: obs_def)
  consider "\<not> sm" | "sm" "\<not> am" | "sm" "am" by blast
  then show ?thesis
  proof cases
    case 1
    then have "\<not> am" "al = ?al" using A by (auto simp: AddSlot_def Let_def split: if_splits)
    then show ?thesis using 1 A ext_refl [OF assms] by (simp add: AddSlotToAccessList_def)
  next
    case 2
    have s': "AddSlotToAccessList a slot s = journal_append (accessListAddSlotChange a slot) (s\<lparr>sdb_accessList := al\<rparr>)"
      using 2 A by (simp add: AddSlotToAccessList_def)
    show ?thesis
      by (rule ext_entry [OF assms, of _ "accessListAddSlotChange a slot"])
         (use DeleteSlot_Add [OF inv, of a slot al am] A 2 obs_ok_accessList [OF assms inv'] same in \<open>simp_all add: s' obs_accessList\<close>)
  next
    case 3
    have s': "AddSlotToAccessList a slot s =
        journal_append (accessListAddSlotChange a slot) (journal_append (accessListAddAccountChange a) (s\<lparr>sdb_accessList := al\<rparr>))"
      using 3 A by (simp add: AddSlotToAccessList_def)
    have "al_addresses ?al a = None" using A 3 by (auto simp: AddSlot_def Let_def split: if_splits)
    then have d: "DeleteAddress a (fst (AddAddress a ?al)) = ?al" by (intro DeleteAddress_Add) (simp add: AddAddress_def)
    show ?thesis unfolding ext_def
    proof (intro conjI exI [of _ "[accessListAddAccountChange a, accessListAddSlotChange a slot]"])
      show "obs_ok (obs B (AddSlotToAccessList a slot s))" using obs_ok_accessList [OF assms inv'] by (simp add: s' obs_accessList)
      show "orev B (rev [accessListAddAccountChange a, accessListAddSlotChange a slot]) (obs B (AddSlotToAccessList a slot s)) = Some (obs B s)"
        using DeleteSlot_Add [OF inv, of a slot al am] A 3 obs_ok_accessList [OF assms AddAddress_inv [OF inv, of a]] assms d
        by (simp add: s' obs_accessList same)
    qed (simp_all add: s')
  qed
qed

subsection \<open>Snapshots\<close>

text \<open>The operations of the EVM on the state, and the getters, which only fill caches.\<close>

inductive sdb_op :: "('t, 'e) backend \<Rightarrow> ('t, 'e) StateDB \<Rightarrow> ('t, 'e) StateDB \<Rightarrow> bool" for B s where
  "sdb_op B s (AddBalance B a x s)"
| "sdb_op B s (SubBalance B a x s)"
| "sdb_op B s (SetBalance B a x s)"
| "sdb_op B s (SetNonce B a n s)"
| "sdb_op B s (SetCode B a c s)"
| "sdb_op B s (SetState B a k v s)"
| "sdb_op B s (CreateAccount B a s)"
| "sdb_op B s (fst (Suicide B a s))"
| "sdb_op B s (SetTransientState a k v s)"
| "sdb_op B s (AddLog l s)"
| "sdb_op B s (AddPreimage h p s)"
| "sdb_op B s (AddRefund g s)"
| "SubRefund g s = Some s' \<Longrightarrow> sdb_op B s s'"
| "sdb_op B s (AddAddressToAccessList a s)"
| "sdb_op B s (AddSlotToAccessList a h s)"
| "sdb_op B s (fst (Exist B a s))"
| "sdb_op B s (fst (Empty B a s))"
| "sdb_op B s (fst (GetBalance B a s))"
| "sdb_op B s (fst (GetNonce B a s))"
| "sdb_op B s (fst (GetCode B a s))"
| "sdb_op B s (fst (GetCodeHash B a s))"
| "sdb_op B s (fst (GetState B a k s))"
| "sdb_op B s (fst (GetCommittedState B a k s))"
| "sdb_op B s (fst (HasSuicided B a s))"
| "sdb_op B s (SetTxContext h i s)"

inductive sdb_step :: "('t, 'e) backend \<Rightarrow> ('t, 'e) StateDB \<Rightarrow> ('t, 'e) StateDB \<Rightarrow> bool" for B s where
  op: "sdb_op B s s' \<Longrightarrow> sdb_step B s s'"
| snapshot: "sdb_step B s (fst (Snapshot s))"
| revert_to: "RevertToSnapshot B revid s = Some s' \<Longrightarrow> sdb_step B s s'"
| finalise: "sdb_step B s (Finalise B del s)"

lemma reader_ext:
  assumes "obs_ok (obs B s)"
  shows "ext B s (fst (Exist B a s))" "ext B s (fst (Empty B a s))" "ext B s (fst (GetBalance B a s))"
    "ext B s (fst (GetNonce B a s))" "ext B s (fst (GetCodeHash B a s))" "ext B s (fst (HasSuicided B a s))"
  using getStateObject_ext [OF assms]
  by (auto simp: Exist_def Empty_def GetBalance_def GetNonce_def GetCodeHash_def HasSuicided_def split: prod.splits option.splits)

lemma GetCode_ext: "obs_ok (obs B s) \<Longrightarrow> ext B s (fst (GetCode B a s))"
proof -
  assume ok: "obs_ok (obs B s)"
  obtain s1 r where g: "getStateObject B a s = (s1, r)" by (cases "getStateObject B a s")
  show ?thesis
  proof (cases r)
    case (Some obj)
    obtain s2 obj2 c where c: "so_Code B obj s1 = (s2, obj2, c)" by (cases "so_Code B obj s1") auto
    have l: "ext B s s1" "live_in B s1 obj" using live_get [OF ok] g Some by auto
    have "refreshed B s1 obj s2 obj2" using so_Code_refreshed [OF _ c] l by (simp add: live_in_def)
    with live_refreshed [OF l(2)] l(1) show ?thesis by (auto simp: GetCode_def g Some c intro: ext_trans)
  qed (use getStateObject_ext [OF ok g] in \<open>simp add: GetCode_def g\<close>)
qed

lemma storage_reader_ext:
  assumes "obs_ok (obs B s)"
  shows "ext B s (fst (GetState B a k s))" "ext B s (fst (GetCommittedState B a k s))"
proof -
  obtain s1 r where g: "getStateObject B a s = (s1, r)" by (cases "getStateObject B a s")
  have e1: "ext B s s1" by (rule getStateObject_ext [OF assms g])
  { fix obj assume r: "r = Some obj"
    have l: "live_in B s1 obj" using live_get [OF assms] g r by auto
    then have acc: "account B s1 (so_address obj) = Some obj" by (simp add: live_in_def)
    obtain s2 obj2 c where c: "so_GetState B obj k s1 = (s2, obj2, c)" by (cases "so_GetState B obj k s1") auto
    obtain s3 obj3 d where d: "so_GetCommittedState B obj k s1 = (s3, obj3, d)" by (cases "so_GetCommittedState B obj k s1") auto
    have "ext B s1 s2" "ext B s1 s3"
      using live_refreshed [OF l] so_GetState_refreshed [OF acc c] so_GetCommittedState_refreshed [OF acc d] by blast+
    with e1 have "ext B s (fst (GetState B a k s)) \<and> ext B s (fst (GetCommittedState B a k s))"
      by (auto simp: GetState_def GetCommittedState_def g r c d intro: ext_trans) }
  then show "ext B s (fst (GetState B a k s))" "ext B s (fst (GetCommittedState B a k s))"
    using e1 by (cases r; auto simp: GetState_def GetCommittedState_def g)+
qed

lemma op_ext: "sdb_op B s s' \<Longrightarrow> backend_ok B \<Longrightarrow> obs_ok (obs B s) \<Longrightarrow> ext B s s'"
proof (induction rule: sdb_op.induct)
  case (25 h i)
  then show ?case by (intro ext_same) (simp_all add: SetTxContext_def)
qed (intro setters_ext CreateAccount_ext Suicide_ext SetTransientState_ext AddLog_ext AddPreimage_ext AddRefund_ext SubRefund_ext
      AddAddressToAccessList_ext AddSlotToAccessList_ext reader_ext GetCode_ext storage_reader_ext; assumption)+

text \<open>Reverting touches neither the list of entries nor the revisions.\<close>

lemma revert_frame:
  "revert B e s = Some s' \<Longrightarrow> sdb_entries s' = sdb_entries s \<and> sdb_revisions s' = sdb_revisions s \<and> sdb_nextRevisionId s' = sdb_nextRevisionId s"
  using getStateObject_obs(5-7) [of B]
  by (cases e) (auto simp: Let_def setTransientState_def split: prod.splits option.splits if_splits)

lemma revert_entries_obs:
  assumes "obs_ok (obs B s)" "orev B es (obs B s) = Some ob"
  obtains s' where "revert_entries B es s = Some s'" "obs B s' = ob" "obs_ok ob" "sdb_entries s' = sdb_entries s"
    "sdb_revisions s' = sdb_revisions s" "sdb_nextRevisionId s' = sdb_nextRevisionId s"
  using assms
proof (induction es arbitrary: s thesis)
  case Nil
  then show ?case by simp
next
  case (Cons e es)
  from Cons.prems(3) obtain ob1 where ob1: "orevert B e (obs B s) = Some ob1" "obs_ok ob1" "orev B es ob1 = Some ob"
    by (auto split: option.splits if_splits)
  then obtain s1 where s1: "revert B e s = Some s1" "obs B s1 = ob1" using revert_obs [OF Cons.prems(2), of e] by auto
  let ?s1 = "case dirtied e of None \<Rightarrow> s1 | Some a \<Rightarrow> s1\<lparr>sdb_dirties := dirty_dec a (sdb_dirties s1)\<rparr>"
  have o1: "obs B ?s1 = ob1" using s1 by (simp split: option.splits)
  have f: "sdb_entries ?s1 = sdb_entries s" "sdb_revisions ?s1 = sdb_revisions s" "sdb_nextRevisionId ?s1 = sdb_nextRevisionId s"
    using revert_frame [OF s1(1)] by (simp_all split: option.splits)
  obtain s' where "revert_entries B es ?s1 = Some s'" "obs B s' = ob" "obs_ok ob" "sdb_entries s' = sdb_entries ?s1"
    "sdb_revisions s' = sdb_revisions ?s1" "sdb_nextRevisionId s' = sdb_nextRevisionId ?s1"
    using Cons.IH [of ?s1] o1 ob1 by auto
  with Cons.prems(1) [of s'] f s1(1) show ?case by simp
qed

text \<open>Binary search finds the first place where a monotone predicate holds.\<close>

lemma sort_Search_first:
  assumes "\<And>x y. x \<le> y \<Longrightarrow> y < n \<Longrightarrow> f x \<Longrightarrow> f y" "k \<le> n" "\<And>x. x < k \<Longrightarrow> \<not> f x" "k < n \<Longrightarrow> f k"
  shows "i \<le> k \<Longrightarrow> k \<le> j \<Longrightarrow> j \<le> n \<Longrightarrow> sort_Search f i j = k"
proof (induction "j - i" arbitrary: i j rule: less_induct)
  case less
  let ?h = "(i + j) div 2"
  show ?case
  proof (cases "i < j")
    case True
    have ih: "sort_Search f i j = (if \<not> f ?h then sort_Search f (?h + 1) j else sort_Search f i ?h)"
      using True by (subst sort_Search.simps) (simp add: Let_def)
    show ?thesis
    proof (cases "f ?h")
      case h: True
      then have "k \<le> ?h" using assms(3) [of ?h] by linarith
      then show ?thesis using less h True by (simp add: ih)
    next
      case h: False
      have "?h < k" using h assms(1) [of k ?h] assms(2,4) less(3,4) True by (cases "k \<le> ?h") auto
      then show ?thesis using less h True by (simp add: ih)
    qed
  qed (use less in \<open>simp add: sort_Search.simps\<close>)
qed

lemma sort_Search_le: "i \<le> j \<Longrightarrow> sort_Search f i j \<le> j"
proof (induction f i j rule: sort_Search.induct)
  case (1 f i j)
  show ?case
  proof (cases "i < j")
    case True
    then have "i \<le> (i + j) div 2" "(i + j) div 2 \<le> j" "(i + j) div 2 + 1 \<le> j" by linarith+
    then show ?thesis using 1(1,2) True by (subst sort_Search.simps) (auto simp: Let_def intro: order_trans)
  qed (use 1(3) in \<open>simp add: sort_Search.simps\<close>)
qed

definition rev_inv :: "('t, 'e) StateDB \<Rightarrow> bool" where
  "rev_inv s \<longleftrightarrow> sorted_wrt (\<lambda>p q. fst p < fst q \<and> snd p \<le> snd q) (sdb_revisions s)
     \<and> (\<forall>p \<in> set (sdb_revisions s). fst p < sdb_nextRevisionId s \<and> snd p \<le> length (sdb_entries s))"

definition sdb_inv :: "('t, 'e) backend \<Rightarrow> ('t, 'e) StateDB \<Rightarrow> bool" where
  "sdb_inv B s \<longleftrightarrow> obs_ok (obs B s) \<and> rev_inv s \<and> orev B (rev (sdb_entries s)) (obs B s) \<noteq> None"

text \<open>Reverting to a listed revision: it needs only that the entries since then can be undone.\<close>

lemma RevertToSnapshot_nth:
  assumes "obs_ok (obs B s)" "rev_inv s" "j < length (sdb_revisions s)" "sdb_revisions s ! j = (revid, k)"
    and "orev B (rev (drop k (sdb_entries s))) (obs B s) = Some ob"
  obtains s' where "RevertToSnapshot B revid s = Some s'" "sdb_entries s' = take k (sdb_entries s)"
    "sdb_revisions s' = take j (sdb_revisions s)" "sdb_nextRevisionId s' = sdb_nextRevisionId s"
    "obs B s' = ob" "obs_ok ob" "rev_inv s'"
proof -
  let ?r = "sdb_revisions s" and ?es = "sdb_entries s"
  note sorted = assms(2) [unfolded rev_inv_def]
  have lt: "fst (?r ! x) < fst (?r ! y)" if "x < y" "y < length ?r" for x y
    using sorted that by (auto dest: sorted_wrt_nth_less)
  have idx: "sort_Search (\<lambda>i. fst (?r ! i) \<ge> revid) 0 (length ?r) = j"
  proof (rule sort_Search_first [where n = "length ?r"])
    show "fst (?r ! y) \<ge> revid" if "x \<le> y" "y < length ?r" "fst (?r ! x) \<ge> revid" for x y
      using lt [of x y] that by (cases "x = y") auto
    show "\<not> fst (?r ! x) \<ge> revid" if "x < j" for x using lt [OF that assms(3)] assms(4) by simp
  qed (use assms in auto)
  from revert_entries_obs [OF assms(1,5)] obtain s1 where
    s1: "revert_entries B (rev (drop k ?es)) s = Some s1" "obs B s1 = ob" "obs_ok ob" "sdb_entries s1 = ?es" "sdb_revisions s1 = ?r"
      "sdb_nextRevisionId s1 = sdb_nextRevisionId s" .
  let ?s' = "s1\<lparr>sdb_entries := take k ?es, sdb_revisions := take j ?r\<rparr>"
  have R: "RevertToSnapshot B revid s = Some ?s'"
    using assms(3,4) s1 by (simp add: RevertToSnapshot_def Let_def idx journal_revert_def)
  have "snd p \<le> k" if "p \<in> set (take j ?r)" for p
  proof -
    from that obtain x where x: "x < j" "p = ?r ! x" using assms(3) by (auto simp: in_set_conv_nth)
    then show ?thesis using sorted assms(3,4) by (auto dest!: sorted_wrt_nth_less [of _ _ x j])
  qed
  moreover have "snd p \<le> length ?es" if "p \<in> set ?r" for p using sorted that by blast
  ultimately have "rev_inv ?s'"
    using sorted s1 by (auto simp: rev_inv_def sorted_wrt_take dest: in_set_takeD)
  with that [OF R] s1 show thesis by simp
qed

lemma RevertToSnapshot_at:
  assumes "sdb_inv B s" "j < length (sdb_revisions s)" "sdb_revisions s ! j = (revid, k)"
  obtains s' where "RevertToSnapshot B revid s = Some s'" "sdb_entries s' = take k (sdb_entries s)"
    "sdb_revisions s' = take j (sdb_revisions s)" "sdb_nextRevisionId s' = sdb_nextRevisionId s"
    "orev B (rev (drop k (sdb_entries s))) (obs B s) = Some (obs B s')" "sdb_inv B s'"
proof -
  let ?es = "sdb_entries s"
  have split: "rev ?es = rev (drop k ?es) @ rev (take k ?es)" by (simp flip: rev_append)
  from assms(1) obtain ob where ob: "orev B (rev (drop k ?es)) (obs B s) = Some ob" "orev B (rev (take k ?es)) ob \<noteq> None"
    by (auto simp: sdb_inv_def split orev_append split: option.splits)
  have "obs_ok (obs B s)" "rev_inv s" using assms(1) by (simp_all add: sdb_inv_def)
  from RevertToSnapshot_nth [OF this assms(2,3) ob(1)] obtain s' where "RevertToSnapshot B revid s = Some s'"
    "sdb_entries s' = take k (sdb_entries s)" "sdb_revisions s' = take j (sdb_revisions s)"
    "sdb_nextRevisionId s' = sdb_nextRevisionId s" "obs B s' = ob" "obs_ok ob" "rev_inv s'" .
  with that [of s'] ob show thesis by (simp add: sdb_inv_def)
qed

lemma ext_rev_inv: "rev_inv s \<Longrightarrow> ext B s s' \<Longrightarrow> rev_inv s'"
  by (auto simp: rev_inv_def ext_def)

lemma ext_inv: "sdb_inv B s \<Longrightarrow> ext B s s' \<Longrightarrow> sdb_inv B s'"
  using ext_rev_inv [of s B s'] by (auto simp: sdb_inv_def ext_def orev_append)

lemma Snapshot_inv: "sdb_inv B s \<Longrightarrow> sdb_inv B (fst (Snapshot s))"
  by (auto simp: sdb_inv_def rev_inv_def Snapshot_def Let_def sorted_wrt_append)

lemma Finalise_ok:
  assumes "obs_ok (obs B s)"
  shows "obs_ok (obs B (Finalise B del s))"
proof -
  have "so_address obj = a \<and> length (so_CodeHash obj) = 32" if "account B (Finalise B del s) a = Some obj" for a obj
  proof -
    from that obtain obj0 where "account B s a = Some obj0" "so_address obj = so_address obj0" "so_CodeHash obj = so_CodeHash obj0"
      by (auto simp: account_def Finalise_def clearJournalAndRefund_def so_finalise_def Let_def split: option.splits if_splits)
    then show ?thesis using obs_okD [OF assms] by auto
  qed
  moreover have "sdb_accessList (Finalise B del s) = sdb_accessList s" by (simp add: Finalise_def clearJournalAndRefund_def Let_def)
  moreover have "al_inv (sdb_accessList s)" using assms by (simp add: obs_ok_def)
  ultimately show ?thesis unfolding obs_ok_def by auto
qed

lemma Finalise_inv: "sdb_inv B s \<Longrightarrow> sdb_inv B (Finalise B del s)"
  using Finalise_ok [of B s del] by (auto simp: sdb_inv_def rev_inv_def Finalise_def clearJournalAndRefund_def Let_def)

lemma RevertToSnapshot_index:
  assumes "sdb_inv B s" "RevertToSnapshot B revid s = Some s'"
  obtains j k where "j < length (sdb_revisions s)" "sdb_revisions s ! j = (revid, k)"
proof -
  let ?j = "sort_Search (\<lambda>i. fst (sdb_revisions s ! i) \<ge> revid) 0 (length (sdb_revisions s))"
  have "?j \<noteq> length (sdb_revisions s)" "fst (sdb_revisions s ! ?j) = revid"
    using assms(2) by (auto simp: RevertToSnapshot_def Let_def split: if_splits)
  moreover have "?j \<le> length (sdb_revisions s)" by (rule sort_Search_le) simp
  ultimately show thesis using that [of ?j "snd (sdb_revisions s ! ?j)"] by (simp add: prod_eq_iff)
qed

lemma sdb_step_inv: "sdb_step B s s' \<Longrightarrow> backend_ok B \<Longrightarrow> sdb_inv B s \<Longrightarrow> sdb_inv B s'"
proof (induction rule: sdb_step.induct)
  case (op s')
  then show ?case using op_ext ext_inv by (metis sdb_inv_def)
next
  case (revert_to revid s')
  from RevertToSnapshot_index [OF revert_to(3,1)] obtain j k where "j < length (sdb_revisions s)" "sdb_revisions s ! j = (revid, k)" .
  from RevertToSnapshot_at [OF revert_to(3) this] revert_to(1) show ?case by auto
qed (auto intro: Snapshot_inv Finalise_inv)

text \<open>What holds after a snapshot for as long as it can still be reverted to.\<close>

definition since :: "('t, 'e) backend \<Rightarrow> ('t, 'e) StateDB \<Rightarrow> int \<Rightarrow> ('t, 'e) StateDB \<Rightarrow> bool" where
  "since B s0 rid s \<longleftrightarrow> sdb_inv B s \<and> rid < sdb_nextRevisionId s
     \<and> (\<forall>k. (rid, k) \<in> set (sdb_revisions s) \<longrightarrow> k = length (sdb_entries s0)
          \<and> (\<exists>new. sdb_entries s = sdb_entries s0 @ new \<and> orev B (rev new) (obs B s) = Some (obs B s0)))"

lemma since_start: "sdb_inv B s0 \<Longrightarrow> since B s0 (snd (Snapshot s0)) (fst (Snapshot s0))"
  using Snapshot_inv [of B s0]
  by (auto simp: since_def) (auto simp: Snapshot_def Let_def sdb_inv_def rev_inv_def)

lemma since_ext: "since B s0 rid s \<Longrightarrow> ext B s s' \<Longrightarrow> since B s0 rid s'"
  using ext_inv [of B s s'] by (auto simp: since_def) (auto simp: ext_def orev_append)

lemma since_revert:
  assumes "since B s0 rid s" "RevertToSnapshot B revid s = Some s'"
  shows "since B s0 rid s'"
proof -
  have inv: "sdb_inv B s" using assms(1) by (simp add: since_def)
  let ?r = "sdb_revisions s" and ?es = "sdb_entries s"
  from RevertToSnapshot_index [OF inv assms(2)] obtain j k where j: "j < length ?r" "?r ! j = (revid, k)" .
  from RevertToSnapshot_at [OF inv j] assms(2) have s':
    "sdb_entries s' = take k ?es" "sdb_revisions s' = take j ?r" "sdb_nextRevisionId s' = sdb_nextRevisionId s"
    "orev B (rev (drop k ?es)) (obs B s) = Some (obs B s')" "sdb_inv B s'" by auto
  have "l = length (sdb_entries s0) \<and> (\<exists>new. sdb_entries s' = sdb_entries s0 @ new \<and> orev B (rev new) (obs B s') = Some (obs B s0))"
    if "(rid, l) \<in> set (sdb_revisions s')" for l
  proof -
    from that obtain x where x: "x < j" "?r ! x = (rid, l)" using j(1) by (auto simp: s'(2) in_set_conv_nth)
    then have "(rid, l) \<in> set ?r" using j(1) by (metis nth_mem less_trans)
    with assms(1) obtain new where n: "l = length (sdb_entries s0)" "?es = sdb_entries s0 @ new" "orev B (rev new) (obs B s) = Some (obs B s0)"
      by (auto simp: since_def)
    have "sorted_wrt (\<lambda>p q. fst p < fst q \<and> snd p \<le> snd q) ?r" using inv by (simp add: sdb_inv_def rev_inv_def)
    from sorted_wrt_nth_less [OF this x(1) j(1)] x j have "l \<le> k" by simp
    let ?m = "k - l"
    have "rev new = rev (drop ?m new) @ rev (take ?m new)" by (simp flip: rev_append)
    moreover have "drop k ?es = drop ?m new" "take k ?es = sdb_entries s0 @ take ?m new" using n \<open>l \<le> k\<close> by simp_all
    ultimately show ?thesis using n s'(1,4) by (auto simp: orev_append split: option.splits)
  qed
  then show ?thesis using assms(1) s'(3,5) by (simp add: since_def)
qed

lemma since_step: "sdb_step B s s' \<Longrightarrow> backend_ok B \<Longrightarrow> since B s0 rid s \<Longrightarrow> since B s0 rid s'"
proof (induction rule: sdb_step.induct)
  case (op s')
  then have "ext B s s'" by (intro op_ext) (auto simp: since_def sdb_inv_def)
  then show ?case by (rule since_ext [OF op(3)])
next
  case snapshot
  then show ?case using Snapshot_inv [of B s] by (auto simp: since_def) (auto simp: Snapshot_def Let_def)
next
  case (revert_to revid s')
  show ?case by (rule since_revert [OF revert_to(3,1)])
next
  case (finalise del)
  then show ?case using Finalise_inv [of B s del]
    by (auto simp: since_def) (auto simp: Finalise_def clearJournalAndRefund_def Let_def)
qed

lemma New_inv: "backend_ok B \<Longrightarrow> sdb_inv B StateDB_New"
proof -
  assume B: "backend_ok B"
  have "account B (StateDB_New :: ('a, 'b) StateDB) a = stored B a" for a by (simp add: account_def StateDB_New_def)
  then have "obs_ok (obs B (StateDB_New :: ('a, 'b) StateDB))"
    using B stored_address [of B] newAccessList_inv by (auto simp: obs_ok_def backend_ok_def) (simp add: StateDB_New_def)
  then show ?thesis by (simp add: sdb_inv_def rev_inv_def StateDB_New_def)
qed

text \<open>The interface to the invariant: a state reached from a fresh one over a well-behaved database.\<close>

interpretation statedb: step_invariant
  "\<lambda>s. s = StateDB_New \<and> backend_ok B" "\<lambda>s s'. sdb_step B s s' \<and> backend_ok B" "sdb_inv B" for B :: "('t, 'e) backend"
  by unfold_locales (auto intro: New_inv sdb_step_inv)

lemma reachable_inv:
  assumes "backend_ok B" "(sdb_step B)\<^sup>*\<^sup>* StateDB_New s"
  shows "sdb_inv B s"
proof -
  have "(\<lambda>s s'. sdb_step B s s' \<and> backend_ok B)\<^sup>*\<^sup>* StateDB_New s"
    using assms by (auto elim: rtranclp_mono [THEN predicate2D, rotated])
  then show ?thesis using statedb.reach_inv [of StateDB_New B s] assms(1) by blast
qed

text \<open>The getters in terms of what is observable.\<close>

lemma getter_obs:
  "snd (GetBalance B a s) = (case ob_live (obs B s) a of None \<Rightarrow> 0 | Some v \<Rightarrow> v_Balance v)"
  "snd (GetNonce B a s) = (case ob_live (obs B s) a of None \<Rightarrow> 0 | Some v \<Rightarrow> v_Nonce v)"
  using getStateObject_obs(2) [of B a s]
  by (auto simp: GetBalance_def GetNonce_def ob_live_obs split: prod.splits option.splits)

lemma GetState_obs:
  assumes "obs_ok (obs B s)"
  shows "snd (GetState B a k s) = (case ob_live (obs B s) a of None \<Rightarrow> zero_hash | Some v \<Rightarrow> v_state v k)"
proof -
  obtain s1 r where g: "getStateObject B a s = (s1, r)" by (cases "getStateObject B a s")
  note o = getStateObject_obs [OF g]
  show ?thesis
  proof (cases r)
    case None
    then show ?thesis using o(2) by (auto simp: GetState_def g ob_live_obs split: option.splits)
  next
    case (Some obj)
    obtain s2 obj2 v where c: "so_GetState B obj k s1 = (s2, obj2, v)" by (cases "so_GetState B obj k s1") auto
    have "account B s1 (so_address obj) = Some obj" using live_get [OF assms, of a s1 obj] g Some unfolding live_in_def by blast
    from so_GetState_refreshed [OF this c] have "v = state_view B (sdb_destruct s) obj k" using o(4) by simp
    then show ?thesis using o(2) Some by (auto simp: GetState_def g c ob_live_obs split: option.splits if_splits)
  qed
qed

text \<open>The account a setter works on: the live one, or a fresh one without balance and nonce.\<close>

lemma GetOrNew_obs:
  assumes "backend_ok B" "obs_ok (obs B s)" "GetOrNewStateObject B a s = (s', obj)"
  shows "so_address obj = a" "account B s' a = Some obj" "\<not> so_deleted obj"
    "so_Balance obj = snd (GetBalance B a s)" "so_Nonce obj = snd (GetNonce B a s)"
    "b \<noteq> a \<Longrightarrow> ob_account (obs B s') b = ob_account (obs B s) b"
proof -
  obtain s1 r where g: "getStateObject B a s = (s1, r)" by (cases "getStateObject B a s")
  note o = getStateObject_obs [OF g]
  note n = GetOrNewStateObject_ext [OF assms]
  show "so_address obj = a" "account B s' a = Some obj" "\<not> so_deleted obj" using n by simp_all
  have blank: "so_Balance (blank B a) = 0" "so_Nonce (blank B a) = 0" by (simp_all add: blank_def newObject_def)
  obtain s2 newobj prev where c: "createObject B a s1 = (s2, newobj, prev)" by (cases "createObject B a s1") auto
  have ok1: "obs_ok (obs B s1)" using assms(2) o(1) by simp
  have s': "(s', obj) = (case r of None \<Rightarrow> (s2, newobj) | Some x \<Rightarrow> (s1, x))"
    using assms(3) by (auto simp: GetOrNewStateObject_def g c split: option.splits)
  have "newobj = blank B a" using createObject_ext [OF assms(1) ok1 c] by simp
  then show "so_Balance obj = snd (GetBalance B a s)" "so_Nonce obj = snd (GetNonce B a s)"
    using s' blank by (auto simp: GetBalance_def GetNonce_def g split: option.splits)
  assume b: "b \<noteq> a"
  obtain s3 q where d: "getDeletedStateObject B a s1 = (s3, q)" by (cases "getDeletedStateObject B a s1")
  note dd = getDeletedStateObject_obs [OF d]
  have same: "map_option (view B (sdb_destruct s3)) (account B s3 b) = map_option (view B (sdb_destruct s1)) (account B s1 b)"
    using arg_cong [OF dd(1), of "\<lambda>ob. ob_account ob b"] by simp
  have "ob_account (obs B s2) b = ob_account (obs B s1) b"
  proof (cases q)
    case None
    then show ?thesis using c b same by (auto simp: createObject_def d blank_def [symmetric] Let_def account_set)
  next
    case (Some p)
    have pa: "so_address p = a" using obs_okD(1) [OF ok1] dd(2) Some by blast
    have "map_option (view B (insert a (sdb_destruct s3))) (account B s3 b) = map_option (view B (sdb_destruct s3)) (account B s3 b)"
      by (rule view_other [OF _ b]) (use ok1 dd(1) in auto)
    then show ?thesis using c b pa same
      by (auto simp: createObject_def d Some blank_def [symmetric] Let_def account_set)
  qed
  then show "ob_account (obs B s') b = ob_account (obs B s) b"
    using s' arg_cong [OF o(1), of "\<lambda>ob. ob_account ob b"] by (auto split: option.splits)
qed

lemma ob_live_set:
  assumes "so_address obj = a" "\<not> so_deleted obj"
  shows "ob_live (obs B (setStateObject obj (journal_append e s))) b =
    (if b = a then Some (view B (sdb_destruct s) obj) else ob_live (obs B s) b)"
  using assms by (simp add: obs_set ob_live_def)

lemma ob_live_other: "ob_account (obs B s') b = ob_account (obs B s) b \<Longrightarrow> ob_live (obs B s') b = ob_live (obs B s) b"
  by (simp add: ob_live_def)

lemma touch_obs [simp]: "obs B (touch obj s) = obs B s"
  by (simp add: touch_def Let_def)

lemma balance_effect:
  assumes "backend_ok B" "obs_ok (obs B s)" "GetOrNewStateObject B a s = (s1, obj)"
    and "obs B s' = obs B s1 \<and> x = so_Balance obj \<or> s' = so_SetBalance obj x s1"
  shows "snd (GetBalance B b s') = (if b = a then x else snd (GetBalance B b s))" "snd (GetNonce B b s') = snd (GetNonce B b s)"
proof -
  note n = GetOrNew_obs [OF assms(1-3)]
  have other: "ob_live (obs B s1) b = ob_live (obs B s) b" if "b \<noteq> a" using n(6) [OF that] by (rule ob_live_other)
  have self: "ob_live (obs B s1) a = Some (view B (sdb_destruct s1) obj)" using n(2,3) by (simp add: ob_live_obs)
  show "snd (GetBalance B b s') = (if b = a then x else snd (GetBalance B b s))"
    using assms(4) n(1,3,4) other self
    by (auto simp: getter_obs so_SetBalance_def ob_live_set)
  show "snd (GetNonce B b s') = snd (GetNonce B b s)"
    using assms(4) n(1,3,5) other self
    by (cases "b = a") (auto simp: getter_obs so_SetBalance_def ob_live_set)
qed

lemma AddBalance_effect:
  assumes "backend_ok B" "obs_ok (obs B s)"
  shows "snd (GetBalance B b (AddBalance B a x s)) = snd (GetBalance B b s) + (if b = a then x else 0)"
    "snd (GetNonce B b (AddBalance B a x s)) = snd (GetNonce B b s)"
proof -
  obtain s1 obj where g: "GetOrNewStateObject B a s = (s1, obj)" by (cases "GetOrNewStateObject B a s")
  note n = GetOrNew_obs [OF assms g]
  have "obs B (AddBalance B a x s) = obs B s1 \<and> so_Balance obj + x = so_Balance obj \<or> AddBalance B a x s = so_SetBalance obj (so_Balance obj + x) s1"
    by (simp add: AddBalance_def g so_AddBalance_def)
  from balance_effect [OF assms g this] n(4)
  show "snd (GetBalance B b (AddBalance B a x s)) = snd (GetBalance B b s) + (if b = a then x else 0)"
    "snd (GetNonce B b (AddBalance B a x s)) = snd (GetNonce B b s)" by auto
qed

lemma SubBalance_effect:
  assumes "backend_ok B" "obs_ok (obs B s)"
  shows "snd (GetBalance B b (SubBalance B a x s)) = snd (GetBalance B b s) - (if b = a then x else 0)"
    "snd (GetNonce B b (SubBalance B a x s)) = snd (GetNonce B b s)"
proof -
  obtain s1 obj where g: "GetOrNewStateObject B a s = (s1, obj)" by (cases "GetOrNewStateObject B a s")
  note n = GetOrNew_obs [OF assms g]
  have "obs B (SubBalance B a x s) = obs B s1 \<and> so_Balance obj - x = so_Balance obj \<or> SubBalance B a x s = so_SetBalance obj (so_Balance obj - x) s1"
    by (simp add: SubBalance_def g so_SubBalance_def)
  from balance_effect [OF assms g this] n(4)
  show "snd (GetBalance B b (SubBalance B a x s)) = snd (GetBalance B b s) - (if b = a then x else 0)"
    "snd (GetNonce B b (SubBalance B a x s)) = snd (GetNonce B b s)" by auto
qed

lemma SetNonce_effect:
  assumes "backend_ok B" "obs_ok (obs B s)"
  shows "snd (GetNonce B b (SetNonce B a n s)) = (if b = a then n else snd (GetNonce B b s))"
    "snd (GetBalance B b (SetNonce B a n s)) = snd (GetBalance B b s)"
proof -
  obtain s1 obj where g: "GetOrNewStateObject B a s = (s1, obj)" by (cases "GetOrNewStateObject B a s")
  note n = GetOrNew_obs [OF assms g]
  have other: "ob_live (obs B s1) b = ob_live (obs B s) b" if "b \<noteq> a" using n(6) [OF that] by (rule ob_live_other)
  have self: "ob_live (obs B s1) a = Some (view B (sdb_destruct s1) obj)" using n(2,3) by (simp add: ob_live_obs)
  show "snd (GetNonce B b (SetNonce B a n s)) = (if b = a then n else snd (GetNonce B b s))"
    using n(1,3) other self by (auto simp: getter_obs SetNonce_def g so_SetNonce_def ob_live_set)
  show "snd (GetBalance B b (SetNonce B a n s)) = snd (GetBalance B b s)"
    using n(1,3,4) other self by (cases "b = a") (auto simp: getter_obs SetNonce_def g so_SetNonce_def ob_live_set)
qed

lemma SetState_effect:
  assumes "backend_ok B" "obs_ok (obs B s)"
  shows "snd (GetState B a k (SetState B a k v s)) = v"
    "b \<noteq> a \<Longrightarrow> snd (GetState B b k' (SetState B a k v s)) = snd (GetState B b k' s)"
proof -
  obtain s1 obj where g: "GetOrNewStateObject B a s = (s1, obj)" by (cases "GetOrNewStateObject B a s")
  note n = GetOrNew_obs [OF assms g]
  obtain s2 obj2 prev where c: "so_GetState B obj k s1 = (s2, obj2, prev)" by (cases "so_GetState B obj k s1") auto
  have acc: "account B s1 (so_address obj) = Some obj" using n by simp
  note rf = so_GetState_refreshed [OF acc c]
  then have o2: "obs B s2 = obs B s1" and D2: "sdb_destruct s2 = sdb_destruct s1"
    and v2: "view B (sdb_destruct s1) obj2 = view B (sdb_destruct s1) obj" and prev: "prev = state_view B (sdb_destruct s1) obj k"
    by (simp_all add: refreshed_def)
  note same = view_eqD [OF v2]
  have ok: "obs_ok (obs B (SetState B a k v s))" by (rule ext_ok [OF setters_ext(6) [OF assms]])
  have self: "ob_live (obs B s1) a = Some (view B (sdb_destruct s1) obj)" using n(2,3) by (simp add: ob_live_obs)
  have eff: "ob_live (obs B (SetState B a k v s)) b =
      (if b = a then Some ((view B (sdb_destruct s1) obj)\<lparr>v_state := (state_view B (sdb_destruct s1) obj)(k := v)\<rparr>) else ob_live (obs B s1) b)" for b
    using n(1,3) same D2 v2 prev self o2
    by (auto simp: SetState_def g so_SetState_def c ob_live_set fun_upd_idem)
  show "snd (GetState B a k (SetState B a k v s)) = v" by (simp add: GetState_obs [OF ok] eff)
  assume b: "b \<noteq> a"
  show "snd (GetState B b k' (SetState B a k v s)) = snd (GetState B b k' s)"
    using b ob_live_other [OF n(6) [OF b]] by (simp add: GetState_obs [OF ok] GetState_obs [OF assms(2)] eff)
qed

text \<open>Creating an account that already exists marks nothing dirty, so without another change of the account
  \<open>Finalise\<close> does not queue it for the trie.\<close>

lemma CreateAccount_not_dirty:
  assumes "backend_ok B" "obs_ok (obs B s)" "account B s a = Some p"
  shows "sdb_dirties (CreateAccount B a s) = sdb_dirties s"
proof -
  obtain s1 q where d: "getDeletedStateObject B a s = (s1, q)" by (cases "getDeletedStateObject B a s")
  note dd = getDeletedStateObject_obs [OF d]
  show ?thesis using dd(2,8) assms(3)
    by (simp add: CreateAccount_def createObject_def d Let_def setStateObject_def journal_append_def)
qed

section \<open>Properties\<close>

text \<open>C6: Snapshots: from any state reached over a database that returns well-formed hashes, take a snapshot and run
  any operations, further snapshots and reverts; as long as the revision is still valid, reverting to it
  succeeds and gives back everything observable at the snapshot (accounts with nonce, balance, code, storage,
  committed storage and flags, refund, logs, preimages, access list, transient storage, destructed set) and
  the journal as it was.\<close>

theorem RevertToSnapshot_restores:
  assumes "backend_ok B" "(sdb_step B)\<^sup>*\<^sup>* StateDB_New s0" "Snapshot s0 = (s1, rid)" "(sdb_step B)\<^sup>*\<^sup>* s1 s2"
    and "(rid, k) \<in> set (sdb_revisions s2)"
  shows "\<exists>s3. RevertToSnapshot B rid s2 = Some s3 \<and> obs B s3 = obs B s0 \<and> sdb_entries s3 = sdb_entries s0"
proof -
  have inv0: "sdb_inv B s0" by (rule reachable_inv [OF assms(1,2)])
  from assms(4) have "since B s0 rid s2"
  proof (induction rule: rtranclp_induct)
    case base
    show ?case using since_start [OF inv0] assms(3) by simp
  next
    case (step s s')
    then show ?case using since_step assms(1) by blast
  qed
  then obtain new where n: "k = length (sdb_entries s0)" "sdb_entries s2 = sdb_entries s0 @ new"
      "orev B (rev new) (obs B s2) = Some (obs B s0)" and inv: "sdb_inv B s2"
    using assms(5) by (auto simp: since_def)
  from assms(5) obtain j where j: "j < length (sdb_revisions s2)" "sdb_revisions s2 ! j = (rid, k)" by (auto simp: in_set_conv_nth)
  from RevertToSnapshot_at [OF inv j] obtain s3 where "RevertToSnapshot B rid s2 = Some s3" "sdb_entries s3 = take k (sdb_entries s2)"
    "orev B (rev (drop k (sdb_entries s2))) (obs B s2) = Some (obs B s3)" by metis
  with n show ?thesis by auto
qed

definition sample_backend :: "(unit, string) backend" where
  "sample_backend = \<lparr>be_Keccak256 = (\<lambda>_. replicate 32 7), be_snap = None, be_GetAccount = (\<lambda>_. Ok None),
     be_OpenStorageTrie = (\<lambda>_ _. Ok ()), be_GetStorage = (\<lambda>_ _ _. Ok []), be_ContractCode = (\<lambda>_ _. (None, None))\<rparr>"

lemma sample_backend_ok: "backend_ok sample_backend"
  by (simp add: backend_ok_def sample_backend_def stored_def snap_read_def)

theorem RevertToSnapshot_restores_witness:
  "\<exists>s3. RevertToSnapshot sample_backend 0 (AddBalance sample_backend (replicate 20 1) 5 (fst (Snapshot StateDB_New))) = Some s3
     \<and> obs sample_backend s3 = obs sample_backend StateDB_New"
proof -
  let ?s1 = "fst (Snapshot (StateDB_New :: (unit, string) StateDB))"
  have snap: "Snapshot StateDB_New = (?s1, 0)" by (simp add: Snapshot_def StateDB_New_def)
  have op: "sdb_op sample_backend ?s1 (AddBalance sample_backend (replicate 20 1) 5 ?s1)" by (rule sdb_op.intros)
  have "obs_ok (obs sample_backend ?s1)"
    using Snapshot_inv [OF New_inv [OF sample_backend_ok]] by (simp add: sdb_inv_def)
  from op_ext [OF op sample_backend_ok this]
  have "sdb_revisions (AddBalance sample_backend (replicate 20 1) 5 ?s1) = [(0, 0)]" by (simp add: ext_def) (simp add: Snapshot_def StateDB_New_def)
  then have k: "(0, 0) \<in> set (sdb_revisions (AddBalance sample_backend (replicate 20 1) 5 ?s1))" by simp
  have step: "(sdb_step sample_backend)\<^sup>*\<^sup>* ?s1 (AddBalance sample_backend (replicate 20 1) 5 ?s1)"
    using sdb_step.op [OF op] by blast
  from RevertToSnapshot_restores [OF sample_backend_ok rtranclp.rtrancl_refl snap step k] show ?thesis by blast
qed



end
