(* ===== verification/State_Frame.thy ===== *)
theory State_Frame
  imports State_Journal
begin

text \<open>
  Frames of execution over the world state: a piece of code that changes the state only through its
  operations, takes snapshots, and reverts only to snapshots it took itself.  The virtual machine runs every
  call this way, so what a frame does can be undone from outside.
\<close>

section \<open>Definitions\<close>

inductive frame_run :: "('t, 'e) backend \<Rightarrow> ('t, 'e) StateDB \<Rightarrow> ('t, 'e) StateDB \<Rightarrow> bool" for B where
  stop: "frame_run B s s"
| op: "frame_run B s s1 \<Longrightarrow> sdb_op B s1 s2 \<Longrightarrow> frame_run B s s2"
| snapshot: "frame_run B s s1 \<Longrightarrow> frame_run B s (fst (Snapshot s1))"
| revert_to: "frame_run B s s1 \<Longrightarrow> frame_run B (fst (Snapshot s1)) s2 \<Longrightarrow>
     RevertToSnapshot B (snd (Snapshot s1)) s2 = Some s3 \<Longrightarrow> frame_run B s s3"

section \<open>Lemmas\<close>

definition sound :: "('t, 'e) backend \<Rightarrow> ('t, 'e) StateDB \<Rightarrow> bool" where
  "sound B s \<longleftrightarrow> obs_ok (obs B s) \<and> rev_inv s"

definition kept :: "('t, 'e) backend \<Rightarrow> ('t, 'e) StateDB \<Rightarrow> ('t, 'e) StateDB \<Rightarrow> bool" where
  "kept B s s' \<longleftrightarrow> sound B s' \<and> (\<exists>rs. sdb_revisions s' = sdb_revisions s @ rs)
     \<and> (\<exists>new. sdb_entries s' = sdb_entries s @ new \<and> orev B (rev new) (obs B s') = Some (obs B s))"

lemma kept_refl: "sound B s \<Longrightarrow> kept B s s"
  by (simp add: kept_def)

lemma kept_sound: "kept B s s' \<Longrightarrow> sound B s'"
  by (simp add: kept_def)

lemma kept_trans: "kept B s1 s2 \<Longrightarrow> kept B s2 s3 \<Longrightarrow> kept B s1 s3"
  unfolding kept_def by (fastforce simp: orev_append)

lemma kept_ext: "sound B s \<Longrightarrow> ext B s s' \<Longrightarrow> kept B s s'"
  using ext_rev_inv [of s B s'] ext_ok [of B s s'] by (auto simp: kept_def sound_def ext_def)

lemma kept_op: "backend_ok B \<Longrightarrow> sound B s \<Longrightarrow> sdb_op B s s' \<Longrightarrow> kept B s s'"
  using op_ext [of B s s'] kept_ext [of B s s'] by (simp add: sound_def)

lemma kept_Snapshot: "sound B s \<Longrightarrow> kept B s (fst (Snapshot s))"
  by (auto simp: kept_def sound_def rev_inv_def Snapshot_def Let_def sorted_wrt_append)

lemma kept_revert:
  assumes "sound B s" "kept B (fst (Snapshot s)) s2"
  obtains s3 where "RevertToSnapshot B (snd (Snapshot s)) s2 = Some s3" "obs B s3 = obs B s" "kept B s s3"
    "sdb_entries s3 = sdb_entries s" "sdb_revisions s3 = sdb_revisions s"
proof -
  let ?j = "length (sdb_revisions s)" and ?k = "length (sdb_entries s)"
  from assms(2) obtain rs new where n: "sdb_revisions s2 = sdb_revisions s @ (snd (Snapshot s), ?k) # rs"
      "sdb_entries s2 = sdb_entries s @ new" "orev B (rev new) (obs B s2) = Some (obs B s)"
    by (auto simp: kept_def Snapshot_def Let_def)
  have "obs_ok (obs B s2)" "rev_inv s2" using assms(2) by (simp_all add: kept_def sound_def)
  moreover have "?j < length (sdb_revisions s2)" "sdb_revisions s2 ! ?j = (snd (Snapshot s), ?k)" by (simp_all add: n)
  moreover have "orev B (rev (drop ?k (sdb_entries s2))) (obs B s2) = Some (obs B s)" using n by simp
  ultimately obtain s3 where "RevertToSnapshot B (snd (Snapshot s)) s2 = Some s3" "sdb_entries s3 = take ?k (sdb_entries s2)"
      "sdb_revisions s3 = take ?j (sdb_revisions s2)" "obs B s3 = obs B s" "obs_ok (obs B s)" "rev_inv s3"
    by (rule RevertToSnapshot_nth)
  with that [of s3] n show thesis by (simp add: kept_def sound_def)
qed

lemma frame_run_kept: "frame_run B s s' \<Longrightarrow> backend_ok B \<Longrightarrow> sound B s \<Longrightarrow> kept B s s'"
proof (induction rule: frame_run.induct)
  case (stop s)
  then show ?case by (simp add: kept_refl)
next
  case (op s s1 s2)
  then show ?case by (meson kept_op kept_sound kept_trans)
next
  case (snapshot s s1)
  then show ?case by (meson kept_Snapshot kept_sound kept_trans)
next
  case (revert_to s s1 s2 s3)
  then have k1: "kept B s s1" by blast
  then have "sound B s1" "sound B (fst (Snapshot s1))" using kept_Snapshot by (blast dest: kept_sound)+
  with revert_to have "kept B s1 s3" by (metis kept_revert option.inject)
  with k1 show ?case by (rule kept_trans)
qed

lemma frame_run_trans: "frame_run B s2 s3 \<Longrightarrow> frame_run B s1 s2 \<Longrightarrow> frame_run B s1 s3"
  by (induction rule: frame_run.induct) (auto intro: frame_run.intros)

end
