(* ===== verification/Evm_Call.thy ===== *)
theory Evm_Call
  imports State_Frame Chain_Config
begin

text \<open>
  Message calls and contract creation of the virtual machine (\<^verbatim>\<open>core/vm/evm.go\<close>, \<^verbatim>\<open>contract.go\<close>, the
  precompile tables of \<^verbatim>\<open>contracts.go\<close>) over the world state.  The interpreter of contract code and the
  cryptography behind the precompiles are arguments; what the lemmas need of the interpreter is that it
  works on the state as a frame of its own and never leaves a contract with more gas than it got.  The
  tracer hooks and the cached jump destinations do not change results and are left out.
\<close>

section \<open>Definitions\<close>

subsection \<open>Precompiled contracts\<close>

definition BytesToAddress :: "bytes \<Rightarrow> address" where
  "BytesToAddress b = (if length b > 20 then drop (length b - 20) b else left_pad 20 b)"

datatype PrecompiledContract =
    ecrecover | sha256hash | ripemd160hash | dataCopy | bigModExp bool
  | bn256AddByzantium | bn256ScalarMulByzantium | bn256PairingByzantium
  | bn256AddIstanbul | bn256ScalarMulIstanbul | bn256PairingIstanbul | blake2F

definition PrecompiledContractsHomestead :: "(address \<times> PrecompiledContract) list" where
  "PrecompiledContractsHomestead =
     [(BytesToAddress [1], ecrecover), (BytesToAddress [2], sha256hash), (BytesToAddress [3], ripemd160hash),
      (BytesToAddress [4], dataCopy)]"

definition PrecompiledContractsByzantium :: "(address \<times> PrecompiledContract) list" where
  "PrecompiledContractsByzantium =
     [(BytesToAddress [1], ecrecover), (BytesToAddress [2], sha256hash), (BytesToAddress [3], ripemd160hash),
      (BytesToAddress [4], dataCopy), (BytesToAddress [5], bigModExp False), (BytesToAddress [6], bn256AddByzantium),
      (BytesToAddress [7], bn256ScalarMulByzantium), (BytesToAddress [8], bn256PairingByzantium)]"

definition PrecompiledContractsIstanbul :: "(address \<times> PrecompiledContract) list" where
  "PrecompiledContractsIstanbul =
     [(BytesToAddress [1], ecrecover), (BytesToAddress [2], sha256hash), (BytesToAddress [3], ripemd160hash),
      (BytesToAddress [4], dataCopy), (BytesToAddress [5], bigModExp False), (BytesToAddress [6], bn256AddIstanbul),
      (BytesToAddress [7], bn256ScalarMulIstanbul), (BytesToAddress [8], bn256PairingIstanbul), (BytesToAddress [9], blake2F)]"

definition PrecompiledContractsBerlin :: "(address \<times> PrecompiledContract) list" where
  "PrecompiledContractsBerlin =
     [(BytesToAddress [1], ecrecover), (BytesToAddress [2], sha256hash), (BytesToAddress [3], ripemd160hash),
      (BytesToAddress [4], dataCopy), (BytesToAddress [5], bigModExp True), (BytesToAddress [6], bn256AddIstanbul),
      (BytesToAddress [7], bn256ScalarMulIstanbul), (BytesToAddress [8], bn256PairingIstanbul), (BytesToAddress [9], blake2F)]"

definition precompiles :: "Rules \<Rightarrow> (address \<times> PrecompiledContract) list" where
  "precompiles rules =
     (if r_IsBerlin rules then PrecompiledContractsBerlin
      else if r_IsIstanbul rules then PrecompiledContractsIstanbul
      else if r_IsByzantium rules then PrecompiledContractsByzantium
      else PrecompiledContractsHomestead)"

text \<open>The addresses of a table, which the code collects in the arbitrary order of map iteration.\<close>

definition ActivePrecompiles :: "Rules \<Rightarrow> address list" where
  "ActivePrecompiles rules = map fst (precompiles rules)"

datatype vm_err =
    ErrOutOfGas | ErrCodeStoreOutOfGas | ErrDepth | ErrInsufficientBalance | ErrContractAddressCollision
  | ErrExecutionReverted | ErrMaxCodeSizeExceeded | ErrInvalidCode | ErrNonceUintOverflow | ErrInterpreter string

record precompile_impl =
  pc_RequiredGas :: "PrecompiledContract \<Rightarrow> bytes \<Rightarrow> u64"
  pc_Run :: "PrecompiledContract \<Rightarrow> bytes \<Rightarrow> bytes option \<times> vm_err option"

definition RunPrecompiledContract :: "precompile_impl \<Rightarrow> PrecompiledContract \<Rightarrow> bytes \<Rightarrow> u64 \<Rightarrow>
    bytes option \<times> u64 \<times> vm_err option" where
  "RunPrecompiledContract P p inp suppliedGas =
     (let gasCost = pc_RequiredGas P p inp
      in if suppliedGas < gasCost then (None, 0, Some ErrOutOfGas)
         else (case pc_Run P p inp of (out, err) \<Rightarrow> (out, suppliedGas - gasCost, err)))"

subsection \<open>Contracts\<close>

datatype Contract =
    Contract (c_CallerAddress: address) (c_caller: ContractRef) (c_self: ContractRef) (c_Code: "bytes option")
      (c_CodeHash: hash) (c_CodeAddr: "address option") (c_Gas: u64) (c_value: "int option")
and ContractRef = AccountRef address | ContractOf Contract

fun ref_Address :: "ContractRef \<Rightarrow> address" where
  "ref_Address (AccountRef a) = a"
| "ref_Address (ContractOf (Contract _ _ self _ _ _ _ _)) = ref_Address self"

definition NewContract :: "ContractRef \<Rightarrow> ContractRef \<Rightarrow> int option \<Rightarrow> u64 \<Rightarrow> Contract" where
  "NewContract caller obj val gas = Contract (ref_Address caller) caller obj None zero_hash None gas val"

text \<open>The caller of a delegated call must be a contract: the type assertion panics otherwise.\<close>

fun AsDelegate :: "Contract \<Rightarrow> Contract option" where
  "AsDelegate (Contract ca caller self code h a gas val) =
     (case caller of AccountRef _ \<Rightarrow> None
      | ContractOf parent \<Rightarrow> Some (Contract (c_CallerAddress parent) caller self code h a gas (c_value parent)))"

fun SetCallCode :: "address \<Rightarrow> hash \<Rightarrow> bytes option \<Rightarrow> Contract \<Rightarrow> Contract" where
  "SetCallCode addr h code (Contract ca caller self _ _ _ gas val) = Contract ca caller self code h (Some addr) gas val"

record codeAndHash =
  ch_code :: bytes
  ch_hash :: hash

fun SetCodeOptionalHash :: "address \<Rightarrow> codeAndHash \<Rightarrow> Contract \<Rightarrow> Contract" where
  "SetCodeOptionalHash addr ch (Contract ca caller self _ _ _ gas val) =
     Contract ca caller self (Some (ch_code ch)) (ch_hash ch) (Some addr) gas val"

text \<open>On the gas of a contract: what is left, and whether there was enough.\<close>

definition UseGas :: "u64 \<Rightarrow> u64 \<Rightarrow> u64 \<times> bool" where
  "UseGas have gas = (if have < gas then (have, False) else (have - gas, True))"

subsection \<open>The machine\<close>

record BlockContext =
  bc_Coinbase :: address
  bc_GasLimit :: u64
  bc_BlockNumber :: int
  bc_Time :: u64
  bc_Difficulty :: int
  bc_BaseFee :: "int option"
  bc_Random :: "hash option"

record TxContext =
  tc_Origin :: address
  tc_GasPrice :: int

text \<open>The interpreter gets the contract, the input and the read-only flag and returns, with the state, the
  contract's remaining gas, the returned data and the error.\<close>

record ('t, 'e) EVM =
  e_Context :: BlockContext
  e_TxContext :: TxContext
  e_depth :: int
  e_chainConfig :: ChainConfig
  e_chainRules :: Rules
  e_NoBaseFee :: bool
  e_Run :: "Contract \<Rightarrow> bytes \<Rightarrow> bool \<Rightarrow> ('t, 'e) StateDB \<Rightarrow> ('t, 'e) StateDB \<times> u64 \<times> bytes option \<times> vm_err option"
  e_pc :: precompile_impl

definition precompile :: "('t, 'e) EVM \<Rightarrow> address \<Rightarrow> PrecompiledContract option" where
  "precompile evm addr = map_of (precompiles (e_chainRules evm)) addr"

definition CanTransfer :: "('t, 'e) backend \<Rightarrow> address \<Rightarrow> int \<Rightarrow> ('t, 'e) StateDB \<Rightarrow> ('t, 'e) StateDB \<times> bool" where
  "CanTransfer B addr amount s = (case GetBalance B addr s of (s, bal) \<Rightarrow> (s, bal \<ge> amount))"

definition Transfer :: "('t, 'e) backend \<Rightarrow> address \<Rightarrow> address \<Rightarrow> int \<Rightarrow> ('t, 'e) StateDB \<Rightarrow> ('t, 'e) StateDB" where
  "Transfer B sender recipient amount s = AddBalance B recipient amount (SubBalance B sender amount s)"

definition CallCreateDepth :: int where
  "CallCreateDepth = 1024"

subsection \<open>Calls\<close>

text \<open>How every call ends: an error reverts the state and, unless it is a revert, takes the remaining gas.\<close>

definition call_end :: "('t, 'e) backend \<Rightarrow> int \<Rightarrow> ('t, 'e) StateDB \<times> u64 \<times> bytes option \<times> vm_err option \<Rightarrow>
    (('t, 'e) StateDB \<times> bytes option \<times> u64 \<times> vm_err option) option" where
  "call_end B snapshot r =
     (case r of (s, gas, ret, err) \<Rightarrow>
        if err \<noteq> None then
          map_option (\<lambda>s. (s, ret, if err \<noteq> Some ErrExecutionReverted then 0 else gas, err)) (RevertToSnapshot B snapshot s)
        else Some (s, ret, gas, err))"

definition run_precompile :: "('t, 'e) EVM \<Rightarrow> PrecompiledContract \<Rightarrow> bytes \<Rightarrow> u64 \<Rightarrow> ('t, 'e) StateDB \<Rightarrow>
    ('t, 'e) StateDB \<times> u64 \<times> bytes option \<times> vm_err option" where
  "run_precompile evm p inp gas s = (case RunPrecompiledContract (e_pc evm) p inp gas of (ret, gas, err) \<Rightarrow> (s, gas, ret, err))"

definition nil_len :: "bytes option \<Rightarrow> nat" where
  "nil_len b = (case b of None \<Rightarrow> 0 | Some b \<Rightarrow> length b)"

definition Call :: "('t, 'e) backend \<Rightarrow> ('t, 'e) EVM \<Rightarrow> ContractRef \<Rightarrow> address \<Rightarrow> bytes \<Rightarrow> u64 \<Rightarrow> int \<Rightarrow> ('t, 'e) StateDB \<Rightarrow>
    (('t, 'e) StateDB \<times> bytes option \<times> u64 \<times> vm_err option) option" where
  "Call B evm caller addr inp gas val s =
     (if e_depth evm > CallCreateDepth then Some (s, None, gas, Some ErrDepth)
      else case (if val \<noteq> 0 then CanTransfer B (ref_Address caller) val s else (s, True)) of (s, can) \<Rightarrow>
      if \<not> can then Some (s, None, gas, Some ErrInsufficientBalance)
      else case Snapshot s of (s, snapshot) \<Rightarrow>
      let p = precompile evm addr
      in case Exist B addr s of (s, exists) \<Rightarrow>
         if \<not> exists \<and> p = None \<and> r_IsEIP158 (e_chainRules evm) \<and> val = 0 then Some (s, None, gas, None)
         else
           let s = (if \<not> exists then CreateAccount B addr s else s);
               s = Transfer B (ref_Address caller) addr val s
           in call_end B snapshot
                (case p of Some p \<Rightarrow> run_precompile evm p inp gas s
                 | None \<Rightarrow>
                     (case GetCode B addr s of (s, code) \<Rightarrow>
                        if nil_len code = 0 then (s, gas, None, None)
                        else case GetCodeHash B addr s of (s, h) \<Rightarrow>
                          e_Run evm (SetCallCode addr h code (NewContract caller (AccountRef addr) (Some val) gas)) inp False s)))"

text \<open>The code of an address run in a given contract: the common part of the other three calls.\<close>

definition run_code :: "('t, 'e) backend \<Rightarrow> ('t, 'e) EVM \<Rightarrow> address \<Rightarrow> Contract \<Rightarrow> bytes \<Rightarrow> bool \<Rightarrow> ('t, 'e) StateDB \<Rightarrow>
    ('t, 'e) StateDB \<times> u64 \<times> bytes option \<times> vm_err option" where
  "run_code B evm addr contract inp readOnly s =
     (case GetCodeHash B addr s of (s, h) \<Rightarrow> case GetCode B addr s of (s, code) \<Rightarrow>
        e_Run evm (SetCallCode addr h code contract) inp readOnly s)"

definition CallCode :: "('t, 'e) backend \<Rightarrow> ('t, 'e) EVM \<Rightarrow> ContractRef \<Rightarrow> address \<Rightarrow> bytes \<Rightarrow> u64 \<Rightarrow> int \<Rightarrow> ('t, 'e) StateDB \<Rightarrow>
    (('t, 'e) StateDB \<times> bytes option \<times> u64 \<times> vm_err option) option" where
  "CallCode B evm caller addr inp gas val s =
     (if e_depth evm > CallCreateDepth then Some (s, None, gas, Some ErrDepth)
      else case CanTransfer B (ref_Address caller) val s of (s, can) \<Rightarrow>
      if \<not> can then Some (s, None, gas, Some ErrInsufficientBalance)
      else case Snapshot s of (s, snapshot) \<Rightarrow>
        call_end B snapshot
          (case precompile evm addr of Some p \<Rightarrow> run_precompile evm p inp gas s
           | None \<Rightarrow> run_code B evm addr (NewContract caller (AccountRef (ref_Address caller)) (Some val) gas) inp False s))"

definition DelegateCall :: "('t, 'e) backend \<Rightarrow> ('t, 'e) EVM \<Rightarrow> ContractRef \<Rightarrow> address \<Rightarrow> bytes \<Rightarrow> u64 \<Rightarrow> ('t, 'e) StateDB \<Rightarrow>
    (('t, 'e) StateDB \<times> bytes option \<times> u64 \<times> vm_err option) option" where
  "DelegateCall B evm caller addr inp gas s =
     (if e_depth evm > CallCreateDepth then Some (s, None, gas, Some ErrDepth)
      else case Snapshot s of (s, snapshot) \<Rightarrow>
        case precompile evm addr of Some p \<Rightarrow> call_end B snapshot (run_precompile evm p inp gas s)
        | None \<Rightarrow>
            (case AsDelegate (NewContract caller (AccountRef (ref_Address caller)) None gas) of None \<Rightarrow> None
             | Some contract \<Rightarrow> call_end B snapshot (run_code B evm addr contract inp False s)))"

definition StaticCall :: "('t, 'e) backend \<Rightarrow> ('t, 'e) EVM \<Rightarrow> ContractRef \<Rightarrow> address \<Rightarrow> bytes \<Rightarrow> u64 \<Rightarrow> ('t, 'e) StateDB \<Rightarrow>
    (('t, 'e) StateDB \<times> bytes option \<times> u64 \<times> vm_err option) option" where
  "StaticCall B evm caller addr inp gas s =
     (if e_depth evm > CallCreateDepth then Some (s, None, gas, Some ErrDepth)
      else case Snapshot s of (s, snapshot) \<Rightarrow>
        let s = AddBalance B addr 0 s
        in call_end B snapshot
             (case precompile evm addr of Some p \<Rightarrow> run_precompile evm p inp gas s
              | None \<Rightarrow> run_code B evm addr (NewContract caller (AccountRef addr) (Some 0) gas) inp True s))"

subsection \<open>Contract creation\<close>

definition zero_address :: address where
  "zero_address = replicate 20 0"

definition MaxCodeSize :: nat where
  "MaxCodeSize = 24576"

definition CreateDataGas :: u64 where
  "CreateDataGas = 200"

text \<open>What is made of the init code's result: the limits on the code, and storing it against gas.\<close>

definition store_code :: "('t, 'e) backend \<Rightarrow> Rules \<Rightarrow> address \<Rightarrow> ('t, 'e) StateDB \<times> u64 \<times> bytes option \<times> vm_err option \<Rightarrow>
    ('t, 'e) StateDB \<times> u64 \<times> bytes option \<times> vm_err option" where
  "store_code B rules address r =
     (case r of (s, gas, ret, err) \<Rightarrow>
        let err = (if err = None \<and> r_IsEIP158 rules \<and> nil_len ret > MaxCodeSize then Some ErrMaxCodeSizeExceeded else err);
            err = (if err = None \<and> nil_len ret \<ge> 1 \<and> the ret ! 0 = 0xEF \<and> r_IsLondon rules then Some ErrInvalidCode else err)
        in if err = None then
             (case UseGas gas (of_nat (nil_len ret) * CreateDataGas) of
                (gas, True) \<Rightarrow> (SetCode B address ret s, gas, ret, None)
              | (gas, False) \<Rightarrow> (s, gas, ret, Some ErrCodeStoreOutOfGas))
           else (s, gas, ret, err))"

definition create :: "('t, 'e) backend \<Rightarrow> ('t, 'e) EVM \<Rightarrow> ContractRef \<Rightarrow> codeAndHash \<Rightarrow> u64 \<Rightarrow> int \<Rightarrow> address \<Rightarrow> ('t, 'e) StateDB \<Rightarrow>
    (('t, 'e) StateDB \<times> bytes option \<times> address \<times> u64 \<times> vm_err option) option" where
  "create B evm caller ch gas val address s =
     (if e_depth evm > CallCreateDepth then Some (s, None, zero_address, gas, Some ErrDepth)
      else case CanTransfer B (ref_Address caller) val s of (s, can) \<Rightarrow>
      if \<not> can then Some (s, None, zero_address, gas, Some ErrInsufficientBalance)
      else case GetNonce B (ref_Address caller) s of (s, nonce) \<Rightarrow>
      if nonce + 1 < nonce then Some (s, None, zero_address, gas, Some ErrNonceUintOverflow)
      else
        let rules = e_chainRules evm;
            s = SetNonce B (ref_Address caller) (nonce + 1) s;
            s = (if r_IsBerlin rules then AddAddressToAccessList address s else s)
        in case GetCodeHash B address s of (s, contractHash) \<Rightarrow>
           case GetNonce B address s of (s, n) \<Rightarrow>
           if n \<noteq> 0 \<or> contractHash \<noteq> zero_hash \<and> contractHash \<noteq> EmptyCodeHash B then
             Some (s, None, zero_address, 0, Some ErrContractAddressCollision)
           else case Snapshot s of (s, snapshot) \<Rightarrow>
             let s = CreateAccount B address s;
                 s = (if r_IsEIP158 rules then SetNonce B address 1 s else s);
                 s = Transfer B (ref_Address caller) address val s;
                 contract = SetCodeOptionalHash address ch (NewContract caller (AccountRef address) (Some val) gas)
             in case store_code B rules address (e_Run evm contract [] False s) of (s, gas, ret, err) \<Rightarrow>
                if err \<noteq> None \<and> (r_IsHomestead rules \<or> err \<noteq> Some ErrCodeStoreOutOfGas) then
                  map_option (\<lambda>s. (s, ret, address, if err \<noteq> Some ErrExecutionReverted then fst (UseGas gas gas) else gas, err))
                    (RevertToSnapshot B snapshot s)
                else Some (s, ret, address, gas, err))"

text \<open>The encoding of an address and a nonce cannot fail.\<close>

definition CreateAddress :: "('t, 'e) backend \<Rightarrow> address \<Rightarrow> u64 \<Rightarrow> address" where
  "CreateAddress B b nonce =
     (let dat = (case EncodeToBytes (VSlice [VByteArray b, VUint nonce]) of Ok (Some d) \<Rightarrow> d | _ \<Rightarrow> [])
      in BytesToAddress (drop 12 (be_Keccak256 B dat)))"

definition CreateAddress2 :: "('t, 'e) backend \<Rightarrow> address \<Rightarrow> bytes \<Rightarrow> bytes \<Rightarrow> address" where
  "CreateAddress2 B b salt inithash = BytesToAddress (drop 12 (be_Keccak256 B ([0xff] @ b @ salt @ inithash)))"

definition Create :: "('t, 'e) backend \<Rightarrow> ('t, 'e) EVM \<Rightarrow> ContractRef \<Rightarrow> bytes \<Rightarrow> u64 \<Rightarrow> int \<Rightarrow> ('t, 'e) StateDB \<Rightarrow>
    (('t, 'e) StateDB \<times> bytes option \<times> address \<times> u64 \<times> vm_err option) option" where
  "Create B evm caller code gas val s =
     (case GetNonce B (ref_Address caller) s of (s, nonce) \<Rightarrow>
        create B evm caller \<lparr>ch_code = code, ch_hash = zero_hash\<rparr> gas val (CreateAddress B (ref_Address caller) nonce) s)"

text \<open>\<open>Create2\<close> has computed the hash of the init code before creating.\<close>

definition Create2 :: "('t, 'e) backend \<Rightarrow> ('t, 'e) EVM \<Rightarrow> ContractRef \<Rightarrow> bytes \<Rightarrow> u64 \<Rightarrow> int \<Rightarrow> bytes \<Rightarrow> ('t, 'e) StateDB \<Rightarrow>
    (('t, 'e) StateDB \<times> bytes option \<times> address \<times> u64 \<times> vm_err option) option" where
  "Create2 B evm caller code gas endowment salt s =
     (let ch = \<lparr>ch_code = code, ch_hash = be_Keccak256 B code\<rparr>
      in create B evm caller ch gas endowment (CreateAddress2 B (ref_Address caller) salt (ch_hash ch)) s)"

section \<open>Lemmas\<close>

text \<open>What is relied on of the interpreter.\<close>

definition interpreter_ok :: "('t, 'e) backend \<Rightarrow> ('t, 'e) EVM \<Rightarrow> bool" where
  "interpreter_ok B evm \<longleftrightarrow>
     (\<forall>c inp ro s s' gas ret err. e_Run evm c inp ro s = (s', gas, ret, err) \<longrightarrow> frame_run B s s' \<and> gas \<le> c_Gas c)"

text \<open>What every call gives: a result, reached as a frame, with no more gas, and nothing changed on an error.\<close>

definition framed :: "('t, 'e) backend \<Rightarrow> ('t, 'e) StateDB \<Rightarrow> u64 \<Rightarrow>
    (('t, 'e) StateDB \<times> bytes option \<times> u64 \<times> vm_err option) option \<Rightarrow> bool" where
  "framed B s gas r \<longleftrightarrow> (\<exists>s' ret gas' err. r = Some (s', ret, gas', err) \<and> frame_run B s s' \<and> gas' \<le> gas
     \<and> (err \<noteq> None \<longrightarrow> obs B s' = obs B s))"

lemma framed_intro:
  "frame_run B s s' \<Longrightarrow> gas' \<le> gas \<Longrightarrow> obs B s' = obs B s \<or> err = None \<Longrightarrow> framed B s gas (Some (s', ret, gas', err))"
  by (auto simp: framed_def)

lemma framed_after: "framed B s1 gas r \<Longrightarrow> frame_run B s s1 \<Longrightarrow> obs B s1 = obs B s \<Longrightarrow> framed B s gas r"
  by (fastforce simp: framed_def intro: frame_run_trans)

lemmas frame_op = frame_run.op [OF frame_run.stop]

lemma frame_sound: "frame_run B s s' \<Longrightarrow> backend_ok B \<Longrightarrow> sound B s \<Longrightarrow> sound B s'"
  using frame_run_kept kept_sound by blast

lemma getters_obs:
  assumes "sound B s"
  shows "obs B (fst (GetBalance B a s)) = obs B s" "obs B (fst (GetNonce B a s)) = obs B s"
    "obs B (fst (Exist B a s)) = obs B s" "obs B (fst (GetCodeHash B a s)) = obs B s"
  using getStateObject_obs(1) [of B a s]
  by (auto simp: GetBalance_def GetNonce_def Exist_def GetCodeHash_def split: prod.splits option.splits)

lemma CanTransfer_frame:
  assumes "sound B s"
  shows "frame_run B s (fst (CanTransfer B a x s))" "obs B (fst (CanTransfer B a x s)) = obs B s"
  using frame_op [OF sdb_op.intros(18), of B s a] getters_obs(1) [OF assms, of a]
  by (auto simp: CanTransfer_def split: prod.splits)

lemma Transfer_frame: "frame_run B s (Transfer B a b x s)"
  unfolding Transfer_def by (rule frame_run.op [OF frame_op]) (rule sdb_op.intros)+

text \<open>The same of the body of a call, before its end is settled.\<close>

definition runs :: "('t, 'e) backend \<Rightarrow> ('t, 'e) StateDB \<Rightarrow> u64 \<Rightarrow> ('t, 'e) StateDB \<times> u64 \<times> bytes option \<times> vm_err option \<Rightarrow> bool" where
  "runs B s gas r \<longleftrightarrow> frame_run B s (fst r) \<and> fst (snd r) \<le> gas"

lemma runs_after: "runs B s1 gas r \<Longrightarrow> frame_run B s s1 \<Longrightarrow> runs B s gas r"
  by (auto simp: runs_def intro: frame_run_trans)

lemma call_end_framed:
  assumes "backend_ok B" "sound B s" "runs B (fst (Snapshot s)) gas r"
  shows "framed B s gas (call_end B (snd (Snapshot s)) r)"
proof -
  obtain s2 gas2 ret err where r: "r = (s2, gas2, ret, err)" by (rule prod_cases4)
  have f: "frame_run B (fst (Snapshot s)) s2" "gas2 \<le> gas" using assms(3) by (simp_all add: r runs_def)
  show ?thesis
  proof (cases err)
    case None
    have "frame_run B s s2" by (rule frame_run_trans [OF f(1)]) (rule frame_run.snapshot [OF frame_run.stop])
    then show ?thesis using f None by (auto simp: r call_end_def framed_def)
  next
    case (Some e)
    have "kept B (fst (Snapshot s)) s2"
      by (rule frame_run_kept [OF f(1) assms(1)]) (rule kept_sound [OF kept_Snapshot [OF assms(2)]])
    from kept_revert [OF assms(2) this] obtain s3 where
      v: "RevertToSnapshot B (snd (Snapshot s)) s2 = Some s3" "obs B s3 = obs B s" .
    moreover have "frame_run B s s3" by (rule frame_run.revert_to [OF frame_run.stop f(1) v(1)])
    ultimately show ?thesis using f Some by (auto simp: r call_end_def framed_def)
  qed
qed

lemma gas_of_contract [simp]: "c_Gas (SetCallCode a h code c) = c_Gas c" "c_Gas (NewContract r ob v gas) = gas"
    "c_Gas (SetCodeOptionalHash a ch c) = c_Gas c" "AsDelegate c = Some c' \<Longrightarrow> c_Gas c' = c_Gas c"
  by (cases c; auto simp: NewContract_def split: ContractRef.splits)+

lemma runs_interpreter: "interpreter_ok B evm \<Longrightarrow> runs B s (c_Gas c) (e_Run evm c inp ro s)"
  by (cases "e_Run evm c inp ro s") (fastforce simp: interpreter_ok_def runs_def)

lemma runs_precompile: "runs B s gas (run_precompile evm p inp gas s)"
  by (simp add: runs_def run_precompile_def RunPrecompiledContract_def Let_def not_less word_sub_le frame_run.stop split: prod.splits)

lemma runs_code:
  assumes "interpreter_ok B evm"
  shows "runs B s (c_Gas c) (run_code B evm addr c inp ro s)"
proof -
  obtain s1 h where 1: "GetCodeHash B addr s = (s1, h)" by (cases "GetCodeHash B addr s")
  obtain s2 code where 2: "GetCode B addr s1 = (s2, code)" by (cases "GetCode B addr s1")
  have "frame_run B s s1" "frame_run B s1 s2"
    using frame_op [OF sdb_op.intros(21), of B s addr] frame_op [OF sdb_op.intros(20), of B s1 addr] 1 2 by auto
  then have "frame_run B s s2" by (blast intro: frame_run_trans)
  then show ?thesis
    using runs_after [OF runs_interpreter [OF assms, of s2 "SetCallCode addr h code c" inp ro]] by (simp add: run_code_def 1 2)
qed

lemma framed_depth: "framed B s gas (Some (s, None, gas, Some ErrDepth))"
  by (rule framed_intro) (simp_all add: frame_run.stop)

lemma CallCode_framed:
  assumes "backend_ok B" "interpreter_ok B evm" "sound B s"
  shows "framed B s gas (CallCode B evm caller addr inp gas val s)"
proof -
  obtain s1 can where c: "CanTransfer B (ref_Address caller) val s = (s1, can)" by (cases "CanTransfer B (ref_Address caller) val s")
  have 1: "frame_run B s s1" "obs B s1 = obs B s" using CanTransfer_frame [OF assms(3), of "ref_Address caller" val] c by simp_all
  have s1: "sound B s1" by (rule frame_sound [OF 1(1) assms(1,3)])
  let ?c = "NewContract caller (AccountRef (ref_Address caller)) (Some val) gas"
  have "runs B (fst (Snapshot s1)) gas (case precompile evm addr of Some p \<Rightarrow> run_precompile evm p inp gas (fst (Snapshot s1))
      | None \<Rightarrow> run_code B evm addr ?c inp False (fst (Snapshot s1)))"
    using runs_code [OF assms(2), of "fst (Snapshot s1)" ?c] by (simp add: runs_precompile split: option.splits)
  from framed_after [OF call_end_framed [OF assms(1) s1 this] 1] show ?thesis
    using 1 by (auto simp: CallCode_def c case_prod_beta framed_depth intro: framed_intro)
qed

lemma StaticCall_framed:
  assumes "backend_ok B" "interpreter_ok B evm" "sound B s"
  shows "framed B s gas (StaticCall B evm caller addr inp gas s)"
proof -
  let ?s = "fst (Snapshot s)" and ?c = "NewContract caller (AccountRef addr) (Some 0) gas"
  have "runs B (AddBalance B addr 0 ?s) gas (case precompile evm addr of Some p \<Rightarrow> run_precompile evm p inp gas (AddBalance B addr 0 ?s)
      | None \<Rightarrow> run_code B evm addr ?c inp True (AddBalance B addr 0 ?s))"
    using runs_code [OF assms(2), of _ ?c] by (simp add: runs_precompile split: option.splits)
  then have "runs B ?s gas (case precompile evm addr of Some p \<Rightarrow> run_precompile evm p inp gas (AddBalance B addr 0 ?s)
      | None \<Rightarrow> run_code B evm addr ?c inp True (AddBalance B addr 0 ?s))"
    by (rule runs_after) (rule frame_op [OF sdb_op.intros(1)])
  from call_end_framed [OF assms(1,3) this] show ?thesis
    by (simp add: StaticCall_def case_prod_beta framed_depth Let_def)
qed

lemma DelegateCall_framed:
  assumes "backend_ok B" "interpreter_ok B evm" "sound B s" "caller = ContractOf parent"
  shows "framed B s gas (DelegateCall B evm caller addr inp gas s)"
proof -
  let ?s = "fst (Snapshot s)"
  obtain c where c: "AsDelegate (NewContract caller (AccountRef (ref_Address caller)) None gas) = Some c" "c_Gas c = gas"
    using assms(4) by (simp add: NewContract_def)
  have "runs B ?s gas (run_precompile evm p inp gas ?s)" for p by (rule runs_precompile)
  moreover have "runs B ?s gas (run_code B evm addr c inp False ?s)" using runs_code [OF assms(2), of ?s c] c(2) by simp
  ultimately show ?thesis
    using call_end_framed [OF assms(1,3)] by (simp add: DelegateCall_def c(1) case_prod_beta framed_depth split: option.splits)
qed

lemma Call_framed:
  assumes "backend_ok B" "interpreter_ok B evm" "sound B s"
  shows "framed B s gas (Call B evm caller addr inp gas val s)"
proof -
  obtain s1 can where c: "(if val \<noteq> 0 then CanTransfer B (ref_Address caller) val s else (s, True)) = (s1, can)" by fastforce
  have 1: "frame_run B s s1" "obs B s1 = obs B s"
    using CanTransfer_frame [OF assms(3), of "ref_Address caller" val] c by (auto simp: frame_run.stop split: if_splits)
  have s1: "sound B s1" by (rule frame_sound [OF 1(1) assms(1,3)])
  obtain sn sid where S: "Snapshot s1 = (sn, sid)" by (cases "Snapshot s1")
  obtain s2 ex where e: "Exist B addr sn = (s2, ex)" by (cases "Exist B addr sn")
  define s3 where "s3 = Transfer B (ref_Address caller) addr val (if ex then s2 else CreateAccount B addr s2)"
  then have s3T: "ex \<Longrightarrow> Transfer B (ref_Address caller) addr val s2 = s3"
      "\<not> ex \<Longrightarrow> Transfer B (ref_Address caller) addr val (CreateAccount B addr s2) = s3" by simp_all
  obtain s4 code where g: "GetCode B addr s3 = (s4, code)" by (cases "GetCode B addr s3")
  obtain s5 h where h: "GetCodeHash B addr s4 = (s5, h)" by (cases "GetCodeHash B addr s4")
  let ?c = "SetCallCode addr h code (NewContract caller (AccountRef addr) (Some val) gas)"
  let ?r = "case precompile evm addr of Some p \<Rightarrow> run_precompile evm p inp gas s3
      | None \<Rightarrow> if nil_len code = 0 then (s4, gas, None, None) else e_Run evm ?c inp False s5"
  have f: "frame_run B sn s2" "frame_run B s3 s4" "frame_run B s4 s5"
    using frame_op [OF sdb_op.intros(16), of B sn addr] frame_op [OF sdb_op.intros(20), of B s3 addr]
      frame_op [OF sdb_op.intros(21), of B s4 addr] e g h by simp_all
  have "frame_run B s2 s3"
    unfolding s3_def by (rule frame_run_trans [OF Transfer_frame]) (simp add: frame_run.stop frame_op [OF sdb_op.intros(7)])
  with f have to: "frame_run B sn s3" "frame_run B sn s4" "frame_run B sn s5"
    by (blast intro: frame_run_trans)+
  have "runs B sn gas (run_precompile evm p inp gas s3)" for p by (rule runs_after [OF runs_precompile to(1)])
  moreover have "runs B sn gas (s4, gas, None, None)" using to(2) by (simp add: runs_def)
  moreover have "runs B sn gas (e_Run evm ?c inp False s5)"
    using runs_after [OF runs_interpreter [OF assms(2), of s5 ?c inp False] to(3)] by simp
  ultimately have "runs B sn gas ?r" by (simp split: option.splits)
  with framed_after [OF call_end_framed [OF assms(1) s1] 1] S
  have fin: "framed B s gas (call_end B sid ?r)" by simp
  have "frame_run B s1 sn" using frame_run.snapshot [OF frame_run.stop, of B s1] by (simp add: S)
  then have "frame_run B s s2" using 1(1) f(1) by (blast intro: frame_run_trans)
  then have fin0: "framed B s gas (Some (s2, None, gas, None))" by (rule framed_intro) simp_all
  have eq: "Call B evm caller addr inp gas val s =
      (if e_depth evm > CallCreateDepth then Some (s, None, gas, Some ErrDepth)
       else if \<not> can then Some (s1, None, gas, Some ErrInsufficientBalance)
       else if \<not> ex \<and> precompile evm addr = None \<and> r_IsEIP158 (e_chainRules evm) \<and> val = 0 then Some (s2, None, gas, None)
       else call_end B sid ?r)"
    by (cases ex; cases "precompile evm addr") (simp_all add: Call_def c S e g h Let_def s3T)
  have fin1: "framed B s gas (Some (s1, None, gas, Some ErrInsufficientBalance))" using 1 by (simp add: framed_intro)
  show ?thesis by (simp only: eq fin fin0 fin1 framed_depth if_True if_False split: if_split) simp
qed

text \<open>What a failed creation may leave behind: the creator's nonce counted up.\<close>

definition only_nonce :: "('t, 'e) backend \<Rightarrow> address \<Rightarrow> ('t, 'e) StateDB \<Rightarrow> ('t, 'e) StateDB \<Rightarrow> bool" where
  "only_nonce B c s s' \<longleftrightarrow> (\<forall>b. snd (GetBalance B b s') = snd (GetBalance B b s))
     \<and> (\<forall>b. b \<noteq> c \<longrightarrow> ob_account (obs B s') b = ob_account (obs B s) b)
     \<and> (snd (GetNonce B c s') = snd (GetNonce B c s) \<or> snd (GetNonce B c s') = snd (GetNonce B c s) + 1)"

lemma only_nonce_refl: "obs B s' = obs B s \<Longrightarrow> only_nonce B c s s'"
  by (simp add: only_nonce_def getter_obs)

lemma only_nonce_cong: "obs B s2 = obs B s1 \<Longrightarrow> obs B s2' = obs B s1' \<Longrightarrow> only_nonce B c s1 s1' \<Longrightarrow> only_nonce B c s2 s2'"
  by (simp add: only_nonce_def getter_obs)

lemma accessList_accounts: "ob_account (obs B (AddAddressToAccessList a s)) = ob_account (obs B s)"
  by (auto simp: AddAddressToAccessList_def Let_def account_def journal_append_def split: prod.splits)

lemma SetNonce_only:
  assumes "backend_ok B" "sound B s"
  shows "only_nonce B c s (AddAddressToAccessList a (SetNonce B c (snd (GetNonce B c s) + 1) s))"
    "only_nonce B c s (SetNonce B c (snd (GetNonce B c s) + 1) s)"
proof -
  have ok: "obs_ok (obs B s)" using assms(2) by (simp add: sound_def)
  let ?n = "snd (GetNonce B c s) + 1"
  obtain s1 obj where g: "GetOrNewStateObject B c s = (s1, obj)" by (cases "GetOrNewStateObject B c s")
  note n = GetOrNew_obs [OF assms(1) ok g]
  have "ob_account (obs B (SetNonce B c ?n s)) b = ob_account (obs B s) b" if "b \<noteq> c" for b
    using n(1) n(6) [OF that] that by (simp add: SetNonce_def g so_SetNonce_def obs_set)
  then show "only_nonce B c s (SetNonce B c ?n s)"
    using SetNonce_effect [OF assms(1) ok] by (simp add: only_nonce_def)
  then show "only_nonce B c s (AddAddressToAccessList a (SetNonce B c ?n s))"
    by (simp add: only_nonce_def getter_obs ob_live_def accessList_accounts)
qed

lemma store_code_runs: "runs B s gas r \<Longrightarrow> runs B s gas (store_code B rules a r)"
proof -
  assume "runs B s gas r"
  then have r: "frame_run B s (fst r)" "fst (snd r) \<le> gas" by (simp_all add: runs_def)
  have "frame_run B s (SetCode B a ret (fst r))" for ret by (rule frame_run.op [OF r(1)]) (rule sdb_op.intros)
  moreover have "UseGas have need = (g, ok) \<Longrightarrow> have \<le> gas \<Longrightarrow> g \<le> gas" for "have" need g ok
    by (auto simp: UseGas_def not_less intro: order_trans [OF word_sub_le] split: if_splits)
  ultimately show ?thesis using r
    by (auto simp: store_code_def runs_def Let_def split: prod.splits bool.splits)
qed

definition created :: "('t, 'e) backend \<Rightarrow> Rules \<Rightarrow> address \<Rightarrow> ('t, 'e) StateDB \<Rightarrow> u64 \<Rightarrow>
    (('t, 'e) StateDB \<times> bytes option \<times> address \<times> u64 \<times> vm_err option) option \<Rightarrow> bool" where
  "created B rules c s gas r \<longleftrightarrow> (\<exists>s' ret a gas' err. r = Some (s', ret, a, gas', err) \<and> frame_run B s s' \<and> gas' \<le> gas
     \<and> (err \<noteq> None \<and> (r_IsHomestead rules \<or> err \<noteq> Some ErrCodeStoreOutOfGas) \<longrightarrow> only_nonce B c s s'))"

lemma created_intro:
  "frame_run B s s' \<Longrightarrow> gas' \<le> gas \<Longrightarrow> only_nonce B c s s' \<or> err = None \<or> \<not> r_IsHomestead rules \<and> err = Some ErrCodeStoreOutOfGas \<Longrightarrow>
     created B rules c s gas (Some (s', ret, a, gas', err))"
  by (auto simp: created_def)

text \<open>The tail of a creation, from the snapshot on.\<close>

lemma create_end:
  assumes "backend_ok B" "sound B s1" "frame_run B s s1" "only_nonce B c s s1" "runs B (fst (Snapshot s1)) gas r"
  shows "created B rules c s gas (case r of (s2, g, ret, err) \<Rightarrow>
      if err \<noteq> None \<and> (r_IsHomestead rules \<or> err \<noteq> Some ErrCodeStoreOutOfGas) then
        map_option (\<lambda>s. (s, ret, a, if err \<noteq> Some ErrExecutionReverted then fst (UseGas g g) else g, err))
          (RevertToSnapshot B (snd (Snapshot s1)) s2)
      else Some (s2, ret, a, g, err))"
proof -
  obtain s2 g ret err where r: "r = (s2, g, ret, err)" by (rule prod_cases4)
  have f: "frame_run B (fst (Snapshot s1)) s2" "g \<le> gas" using assms(5) by (simp_all add: r runs_def)
  have "frame_run B s1 s2" by (rule frame_run_trans [OF f(1)]) (rule frame_run.snapshot [OF frame_run.stop])
  then have f2: "frame_run B s s2" by (rule frame_run_trans [OF _ assms(3)])
  have "kept B (fst (Snapshot s1)) s2"
    by (rule frame_run_kept [OF f(1) assms(1)]) (rule kept_sound [OF kept_Snapshot [OF assms(2)]])
  from kept_revert [OF assms(2) this] obtain s3 where
    v: "RevertToSnapshot B (snd (Snapshot s1)) s2 = Some s3" "obs B s3 = obs B s1" .
  have "frame_run B s s3" by (rule frame_run.revert_to [OF assms(3) f(1) v(1)])
  moreover have "only_nonce B c s s3" by (rule only_nonce_cong [OF refl v(2) assms(4)])
  ultimately show ?thesis using f(2) f2 v(1) by (auto simp: r UseGas_def intro!: created_intro)
qed

text \<open>The steps before the snapshot: the nonce, the access list and the check for a collision.\<close>

lemma create_before:
  assumes "backend_ok B" "sound B s2" "nonce = snd (GetNonce B c s2)"
    and s3: "s3 = (if berlin then AddAddressToAccessList a (SetNonce B c (nonce + 1) s2) else SetNonce B c (nonce + 1) s2)"
    and 4: "GetCodeHash B a s3 = (s4, h)" and 5: "GetNonce B a s4 = (s5, n)"
  shows "frame_run B s2 s5" "sound B s5" "only_nonce B c s2 s5"
proof -
  have f3: "frame_run B s2 s3" "only_nonce B c s2 s3"
    using SetNonce_only [OF assms(1,2), of c] frame_op [OF sdb_op.intros(4), of B s2 c "nonce + 1"]
      frame_run.op [OF frame_op [OF sdb_op.intros(4), of B s2 c "nonce + 1"] sdb_op.intros(14), of a]
    by (simp_all add: s3 assms(3))
  have k3: "sound B s3" by (rule frame_sound [OF f3(1) assms(1,2)])
  have f4: "frame_run B s3 s4" "obs B s4 = obs B s3"
    using frame_op [OF sdb_op.intros(21), of B s3 a] getters_obs(4) [OF k3, of a] 4 by simp_all
  have k4: "sound B s4" by (rule frame_sound [OF f4(1) assms(1) k3])
  have f5: "frame_run B s4 s5" "obs B s5 = obs B s4"
    using frame_op [OF sdb_op.intros(19), of B s4 a] getters_obs(2) [OF k4, of a] 5 by simp_all
  show "sound B s5" by (rule frame_sound [OF f5(1) assms(1) k4])
  show "frame_run B s2 s5" using f3(1) f4(1) f5(1) by (blast intro: frame_run_trans)
  show "only_nonce B c s2 s5" by (rule only_nonce_cong [OF refl _ f3(2)]) (use f4(2) f5(2) in simp)
qed

lemma create_created:
  assumes "backend_ok B" "interpreter_ok B evm" "sound B s"
  shows "created B (e_chainRules evm) (ref_Address caller) s gas (create B evm caller ch gas val address s)"
proof -
  let ?c = "ref_Address caller" and ?rules = "e_chainRules evm"
  obtain s1 can where 1: "CanTransfer B ?c val s = (s1, can)" by (cases "CanTransfer B ?c val s")
  obtain s2 nonce where 2: "GetNonce B ?c s1 = (s2, nonce)" by (cases "GetNonce B ?c s1")
  define s3 where "s3 = (if r_IsBerlin ?rules then AddAddressToAccessList address (SetNonce B ?c (nonce + 1) s2) else SetNonce B ?c (nonce + 1) s2)"
  obtain s4 h where 4: "GetCodeHash B address s3 = (s4, h)" by (cases "GetCodeHash B address s3")
  obtain s5 n where 5: "GetNonce B address s4 = (s5, n)" by (cases "GetNonce B address s4")
  have f1: "frame_run B s s1" "obs B s1 = obs B s" using CanTransfer_frame [OF assms(3), of ?c val] 1 by simp_all
  have k1: "sound B s1" by (rule frame_sound [OF f1(1) assms(1,3)])
  have f2: "frame_run B s1 s2" "obs B s2 = obs B s1"
    using frame_op [OF sdb_op.intros(19), of B s1 ?c] getters_obs(2) [OF k1, of ?c] 2 by simp_all
  have k2: "sound B s2" by (rule frame_sound [OF f2(1) assms(1) k1])
  have n2: "nonce = snd (GetNonce B ?c s2)" using 2 f2(2) by (metis getter_obs(2) snd_conv)
  note b = create_before [OF assms(1) k2 n2 s3_def 4 5]
  have to2: "frame_run B s s2" and to5: "frame_run B s s5" using f1(1) f2(1) b(1) by (blast intro: frame_run_trans)+
  have o2: "obs B s2 = obs B s" using f1(2) f2(2) by simp
  have o5: "only_nonce B ?c s s5" by (rule only_nonce_cong [OF o2 [symmetric] refl b(3)])
  obtain sn sid where S: "Snapshot s5 = (sn, sid)" by (cases "Snapshot s5")
  define s6 where "s6 = (if r_IsEIP158 ?rules then SetNonce B address 1 (CreateAccount B address sn) else CreateAccount B address sn)"
  have "frame_run B sn s6"
    using frame_op [OF sdb_op.intros(7), of B sn address] frame_run.op [OF frame_op [OF sdb_op.intros(7), of B sn address] sdb_op.intros(4)]
    by (simp add: s6_def)
  then have to6: "frame_run B sn (Transfer B ?c address val s6)" by (rule frame_run_trans [OF Transfer_frame])
  let ?k = "SetCodeOptionalHash address ch (NewContract caller (AccountRef address) (Some val) gas)"
  have "runs B sn gas (store_code B ?rules address (e_Run evm ?k [] False (Transfer B ?c address val s6)))"
    using store_code_runs [OF runs_after [OF runs_interpreter [OF assms(2), of _ ?k] to6]] by simp
  from create_end [OF assms(1) b(2) to5 o5, unfolded S fst_conv snd_conv, OF this]
  have fin: "created B ?rules ?c s gas (case store_code B ?rules address (e_Run evm ?k [] False (Transfer B ?c address val s6)) of (s2, g, ret, err) \<Rightarrow>
      if err \<noteq> None \<and> (r_IsHomestead ?rules \<or> err \<noteq> Some ErrCodeStoreOutOfGas) then
        map_option (\<lambda>s. (s, ret, address, if err \<noteq> Some ErrExecutionReverted then fst (UseGas g g) else g, err)) (RevertToSnapshot B sid s2)
      else Some (s2, ret, address, g, err))" .
  note early = created_intro [OF frame_run.stop order_refl disjI1 [OF only_nonce_refl [OF refl]]]
    created_intro [OF f1(1) order_refl disjI1 [OF only_nonce_refl [OF f1(2)]]]
    created_intro [OF to2 order_refl disjI1 [OF only_nonce_refl]] created_intro [OF to5 word_zero_le disjI1 [OF o5]]
  have s3T: "r_IsBerlin ?rules \<Longrightarrow> AddAddressToAccessList address (SetNonce B ?c (nonce + 1) s2) = s3"
    "\<not> r_IsBerlin ?rules \<Longrightarrow> SetNonce B ?c (nonce + 1) s2 = s3" by (simp_all add: s3_def)
  have s6T: "r_IsEIP158 ?rules \<Longrightarrow> SetNonce B address 1 (CreateAccount B address sn) = s6"
    "\<not> r_IsEIP158 ?rules \<Longrightarrow> CreateAccount B address sn = s6" by (simp_all add: s6_def)
  have eq: "create B evm caller ch gas val address s =
    (if e_depth evm > CallCreateDepth then Some (s, None, zero_address, gas, Some ErrDepth)
     else if \<not> can then Some (s1, None, zero_address, gas, Some ErrInsufficientBalance)
     else if nonce + 1 < nonce then Some (s2, None, zero_address, gas, Some ErrNonceUintOverflow)
     else if n \<noteq> 0 \<or> h \<noteq> zero_hash \<and> h \<noteq> EmptyCodeHash B then Some (s5, None, zero_address, 0, Some ErrContractAddressCollision)
     else (case store_code B ?rules address (e_Run evm ?k [] False (Transfer B ?c address val s6)) of (s2, g, ret, err) \<Rightarrow>
      if err \<noteq> None \<and> (r_IsHomestead ?rules \<or> err \<noteq> Some ErrCodeStoreOutOfGas) then
        map_option (\<lambda>s. (s, ret, address, if err \<noteq> Some ErrExecutionReverted then fst (UseGas g g) else g, err)) (RevertToSnapshot B sid s2)
      else Some (s2, ret, address, g, err)))"
    by (cases "r_IsBerlin ?rules"; cases "r_IsEIP158 ?rules") (simp_all add: create_def 1 2 4 5 S Let_def s3T s6T)
  show ?thesis by (simp only: eq fin early o2 if_True if_False split: if_split) simp
qed

section \<open>Properties\<close>

text \<open>C9: Message calls are frames: with an interpreter that works as a frame and never raises a contract's gas,
  \<open>Call\<close>, \<open>CallCode\<close>, \<open>DelegateCall\<close> from a contract and \<open>StaticCall\<close> never panic, return at most the gas they were
  given, and when they return an error everything observable of the state is as before the call.  They are frames
  themselves, so an interpreter that uses them for nested calls meets the same contract.\<close>

theorem calls_are_frames:
  assumes "backend_ok B" "interpreter_ok B evm" "obs_ok (obs B s)" "rev_inv s"
    and "r \<in> {Call B evm caller addr inp gas val s, CallCode B evm caller addr inp gas val s,
             DelegateCall B evm (ContractOf parent) addr inp gas s, StaticCall B evm caller addr inp gas s}"
  shows "\<exists>s' ret gas' err. r = Some (s', ret, gas', err) \<and> frame_run B s s' \<and> gas' \<le> gas \<and> (err \<noteq> None \<longrightarrow> obs B s' = obs B s)"
proof -
  have "sound B s" using assms(3,4) by (simp add: sound_def)
  note f = Call_framed [OF assms(1,2) this] CallCode_framed [OF assms(1,2) this] StaticCall_framed [OF assms(1,2) this]
    DelegateCall_framed [OF assms(1,2) this refl]
  have "framed B s gas r" using assms(5) f by blast
  then show ?thesis by (simp add: framed_def)
qed

definition sample_evm :: "(unit, string) EVM" where
  "sample_evm =
     \<lparr>e_Context = \<lparr>bc_Coinbase = replicate 20 9, bc_GasLimit = 30000000, bc_BlockNumber = 1, bc_Time = 0, bc_Difficulty = 0,
        bc_BaseFee = Some 7, bc_Random = None\<rparr>,
      e_TxContext = \<lparr>tc_Origin = replicate 20 1, tc_GasPrice = 10\<rparr>, e_depth = 0, e_chainConfig = london_config 1,
      e_chainRules = config_Rules (london_config 1) (Some 1) False 0, e_NoBaseFee = False,
      e_Run = (\<lambda>c inp ro s. (s, c_Gas c, None, None)),
      e_pc = \<lparr>pc_RequiredGas = (\<lambda>_ _. 15), pc_Run = (\<lambda>_ inp. (Some inp, None))\<rparr>\<rparr>"

lemma sample_evm_ok: "interpreter_ok sample_backend sample_evm"
  by (simp add: interpreter_ok_def sample_evm_def frame_run.stop)

theorem calls_are_frames_witness:
  "\<exists>s' ret gas' err. Call sample_backend sample_evm (AccountRef (replicate 20 1)) (replicate 20 2) [] 100 5 StateDB_New = Some (s', ret, gas', err)
     \<and> gas' \<le> 100 \<and> err = Some ErrInsufficientBalance \<and> obs sample_backend s' = obs sample_backend StateDB_New"
proof -
  let ?c = "Call sample_backend sample_evm (AccountRef (replicate 20 1)) (replicate 20 2) [] 100 5 StateDB_New"
  have "sdb_inv sample_backend (StateDB_New :: (unit, string) StateDB)" by (rule New_inv [OF sample_backend_ok])
  then have ok: "obs_ok (obs sample_backend (StateDB_New :: (unit, string) StateDB))" "rev_inv (StateDB_New :: (unit, string) StateDB)"
    by (simp_all add: sdb_inv_def)
  have "\<exists>s'. ?c = Some (s', None, 100, Some ErrInsufficientBalance)"
    by (simp add: Call_def sample_evm_def CallCreateDepth_def CanTransfer_def GetBalance_def getStateObject_def
        getDeletedStateObject_def StateDB_New_def snap_read_def sample_backend_def)
  then obtain s' where s': "?c = Some (s', None, 100, Some ErrInsufficientBalance)" ..
  then have "Some (s', None, 100, Some ErrInsufficientBalance) \<in> {?c, CallCode sample_backend sample_evm (AccountRef (replicate 20 1)) (replicate 20 2) [] 100 5 StateDB_New,
      DelegateCall sample_backend sample_evm (ContractOf (NewContract (AccountRef []) (AccountRef []) None 0)) (replicate 20 2) [] 100 StateDB_New,
      StaticCall sample_backend sample_evm (AccountRef (replicate 20 1)) (replicate 20 2) [] 100 StateDB_New}" by simp
  from calls_are_frames [OF sample_backend_ok sample_evm_ok ok this] s' show ?thesis by auto
qed



end
