(* ===== verification/State_Transition.thy ===== *)
theory State_Transition
  imports Evm_Call
begin

text \<open>
  Applying a message to the state (\<^verbatim>\<open>core/state_transition.go\<close>, \<^verbatim>\<open>core/gaspool.go\<close>, \<open>Prepare\<close> of
  \<^verbatim>\<open>core/state/statedb.go\<close>): the block's gas pool, the intrinsic gas of a message, the checks made before a
  message is run, buying and refunding gas, and paying the fee.  Gas is counted in 64-bit words, ether in
  unbounded integers.  A nil dereference and the panic of the gas pool are \<open>None\<close>.
\<close>

section \<open>Definitions\<close>

subsection \<open>The gas pool\<close>

datatype core_err =
    ErrGasLimitReached | ErrInsufficientFunds | ErrNonceTooHigh | ErrNonceTooLow | ErrNonceMax | ErrSenderNoEOA
  | ErrFeeCapVeryHigh | ErrTipVeryHigh | ErrTipAboveFeeCap | ErrFeeCapTooLow | ErrGasUintOverflow | ErrIntrinsicGas
  | ErrInsufficientFundsForTransfer | ErrMaxInitCodeSizeExceeded

definition AddGas :: "u64 \<Rightarrow> u64 \<Rightarrow> u64 option" where
  "AddGas amount gp = (if gp > - 1 - amount then None else Some (gp + amount))"

definition SubGas :: "u64 \<Rightarrow> u64 \<Rightarrow> core_err + u64" where
  "SubGas amount gp = (if gp < amount then Err ErrGasLimitReached else Ok (gp - amount))"

subsection \<open>Intrinsic gas\<close>

definition TxGas :: u64 where "TxGas = 21000"
definition TxGasContractCreation :: u64 where "TxGasContractCreation = 53000"
definition TxDataZeroGas :: u64 where "TxDataZeroGas = 4"
definition TxDataNonZeroGasFrontier :: u64 where "TxDataNonZeroGasFrontier = 68"
definition TxDataNonZeroGasEIP2028 :: u64 where "TxDataNonZeroGasEIP2028 = 16"
definition InitCodeWordGas :: u64 where "InitCodeWordGas = 2"
definition TxAccessListAddressGas :: u64 where "TxAccessListAddressGas = 2400"
definition TxAccessListStorageKeyGas :: u64 where "TxAccessListStorageKeyGas = 1900"
definition MaxInitCodeSize :: nat where "MaxInitCodeSize = 2 * MaxCodeSize"

text \<open>\<open>math.MaxUint64\<close> is \<open>- 1\<close>.\<close>

definition toWordSize :: "u64 \<Rightarrow> u64" where
  "toWordSize n = (if n > - 1 - 31 then (- 1) div 32 + 1 else (n + 31) div 32)"

definition StorageKeys :: "AccessTuple list \<Rightarrow> nat" where
  "StorageKeys al = sum_list (map (\<lambda>t. length (at_StorageKeys t)) al)"

text \<open>Adding \<open>n\<close> units of a price, refused when the sum would not fit.\<close>

definition charge :: "u64 \<Rightarrow> u64 \<Rightarrow> u64 \<Rightarrow> core_err + u64" where
  "charge price n gas = (if (- 1 - gas) div price < n then Err ErrGasUintOverflow else Ok (gas + n * price))"

definition IntrinsicGas :: "bytes \<Rightarrow> AccessTuple list \<Rightarrow> bool \<Rightarrow> bool \<Rightarrow> bool \<Rightarrow> bool \<Rightarrow> core_err + u64" where
  "IntrinsicGas dat accessList isContractCreation isHomestead isEIP2028 isEIP3860 =
     (let gas = (if isContractCreation \<and> isHomestead then TxGasContractCreation else TxGas);
          dataLen = (of_nat (length dat) :: u64);
          withData =
            (if dataLen > 0 then
               let nz = of_nat (length (filter (\<lambda>b. b \<noteq> 0) dat));
                   nonZeroGas = (if isEIP2028 then TxDataNonZeroGasEIP2028 else TxDataNonZeroGasFrontier)
               in case charge nonZeroGas nz gas of Err e \<Rightarrow> Err e
                  | Ok gas \<Rightarrow> (case charge TxDataZeroGas (dataLen - nz) gas of Err e \<Rightarrow> Err e
                      | Ok gas \<Rightarrow> if isContractCreation \<and> isEIP3860 then charge InitCodeWordGas (toWordSize dataLen) gas else Ok gas)
             else Ok gas)
      in case withData of Err e \<Rightarrow> Err e
         | Ok gas \<Rightarrow> Ok (gas + of_nat (length accessList) * TxAccessListAddressGas
                           + of_nat (StorageKeys accessList) * TxAccessListStorageKeyGas))"

subsection \<open>Messages\<close>

record Message =
  m_To :: "address option"
  m_From :: address
  m_Nonce :: u64
  m_Value :: int
  m_GasLimit :: u64
  m_GasPrice :: int
  m_GasFeeCap :: "int option"
  m_GasTipCap :: int
  m_Data :: bytes
  m_AccessList :: "AccessTuple list"
  m_SkipAccountChecks :: bool

definition TransactionToMessage :: "'k crypto \<Rightarrow> TxData \<Rightarrow> Signer \<Rightarrow> int option \<Rightarrow> sig_err + Message" where
  "TransactionToMessage C tx s baseFee =
     (let price = (case baseFee of None \<Rightarrow> tx_gasPrice tx | Some bf \<Rightarrow> min (tx_gasTipCap tx + bf) (tx_gasFeeCap tx))
      in case signer_Sender C s tx of Err e \<Rightarrow> Err e
         | Ok sender \<Rightarrow>
             Ok \<lparr>m_To = tx_to tx, m_From = sender, m_Nonce = tx_nonce tx, m_Value = tx_value tx, m_GasLimit = tx_gas tx,
                 m_GasPrice = price, m_GasFeeCap = Some (tx_gasFeeCap tx), m_GasTipCap = tx_gasTipCap tx,
                 m_Data = tx_data tx, m_AccessList = tx_accessList tx, m_SkipAccountChecks = False\<rparr>)"

record ('t, 'e) StateTransition =
  st_gp :: u64
  st_gasRemaining :: u64
  st_initialGas :: u64
  st_state :: "('t, 'e) StateDB"

definition NewStateTransition :: "u64 \<Rightarrow> ('t, 'e) StateDB \<Rightarrow> ('t, 'e) StateTransition" where
  "NewStateTransition gp s = \<lparr>st_gp = gp, st_gasRemaining = 0, st_initialGas = 0, st_state = s\<rparr>"

definition st_to :: "Message \<Rightarrow> address" where
  "st_to msg = (case m_To msg of None \<Rightarrow> zero_address | Some a \<Rightarrow> a)"

definition gasUsed :: "('t, 'e) StateTransition \<Rightarrow> u64" where
  "gasUsed st = st_initialGas st - st_gasRemaining st"

definition buyGas :: "('t, 'e) backend \<Rightarrow> Message \<Rightarrow> ('t, 'e) StateTransition \<Rightarrow> ('t, 'e) StateTransition \<times> core_err option" where
  "buyGas B msg st =
     (let mgval = uint (m_GasLimit msg) * m_GasPrice msg;
          balanceCheck = (case m_GasFeeCap msg of None \<Rightarrow> mgval | Some cap \<Rightarrow> uint (m_GasLimit msg) * cap + m_Value msg)
      in case GetBalance B (m_From msg) (st_state st) of (s, have) \<Rightarrow>
         let st = st\<lparr>st_state := s\<rparr>
         in if have < balanceCheck then (st, Some ErrInsufficientFunds)
            else (case SubGas (m_GasLimit msg) (st_gp st) of Err e \<Rightarrow> (st, Some e)
                  | Ok gp \<Rightarrow> (st\<lparr>st_gp := gp, st_gasRemaining := st_gasRemaining st + m_GasLimit msg,
                               st_initialGas := m_GasLimit msg, st_state := SubBalance B (m_From msg) mgval s\<rparr>, None)))"

text \<open>The nonce and the sender's code, unless the message asks to skip these checks.\<close>

definition account_checks :: "('t, 'e) backend \<Rightarrow> Message \<Rightarrow> ('t, 'e) StateDB \<Rightarrow> ('t, 'e) StateDB \<times> core_err option" where
  "account_checks B msg s =
     (if m_SkipAccountChecks msg then (s, None)
      else case GetNonce B (m_From msg) s of (s, stNonce) \<Rightarrow>
        if stNonce < m_Nonce msg then (s, Some ErrNonceTooHigh)
        else if stNonce > m_Nonce msg then (s, Some ErrNonceTooLow)
        else if stNonce + 1 < stNonce then (s, Some ErrNonceMax)
        else (case GetCodeHash B (m_From msg) s of (s, codeHash) \<Rightarrow>
          if codeHash \<noteq> zero_hash \<and> codeHash \<noteq> EmptyCodeHash B then (s, Some ErrSenderNoEOA) else (s, None)))"

text \<open>The fee caps after London; both the cap and the base fee are dereferenced.\<close>

definition fee_checks :: "('t, 'e) EVM \<Rightarrow> Message \<Rightarrow> core_err option option" where
  "fee_checks evm msg =
     (if \<not> IsLondon (e_chainConfig evm) (Some (bc_BlockNumber (e_Context evm))) then Some None
      else case m_GasFeeCap msg of None \<Rightarrow> None
      | Some cap \<Rightarrow>
          if \<not> (\<not> e_NoBaseFee evm \<or> bigBitLen cap > 0 \<or> bigBitLen (m_GasTipCap msg) > 0) then Some None
          else if bigBitLen cap > 256 then Some (Some ErrFeeCapVeryHigh)
          else if bigBitLen (m_GasTipCap msg) > 256 then Some (Some ErrTipVeryHigh)
          else if cap < m_GasTipCap msg then Some (Some ErrTipAboveFeeCap)
          else (case bc_BaseFee (e_Context evm) of None \<Rightarrow> None
                | Some baseFee \<Rightarrow> Some (if cap < baseFee then Some ErrFeeCapTooLow else None)))"

definition preCheck :: "('t, 'e) backend \<Rightarrow> ('t, 'e) EVM \<Rightarrow> Message \<Rightarrow> ('t, 'e) StateTransition \<Rightarrow>
    (('t, 'e) StateTransition \<times> core_err option) option" where
  "preCheck B evm msg st =
     (case account_checks B msg (st_state st) of
        (s, Some e) \<Rightarrow> Some (st\<lparr>st_state := s\<rparr>, Some e)
      | (s, None) \<Rightarrow>
          (case fee_checks evm msg of None \<Rightarrow> None
           | Some (Some e) \<Rightarrow> Some (st\<lparr>st_state := s\<rparr>, Some e)
           | Some None \<Rightarrow> Some (buyGas B msg (st\<lparr>st_state := s\<rparr>))))"

subsection \<open>Running a message\<close>

text \<open>The access list of a transaction, built without journal entries.\<close>

definition Prepare :: "Rules \<Rightarrow> address \<Rightarrow> address \<Rightarrow> address option \<Rightarrow> address list \<Rightarrow> AccessTuple list \<Rightarrow> ('t, 'e) StateDB \<Rightarrow> ('t, 'e) StateDB" where
  "Prepare rules sender coinbase dst pcs lst s =
     (let s = (if r_IsBerlin rules then
                 let add = (\<lambda>a al. fst (AddAddress a al));
                     al = add sender newAccessList;
                     al = (case dst of None \<Rightarrow> al | Some d \<Rightarrow> add d al);
                     al = fold add pcs al;
                     al = fold (\<lambda>el al. fold (\<lambda>key al. fst (AddSlot (at_Address el) key al)) (at_StorageKeys el) (add (at_Address el) al)) lst al;
                     al = (if r_IsShanghai rules then add coinbase al else al)
                 in s\<lparr>sdb_accessList := al\<rparr>
               else s)
      in s\<lparr>sdb_transient := newTransientStorage\<rparr>)"

definition RefundQuotient :: u64 where "RefundQuotient = 2"
definition RefundQuotientEIP3529 :: u64 where "RefundQuotientEIP3529 = 5"

definition refundGas :: "('t, 'e) backend \<Rightarrow> Message \<Rightarrow> u64 \<Rightarrow> ('t, 'e) StateTransition \<Rightarrow> ('t, 'e) StateTransition option" where
  "refundGas B msg refundQuotient st =
     (let refund = gasUsed st div refundQuotient;
          refund = (if refund > sdb_refund (st_state st) then sdb_refund (st_state st) else refund);
          st = st\<lparr>st_gasRemaining := st_gasRemaining st + refund\<rparr>;
          st = st\<lparr>st_state := AddBalance B (m_From msg) (uint (st_gasRemaining st) * m_GasPrice msg) (st_state st)\<rparr>
      in map_option (\<lambda>gp. st\<lparr>st_gp := gp\<rparr>) (AddGas (st_gasRemaining st) (st_gp st)))"

record ExecutionResult =
  er_UsedGas :: u64
  er_Err :: "vm_err option"
  er_ReturnData :: "bytes option"

text \<open>The message call or creation at the top of the transaction.\<close>

definition execute :: "('t, 'e) backend \<Rightarrow> ('t, 'e) EVM \<Rightarrow> Message \<Rightarrow> u64 \<Rightarrow> ('t, 'e) StateDB \<Rightarrow>
    (('t, 'e) StateDB \<times> bytes option \<times> u64 \<times> vm_err option) option" where
  "execute B evm msg gas s =
     (let sender = AccountRef (m_From msg)
      in case m_To msg of
           None \<Rightarrow> map_option (\<lambda>(s, ret, _, gas, err). (s, ret, gas, err)) (Create B evm sender (m_Data msg) gas (m_Value msg) s)
         | Some _ \<Rightarrow>
             (case GetNonce B (ref_Address sender) s of (s, nonce) \<Rightarrow>
                Call B evm sender (st_to msg) (m_Data msg) gas (m_Value msg) (SetNonce B (m_From msg) (nonce + 1) s)))"

text \<open>The fee of the miner: the tip of every unit of gas used.  \<open>None\<close> when the fee cap or the base fee is nil.\<close>

definition effectiveTip :: "('t, 'e) EVM \<Rightarrow> Rules \<Rightarrow> Message \<Rightarrow> int option" where
  "effectiveTip evm rules msg =
     (if r_IsLondon rules then
        (case (m_GasFeeCap msg, bc_BaseFee (e_Context evm)) of (Some cap, Some baseFee) \<Rightarrow> Some (min (m_GasTipCap msg) (cap - baseFee)) | _ \<Rightarrow> None)
      else Some (m_GasPrice msg))"

definition payFee :: "('t, 'e) backend \<Rightarrow> ('t, 'e) EVM \<Rightarrow> Rules \<Rightarrow> Message \<Rightarrow> ('t, 'e) StateTransition \<Rightarrow> ('t, 'e) StateTransition option" where
  "payFee B evm rules msg st =
     (case effectiveTip evm rules msg of None \<Rightarrow> None
      | Some tip \<Rightarrow>
          let paid = st\<lparr>st_state := AddBalance B (bc_Coinbase (e_Context evm)) (uint (gasUsed st) * tip) (st_state st)\<rparr>
          in if \<not> e_NoBaseFee evm then Some paid
             else (case m_GasFeeCap msg of None \<Rightarrow> None
                   | Some cap \<Rightarrow> Some (if cap = 0 \<and> m_GasTipCap msg = 0 then st else paid)))"

text \<open>The rules of the block a message is run in.\<close>

definition msg_rules :: "('t, 'e) EVM \<Rightarrow> Rules" where
  "msg_rules evm = config_Rules (e_chainConfig evm) (Some (bc_BlockNumber (e_Context evm))) (bc_Random (e_Context evm) \<noteq> None) (bc_Time (e_Context evm))"

definition TransitionDb :: "('t, 'e) backend \<Rightarrow> ('t, 'e) EVM \<Rightarrow> Message \<Rightarrow> ('t, 'e) StateTransition \<Rightarrow>
    (('t, 'e) StateTransition \<times> (core_err + ExecutionResult)) option" where
  "TransitionDb B evm msg st =
     (case preCheck B evm msg st of None \<Rightarrow> None
      | Some (st, Some e) \<Rightarrow> Some (st, Err e)
      | Some (st, None) \<Rightarrow>
          let ctx = e_Context evm;
              rules = msg_rules evm;
              contractCreation = m_To msg = None
          in case IntrinsicGas (m_Data msg) (m_AccessList msg) contractCreation (r_IsHomestead rules) (r_IsIstanbul rules) (r_IsShanghai rules) of
               Err e \<Rightarrow> Some (st, Err e)
             | Ok gas \<Rightarrow>
                 if st_gasRemaining st < gas then Some (st, Err ErrIntrinsicGas)
                 else
                   let st = st\<lparr>st_gasRemaining := st_gasRemaining st - gas\<rparr>
                   in case (if m_Value msg > 0 then CanTransfer B (m_From msg) (m_Value msg) (st_state st) else (st_state st, True)) of (s, can) \<Rightarrow>
                      let st = st\<lparr>st_state := s\<rparr>
                      in if \<not> can then Some (st, Err ErrInsufficientFundsForTransfer)
                         else if r_IsShanghai rules \<and> contractCreation \<and> length (m_Data msg) > MaxInitCodeSize then Some (st, Err ErrMaxInitCodeSizeExceeded)
                         else
                           let s = Prepare rules (m_From msg) (bc_Coinbase ctx) (m_To msg) (ActivePrecompiles rules) (m_AccessList msg) s
                           in case execute B evm msg (st_gasRemaining st) s of None \<Rightarrow> None
                              | Some (s, ret, gas, vmerr) \<Rightarrow>
                                  (case refundGas B msg (if \<not> r_IsLondon rules then RefundQuotient else RefundQuotientEIP3529)
                                          (st\<lparr>st_state := s, st_gasRemaining := gas\<rparr>) of None \<Rightarrow> None
                                   | Some st \<Rightarrow>
                                       (case payFee B evm rules msg st of None \<Rightarrow> None
                                        | Some st \<Rightarrow> Some (st, Ok \<lparr>er_UsedGas = gasUsed st, er_Err = vmerr, er_ReturnData = ret\<rparr>))))"

definition ApplyMessage :: "('t, 'e) backend \<Rightarrow> ('t, 'e) EVM \<Rightarrow> Message \<Rightarrow> u64 \<Rightarrow> ('t, 'e) StateDB \<Rightarrow>
    (('t, 'e) StateTransition \<times> (core_err + ExecutionResult)) option" where
  "ApplyMessage B evm msg gp s = TransitionDb B evm msg (NewStateTransition gp s)"

section \<open>Lemmas\<close>

subsection \<open>Gas arithmetic\<close>

lemma unat_max_minus: "unat (- 1 - g :: u64) = 2 ^ 64 - 1 - unat g"
proof -
  have "unat (- 1 :: u64) = 2 ^ 64 - 1" by (simp add: unsigned_minus_1_eq_mask mask_eq_exp_minus_1)
  moreover have "g \<le> - 1" by simp
  ultimately show ?thesis by (simp add: unat_sub)
qed

text \<open>A cost that fits into a word, or the overflow.\<close>

definition fit :: "nat \<Rightarrow> core_err + u64" where
  "fit k = (if k < 2 ^ 64 then Ok (of_nat k) else Err ErrGasUintOverflow)"

lemma charge_fit:
  assumes "0 < unat price"
  shows "(case fit k of Err e \<Rightarrow> Err e | Ok gas \<Rightarrow> charge price n gas) = fit (k + unat n * unat price)"
proof (cases "k < 2 ^ 64")
  case True
  then have k: "unat (of_nat k :: u64) = k" by (simp add: unat_of_nat_u64)
  have "(- 1 - of_nat k) div price < n \<longleftrightarrow> (2 ^ 64 - 1 - k) div unat price < unat n"
    by (simp add: word_less_nat_alt unat_div unat_max_minus k)
  also have "\<dots> \<longleftrightarrow> 2 ^ 64 - 1 - k < unat n * unat price" using assms by (simp add: div_less_iff_less_mult)
  also have "\<dots> \<longleftrightarrow> \<not> k + unat n * unat price < 2 ^ 64" using True by linarith
  finally show ?thesis using True by (simp add: fit_def charge_def)
qed (simp add: fit_def)

text \<open>The intrinsic cost over unbounded numbers, apart from the access list.\<close>

definition data_cost :: "bytes \<Rightarrow> bool \<Rightarrow> bool \<Rightarrow> bool \<Rightarrow> bool \<Rightarrow> nat" where
  "data_cost dat cc homestead eip2028 eip3860 =
     (if cc \<and> homestead then 53000 else 21000)
     + length (filter (\<lambda>b. b \<noteq> 0) dat) * (if eip2028 then 16 else 68) + length (filter (\<lambda>b. b = 0) dat) * 4
     + (if cc \<and> eip3860 then (length dat + 31) div 32 * 2 else 0)"

lemma toWordSize_spec:
  assumes "n < 2 ^ 63"
  shows "unat (toWordSize (of_nat n)) = (n + 31) div 32"
proof -
  have n: "unat (of_nat n :: u64) = n" "unat (of_nat n + 31 :: u64) = n + 31" using assms
    by (simp_all add: unat_of_nat_u64 unat_word_ariths take_bit_nat_eq_self)
  have "\<not> (of_nat n :: u64) > - 1 - 31" using assms n(1) by (simp add: word_less_nat_alt unat_max_minus)
  then show ?thesis using n(2) by (simp add: toWordSize_def unat_div)
qed

lemma data_lengths:
  fixes dat :: bytes
  assumes "length dat < 2 ^ 63"
  shows "unat (of_nat (length dat) :: u64) = length dat" "unat (of_nat (length (filter (\<lambda>b. b \<noteq> 0) dat)) :: u64) = length (filter (\<lambda>b. b \<noteq> 0) dat)"
    "unat (of_nat (length dat) - of_nat (length (filter (\<lambda>b. b \<noteq> 0) dat)) :: u64) = length (filter (\<lambda>b. b = 0) dat)"
proof -
  let ?nz = "length (filter (\<lambda>b. b \<noteq> 0) dat)" and ?z = "length (filter (\<lambda>b. b = 0) dat)"
  have split: "?nz + ?z = length dat" using sum_length_filter_compl [of "\<lambda>b. b \<noteq> 0" dat] by simp
  show 1: "unat (of_nat (length dat) :: u64) = length dat" "unat (of_nat ?nz :: u64) = ?nz" using assms split by (simp_all add: unat_of_nat_u64)
  have "of_nat ?nz \<le> (of_nat (length dat) :: u64)" using 1 split by (simp add: word_le_nat_alt)
  then show "unat (of_nat (length dat) - of_nat ?nz :: u64) = ?z" using 1 split by (simp add: unat_sub)
qed

lemma IntrinsicGas_eq:
  assumes "length dat < 2 ^ 63"
  shows "IntrinsicGas dat al cc homestead eip2028 eip3860 =
    (if data_cost dat cc homestead eip2028 eip3860 < 2 ^ 64
     then Ok (of_nat (data_cost dat cc homestead eip2028 eip3860 + 2400 * length al + 1900 * StorageKeys al))
     else Err ErrGasUintOverflow)"
proof -
  let ?nz = "length (filter (\<lambda>b. b \<noteq> 0) dat)" and ?z = "length (filter (\<lambda>b. b = 0) dat)"
  define g0 where "g0 = (if cc \<and> homestead then TxGasContractCreation else TxGas)"
  define p where "p = (if eip2028 then TxDataNonZeroGasEIP2028 else TxDataNonZeroGasFrontier)"
  have g0: "unat g0 = (if cc \<and> homestead then 53000 else 21000)" by (simp add: g0_def TxGasContractCreation_def TxGas_def)
  have p: "unat p = (if eip2028 then 16 else 68)" by (simp add: p_def TxDataNonZeroGasEIP2028_def TxDataNonZeroGasFrontier_def)
  have pos: "0 < unat p" "0 < unat TxDataZeroGas" "0 < unat InitCodeWordGas" by (simp_all add: p TxDataZeroGas_def InitCodeWordGas_def)
  note len = data_lengths [OF assms]
  have g0fit: "Ok g0 = fit (unat g0)" unfolding fit_def using unsigned_less [of g0, where ?'a=nat] by simp
  define c where "c = unat g0 + ?nz * unat p + ?z * unat TxDataZeroGas"
  have two: "(case charge p (of_nat ?nz) g0 of Err e \<Rightarrow> Err e | Ok gas \<Rightarrow> charge TxDataZeroGas (of_nat (length dat) - of_nat ?nz) gas) = fit c"
    using charge_fit [OF pos(1), where k = "unat g0" and n = "of_nat ?nz"]
      charge_fit [OF pos(2), where k = "unat g0 + ?nz * unat p" and n = "of_nat (length dat) - of_nat ?nz"]
    by (simp add: g0fit [symmetric] len c_def)
  define w D where "w \<longleftrightarrow> cc \<and> eip3860" and "D = data_cost dat cc homestead eip2028 eip3860"
  have dc: "D = (if w then c + (length dat + 31) div 32 * 2 else c)"
    by (simp add: D_def w_def data_cost_def c_def g0 p TxDataZeroGas_def)
  have i1: "(case fit c of Err e \<Rightarrow> Err e | Ok gas \<Rightarrow> charge InitCodeWordGas (toWordSize (of_nat (length dat))) gas) = fit (c + (length dat + 31) div 32 * 2)"
    using charge_fit [OF pos(3), where k = c and n = "toWordSize (of_nat (length dat))"] toWordSize_spec [OF assms] by (simp add: InitCodeWordGas_def)
  have i2: "(case fit c of Err e \<Rightarrow> Err e | Ok gas \<Rightarrow> Ok gas) = fit c" by (cases "fit c") simp_all
  have three: "(case fit c of Err e \<Rightarrow> Err e | Ok gas \<Rightarrow> if w then charge InitCodeWordGas (toWordSize (of_nat (length dat))) gas else Ok gas)
      = fit (D)"
    by (cases "w") (simp_all add: dc i1 i2 cong: sum.case_cong)
  have rest: "(case fit k of Err e \<Rightarrow> Err e | Ok gas \<Rightarrow> Ok (gas + of_nat (length al) * TxAccessListAddressGas + of_nat (StorageKeys al) * TxAccessListStorageKeyGas))
      = (if k < 2 ^ 64 then Ok (of_nat (k + 2400 * length al + 1900 * StorageKeys al)) else Err ErrGasUintOverflow)" for k
    by (simp add: fit_def TxAccessListAddressGas_def TxAccessListStorageKeyGas_def mult.commute)
  have "IntrinsicGas dat al cc homestead eip2028 eip3860 = (case fit (D) of Err e \<Rightarrow> Err e
      | Ok gas \<Rightarrow> Ok (gas + of_nat (length al) * TxAccessListAddressGas + of_nat (StorageKeys al) * TxAccessListStorageKeyGas))"
  proof (cases "dat = []")
    case True
    then have "D = unat g0" by (simp add: D_def data_cost_def g0)
    then show ?thesis using True by (simp add: IntrinsicGas_def g0_def [symmetric] g0fit [symmetric])
  next
    case False
    then have "(of_nat (length dat) :: u64) > 0" using len(1) by (simp add: word_greater_zero_iff unat_eq_0 [symmetric] del: unat_eq_0)
    then have "IntrinsicGas dat al cc homestead eip2028 eip3860 =
      (case (case (case charge p (of_nat ?nz) g0 of Err e \<Rightarrow> Err e | Ok gas \<Rightarrow> charge TxDataZeroGas (of_nat (length dat) - of_nat ?nz) gas) of Err e \<Rightarrow> Err e
        | Ok gas \<Rightarrow> if w then charge InitCodeWordGas (toWordSize (of_nat (length dat))) gas else Ok gas) of Err e \<Rightarrow> Err e
        | Ok gas \<Rightarrow> Ok (gas + of_nat (length al) * TxAccessListAddressGas + of_nat (StorageKeys al) * TxAccessListStorageKeyGas))"
      by (simp add: IntrinsicGas_def Let_def g0_def [symmetric] p_def [symmetric] w_def [symmetric] split: sum.splits)
    then show ?thesis by (simp only: two three)
  qed
  then show ?thesis by (simp only: rest D_def)
qed

subsection \<open>Before the message is run\<close>

abbreviation bal :: "('t, 'e) backend \<Rightarrow> ('t, 'e) StateDB \<Rightarrow> address \<Rightarrow> int" where
  "bal B s b \<equiv> snd (GetBalance B b s)"

lemma bal_obs: "obs B s' = obs B s \<Longrightarrow> bal B s' b = bal B s b"
  by (simp add: getter_obs)

text \<open>Reads that change nothing observable, as frames.\<close>

definition reads :: "('t, 'e) backend \<Rightarrow> ('t, 'e) StateDB \<Rightarrow> ('t, 'e) StateDB \<Rightarrow> bool" where
  "reads B s s' \<longleftrightarrow> frame_run B s s' \<and> obs B s' = obs B s"

lemma reads_refl: "reads B s s"
  by (simp add: reads_def frame_run.stop)

lemma reads_trans: "reads B s1 s2 \<Longrightarrow> reads B s2 s3 \<Longrightarrow> reads B s1 s3"
  by (auto simp: reads_def intro: frame_run_trans)

lemma reads_sound: "reads B s s' \<Longrightarrow> backend_ok B \<Longrightarrow> sound B s \<Longrightarrow> sound B s'"
  using frame_sound by (auto simp: reads_def)

lemma getters_read:
  assumes "sound B s"
  shows "reads B s (fst (GetBalance B a s))" "reads B s (fst (GetNonce B a s))" "reads B s (fst (GetCodeHash B a s))"
    "reads B s (fst (CanTransfer B a x s))"
  using frame_op [OF sdb_op.intros(18), of B s a] frame_op [OF sdb_op.intros(19), of B s a] frame_op [OF sdb_op.intros(21), of B s a]
    getters_obs [OF assms] CanTransfer_frame [OF assms] by (simp_all add: reads_def)

lemma account_checks_reads:
  assumes "backend_ok B" "sound B s" "account_checks B msg s = (s', err)"
  shows "reads B s s'"
proof -
  obtain s1 n where 1: "GetNonce B (m_From msg) s = (s1, n)" by (cases "GetNonce B (m_From msg) s")
  obtain s2 h where 2: "GetCodeHash B (m_From msg) s1 = (s2, h)" by (cases "GetCodeHash B (m_From msg) s1")
  have r1: "reads B s s1" using getters_read(2) [OF assms(2), of "m_From msg"] 1 by simp
  have "reads B s1 s2" using getters_read(3) [OF reads_sound [OF r1 assms(1,2)], of "m_From msg"] 2 by simp
  with r1 have "reads B s s2" by (rule reads_trans)
  then show ?thesis using assms(3) r1 by (auto simp: account_checks_def 1 2 reads_refl split: if_splits)
qed

text \<open>The checks either fail with the pool untouched, or buy the whole gas limit at the gas price.\<close>

definition bought :: "('t, 'e) backend \<Rightarrow> Message \<Rightarrow> u64 \<Rightarrow> ('t, 'e) StateDB \<Rightarrow> ('t, 'e) StateTransition \<Rightarrow> bool" where
  "bought B msg gp s st \<longleftrightarrow> frame_run B s (st_state st) \<and> m_GasLimit msg \<le> gp \<and> st_gp st = gp - m_GasLimit msg
     \<and> st_gasRemaining st = m_GasLimit msg \<and> st_initialGas st = m_GasLimit msg
     \<and> (\<forall>b. bal B (st_state st) b = bal B s b - (if b = m_From msg then uint (m_GasLimit msg) * m_GasPrice msg else 0))"

lemma buyGas_bought:
  assumes "backend_ok B" "sound B s" "buyGas B msg (NewStateTransition gp s) = (st, err)"
  shows "if err = None then bought B msg gp s st else frame_run B s (st_state st) \<and> st_gp st = gp"
proof -
  obtain s1 hv where 1: "GetBalance B (m_From msg) s = (s1, hv)" by (cases "GetBalance B (m_From msg) s")
  have r: "reads B s s1" using getters_read(1) [OF assms(2), of "m_From msg"] 1 by simp
  have ok: "obs_ok (obs B s1)" using reads_sound [OF r assms(1,2)] by (simp add: sound_def)
  have f: "frame_run B s (SubBalance B (m_From msg) x s1)" for x
    using r by (auto simp: reads_def intro: frame_run.op sdb_op.intros(2))
  have b: "bal B s1 b = bal B s b" for b using r by (auto simp: reads_def intro: bal_obs)
  show ?thesis using assms(3) r f
    by (auto simp: buyGas_def NewStateTransition_def 1 Let_def SubGas_def bought_def reads_def not_less
        SubBalance_effect(1) [OF assms(1) ok] b split: if_splits)
qed

lemma preCheck_bought:
  assumes "backend_ok B" "sound B s" "preCheck B evm msg (NewStateTransition gp s) = Some (st, err)"
  shows "if err = None then bought B msg gp s st else frame_run B s (st_state st) \<and> st_gp st = gp"
proof -
  obtain s1 e where 1: "account_checks B msg s = (s1, e)" by (cases "account_checks B msg s")
  have r: "reads B s s1" by (rule account_checks_reads [OF assms(1,2) 1])
  have k1: "sound B s1" by (rule reads_sound [OF r assms(1,2)])
  have st1: "(NewStateTransition gp s)\<lparr>st_state := s1\<rparr> = NewStateTransition gp s1" "st_state (NewStateTransition gp s) = s"
    "st_state (NewStateTransition gp s1) = s1" "st_gp (NewStateTransition gp s1) = gp"
    by (simp_all add: NewStateTransition_def)
  have f1: "frame_run B s s1" and b: "bal B s1 b = bal B s b" for b using r by (auto simp: reads_def intro: bal_obs)
  have up: "bought B msg gp s1 st \<Longrightarrow> bought B msg gp s st" "frame_run B s1 s2 \<Longrightarrow> frame_run B s s2" for st s2
    using f1 b by (auto simp: bought_def intro: frame_run_trans)
  show ?thesis using assms(3) f1 buyGas_bought [OF assms(1) k1, of msg gp st err] up
    by (auto simp: preCheck_def 1 st1 split: option.splits if_splits)
qed

subsection \<open>Running the message\<close>

lemma fold_al_inv: "(\<And>x al. al_inv al \<Longrightarrow> al_inv (f x al)) \<Longrightarrow> al_inv al \<Longrightarrow> al_inv (fold f xs al)"
  by (induction xs arbitrary: al) auto

lemma Prepare_ok:
  assumes "sound B s"
  shows "sound B (Prepare rules sender coinbase dst pcs lst s)" "bal B (Prepare rules sender coinbase dst pcs lst s) b = bal B s b"
proof -
  let ?s = "Prepare rules sender coinbase dst pcs lst s"
  have acc: "ob_account (obs B ?s) = ob_account (obs B s)" "rev_inv ?s = rev_inv s"
    by (auto simp: Prepare_def Let_def account_def rev_inv_def)
  have "al_inv (sdb_accessList s)" using assms by (simp add: sound_def obs_ok_def)
  then have "al_inv (sdb_accessList ?s)"
    by (auto simp: Prepare_def Let_def intro!: AddAddress_inv AddSlot_inv fold_al_inv newAccessList_inv split: option.splits)
  then show "sound B ?s" using assms acc by (auto simp: sound_def obs_ok_def)
  show "bal B ?s b = bal B s b" by (simp add: getter_obs ob_live_def acc)
qed

lemma execute_framed:
  assumes "backend_ok B" "interpreter_ok B evm" "sound B s"
  obtains s' ret gas' err where "execute B evm msg gas s = Some (s', ret, gas', err)" "frame_run B s s'" "gas' \<le> gas"
proof (cases "m_To msg")
  case None
  obtain s1 n where 1: "GetNonce B (m_From msg) s = (s1, n)" by (cases "GetNonce B (m_From msg) s")
  have r: "reads B s s1" using getters_read(2) [OF assms(3), of "m_From msg"] 1 by simp
  have "created B (e_chainRules evm) (m_From msg) s1 gas (create B evm (AccountRef (m_From msg)) \<lparr>ch_code = m_Data msg, ch_hash = zero_hash\<rparr> gas (m_Value msg)
      (CreateAddress B (m_From msg) n) s1)"
    using create_created [OF assms(1,2) reads_sound [OF r assms(1,3)], of "AccountRef (m_From msg)"] by simp
  then obtain s' ret a gas' err where "create B evm (AccountRef (m_From msg)) \<lparr>ch_code = m_Data msg, ch_hash = zero_hash\<rparr> gas (m_Value msg)
      (CreateAddress B (m_From msg) n) s1 = Some (s', ret, a, gas', err)" "frame_run B s1 s'" "gas' \<le> gas"
    unfolding created_def by blast
  with r that [of s' ret gas' err] show thesis
    by (auto simp: execute_def None Create_def 1 reads_def intro: frame_run_trans)
next
  case (Some to)
  obtain s1 n where 1: "GetNonce B (m_From msg) s = (s1, n)" by (cases "GetNonce B (m_From msg) s")
  have r: "reads B s s1" using getters_read(2) [OF assms(3), of "m_From msg"] 1 by simp
  let ?s = "SetNonce B (m_From msg) (n + 1) s1"
  have f: "frame_run B s ?s" using r by (auto simp: reads_def intro: frame_run.op sdb_op.intros(4))
  have "framed B ?s gas (Call B evm (AccountRef (m_From msg)) (st_to msg) (m_Data msg) gas (m_Value msg) ?s)"
    by (rule Call_framed [OF assms(1,2) frame_sound [OF f assms(1,3)]])
  then obtain s' ret gas' err where "Call B evm (AccountRef (m_From msg)) (st_to msg) (m_Data msg) gas (m_Value msg) ?s = Some (s', ret, gas', err)"
      "frame_run B ?s s'" "gas' \<le> gas" unfolding framed_def by blast
  with f that [of s' ret gas' err] show thesis by (auto simp: execute_def Some 1 intro: frame_run_trans)
qed

lemma AddGas_ok: "unat gp + unat a < 2 ^ 64 \<Longrightarrow> AddGas a gp = Some (gp + a) \<and> unat (gp + a) = unat gp + unat a"
  by (auto simp: AddGas_def word_less_nat_alt unat_max_minus unat_word_ariths)

lemma refundGas_ok:
  assumes "backend_ok B" "sound B (st_state st)" "st_gasRemaining st \<le> st_initialGas st"
    and "unat (st_gp st) + unat (st_initialGas st) < 2 ^ 64"
  obtains st' where "refundGas B msg q st = Some st'" "st_initialGas st' = st_initialGas st" "st_gasRemaining st' \<le> st_initialGas st"
    "unat (st_gp st') = unat (st_gp st) + unat (st_gasRemaining st')" "frame_run B (st_state st) (st_state st')"
    "\<And>b. bal B (st_state st') b = bal B (st_state st) b + (if b = m_From msg then uint (st_gasRemaining st') * m_GasPrice msg else 0)"
proof -
  let ?used = "gasUsed st"
  define refund where "refund = (if ?used div q > sdb_refund (st_state st) then sdb_refund (st_state st) else ?used div q)"
  define left where "left = st_gasRemaining st + refund"
  have used: "unat ?used = unat (st_initialGas st) - unat (st_gasRemaining st)" using assms(3) by (simp add: gasUsed_def unat_sub)
  have "unat refund \<le> unat ?used div unat q" by (auto simp: refund_def unat_div word_less_nat_alt not_less)
  then have "unat refund \<le> unat ?used" using div_le_dividend [of "unat ?used" "unat q"] by linarith
  moreover have "unat (st_gasRemaining st) \<le> unat (st_initialGas st)" using assms(3) by (simp add: word_le_nat_alt)
  moreover have "unat (st_initialGas st) < 2 ^ 64" using assms(4) by linarith
  ultimately have left: "unat left \<le> unat (st_initialGas st)"
    unfolding left_def using used by (simp add: unat_word_ariths)
  have g: "AddGas left (st_gp st) = Some (st_gp st + left)" "unat (st_gp st + left) = unat (st_gp st) + unat left"
    using AddGas_ok [of "st_gp st" left] left assms(4) by simp_all
  define st' where "st' = st\<lparr>st_gasRemaining := left, st_state := AddBalance B (m_From msg) (uint left * m_GasPrice msg) (st_state st), st_gp := st_gp st + left\<rparr>"
  have "refundGas B msg q st = Some st'"
    by (simp add: refundGas_def Let_def refund_def [symmetric] left_def [symmetric] g st'_def)
  moreover have "obs_ok (obs B (st_state st))" using assms(2) by (simp add: sound_def)
  moreover have "st_initialGas st' = st_initialGas st" "st_gasRemaining st' \<le> st_initialGas st"
      "unat (st_gp st') = unat (st_gp st) + unat (st_gasRemaining st')" using left g(2) by (simp_all add: st'_def word_le_nat_alt)
  moreover have "frame_run B (st_state st) (st_state st')" unfolding st'_def by (simp add: frame_op [OF sdb_op.intros(1)])
  ultimately show thesis using that [of st'] AddBalance_effect(1) [OF assms(1)] by (simp add: st'_def)
qed

lemma payFee_ok:
  assumes "backend_ok B" "sound B (st_state st)" "\<not> e_NoBaseFee evm" "effectiveTip evm rules msg = Some tip"
  obtains st' where "payFee B evm rules msg st = Some st'" "gasUsed st' = gasUsed st" "st_gp st' = st_gp st" "frame_run B (st_state st) (st_state st')"
    "\<And>b. bal B (st_state st') b = bal B (st_state st) b + (if b = bc_Coinbase (e_Context evm) then uint (gasUsed st) * tip else 0)"
proof -
  let ?st = "st\<lparr>st_state := AddBalance B (bc_Coinbase (e_Context evm)) (uint (gasUsed st) * tip) (st_state st)\<rparr>"
  have "obs_ok (obs B (st_state st))" using assms(2) by (simp add: sound_def)
  with that [of ?st] AddBalance_effect(1) [OF assms(1)] show thesis
    using assms(3,4) by (simp add: payFee_def gasUsed_def frame_op [OF sdb_op.intros(1)])
qed

text \<open>What applying a message comes to: the gas used, the pool, and every balance around the execution.\<close>

definition settled :: "('t, 'e) backend \<Rightarrow> ('t, 'e) EVM \<Rightarrow> Message \<Rightarrow> u64 \<Rightarrow> ('t, 'e) StateDB \<Rightarrow> ('t, 'e) StateTransition \<Rightarrow> u64 \<Rightarrow> bool" where
  "settled B evm msg gp s st used \<longleftrightarrow> used \<le> m_GasLimit msg \<and> unat (st_gp st) + unat used = unat gp \<and> sound B (st_state st)
     \<and> (\<exists>s1 s2 tip. effectiveTip evm (msg_rules evm) msg = Some tip \<and> frame_run B s1 s2
          \<and> (\<forall>b. bal B s1 b = bal B s b - (if b = m_From msg then uint (m_GasLimit msg) * m_GasPrice msg else 0))
          \<and> (\<forall>b. bal B (st_state st) b = bal B s2 b + (if b = m_From msg then (uint (m_GasLimit msg) - uint used) * m_GasPrice msg else 0)
                 + (if b = bc_Coinbase (e_Context evm) then uint used * tip else 0)))"

text \<open>From the bought gas on: the run, the refund and the fee.\<close>

lemma run_settled:
  assumes "backend_ok B" "interpreter_ok B evm" "\<not> e_NoBaseFee evm" "effectiveTip evm (msg_rules evm) msg = Some tip"
    and "bought B msg gp s st" "sound B (st_state st)" "left \<le> m_GasLimit msg"
    and "execute B evm msg left s1 = Some (s2, ret, gas, vmerr)" "sound B s1" "\<And>b. bal B s1 b = bal B (st_state st) b"
  obtains st1 st2 where "refundGas B msg q (st\<lparr>st_state := s2, st_gasRemaining := gas\<rparr>) = Some st1"
    "payFee B evm (msg_rules evm) msg st1 = Some st2" "settled B evm msg gp s st2 (gasUsed st2)"
proof -
  from execute_framed [OF assms(1,2,9)] assms(8) have x: "frame_run B s1 s2" "gas \<le> left" by (metis option.inject prod.inject)+
  let ?st = "st\<lparr>st_state := s2, st_gasRemaining := gas\<rparr>" and ?L = "m_GasLimit msg"
  note b = assms(5) [unfolded bought_def]
  have k2: "sound B s2" by (rule frame_sound [OF x(1) assms(1,9)])
  have le: "gas \<le> ?L" using x(2) assms(7) by (rule order_trans)
  have gp: "unat (st_gp st) + unat ?L = unat gp" using b by (simp add: unat_sub word_le_nat_alt)
  have "unat gp < 2 ^ 64" using unsigned_less [of gp, where ?'a=nat] by simp
  from refundGas_ok [OF assms(1), of ?st] k2 le gp b this obtain st1 where
    r: "refundGas B msg q ?st = Some st1" "st_initialGas st1 = ?L" "st_gasRemaining st1 \<le> ?L"
      "unat (st_gp st1) = unat (st_gp st) + unat (st_gasRemaining st1)" "frame_run B s2 (st_state st1)"
      "\<And>b. bal B (st_state st1) b = bal B s2 b + (if b = m_From msg then uint (st_gasRemaining st1) * m_GasPrice msg else 0)"
    by auto
  have k: "sound B (st_state st1)" by (rule frame_sound [OF r(5) assms(1) k2])
  from payFee_ok [OF assms(1) k assms(3,4)] obtain st2 where
    p: "payFee B evm (msg_rules evm) msg st1 = Some st2" "gasUsed st2 = gasUsed st1" "st_gp st2 = st_gp st1" "frame_run B (st_state st1) (st_state st2)"
      "\<And>b. bal B (st_state st2) b = bal B (st_state st1) b + (if b = bc_Coinbase (e_Context evm) then uint (gasUsed st1) * tip else 0)"
    by blast
  have used: "unat (gasUsed st1) = unat ?L - unat (st_gasRemaining st1)" "gasUsed st1 \<le> ?L"
    using r(2,3) by (simp_all add: gasUsed_def unat_sub word_sub_le)
  have "unat (st_gasRemaining st1) \<le> unat ?L" using r(3) by (simp add: word_le_nat_alt)
  then have "int (unat (st_gasRemaining st1)) = int (unat ?L) - int (unat (gasUsed st1))" using used(1) by linarith
  then have rem: "uint (st_gasRemaining st1) = uint ?L - uint (gasUsed st1)" by simp
  have fin: "unat (st_gp st2) + unat (gasUsed st1) = unat gp" using gp p(3) r(4) used(1) \<open>unat (st_gasRemaining st1) \<le> unat ?L\<close> by simp
  have "settled B evm msg gp s st2 (gasUsed st2)"
    unfolding settled_def p(2)
  proof (intro conjI exI)
    show "sound B (st_state st2)" by (rule frame_sound [OF p(4) assms(1) k])
    show "frame_run B s1 s2" by (rule x(1))
    show "\<forall>b. bal B s1 b = bal B s b - (if b = m_From msg then uint ?L * m_GasPrice msg else 0)" using assms(10) b by simp
    show "\<forall>b. bal B (st_state st2) b = bal B s2 b + (if b = m_From msg then (uint ?L - uint (gasUsed st1)) * m_GasPrice msg else 0)
        + (if b = bc_Coinbase (e_Context evm) then uint (gasUsed st1) * tip else 0)" using p(5) r(6) rem by simp
  qed (use used(2) fin assms(4) in simp_all)
  with that [OF r(1) p(1)] show thesis .
qed

text \<open>A message fails before it is run, with the state a frame away and the pool untouched or charged with the gas
  limit, or it is run and settled.\<close>

lemma run_cases:
  assumes "backend_ok B" "interpreter_ok B evm" "sound B s" "\<not> e_NoBaseFee evm" "effectiveTip evm (msg_rules evm) msg = Some tip"
    and pc: "preCheck B evm msg (NewStateTransition gp s) = Some (st, None)" and b: "bought B msg gp s st"
  obtains (failed) st e where "ApplyMessage B evm msg gp s = Some (st, Err e)" "frame_run B s (st_state st)"
      "m_GasLimit msg \<le> gp" "st_gp st = gp - m_GasLimit msg"
    | (applied) st r where "ApplyMessage B evm msg gp s = Some (st, Ok r)" "settled B evm msg gp s st (er_UsedGas r)"
proof -
  have bf: "frame_run B s (st_state st)" "m_GasLimit msg \<le> gp" "st_gp st = gp - m_GasLimit msg" "st_gasRemaining st = m_GasLimit msg"
    using b by (simp_all add: bought_def)
  have k: "sound B (st_state st)" by (rule frame_sound [OF bf(1) assms(1,3)])
  let ?ig = "IntrinsicGas (m_Data msg) (m_AccessList msg) (m_To msg = None) (r_IsHomestead (msg_rules evm)) (r_IsIstanbul (msg_rules evm)) (r_IsShanghai (msg_rules evm))"
  obtain s1 can where c: "(if m_Value msg > 0 then CanTransfer B (m_From msg) (m_Value msg) (st_state st) else (st_state st, True)) = (s1, can)" by fastforce
  have r1: "reads B (st_state st) s1" using getters_read(4) [OF k, of "m_From msg" "m_Value msg"] c by (auto simp: reads_refl split: if_splits)
  have f1: "frame_run B s s1" using r1 bf(1) by (auto simp: reads_def intro: frame_run_trans)
  define s2 where "s2 = Prepare (msg_rules evm) (m_From msg) (bc_Coinbase (e_Context evm)) (m_To msg) (ActivePrecompiles (msg_rules evm)) (m_AccessList msg) s1"
  have k2: "sound B s2" and b2: "\<And>b. bal B s2 b = bal B (st_state st) b"
    using Prepare_ok [OF reads_sound [OF r1 assms(1) k]] bal_obs [of B s1 "st_state st"] r1 by (simp_all add: s2_def reads_def)
  note step = ApplyMessage_def TransitionDb_def pc Let_def
  show thesis
  proof (cases ?ig)
    case (Inl e)
    then show thesis using failed [of st e] bf by (simp add: step)
  next
    case (Inr gas)
    let ?big = "r_IsShanghai (msg_rules evm) \<and> m_To msg = None \<and> length (m_Data msg) > MaxInitCodeSize"
    let ?left = "m_GasLimit msg - gas" and ?st = "\<lambda>s x. st\<lparr>st_gasRemaining := x, st_state := s\<rparr>"
    let ?q = "if \<not> r_IsLondon (msg_rules evm) then RefundQuotient else RefundQuotientEIP3529"
    have eq: "ApplyMessage B evm msg gp s =
      (if m_GasLimit msg < gas then Some (st, Err ErrIntrinsicGas)
       else if \<not> can then Some (?st s1 ?left, Err ErrInsufficientFundsForTransfer)
       else if ?big then Some (?st s1 ?left, Err ErrMaxInitCodeSizeExceeded)
       else (case execute B evm msg ?left s2 of None \<Rightarrow> None
             | Some (s, ret, g, vmerr) \<Rightarrow>
                 (case refundGas B msg ?q (st\<lparr>st_state := s, st_gasRemaining := g\<rparr>) of None \<Rightarrow> None
                  | Some st \<Rightarrow> (case payFee B evm (msg_rules evm) msg st of None \<Rightarrow> None
                     | Some st \<Rightarrow> Some (st, Ok \<lparr>er_UsedGas = gasUsed st, er_Err = vmerr, er_ReturnData = ret\<rparr>)))))"
      using c by (cases "m_Value msg > 0") (simp_all add: step Inr bf(4) s2_def cong: option.case_cong prod.case_cong)
    show thesis
    proof (cases "m_GasLimit msg < gas \<or> \<not> can \<or> ?big")
      case True
      have "\<exists>st' e. ApplyMessage B evm msg gp s = Some (st', Err e) \<and> (st_state st' = st_state st \<or> st_state st' = s1) \<and> st_gp st' = st_gp st"
        unfolding eq using True by auto
      then show thesis using failed bf(1-3) f1 by metis
    next
      case False
      then have le: "?left \<le> m_GasLimit msg" by (simp add: not_less word_sub_le)
      from execute_framed [OF assms(1,2) k2] obtain s3 ret g vmerr where x: "execute B evm msg ?left s2 = Some (s3, ret, g, vmerr)" by metis
      from run_settled [OF assms(1,2,4,5) b k le x k2 b2] obtain st1 st2 where
        "refundGas B msg ?q (st\<lparr>st_state := s3, st_gasRemaining := g\<rparr>) = Some st1" "payFee B evm (msg_rules evm) msg st1 = Some st2" "settled B evm msg gp s st2 (gasUsed st2)" .
      then show thesis using applied [of st2 "\<lparr>er_UsedGas = gasUsed st2, er_Err = vmerr, er_ReturnData = ret\<rparr>"] False x eq by simp
    qed
  qed
qed

lemma ApplyMessage_cases:
  assumes "backend_ok B" "interpreter_ok B evm" "sound B s" "\<not> e_NoBaseFee evm"
    and "m_GasFeeCap msg \<noteq> None" "bc_BaseFee (e_Context evm) \<noteq> None"
  obtains (failed) st e where "ApplyMessage B evm msg gp s = Some (st, Err e)" "frame_run B s (st_state st)"
      "st_gp st = gp \<or> m_GasLimit msg \<le> gp \<and> st_gp st = gp - m_GasLimit msg"
    | (applied) st r where "ApplyMessage B evm msg gp s = Some (st, Ok r)" "settled B evm msg gp s st (er_UsedGas r)"
proof -
  from assms(5,6) obtain cap base where cap: "m_GasFeeCap msg = Some cap" "bc_BaseFee (e_Context evm) = Some base" by blast
  then obtain tip where tip: "effectiveTip evm (msg_rules evm) msg = Some tip" by (cases "r_IsLondon (msg_rules evm)") (simp_all add: effectiveTip_def)
  have "fee_checks evm msg \<noteq> None" using cap by (simp add: fee_checks_def)
  then have "preCheck B evm msg (NewStateTransition gp s) \<noteq> None"
    by (auto simp: preCheck_def split: prod.splits option.splits)
  then obtain st err where pc: "preCheck B evm msg (NewStateTransition gp s) = Some (st, err)"
    by (cases "preCheck B evm msg (NewStateTransition gp s)") auto
  note pb = preCheck_bought [OF assms(1,3) pc]
  show thesis
  proof (cases err)
    case (Some e)
    then show thesis using failed [of st e] pb pc by (simp add: ApplyMessage_def TransitionDb_def)
  next
    case None
    from run_cases [OF assms(1-4) tip pc [unfolded None]] pb None show thesis using failed applied by (metis (no_types))
  qed
qed

section \<open>Properties\<close>


definition sample_message :: Message where
  "sample_message = \<lparr>m_To = Some (replicate 20 2), m_From = replicate 20 1, m_Nonce = 0, m_Value = 0, m_GasLimit = 21000, m_GasPrice = 10,
     m_GasFeeCap = Some 10, m_GasTipCap = 3, m_Data = [], m_AccessList = [], m_SkipAccountChecks = False\<rparr>"

lemma sample_applied:
  "case ApplyMessage sample_backend sample_evm sample_message 30000000 (AddBalance sample_backend (replicate 20 1) 1000000 StateDB_New) of
     Some (st, Ok r) \<Rightarrow> er_UsedGas r = 21000 \<and> snd (GetBalance sample_backend (replicate 20 1) (st_state st)) = 790000 | _ \<Rightarrow> False"
  by code_simp




end
