(* ===== verification/Types_Body.thy ===== *)
theory Types_Body
  imports Tx_Signing
begin

text \<open>
  Blocks and their contents (\<^verbatim>\<open>core/types/block.go\<close>, \<^verbatim>\<open>core/types/withdrawal.go\<close>,
  \<open>DeriveSha\<close> of \<^verbatim>\<open>core/types/hashing.go\<close>).
\<close>

section \<open>Definitions\<close>

record Withdrawal =
  w_Index :: u64
  w_Validator :: u64
  w_Address :: bytes
  w_Amount :: u64

definition Withdrawal_EncodeRLP :: "Withdrawal \<Rightarrow> encBuffer \<Rightarrow> encBuffer" where
  "Withdrawal_EncodeRLP obj w =
     (case eb_list w of (tmp0, w) \<Rightarrow>
      let w = writeUint64 (w_Index obj) w;
          w = writeUint64 (w_Validator obj) w;
          w = writeBytes (w_Address obj) w;
          w = writeUint64 (w_Amount obj) w
      in eb_listEnd tmp0 w)"

record Body =
  bd_Transactions :: "TxData list"
  bd_Uncles :: "Header list"
  bd_Withdrawals :: "Withdrawal list option"

text \<open>A block without its caches; a nil slice of withdrawals is \<open>None\<close>.\<close>

record Block =
  b_header :: Header
  b_uncles :: "Header list"
  b_transactions :: "TxData list"
  b_withdrawals :: "Withdrawal list option"

definition NewBlockWithHeader :: "Header \<Rightarrow> Block" where
  "NewBlockWithHeader h = \<lparr>b_header = CopyHeader h, b_uncles = [], b_transactions = [], b_withdrawals = None\<rparr>"

definition Block_Header :: "Block \<Rightarrow> Header" where
  "Block_Header b = CopyHeader (b_header b)"

definition Block_Body :: "Block \<Rightarrow> Body" where
  "Block_Body b = \<lparr>bd_Transactions = b_transactions b, bd_Uncles = b_uncles b, bd_Withdrawals = b_withdrawals b\<rparr>"

definition WithSeal :: "Block \<Rightarrow> Header \<Rightarrow> Block" where
  "WithSeal b h = \<lparr>b_header = h, b_uncles = b_uncles b, b_transactions = b_transactions b,
     b_withdrawals = b_withdrawals b\<rparr>"

definition WithBody :: "Block \<Rightarrow> TxData list \<Rightarrow> Header list \<Rightarrow> Block" where
  "WithBody b transactions uncles =
     \<lparr>b_header = CopyHeader (b_header b), b_uncles = map CopyHeader uncles, b_transactions = transactions,
      b_withdrawals = None\<rparr>"

definition WithWithdrawals :: "Block \<Rightarrow> Withdrawal list option \<Rightarrow> Block" where
  "WithWithdrawals b withdrawals =
     (case withdrawals of None \<Rightarrow> b | Some ws \<Rightarrow> b\<lparr>b_withdrawals := Some ws\<rparr>)"

subsection \<open>Encoding of a block\<close>

text \<open>A transaction inside a block: its \<open>EncodeRLP\<close> writes into the buffer it is given.\<close>

definition encode_tx :: "blobCodec \<Rightarrow> TxData \<Rightarrow> encBuffer \<Rightarrow> rlp_err + encBuffer" where
  "encode_tx bc tx w =
     (case tx of Legacy l \<Rightarrow> encode_value (legacy_value l) w
      | _ \<Rightarrow> (case encodeTyped bc tx of Err e \<Rightarrow> Err e
               | Ok b \<Rightarrow> Ok (writeBytes (the b) w)))"

text \<open>\<open>makeSliceWriter\<close> with the writer of the element type.\<close>

fun encode_elems :: "('a \<Rightarrow> encBuffer \<Rightarrow> rlp_err + encBuffer) \<Rightarrow> 'a list \<Rightarrow> encBuffer \<Rightarrow> rlp_err + encBuffer" where
  "encode_elems f [] w = Ok w"
| "encode_elems f (x # xs) w = (case f x w of Err e \<Rightarrow> Err e | Ok w \<Rightarrow> encode_elems f xs w)"

definition encode_slice :: "('a \<Rightarrow> encBuffer \<Rightarrow> rlp_err + encBuffer) \<Rightarrow> 'a list \<Rightarrow> encBuffer \<Rightarrow> rlp_err + encBuffer" where
  "encode_slice f xs w =
     (if length xs = 0 then Ok (eb_append [0xC0] w)
      else case eb_list w of (lh, w) \<Rightarrow>
        (case encode_elems f xs w of Err e \<Rightarrow> Err e | Ok w \<Rightarrow> Ok (eb_listEnd lh w)))"

definition Block_EncodeRLP :: "blobCodec \<Rightarrow> Block \<Rightarrow> encBuffer \<Rightarrow> rlp_err + encBuffer" where
  "Block_EncodeRLP bc b w =
     (case eb_list w of (lh, w) \<Rightarrow>
      case Header_EncodeRLP (b_header b) w of Err e \<Rightarrow> Err e | Ok w \<Rightarrow>
      case encode_slice (encode_tx bc) (b_transactions b) w of Err e \<Rightarrow> Err e | Ok w \<Rightarrow>
      case encode_slice Header_EncodeRLP (b_uncles b) w of Err e \<Rightarrow> Err e | Ok w \<Rightarrow>
      case (case b_withdrawals b of None \<Rightarrow> Ok w
            | Some ws \<Rightarrow> encode_slice (\<lambda>x w. Ok (Withdrawal_EncodeRLP x w)) ws w) of Err e \<Rightarrow> Err e | Ok w \<Rightarrow>
      Ok (eb_listEnd lh w))"

definition EncodeBlock :: "blobCodec \<Rightarrow> Block \<Rightarrow> rlp_err + bytes option" where
  "EncodeBlock bc b =
     (case Block_EncodeRLP bc b newEncBuffer of Err e \<Rightarrow> Err e | Ok buf \<Rightarrow> Ok (makeBytes buf))"

subsection \<open>Deriving a list hash\<close>

text \<open>The hasher is an argument; \<open>enc i\<close> is the encoding of the \<open>i\<close>-th element.\<close>

record 'h TrieHasher =
  th_Reset :: "'h \<Rightarrow> 'h"
  th_Update :: "bytes \<Rightarrow> bytes \<Rightarrow> 'h \<Rightarrow> 'h"
  th_Hash :: "'h \<Rightarrow> bytes"

text \<open>The indices in the order of the three loops.\<close>

definition derive_order :: "nat \<Rightarrow> nat list" where
  "derive_order n = [1..<min n 0x80] @ (if n > 0 then [0] else []) @ [0x80..<n]"

definition DeriveSha :: "'h TrieHasher \<Rightarrow> (nat \<Rightarrow> bytes) \<Rightarrow> nat \<Rightarrow> 'h \<Rightarrow> bytes" where
  "DeriveSha H enc n hasher =
     th_Hash H (fold (\<lambda>i h. th_Update H (AppendUint64 [] (of_nat i)) (enc i) h) (derive_order n) (th_Reset H hasher))"

section \<open>Lemmas\<close>

subsection \<open>Encoding of a block\<close>

definition withdrawal_bytes :: "Withdrawal \<Rightarrow> bytes" where
  "withdrawal_bytes x = rlp_list (rlp_string (be_bytes (unat (w_Index x))) @ rlp_string (be_bytes (unat (w_Validator x)))
     @ rlp_string (w_Address x) @ rlp_string (be_bytes (unat (w_Amount x))))"

definition tx_item :: "TxData \<Rightarrow> bytes" where
  "tx_item tx = (if txType tx = 0 then inner_bytes tx else rlp_string (tx_bytes tx))"

definition block_payload :: "Block \<Rightarrow> bytes" where
  "block_payload b = header_bytes (b_header b) @ rlp_list (concat (map tx_item (b_transactions b)))
     @ rlp_list (concat (map header_bytes (b_uncles b)))
     @ (case b_withdrawals b of None \<Rightarrow> [] | Some ws \<Rightarrow> rlp_list (concat (map withdrawal_bytes ws)))"

definition block_ok :: "Block \<Rightarrow> bool" where
  "block_ok b \<longleftrightarrow> header_ok (b_header b) \<and> list_all header_ok (b_uncles b)
     \<and> list_all (\<lambda>tx. tx_ok tx \<and> \<not> is_Blob tx) (b_transactions b)
     \<and> (\<forall>ws. b_withdrawals b = Some ws \<longrightarrow> list_all (\<lambda>x. length (w_Address x) = 20) ws)"

text \<open>\<open>writes f out\<close>: the writer \<open>f\<close> succeeds on every buffer and adds the bytes \<open>out\<close>.\<close>

definition writes :: "(encBuffer \<Rightarrow> rlp_err + encBuffer) \<Rightarrow> bytes \<Rightarrow> bool" where
  "writes f out \<longleftrightarrow> (\<forall>w. \<exists>w'. f w = Ok w' \<and> adds w w' out)"

lemma writesE:
  assumes "writes f out"
  obtains w' where "f w = Ok w'" "adds w w' out"
  using assms unfolding writes_def by blast

lemma writes_seq:
  assumes "writes f a" "writes g b"
  shows "writes (\<lambda>w. case f w of Err e \<Rightarrow> Err e | Ok w \<Rightarrow> g w) (a @ b)"
  unfolding writes_def
proof
  fix w
  obtain w1 where 1: "f w = Ok w1" "adds w w1 a" using assms(1) by (rule writesE)
  obtain w2 where 2: "g w1 = Ok w2" "adds w1 w2 b" using assms(2) by (rule writesE)
  show "\<exists>w'. (case f w of Err e \<Rightarrow> Err e | Ok w \<Rightarrow> g w) = Ok w' \<and> adds w w' (a @ b)"
    using 1 2 adds_trans by auto
qed

lemma writes_Ok: "writes Ok []"
  using adds_refl by (auto simp: writes_def)

lemma writes_list:
  assumes "writes f out" "length out < 2 ^ 64"
  shows "writes (\<lambda>w. case eb_list w of (lh, w) \<Rightarrow> case f w of Err e \<Rightarrow> Err e | Ok w \<Rightarrow> Ok (eb_listEnd lh w)) (rlp_list out)"
  unfolding writes_def
proof
  fix w
  obtain w' where "f (snd (eb_list w)) = Ok w'" "adds (snd (eb_list w)) w' out" using assms(1) by (rule writesE)
  then show "\<exists>w'. (case eb_list w of (lh, w) \<Rightarrow> case f w of Err e \<Rightarrow> Err e | Ok w \<Rightarrow> Ok (eb_listEnd lh w)) = Ok w'
      \<and> adds w w' (rlp_list out)"
    using adds_list [OF _ assms(2)] by (auto simp: split_beta)
qed

lemma writes_elems:
  assumes "\<And>x. x \<in> set xs \<Longrightarrow> writes (f x) (g x)"
  shows "writes (encode_elems f xs) (concat (map g xs))"
  using assms
proof (induction xs)
  case Nil
  have "encode_elems f [] = Ok" by (rule ext) simp
  then show ?case by (simp add: writes_Ok)
next
  case (Cons x xs)
  have "encode_elems f (x # xs) = (\<lambda>w. case f x w of Err e \<Rightarrow> Err e | Ok w \<Rightarrow> encode_elems f xs w)" by (rule ext) simp
  then show ?case using writes_seq [of "f x" "g x"] Cons by simp
qed

lemma writes_slice:
  assumes "\<And>x. x \<in> set xs \<Longrightarrow> writes (f x) (g x)" "length (concat (map g xs)) < 2 ^ 64"
  shows "writes (encode_slice f xs) (rlp_list (concat (map g xs)))"
proof (cases "xs = []")
  case True
  then show ?thesis using adds_append [of _ "[0xC0]"] by (simp add: writes_def encode_slice_def rlp_list_Nil)
next
  case False
  then have "encode_slice f xs = (\<lambda>w. case eb_list w of (lh, w) \<Rightarrow>
      case encode_elems f xs w of Err e \<Rightarrow> Err e | Ok w \<Rightarrow> Ok (eb_listEnd lh w))"
    by (intro ext) (simp add: encode_slice_def)
  moreover have "writes (encode_elems f xs) (concat (map g xs))" using assms(1) by (rule writes_elems)
  ultimately show ?thesis using writes_list [OF _ assms(2)] by simp
qed

lemma writes_header:
  assumes "header_ok h" "length (header_bytes h) < 2 ^ 63"
  shows "writes (Header_EncodeRLP h) (header_bytes h)"
proof -
  have x: "length (h_Extra h) < 2 ^ 63" using Extra_le [of h] assms(2) by simp
  have "encodable (header_value h)" using header_encodable assms(1) by blast
  then have "\<exists>w'. encode_value (header_value h) w = Ok w' \<and> adds w w' (header_bytes h)" for w
    using assms(2) by (intro encode_value_adds) simp_all
  moreover have "Header_EncodeRLP h w = encode_value (header_value h) w" for w
    using assms x by (intro Header_EncodeRLP_eq) (auto simp: header_ok_def)
  ultimately show ?thesis by (simp add: writes_def)
qed

lemma writes_tx:
  assumes "tx_ok tx" "\<not> is_Blob tx" "length (tx_item tx) < 2 ^ 63"
  shows "writes (encode_tx bc tx) (tx_item tx)"
proof (cases "txType tx = 0")
  case True
  then obtain l where l: "tx = Legacy l" by (cases tx) auto
  then have "writes (encode_tx bc tx) (inner_bytes tx)"
    using encode_value_adds [OF inner_encodable [OF assms(1,2)]] assms(3)
    by (simp add: writes_def encode_tx_def tx_item_def)
  then show ?thesis by (simp add: tx_item_def True)
next
  case False
  have "length (tx_bytes tx) \<le> length (tx_item tx)" using False length_rlp_string [of "tx_bytes tx"] by (simp add: tx_item_def)
  then have "length (inner_bytes tx) < 2 ^ 63" "length (tx_bytes tx) < 2 ^ 63" using assms(3) False by (simp_all add: tx_bytes_def)
  then have "encodeTyped bc tx = Ok (Some (tx_bytes tx))" "writeBytes (tx_bytes tx) w = eb_append (rlp_string (tx_bytes tx)) w" for w
    using encodeInner_ok [OF assms(1,2)] False writeBytes_eq [of "tx_bytes tx" w] by (simp_all add: encodeTyped_def tx_bytes_def)
  then show ?thesis using False adds_append assms(2)
    by (cases tx) (auto simp: writes_def encode_tx_def tx_item_def)
qed

lemma writes_withdrawal:
  assumes "length (w_Address x) = 20"
  shows "writes (\<lambda>w. Ok (Withdrawal_EncodeRLP x w)) (withdrawal_bytes x)"
proof -
  define out where "out = rlp_string (be_bytes (unat (w_Index x))) @ rlp_string (be_bytes (unat (w_Validator x)))
     @ rlp_string (w_Address x) @ rlp_string (be_bytes (unat (w_Amount x)))"
  have short: "length (rlp_string (be_bytes (unat i))) \<le> 9" for i :: u64
    using length_be_bytes_8 [of "unat i"] unsigned_less [of i] by (auto simp: rlp_string_def rlp_head_def)
  have "length out < 2 ^ 64"
    using short [of "w_Index x"] short [of "w_Validator x"] short [of "w_Amount x"] assms
    by (simp add: out_def rlp_string_def rlp_head_def)
  moreover have "writes (\<lambda>w. Ok (eb_append out w)) out" using adds_append by (auto simp: writes_def)
  moreover have "Withdrawal_EncodeRLP x w = (case eb_list w of (lh, w) \<Rightarrow> eb_listEnd lh (eb_append out w))" for w
    using assms by (simp add: Withdrawal_EncodeRLP_def writeUint64_eq writeBytes_eq out_def eb_append_append split_beta Let_def)
  ultimately show ?thesis using writes_list [of "\<lambda>w. Ok (eb_append out w)" out]
    by (simp add: withdrawal_bytes_def out_def [symmetric] split_beta)
qed

lemma concat_part_le: "x \<in> set xs \<Longrightarrow> length (g x) \<le> length (concat (map g xs))"
  by (induction xs) auto

lemma Block_EncodeRLP_writes:
  assumes "block_ok b" "length (block_payload b) < 2 ^ 63"
  shows "writes (Block_EncodeRLP bc b) (rlp_list (block_payload b))"
proof -
  let ?t = "concat (map tx_item (b_transactions b))" and ?u = "concat (map header_bytes (b_uncles b))"
  have le: "length (header_bytes (b_header b)) < 2 ^ 63" "length ?t < 2 ^ 63" "length ?u < 2 ^ 63"
    using assms(2) length_rlp_list [of ?t] length_rlp_list [of ?u] by (auto simp: block_payload_def)
  have lw: "length (concat (map withdrawal_bytes ws)) < 2 ^ 63" if "b_withdrawals b = Some ws" for ws
    using that assms(2) length_rlp_list [of "concat (map withdrawal_bytes ws)"] by (simp add: block_payload_def)
  have h: "writes (Header_EncodeRLP (b_header b)) (header_bytes (b_header b))"
    using assms(1) le by (intro writes_header) (auto simp: block_ok_def)
  have t: "writes (encode_slice (encode_tx bc) (b_transactions b)) (rlp_list ?t)"
    using assms(1) le concat_part_le [of _ "b_transactions b" tx_item]
    by (intro writes_slice writes_tx) (auto simp: block_ok_def list_all_iff intro: le_less_trans)
  have u: "writes (encode_slice Header_EncodeRLP (b_uncles b)) (rlp_list ?u)"
    using assms(1) le concat_part_le [of _ "b_uncles b" header_bytes]
    by (intro writes_slice writes_header) (auto simp: block_ok_def list_all_iff intro: le_less_trans)
  have w: "writes (\<lambda>w. case b_withdrawals b of None \<Rightarrow> Ok w
      | Some ws \<Rightarrow> encode_slice (\<lambda>x w. Ok (Withdrawal_EncodeRLP x w)) ws w)
      (case b_withdrawals b of None \<Rightarrow> [] | Some ws \<Rightarrow> rlp_list (concat (map withdrawal_bytes ws)))"
  proof (cases "b_withdrawals b")
    case (Some ws)
    then have "writes (encode_slice (\<lambda>x w. Ok (Withdrawal_EncodeRLP x w)) ws) (rlp_list (concat (map withdrawal_bytes ws)))"
      using assms(1) lw [OF Some] by (intro writes_slice writes_withdrawal) (auto simp: block_ok_def list_all_iff)
    then show ?thesis using Some by simp
  qed (simp add: writes_Ok)
  have p: "length (block_payload b) < 2 ^ 64" using assms(2) by simp
  note all = writes_list [OF writes_seq [OF h writes_seq [OF t writes_seq [OF u w]]], folded block_payload_def, OF p]
  show ?thesis
    by (rule iffD1 [OF arg_cong2 [of _ _ _ _ writes, OF _ refl] all])
       (auto simp: Block_EncodeRLP_def split_beta fun_eq_iff split: sum.splits option.splits)
qed

subsection \<open>Order of the derived keys\<close>

definition byte_less :: "bytes \<Rightarrow> bytes \<Rightarrow> bool" where
  "byte_less a b \<longleftrightarrow> (a, b) \<in> lexord {(x, y). x < y}"

lemma be_val_lexord:
  assumes "length a = length b" "be_val a < be_val b"
  shows "byte_less a b"
  using assms
proof (induction a b rule: list_induct2)
  case (Cons x xs y ys)
  show ?case
  proof (cases "x = y")
    case True
    then show ?thesis using Cons by (simp add: byte_less_def)
  next
    case False
    have "x < y"
    proof (rule ccontr)
      assume "\<not> x < y"
      then have "y < x" using False by simp
      then have "unat y + 1 \<le> unat x" by (simp add: word_less_nat_alt)
      then have "(unat y + 1) * 256 ^ length ys \<le> unat x * 256 ^ length ys" by (rule mult_right_mono) simp
      then show False using Cons(3) be_val_less [of ys] Cons(1) by simp
    qed
    then show ?thesis by (simp add: byte_less_def)
  qed
qed simp

definition derive_key :: "nat \<Rightarrow> bytes" where
  "derive_key i = AppendUint64 [] (of_nat i)"

lemma derive_key_0: "derive_key 0 = [0x80]"
  by (simp add: derive_key_def AppendUint64_eq rlp_string_def rlp_head_def)

lemma derive_key_small: "0 < i \<Longrightarrow> i < 128 \<Longrightarrow> derive_key i = [of_nat i]"
  using unat_of_nat_u64 [of i]
  by (simp add: derive_key_def AppendUint64_eq rlp_string_def be_bytes_pos word_less_nat_alt unat_of_nat)

lemma derive_key_large:
  assumes "128 \<le> i" "i < 2 ^ 64"
  shows "derive_key i = (0x80 + of_nat (length (be_bytes i))) # be_bytes i"
proof -
  have n: "\<not> (length (be_bytes i) = 1 \<and> be_bytes i ! 0 < 0x80)"
  proof
    assume a: "length (be_bytes i) = 1 \<and> be_bytes i ! 0 < 0x80"
    then obtain x where "be_bytes i = [x]" "x < 0x80" by (auto simp: length_Suc_conv)
    then have "be_val (be_bytes i) < 128" by (simp add: word_less_nat_alt)
    then show False using assms(1) by simp
  qed
  have "length (be_bytes i) \<le> 8" using assms(2) by (rule length_be_bytes_8)
  then show ?thesis using n assms(2) by (simp add: derive_key_def AppendUint64_eq rlp_string_def rlp_head_def unat_of_nat_u64)
qed

lemma byte_less_Cons: "x < y \<Longrightarrow> byte_less (x # xs) (y # ys)" "byte_less xs ys \<Longrightarrow> byte_less (x # xs) (x # ys)"
  by (simp_all add: byte_less_def)

lemma length_be_bytes_mono: "i \<le> j \<Longrightarrow> length (be_bytes i) \<le> length (be_bytes j)"
  using be_val_less [of "be_bytes j"] by (subst length_be_bytes_le) simp

lemma small_byte_less:
  assumes "m < n" "n \<le> 8"
  shows "(0x80 + of_nat m :: byte) < 0x80 + of_nat n"
  using assms unat_small_tag(1) [of m] unat_small_tag(1) [of n] by (simp add: word_less_nat_alt)

lemma derive_key_large_less:
  assumes "128 \<le> i" "i < j" "j < 2 ^ 64"
  shows "byte_less (derive_key i) (derive_key j)"
proof (cases "length (be_bytes i) = length (be_bytes j)")
  case True
  then show ?thesis using assms by (auto simp: derive_key_large intro!: byte_less_Cons be_val_lexord)
next
  case False
  then have "length (be_bytes i) < length (be_bytes j)" using length_be_bytes_mono [of i j] assms(2) by simp
  then show ?thesis using assms length_be_bytes_8 [of j]
    by (auto simp: derive_key_large intro!: byte_less_Cons(1) small_byte_less)
qed

lemma derive_key_0_less: "128 \<le> j \<Longrightarrow> j < 2 ^ 64 \<Longrightarrow> byte_less (derive_key 0) (derive_key j)"
  using small_byte_less [of 0 "length (be_bytes j)"] length_be_bytes_8 [of j]
  by (simp add: derive_key_0 derive_key_large byte_less_Cons(1))

lemma derive_key_small_less:
  assumes "0 < i" "i < 128" "j = 0 \<or> i < j" "j < 2 ^ 64"
  shows "byte_less (derive_key i) (derive_key j)"
proof -
  have u: "unat (of_nat k :: byte) = k" if "k < 128" for k using that by (simp add: unat_of_nat)
  consider "j = 0" | "0 < j" "j < 128" | "128 \<le> j" by linarith
  then show ?thesis
  proof cases
    case 1
    then show ?thesis using assms u by (simp add: derive_key_0 derive_key_small byte_less_def word_less_nat_alt)
  next
    case 2
    then show ?thesis using assms u by (simp add: derive_key_small byte_less_def word_less_nat_alt)
  next
    case 3
    have "length (be_bytes j) \<le> 8" using assms(4) by (rule length_be_bytes_8)
    then have "unat (0x80 + of_nat (length (be_bytes j)) :: byte) \<ge> 128" using unat_small_tag(1) [of "length (be_bytes j)"] by simp
    then show ?thesis using 3 assms u [of i]
      by (simp add: derive_key_small derive_key_large) (intro byte_less_Cons(1), simp add: word_less_nat_alt)
  qed
qed

lemma EncodeBlock_bytes:
  assumes "block_ok b" "length (rlp_list (block_payload b)) < 2 ^ 63"
  shows "EncodeBlock bc b = Ok (Some (rlp_list (block_payload b)))"
proof -
  have "length (block_payload b) < 2 ^ 63" using assms(2) length_rlp_list [of "block_payload b"] by simp
  from Block_EncodeRLP_writes [OF assms(1) this, of bc] obtain w where
    "Block_EncodeRLP bc b newEncBuffer = Ok w" "adds newEncBuffer w (rlp_list (block_payload b))" by (rule writesE)
  then show ?thesis by (simp add: EncodeBlock_def makeBytes_adds)
qed

section \<open>Properties\<close>

text \<open>C34: A block is encoded as the RLP list of its header, transactions, uncles and, if present,
  withdrawals, each in its own encoding.\<close>

theorem EncodeBlock_spec:
  assumes "block_ok b" "length (rlp_list (block_payload b)) < 2 ^ 63"
  shows "EncodeBlock bc b = Ok (Some (rlp_list (block_payload b)))"
  by (rule EncodeBlock_bytes [OF assms])

lemma zero_block_ok:
  "block_ok (NewBlockWithHeader zero_header)" "length (rlp_list (block_payload (NewBlockWithHeader zero_header))) < 2 ^ 63"
proof -
  have c: "CopyHeader zero_header = zero_header" by (simp add: CopyHeader_def zero_header_def)
  show "block_ok (NewBlockWithHeader zero_header)"
    using zero_header_ok by (simp add: block_ok_def NewBlockWithHeader_def c)
  have "length (header_bytes zero_header) < 1000"
    by (simp add: zero_header_def header_value_def header_values_def header_len_def big_value_def
        rlp_list_def rlp_string_def rlp_head_def be_bytes.simps)
  then have p: "length (block_payload (NewBlockWithHeader zero_header)) < 1002"
    by (simp add: block_payload_def NewBlockWithHeader_def c rlp_list_def rlp_head_def)
  then have "length (be_bytes (length (block_payload (NewBlockWithHeader zero_header)))) \<le> 8"
    by (intro length_be_bytes_8) simp
  then show "length (rlp_list (block_payload (NewBlockWithHeader zero_header))) < 2 ^ 63"
    using p by (simp add: rlp_list_def rlp_head_def)
qed

theorem EncodeBlock_spec_witness:
  "EncodeBlock sample_codec (NewBlockWithHeader zero_header) = Ok (Some (rlp_list (block_payload (NewBlockWithHeader zero_header))))"
  using EncodeBlock_spec [OF zero_block_ok] .

lemma derive_order_sorted:
  assumes "n < 2 ^ 64"
  shows "sorted_wrt byte_less (map derive_key (derive_order n))"
proof -
  have "sorted_wrt (\<lambda>i j. byte_less (derive_key i) (derive_key j)) [1..<min n 0x80]"
    by (rule sorted_wrt_mono_rel [OF _ sorted_wrt_upt]) (use assms in \<open>auto intro: derive_key_small_less\<close>)
  moreover have "sorted_wrt (\<lambda>i j. byte_less (derive_key i) (derive_key j)) [0x80..<n]"
    by (rule sorted_wrt_mono_rel [OF _ sorted_wrt_upt]) (use assms in \<open>auto intro: derive_key_large_less\<close>)
  ultimately show ?thesis
    using assms derive_key_small_less derive_key_0_less by (auto simp: derive_order_def sorted_wrt_append sorted_wrt_map)
qed

text \<open>C35: \<open>DeriveSha\<close> hands every element to the hasher exactly once and in strictly increasing order
  of the encoded index, as the stack trie requires.\<close>

theorem DeriveSha_sorted:
  assumes "n < 2 ^ 64"
  shows "\<exists>kvs. DeriveSha H enc n s = th_Hash H (fold (\<lambda>(k, v). th_Update H k v) kvs (th_Reset H s))
    \<and> sorted_wrt byte_less (map fst kvs) \<and> length kvs = n
    \<and> set kvs = (\<lambda>i. (AppendUint64 [] (of_nat i), enc i)) ` {..<n}"
proof -
  let ?kvs = "map (\<lambda>i. (derive_key i, enc i)) (derive_order n)"
  have "DeriveSha H enc n s = th_Hash H (fold (\<lambda>(k, v). th_Update H k v) ?kvs (th_Reset H s))"
    by (simp add: DeriveSha_def derive_key_def fold_map comp_def)
  moreover have "sorted_wrt byte_less (map fst ?kvs)" using derive_order_sorted [OF assms] by (simp add: comp_def)
  moreover have "length (derive_order n) = n" "set (derive_order n) = {..<n}" by (auto simp: derive_order_def)
  ultimately show ?thesis by (intro exI [of _ ?kvs]) (simp add: derive_key_def)
qed

text \<open>A hasher that records its updates.\<close>

definition recorder :: "((bytes \<times> bytes) list) TrieHasher" where
  "recorder = \<lparr>th_Reset = \<lambda>_. [], th_Update = \<lambda>k v h. h @ [(k, v)], th_Hash = \<lambda>h. concat (map fst h)\<rparr>"

theorem DeriveSha_sorted_witness:
  "DeriveSha recorder (\<lambda>_. []) 3 [] = [1, 2, 0x80]
   \<and> (\<exists>kvs. DeriveSha recorder (\<lambda>_. []) 3 [] = th_Hash recorder (fold (\<lambda>(k, v). th_Update recorder k v) kvs (th_Reset recorder []))
      \<and> sorted_wrt byte_less (map fst kvs) \<and> length kvs = 3
      \<and> set kvs = (\<lambda>i. (AppendUint64 [] (of_nat i), [])) ` {..<3})"
proof -
  have "derive_order 3 = [1, 2, 0]" by (simp add: derive_order_def upt_rec)
  then have "DeriveSha recorder (\<lambda>_. []) 3 [] = [1, 2, 0x80]"
    by (simp add: DeriveSha_def recorder_def derive_key_small [unfolded derive_key_def] derive_key_0 [unfolded derive_key_def])
       (simp add: AppendUint64_eq rlp_string_def rlp_head_def be_bytes_pos)
  then show ?thesis using DeriveSha_sorted [of 3 recorder "\<lambda>_. []" "[]"] by simp
qed

end
