(* ===== verification/Types_Receipt.thy ===== *)
theory Types_Receipt
  imports Evm_Call Types_Body
begin

text \<open>
  Receipts and their bloom filters (\<^verbatim>\<open>core/types/receipt.go\<close>, \<^verbatim>\<open>bloom9.go\<close>, \<^verbatim>\<open>log.go\<close>): the 2048-bit
  filter over the addresses and topics of the logs, the consensus and the storage encoding of receipts, and
  the fields derived from the block.  The hash function is an argument.
\<close>

section \<open>Definitions\<close>

subsection \<open>Bloom filters\<close>

definition BloomByteLength :: nat where
  "BloomByteLength = 256"

definition BE_Uint16 :: "bytes \<Rightarrow> 16 word" where
  "BE_Uint16 b = push_bit 8 (ucast (b ! 0)) OR ucast (b ! 1)"

text \<open>The bit and the byte chosen by two bytes of the hash, and the three pairs of index and value for some data.\<close>

definition bloomBit :: "bytes \<Rightarrow> nat \<times> byte" where
  "bloomBit b = (BloomByteLength - unat (drop_bit 3 (BE_Uint16 b AND 0x7FF)) - 1, push_bit (unat (b ! 1 AND 7)) 1)"

definition bloomValues :: "(bytes \<Rightarrow> bytes) \<Rightarrow> bytes \<Rightarrow> (nat \<times> byte) list" where
  "bloomValues K dat = (let hashbuf = take 6 (K dat) in [bloomBit hashbuf, bloomBit (drop 2 hashbuf), bloomBit (drop 4 hashbuf)])"

definition bloom_add :: "(bytes \<Rightarrow> bytes) \<Rightarrow> bytes \<Rightarrow> bytes \<Rightarrow> bytes" where
  "bloom_add K d b = fold (\<lambda>(i, v) b. b[i := b ! i OR v]) (bloomValues K d) b"

definition bloom_Test :: "(bytes \<Rightarrow> bytes) \<Rightarrow> bytes \<Rightarrow> bytes \<Rightarrow> bool" where
  "bloom_Test K topic b = (\<forall>(i, v) \<in> set (bloomValues K topic). v = v AND b ! i)"

text \<open>\<open>SetBytes\<close> panics when the data is longer than the filter.\<close>

definition BytesToBloom :: "bytes \<Rightarrow> bytes option" where
  "BytesToBloom d = (if BloomByteLength < length d then None else Some (left_pad BloomByteLength d))"

definition addLog :: "(bytes \<Rightarrow> bytes) \<Rightarrow> Log \<Rightarrow> bytes \<Rightarrow> bytes" where
  "addLog K log b = fold (bloom_add K) (l_Topics log) (bloom_add K (l_Address log) b)"

definition LogsBloom :: "(bytes \<Rightarrow> bytes) \<Rightarrow> Log list \<Rightarrow> bytes" where
  "LogsBloom K logs = fold (addLog K) logs (replicate BloomByteLength 0)"

subsection \<open>Receipts\<close>

record Receipt =
  rc_Type :: byte
  rc_PostState :: bytes
  rc_Status :: u64
  rc_CumulativeGasUsed :: u64
  rc_Bloom :: bytes
  rc_Logs :: "Log list"
  rc_TxHash :: hash
  rc_ContractAddress :: address
  rc_GasUsed :: u64
  rc_EffectiveGasPrice :: "int option"
  rc_BlockHash :: hash
  rc_BlockNumber :: "int option"
  rc_TransactionIndex :: u64

definition zero_receipt :: Receipt where
  "zero_receipt = \<lparr>rc_Type = 0, rc_PostState = [], rc_Status = 0, rc_CumulativeGasUsed = 0, rc_Bloom = replicate 256 0, rc_Logs = [],
     rc_TxHash = zero_hash, rc_ContractAddress = zero_address, rc_GasUsed = 0, rc_EffectiveGasPrice = None, rc_BlockHash = zero_hash,
     rc_BlockNumber = None, rc_TransactionIndex = 0\<rparr>"

definition CreateBloom :: "(bytes \<Rightarrow> bytes) \<Rightarrow> Receipt list \<Rightarrow> bytes" where
  "CreateBloom K receipts = fold (\<lambda>r b. fold (addLog K) (rc_Logs r) b) receipts (replicate BloomByteLength 0)"

definition ReceiptStatusFailed :: u64 where "ReceiptStatusFailed = 0"
definition ReceiptStatusSuccessful :: u64 where "ReceiptStatusSuccessful = 1"

definition statusEncoding :: "Receipt \<Rightarrow> bytes" where
  "statusEncoding r =
     (if length (rc_PostState r) = 0 then (if rc_Status r = ReceiptStatusFailed then [] else [1]) else rc_PostState r)"

datatype receipt_err = ErrReceiptRLP rlp_err | ErrShortTypedReceipt | ErrReceiptTypeNotSupported | ErrInvalidStatus bytes

definition setStatus :: "bytes \<Rightarrow> Receipt \<Rightarrow> receipt_err + Receipt" where
  "setStatus p r =
     (if p = [1] then Ok (r\<lparr>rc_Status := ReceiptStatusSuccessful\<rparr>)
      else if p = [] then Ok (r\<lparr>rc_Status := ReceiptStatusFailed\<rparr>)
      else if length p = 32 then Ok (r\<lparr>rc_PostState := p\<rparr>)
      else Err (ErrInvalidStatus p))"

text \<open>The consensus fields of a log, as the generated code writes them.\<close>

definition Log_EncodeRLP :: "Log \<Rightarrow> encBuffer \<Rightarrow> rlp_err + encBuffer" where
  "Log_EncodeRLP l w =
     (case eb_list w of (tmp0, w) \<Rightarrow>
      case eb_list (writeBytes (l_Address l) w) of (tmp1, w) \<Rightarrow>
      let w = eb_listEnd tmp1 (fold writeBytes (l_Topics l) w)
      in Ok (eb_listEnd tmp0 (writeBytes (l_Data l) w)))"

definition log_type :: gotype where
  "log_type = TStruct (map (\<lambda>t. (t, False)) [TByteArray 20, TSlice (TByteArray 32), TBytes])"

definition log_of :: "goval \<Rightarrow> Log" where
  "log_of v = (let fs = the_list v in
     \<lparr>l_Address = the_bytes (fs ! 0), l_Topics = map the_bytes (the_list (fs ! 1)), l_Data = the_bytes (fs ! 2), l_BlockNumber = 0,
      l_TxHash = zero_hash, l_TxIndex = 0, l_BlockHash = zero_hash, l_Index = 0, l_Removed = False\<rparr>)"

text \<open>The struct with the consensus fields, through the reflective struct writer.\<close>

definition receiptRLP_Encode :: "Receipt \<Rightarrow> encBuffer \<Rightarrow> rlp_err + encBuffer" where
  "receiptRLP_Encode r w =
     (case eb_list w of (lh, w) \<Rightarrow>
      let w = writeUint64 (rc_CumulativeGasUsed r) (writeBytes (statusEncoding r) w)
      in case encode_value (VByteArray (rc_Bloom r)) w of Err e \<Rightarrow> Err e | Ok w \<Rightarrow>
         case encode_slice Log_EncodeRLP (rc_Logs r) w of Err e \<Rightarrow> Err e | Ok w \<Rightarrow>
         Ok (eb_listEnd lh w))"

definition receiptRLP_type :: gotype where
  "receiptRLP_type = TStruct (map (\<lambda>t. (t, False)) [TBytes, TUint Uint64, TByteArray 256, TSlice log_type])"

definition encodeWith :: "(encBuffer \<Rightarrow> rlp_err + encBuffer) \<Rightarrow> rlp_err + bytes option" where
  "encodeWith f = (case f newEncBuffer of Err e \<Rightarrow> Err e | Ok buf \<Rightarrow> Ok (makeBytes buf))"

definition Receipt_MarshalBinary :: "Receipt \<Rightarrow> rlp_err + bytes option" where
  "Receipt_MarshalBinary r =
     (if rc_Type r = 0 then encodeWith (receiptRLP_Encode r)
      else map_sum id (map_option (\<lambda>b. rc_Type r # b)) (encodeWith (receiptRLP_Encode r)))"

definition setFromRLP :: "goval \<Rightarrow> Receipt \<Rightarrow> receipt_err + Receipt" where
  "setFromRLP v r = (let fs = the_list v in
     setStatus (the_bytes (fs ! 0)) (r\<lparr>rc_CumulativeGasUsed := the_uint (fs ! 1), rc_Bloom := the_bytes (fs ! 2), rc_Logs := map log_of (the_list (fs ! 3))\<rparr>))"

definition decodeReceipt :: "byte \<Rightarrow> bytes \<Rightarrow> Receipt \<Rightarrow> (receipt_err + Receipt) option" where
  "decodeReceipt ty b r =
     (case DecodeBytes receiptRLP_type b of None \<Rightarrow> None
      | Some (Err e) \<Rightarrow> Some (Err (ErrReceiptRLP e))
      | Some (Ok v) \<Rightarrow> Some (setFromRLP v (r\<lparr>rc_Type := ty\<rparr>)))"

definition Receipt_decodeTyped :: "bytes \<Rightarrow> Receipt \<Rightarrow> (receipt_err + Receipt) option" where
  "Receipt_decodeTyped b r =
     (if length b \<le> 1 then Some (Err ErrShortTypedReceipt)
      else if b ! 0 = 2 \<or> b ! 0 = 1 then decodeReceipt (b ! 0) (drop 1 b) r
      else Some (Err ErrReceiptTypeNotSupported))"

definition Receipt_UnmarshalBinary :: "bytes \<Rightarrow> Receipt \<Rightarrow> (receipt_err + Receipt) option" where
  "Receipt_UnmarshalBinary b r =
     (if length b > 0 \<and> b ! 0 > 0x7F then decodeReceipt 0 b r else Receipt_decodeTyped b r)"

text \<open>What \<open>DeriveSha\<close> hashes of a receipt: unsupported types write nothing.\<close>

definition Receipts_EncodeIndex :: "Receipt list \<Rightarrow> nat \<Rightarrow> bytes" where
  "Receipts_EncodeIndex rs i =
     (let r = rs ! i; dat = (case encodeWith (receiptRLP_Encode r) of Ok (Some b) \<Rightarrow> b | _ \<Rightarrow> [])
      in if rc_Type r = 0 then dat else if rc_Type r = 1 then 1 # dat else if rc_Type r = 2 then 2 # dat else [])"

subsection \<open>The storage encoding\<close>

definition ReceiptForStorage_EncodeRLP :: "Receipt \<Rightarrow> encBuffer \<Rightarrow> rlp_err + encBuffer" where
  "ReceiptForStorage_EncodeRLP r w =
     (case eb_list w of (outerList, w) \<Rightarrow>
      case eb_list (writeUint64 (rc_CumulativeGasUsed r) (writeBytes (statusEncoding r) w)) of (logList, w) \<Rightarrow>
      case encode_elems Log_EncodeRLP (rc_Logs r) w of Err e \<Rightarrow> Err e
      | Ok w \<Rightarrow> Ok (eb_listEnd outerList (eb_listEnd logList w)))"

definition storedReceiptRLP_type :: gotype where
  "storedReceiptRLP_type = TStruct (map (\<lambda>t. (t, False)) [TBytes, TUint Uint64, TSlice log_type])"

definition ReceiptForStorage_Decode :: "(bytes \<Rightarrow> bytes) \<Rightarrow> bytes \<Rightarrow> (receipt_err + Receipt) option" where
  "ReceiptForStorage_Decode K b =
     (case DecodeBytes storedReceiptRLP_type b of None \<Rightarrow> None
      | Some (Err e) \<Rightarrow> Some (Err (ErrReceiptRLP e))
      | Some (Ok v) \<Rightarrow>
          let fs = the_list v
          in Some (case setStatus (the_bytes (fs ! 0)) zero_receipt of Err e \<Rightarrow> Err e
               | Ok r \<Rightarrow> let r = r\<lparr>rc_CumulativeGasUsed := the_uint (fs ! 1), rc_Logs := map log_of (the_list (fs ! 2))\<rparr>
                         in Ok (r\<lparr>rc_Bloom := CreateBloom K [r]\<rparr>)))"

subsection \<open>Derived fields\<close>

definition tx_Hash :: "'k crypto \<Rightarrow> blobCodec \<Rightarrow> TxData \<Rightarrow> hash" where
  "tx_Hash C bc tx =
     (let enc = (case encodeInner bc tx of Ok (Some b) \<Rightarrow> b | _ \<Rightarrow> [])
      in Keccak256 C (if txType tx = 0 then enc else txType tx # enc))"

text \<open>\<open>i\<close> is the index of the receipt, \<open>prev\<close> the cumulative gas before it and \<open>logIndex\<close> the number of logs before it.
  The sender of a transaction that cannot be recovered is the zero address.\<close>

fun derive_logs :: "u64 \<Rightarrow> hash \<Rightarrow> hash \<Rightarrow> u64 \<Rightarrow> u64 \<Rightarrow> Log list \<Rightarrow> Log list" where
  "derive_logs number bh th ti logIndex [] = []"
| "derive_logs number bh th ti logIndex (l # ls) =
     l\<lparr>l_BlockNumber := number, l_BlockHash := bh, l_TxHash := th, l_TxIndex := ti, l_Index := logIndex\<rparr>
     # derive_logs number bh th ti (logIndex + 1) ls"

fun derive_loop :: "('t, 'e) backend \<Rightarrow> 'k crypto \<Rightarrow> blobCodec \<Rightarrow> Signer \<Rightarrow> hash \<Rightarrow> u64 \<Rightarrow> int option \<Rightarrow>
    nat \<Rightarrow> u64 \<Rightarrow> u64 \<Rightarrow> Receipt list \<Rightarrow> TxData list \<Rightarrow> Receipt list" where
  "derive_loop B C bc signer bh number baseFee i prev logIndex (r # rs) (tx # txs) =
     (let th = tx_Hash C bc tx;
          addr = (if tx_to tx = None then CreateAddress B (case signer_Sender C signer tx of Err _ \<Rightarrow> zero_address | Ok a \<Rightarrow> a) (tx_nonce tx)
                  else zero_address)
      in r\<lparr>rc_Type := txType tx, rc_TxHash := th, rc_EffectiveGasPrice := Some (effectiveGasPrice tx baseFee), rc_BlockHash := bh,
          rc_BlockNumber := Some (uint number), rc_TransactionIndex := of_nat i, rc_ContractAddress := addr,
          rc_GasUsed := (if i = 0 then rc_CumulativeGasUsed r else rc_CumulativeGasUsed r - prev),
          rc_Logs := derive_logs number bh th (of_nat i) logIndex (rc_Logs r)\<rparr>
         # derive_loop B C bc signer bh number baseFee (i + 1) (rc_CumulativeGasUsed r) (logIndex + of_nat (length (rc_Logs r))) rs txs)"
| "derive_loop B C bc signer bh number baseFee i prev logIndex _ _ = []"

text \<open>\<open>None\<close>: the counts of transactions and receipts differ.\<close>

definition DeriveFields :: "('t, 'e) backend \<Rightarrow> 'k crypto \<Rightarrow> blobCodec \<Rightarrow> ChainConfig \<Rightarrow> hash \<Rightarrow> u64 \<Rightarrow> u64 \<Rightarrow> int option \<Rightarrow>
    TxData list \<Rightarrow> Receipt list \<Rightarrow> Receipt list option" where
  "DeriveFields B C bc config bh number time baseFee txs rs =
     (let signer = MakeSigner config (Some (uint number)) time
      in if length txs \<noteq> length rs then None else Some (derive_loop B C bc signer bh number baseFee 0 0 0 rs txs))"

section \<open>Lemmas\<close>

subsection \<open>Encodings\<close>

definition log_value :: "Log \<Rightarrow> goval" where
  "log_value l = VStruct [VByteArray (l_Address l), VSlice (map VByteArray (l_Topics l)), VBytes (l_Data l)]"

definition receipt_value :: "Receipt \<Rightarrow> goval" where
  "receipt_value r = VStruct [VBytes (statusEncoding r), VUint (rc_CumulativeGasUsed r), VByteArray (rc_Bloom r), VSlice (map log_value (rc_Logs r))]"

definition stored_value :: "Receipt \<Rightarrow> goval" where
  "stored_value r = VStruct [VBytes (statusEncoding r), VUint (rc_CumulativeGasUsed r), VSlice (map log_value (rc_Logs r))]"

definition log_ok :: "Log \<Rightarrow> bool" where
  "log_ok l \<longleftrightarrow> length (l_Address l) = 20 \<and> (\<forall>t \<in> set (l_Topics l). length t = 32)"

definition receipt_ok :: "Receipt \<Rightarrow> bool" where
  "receipt_ok r \<longleftrightarrow> length (rc_PostState r) \<in> {0, 32} \<and> length (rc_Bloom r) = 256 \<and> list_all log_ok (rc_Logs r)"

abbreviation bytes_of :: "goval \<Rightarrow> bytes" where
  "bytes_of v \<equiv> rlp_enc (item_of v)"

lemma writes_append: "writes (\<lambda>w. Ok (eb_append out w)) out"
  using adds_append by (auto simp: writes_def)

lemma writes_bytes: "length (rlp_string b) < 2 ^ 64 \<Longrightarrow> writes (\<lambda>w. Ok (writeBytes b w)) (rlp_string b)"
  using writes_append length_rlp_string [of b] by (simp add: writeBytes_eq)

lemma writes_uint: "writes (\<lambda>w. Ok (writeUint64 i w)) (rlp_string (be_bytes (unat i)))"
  using writes_append by (simp add: writeUint64_eq)

lemma writes_value: "encodable v \<Longrightarrow> length (bytes_of v) < 2 ^ 64 \<Longrightarrow> writes (encode_value v) (bytes_of v)"
  using encode_value_adds by (simp add: writes_def)

lemma writes_fold:
  assumes "\<And>x. x \<in> set xs \<Longrightarrow> writes (\<lambda>w. Ok (f x w)) (g x)"
  shows "writes (\<lambda>w. Ok (fold f xs w)) (concat (map g xs))"
proof -
  have "encode_elems (\<lambda>x w. Ok (f x w)) xs w = Ok (fold f xs w)" for w by (induction xs arbitrary: w) simp_all
  moreover have "writes (encode_elems (\<lambda>x w. Ok (f x w)) xs) (concat (map g xs))" using assms by (rule writes_elems)
  ultimately show ?thesis by (simp add: writes_def)
qed

lemma encodeWith_writes: "writes f out \<Longrightarrow> encodeWith f = Ok (Some out)"
  by (erule writesE [of _ _ newEncBuffer]) (simp add: encodeWith_def makeBytes_adds)

lemma bytes_of_parts:
  "length (bytes_of (VStruct vs)) < k \<Longrightarrow> v \<in> set vs \<Longrightarrow> length (bytes_of v) < k"
  "length (bytes_of (VStruct vs)) < k \<Longrightarrow> length (concat (map bytes_of vs)) < k"
  "length (bytes_of (VSlice vs)) < k \<Longrightarrow> v \<in> set vs \<Longrightarrow> length (bytes_of v) < k"
  "length (bytes_of (VSlice vs)) < k \<Longrightarrow> length (concat (map bytes_of vs)) < k"
  using length_rlp_list [of "concat (map bytes_of vs)"] concat_part_le [of v vs bytes_of] by (auto simp: comp_def)

lemma bytes_of_simps:
  "bytes_of (VBytes b) = rlp_string b" "bytes_of (VUint i) = rlp_string (be_bytes (unat i))"
  "bytes_of (VByteArray b) = rlp_string b" "bytes_of (VSlice vs) = rlp_list (concat (map bytes_of vs))"
  "bytes_of (VStruct vs) = rlp_list (concat (map bytes_of vs))"
  by (simp_all add: comp_def)

lemma Log_EncodeRLP_writes:
  assumes "length (bytes_of (log_value l)) < 2 ^ 63"
  shows "writes (Log_EncodeRLP l) (bytes_of (log_value l))"
proof -
  let ?vs = "[VByteArray (l_Address l), VSlice (map VByteArray (l_Topics l)), VBytes (l_Data l)]"
  have lt: "length (bytes_of v) < 2 ^ 64" if "v \<in> set ?vs" for v
    using bytes_of_parts(1) [OF assms [unfolded log_value_def] that] by simp
  have lts: "length (bytes_of (VByteArray t)) < 2 ^ 64" if "t \<in> set (l_Topics l)" for t
    using bytes_of_parts(3) [OF lt [of "VSlice (map VByteArray (l_Topics l))"], of "VByteArray t"] that by simp
  have pt: "length (concat (map (\<lambda>t. rlp_string t) (l_Topics l))) < 2 ^ 64"
    using bytes_of_parts(4) [OF lt [of "VSlice (map VByteArray (l_Topics l))"]] by (simp add: comp_def)
  have pv: "length (concat (map bytes_of ?vs)) < 2 ^ 64"
    using bytes_of_parts(2) [OF assms [unfolded log_value_def]] by (rule less_trans) simp
  have a: "writes (\<lambda>w. Ok (writeBytes (l_Address l) w)) (rlp_string (l_Address l))"
    using lt [of "VByteArray (l_Address l)"] by (intro writes_bytes) simp
  have d: "writes (\<lambda>w. Ok (writeBytes (l_Data l) w)) (rlp_string (l_Data l))"
    using lt [of "VBytes (l_Data l)"] by (intro writes_bytes) simp
  have t: "writes (\<lambda>w. Ok (fold writeBytes (l_Topics l) w)) (concat (map rlp_string (l_Topics l)))"
    using lts by (intro writes_fold writes_bytes) simp
  have "writes (\<lambda>w. case eb_list w of (lh, w) \<Rightarrow>
      case (case Ok (writeBytes (l_Address l) w) of Err e \<Rightarrow> Err e | Ok w \<Rightarrow>
        case (case eb_list w of (lh, w) \<Rightarrow> case Ok (fold writeBytes (l_Topics l) w) of Err e \<Rightarrow> Err e | Ok w \<Rightarrow> Ok (eb_listEnd lh w))
        of Err e \<Rightarrow> Err e | Ok w \<Rightarrow> Ok (writeBytes (l_Data l) w))
      of Err e \<Rightarrow> Err e | Ok w \<Rightarrow> Ok (eb_listEnd lh w))
     (rlp_list (rlp_string (l_Address l) @ rlp_list (concat (map rlp_string (l_Topics l))) @ rlp_string (l_Data l)))"
    using pv by (intro writes_list writes_seq a t d pt) (simp add: comp_def)
  then show ?thesis
    by (simp add: log_value_def comp_def Log_EncodeRLP_def [abs_def] split_beta Let_def)
qed

lemma Logs_writes:
  assumes "length (bytes_of (VSlice (map log_value ls))) < 2 ^ 63"
  shows "writes (encode_slice Log_EncodeRLP ls) (bytes_of (VSlice (map log_value ls)))"
    and "writes (encode_elems Log_EncodeRLP ls) (concat (map bytes_of (map log_value ls)))"
proof -
  have l: "length (concat (map bytes_of (map log_value ls))) < 2 ^ 63" by (rule bytes_of_parts(4) [OF assms])
  have 1: "writes (Log_EncodeRLP x) (bytes_of (log_value x))" if "x \<in> set ls" for x
    using that by (intro Log_EncodeRLP_writes bytes_of_parts(3) [OF assms]) simp
  show "writes (encode_elems Log_EncodeRLP ls) (concat (map bytes_of (map log_value ls)))"
    using writes_elems [of ls Log_EncodeRLP "\<lambda>x. bytes_of (log_value x)"] 1 by (simp add: comp_def)
  show "writes (encode_slice Log_EncodeRLP ls) (bytes_of (VSlice (map log_value ls)))"
    using writes_slice [of ls Log_EncodeRLP "\<lambda>x. bytes_of (log_value x)"] 1 l by (simp add: comp_def)
qed

lemma struct_lt:
  assumes "length (bytes_of (VStruct vs)) < 2 ^ 63"
  shows "v \<in> set vs \<Longrightarrow> length (bytes_of v) < 2 ^ 64" "length (concat (map bytes_of vs)) < 2 ^ 64"
  using bytes_of_parts(1) [OF assms, of v] bytes_of_parts(2) [OF assms] by (auto intro: less_trans)

lemma receiptRLP_writes:
  assumes "length (bytes_of (receipt_value r)) < 2 ^ 63"
  shows "writes (receiptRLP_Encode r) (bytes_of (receipt_value r))"
proof -
  note lt = struct_lt(1) [OF assms [unfolded receipt_value_def]]
  have s: "writes (\<lambda>w. Ok (writeBytes (statusEncoding r) w)) (bytes_of (VBytes (statusEncoding r)))"
    using lt [of "VBytes (statusEncoding r)"] writes_bytes by simp
  have g: "writes (\<lambda>w. Ok (writeUint64 (rc_CumulativeGasUsed r) w)) (bytes_of (VUint (rc_CumulativeGasUsed r)))"
    using writes_uint by simp
  have b: "writes (encode_value (VByteArray (rc_Bloom r))) (bytes_of (VByteArray (rc_Bloom r)))"
    by (intro writes_value lt) simp_all
  have l: "writes (encode_slice Log_EncodeRLP (rc_Logs r)) (bytes_of (VSlice (map log_value (rc_Logs r))))"
    by (intro Logs_writes(1) bytes_of_parts(1) [OF assms [unfolded receipt_value_def]]) simp
  have eq: "bytes_of (receipt_value r) = rlp_list (bytes_of (VBytes (statusEncoding r)) @ bytes_of (VUint (rc_CumulativeGasUsed r))
      @ bytes_of (VByteArray (rc_Bloom r)) @ bytes_of (VSlice (map log_value (rc_Logs r))))"
    by (simp add: receipt_value_def)
  have len: "length (bytes_of (VBytes (statusEncoding r)) @ bytes_of (VUint (rc_CumulativeGasUsed r))
      @ bytes_of (VByteArray (rc_Bloom r)) @ bytes_of (VSlice (map log_value (rc_Logs r)))) < 2 ^ 64"
    using struct_lt(2) [OF assms [unfolded receipt_value_def]] by simp
  show ?thesis unfolding eq
    by (rule iffD1 [OF arg_cong2 [of _ _ _ _ writes, OF _ refl] writes_list [OF writes_seq [OF s writes_seq [OF g writes_seq [OF b l]]] len]])
       (simp add: receiptRLP_Encode_def split_beta Let_def fun_eq_iff split: sum.splits)
qed

lemma ReceiptForStorage_writes:
  assumes "length (bytes_of (stored_value r)) < 2 ^ 63"
  shows "writes (ReceiptForStorage_EncodeRLP r) (bytes_of (stored_value r))"
proof -
  note lt = struct_lt(1) [OF assms [unfolded stored_value_def]]
  let ?ls = "VSlice (map log_value (rc_Logs r))"
  have s: "writes (\<lambda>w. Ok (writeBytes (statusEncoding r) w)) (bytes_of (VBytes (statusEncoding r)))"
    using lt [of "VBytes (statusEncoding r)"] writes_bytes by simp
  have g: "writes (\<lambda>w. Ok (writeUint64 (rc_CumulativeGasUsed r) w)) (bytes_of (VUint (rc_CumulativeGasUsed r)))"
    using writes_uint by simp
  have "writes (encode_elems Log_EncodeRLP (rc_Logs r)) (concat (map bytes_of (map log_value (rc_Logs r))))"
    by (intro Logs_writes(2) bytes_of_parts(1) [OF assms [unfolded stored_value_def]]) simp
  moreover have "length (concat (map bytes_of (map log_value (rc_Logs r)))) < 2 ^ 64"
    by (rule bytes_of_parts(4)) (intro lt, simp)
  ultimately have l: "writes (\<lambda>w. case eb_list w of (lh, w) \<Rightarrow> case encode_elems Log_EncodeRLP (rc_Logs r) w of Err e \<Rightarrow> Err e
      | Ok w \<Rightarrow> Ok (eb_listEnd lh w)) (bytes_of ?ls)"
    unfolding bytes_of_simps(4) by (rule writes_list)
  have eq: "bytes_of (stored_value r) = rlp_list (bytes_of (VBytes (statusEncoding r)) @ bytes_of (VUint (rc_CumulativeGasUsed r)) @ bytes_of ?ls)"
    by (simp add: stored_value_def)
  have len: "length (bytes_of (VBytes (statusEncoding r)) @ bytes_of (VUint (rc_CumulativeGasUsed r)) @ bytes_of ?ls) < 2 ^ 64"
    using struct_lt(2) [OF assms [unfolded stored_value_def]] by simp
  show ?thesis unfolding eq
    by (rule iffD1 [OF arg_cong2 [of _ _ _ _ writes, OF _ refl] writes_list [OF writes_seq [OF s writes_seq [OF g l]] len]])
       (simp add: ReceiptForStorage_EncodeRLP_def split_beta Let_def fun_eq_iff split: sum.splits)
qed

subsection \<open>Round trips\<close>

lemma plain_receipt: "plain receiptRLP_type" "plain storedReceiptRLP_type"
  by (simp_all add: receiptRLP_type_def storedReceiptRLP_type_def log_type_def)

lemma typed_log: "log_ok l \<Longrightarrow> typed log_type (log_value l)"
  unfolding log_type_def typed_struct by (auto simp: log_value_def typed_basic typed_keys log_ok_def)

lemma typed_logs: "list_all log_ok ls \<Longrightarrow> typed (TSlice log_type) (VSlice (map log_value ls))"
  by (auto simp: typed_slice list_all_iff typed_log)

lemma typed_receipt:
  assumes "receipt_ok r"
  shows "typed receiptRLP_type (receipt_value r)" "typed storedReceiptRLP_type (stored_value r)"
  using assms typed_logs [of "rc_Logs r"] unfolding receiptRLP_type_def storedReceiptRLP_type_def typed_struct
  by (simp_all add: receipt_value_def stored_value_def typed_basic receipt_ok_def)

text \<open>What is left of a log and of a receipt after a trip through an encoding into a fresh receipt.\<close>

definition strip_log :: "Log \<Rightarrow> Log" where
  "strip_log l = l\<lparr>l_BlockNumber := 0, l_TxHash := zero_hash, l_TxIndex := 0, l_BlockHash := zero_hash, l_Index := 0, l_Removed := False\<rparr>"

definition consensus_receipt :: "Receipt \<Rightarrow> Receipt" where
  "consensus_receipt r = zero_receipt\<lparr>rc_Type := rc_Type r, rc_PostState := rc_PostState r,
     rc_Status := (if rc_PostState r = [] \<and> rc_Status r \<noteq> 0 then 1 else 0), rc_CumulativeGasUsed := rc_CumulativeGasUsed r,
     rc_Bloom := rc_Bloom r, rc_Logs := map strip_log (rc_Logs r)\<rparr>"

lemma log_of_value: "log_of (log_value l) = strip_log l"
  by (simp add: log_of_def log_value_def strip_log_def comp_def)

lemma setStatus_encoding:
  assumes "length (rc_PostState r) \<in> {0, 32}" "rc_PostState r' = []" "rc_Status r' = 0"
  shows "setStatus (statusEncoding r) r' = Ok (r'\<lparr>rc_PostState := rc_PostState r, rc_Status := (if rc_PostState r = [] \<and> rc_Status r \<noteq> 0 then 1 else 0)\<rparr>)"
  using assms by (auto simp: setStatus_def statusEncoding_def ReceiptStatusFailed_def ReceiptStatusSuccessful_def)

lemma decodeReceipt_value:
  assumes "receipt_ok r" "length (bytes_of (receipt_value r)) < 2 ^ 63"
  shows "decodeReceipt (rc_Type r) (bytes_of (receipt_value r)) zero_receipt = Some (Ok (consensus_receipt r))"
proof -
  have "DecodeBytes receiptRLP_type (bytes_of (receipt_value r)) = Some (Ok (receipt_value r))"
    using DecodeBytes_plain_iff [OF plain_receipt(1) assms(2)] typed_receipt [OF assms(1)] by simp
  moreover have "setFromRLP (receipt_value r) (zero_receipt\<lparr>rc_Type := rc_Type r\<rparr>) = Ok (consensus_receipt r)"
    using assms(1) by (simp add: setFromRLP_def receipt_value_def receipt_ok_def setStatus_encoding zero_receipt_def consensus_receipt_def log_of_value comp_def)
  ultimately show ?thesis by (simp add: decodeReceipt_def)
qed

lemma struct_head:
  assumes "length (bytes_of (VStruct vs)) < 2 ^ 63"
  shows "bytes_of (VStruct vs) \<noteq> []" "0x7F < bytes_of (VStruct vs) ! 0" "1 < length (0 # bytes_of (VStruct vs))"
proof -
  have "length (concat (map bytes_of vs)) < 2 ^ 64" by (rule struct_lt(2) [OF assms])
  from rlp_head_list [OF this] show "bytes_of (VStruct vs) \<noteq> []" "0x7F < bytes_of (VStruct vs) ! 0" "1 < length (0 # bytes_of (VStruct vs))"
    unfolding bytes_of_simps(5) by (auto simp: rlp_list_def nth_append hd_conv_nth)
qed

lemma Receipt_MarshalBinary_eq:
  assumes "length (bytes_of (receipt_value r)) < 2 ^ 63"
  shows "Receipt_MarshalBinary r = Ok (Some ((if rc_Type r = 0 then [] else [rc_Type r]) @ bytes_of (receipt_value r)))"
  using encodeWith_writes [OF receiptRLP_writes [OF assms]] by (simp add: Receipt_MarshalBinary_def)

lemma ReceiptForStorage_Decode_eq:
  assumes "receipt_ok r" "length (bytes_of (stored_value r)) < 2 ^ 63"
  shows "ReceiptForStorage_Decode K (bytes_of (stored_value r)) =
    Some (Ok ((consensus_receipt r)\<lparr>rc_Type := 0, rc_Bloom := LogsBloom K (map strip_log (rc_Logs r))\<rparr>))"
proof -
  have "DecodeBytes storedReceiptRLP_type (bytes_of (stored_value r)) = Some (Ok (stored_value r))"
    using DecodeBytes_plain_iff [OF plain_receipt(2) assms(2)] typed_receipt [OF assms(1)] by simp
  then show ?thesis
    using assms(1) by (simp add: ReceiptForStorage_Decode_def stored_value_def receipt_ok_def setStatus_encoding
        zero_receipt_def consensus_receipt_def log_of_value comp_def CreateBloom_def LogsBloom_def Let_def)
qed

lemma addLog_strip: "addLog K (strip_log l) = addLog K l"
  by (rule ext) (simp add: addLog_def strip_log_def)

lemma LogsBloom_strip: "LogsBloom K (map strip_log ls) = LogsBloom K ls"
  by (simp add: LogsBloom_def fold_map comp_def addLog_strip)

subsection \<open>Bloom filters\<close>

definition covered :: "bytes \<Rightarrow> bytes \<Rightarrow> bool" where
  "covered b b' \<longleftrightarrow> length b' = length b \<and> (\<forall>i < length b. b ! i AND b' ! i = b ! i)"

lemma covered_refl: "covered b b"
  by (simp add: covered_def)

lemma and_trans: "a AND b = a \<Longrightarrow> b AND c = b \<Longrightarrow> a AND c = (a :: byte)"
  by (metis and.assoc)

lemma covered_trans: "covered a b \<Longrightarrow> covered b c \<Longrightarrow> covered a c"
  by (auto simp: covered_def intro: and_trans)

lemma covered_or: "covered b (b[i := b ! i OR v])"
proof -
  have "x AND (x OR v) = x" for x :: byte by (auto simp: bit_eq_iff bit_simps)
  then show ?thesis by (cases "i < length b") (auto simp: covered_def nth_list_update)
qed

lemma covered_fold:
  assumes "\<And>x b. x \<in> set xs \<Longrightarrow> covered b (f x b)"
  shows "covered b (fold f xs b)"
  using assms
proof (induction xs arbitrary: b)
  case (Cons x xs)
  have "covered b (f x b)" "covered (f x b) (fold f xs (f x b))" using Cons by simp_all
  then show ?case using covered_trans by simp
qed (simp add: covered_refl)

lemma bloom_add_covered: "covered b (bloom_add K d b)"
  unfolding bloom_add_def by (rule covered_fold) (auto intro: covered_or)

lemma addLog_covered: "covered b (addLog K l b)"
  unfolding addLog_def using covered_fold [of "l_Topics l" "bloom_add K"] bloom_add_covered covered_trans by blast

lemma bloomValues_index: "(i, v) \<in> set (bloomValues K d) \<Longrightarrow> i < 256"
  by (auto simp: bloomValues_def bloomBit_def BloomByteLength_def Let_def)

lemma bits_fold:
  fixes b :: bytes
  assumes "length b = 256" "\<forall>(i, v) \<in> set ps. i < 256" "(i, v) \<in> set ps"
  shows "v = v AND fold (\<lambda>(i, v) b. b[i := b ! i OR v]) ps b ! i"
  using assms
proof (induction ps arbitrary: b)
  case (Cons p ps)
  obtain j u where p: "p = (j, u)" by force
  let ?b = "b[j := b ! j OR u]"
  show ?case
  proof (cases "(i, v) \<in> set ps")
    case True
    then show ?thesis using Cons by (auto simp: p)
  next
    case False
    then have e: "i = j" "v = u" using Cons.prems(3) p by auto
    have "covered ?b (fold (\<lambda>(i, v) b. b[i := b ! i OR v]) ps ?b)" by (rule covered_fold) (auto intro: covered_or)
    moreover have "i < 256" using Cons.prems(2) e p by auto
    ultimately have "(b ! i OR v) AND fold (\<lambda>(i, v) b. b[i := b ! i OR v]) ps ?b ! i = b ! i OR v"
      using Cons.prems(1) e by (auto simp: covered_def)
    moreover have "v AND (b ! i OR v) = v" by (auto simp: bit_eq_iff bit_simps)
    ultimately have "v AND fold (\<lambda>(i, v) b. b[i := b ! i OR v]) ps ?b ! i = v" by (rule and_trans [of v "b ! i OR v", rotated])
    from sym [OF this] show ?thesis by (simp only: p e fold_simps case_prod_conv)
  qed
qed simp

lemma bloom_Test_add: "length b = 256 \<Longrightarrow> bloom_Test K d (bloom_add K d b)"
  unfolding bloom_Test_def bloom_add_def using bits_fold [of b "bloomValues K d"] bloomValues_index by fast

lemma bloom_Test_mono:
  assumes "bloom_Test K d b" "covered b b'" "length b = 256"
  shows "bloom_Test K d b'"
proof -
  have "v = v AND b' ! i" if iv: "(i, v) \<in> set (bloomValues K d)" for i v
  proof -
    have "v = v AND b ! i" "b ! i AND b' ! i = b ! i"
      using assms iv bloomValues_index [OF iv] by (auto simp: bloom_Test_def covered_def)
    then show ?thesis using sym [OF and_trans [of v "b ! i"]] by (metis and.assoc)
  qed
  then show ?thesis by (auto simp: bloom_Test_def)
qed

lemma fold_Test:
  assumes "length b = 256" "x \<in> set xs" "\<And>x b. covered b (f x b)" "\<And>b. length b = 256 \<Longrightarrow> bloom_Test K d (f x b)"
  shows "bloom_Test K d (fold f xs b)"
  using assms(1,2)
proof (induction xs arbitrary: b)
  case (Cons y ys)
  have l: "length (f y b) = 256" using assms(3) [of b y] Cons.prems(1) by (simp add: covered_def)
  show ?case
  proof (cases "x \<in> set ys")
    case True
    then show ?thesis using Cons.IH [OF l] by simp
  next
    case False
    then have "bloom_Test K d (f y b)" using Cons.prems assms(4) by auto
    moreover have "covered (f y b) (fold f ys (f y b))" by (rule covered_fold) (rule assms(3))
    ultimately show ?thesis using bloom_Test_mono l by simp
  qed
qed simp

lemma addLog_Test:
  assumes "length b = 256" "x \<in> insert (l_Address l) (set (l_Topics l))"
  shows "bloom_Test K x (addLog K l b)"
proof -
  let ?b = "bloom_add K (l_Address l) b"
  have l: "length ?b = 256" using bloom_add_covered [of b] assms(1) by (simp add: covered_def)
  have c: "covered ?b (fold (bloom_add K) (l_Topics l) ?b)" by (rule covered_fold) (rule bloom_add_covered)
  show ?thesis
  proof (cases "x \<in> set (l_Topics l)")
    case True
    then show ?thesis unfolding addLog_def by (intro fold_Test [OF l True bloom_add_covered] bloom_Test_add)
  next
    case False
    then show ?thesis using assms bloom_Test_mono [OF bloom_Test_add [OF assms(1)] c l] by (simp add: addLog_def)
  qed
qed

lemma CreateBloom_Test:
  assumes "r \<in> set rs" "l \<in> set (rc_Logs r)" "x \<in> insert (l_Address l) (set (l_Topics l))"
  shows "bloom_Test K x (CreateBloom K rs)"
  unfolding CreateBloom_def
  by (rule fold_Test [OF _ assms(1)])
     (auto simp: BloomByteLength_def intro: covered_fold addLog_covered intro!: fold_Test [OF _ assms(2) addLog_covered] addLog_Test [OF _ assms(3)])

subsection \<open>Derived fields\<close>

lemma derive_loop_length: "length (derive_loop B C bc sg bh number baseFee i prev li rs txs) = min (length rs) (length txs)"
  by (induction B C bc sg bh number baseFee i prev li rs txs rule: derive_loop.induct) (simp_all add: Let_def)

lemma derive_loop_gas:
  "length rs = length txs \<Longrightarrow> rs \<noteq> [] \<Longrightarrow> (i = 0 \<Longrightarrow> prev = 0) \<Longrightarrow>
     sum_list (map rc_GasUsed (derive_loop B C bc sg bh number baseFee i prev li rs txs)) = rc_CumulativeGasUsed (last rs) - prev"
proof (induction rs txs arbitrary: i prev li rule: list_induct2)
  case (Cons r rs tx txs)
  then show ?case by (cases rs) (auto simp: Let_def)
qed simp

definition log_indices :: "Receipt list \<Rightarrow> u64 list" where
  "log_indices rs = map l_Index (concat (map rc_Logs rs))"

lemma derive_logs_index: "map l_Index (derive_logs number bh th ti li ls) = map (\<lambda>k. li + of_nat k) [0..<length ls]"
  by (induction ls arbitrary: li) (simp_all add: upt_conv_Cons map_Suc_upt [symmetric] comp_def add.assoc del: upt_Suc)

lemma derive_loop_logs:
  "length rs = length txs \<Longrightarrow> log_indices (derive_loop B C bc sg bh number baseFee i prev li rs txs)
     = map (\<lambda>k. li + of_nat k) [0..<length (concat (map rc_Logs rs))]"
proof (induction rs txs arbitrary: i prev li rule: list_induct2)
  case (Cons r rs tx txs)
  have "log_indices (x # xs) = map l_Index (rc_Logs x) @ log_indices xs" for x xs by (simp add: log_indices_def)
  moreover have "map (\<lambda>k. li + of_nat k) [0..<n + m] = map (\<lambda>k. li + of_nat k) [0..<n] @ map (\<lambda>k. li + of_nat n + of_nat k) [0..<m]" for n m
    by (intro nth_equalityI) (auto simp: nth_append)
  ultimately show ?case using Cons.IH by (simp add: Let_def derive_logs_index)
qed (simp add: log_indices_def)

text \<open>\<open>DeriveFields\<close> refuses lists of different length; otherwise the gas used of the receipts adds up to the cumulative gas of
  the last one, modulo the word size, and the logs of the block are numbered consecutively from zero.\<close>

lemma DeriveFields_cases:
  assumes "rs \<noteq> []"
  shows "(length txs \<noteq> length rs \<and> DeriveFields B C bc config bh number time baseFee txs rs = None)
    \<or> (\<exists>rs'. length txs = length rs \<and> DeriveFields B C bc config bh number time baseFee txs rs = Some rs' \<and> length rs' = length rs
        \<and> sum_list (map rc_GasUsed rs') = rc_CumulativeGasUsed (last rs)
        \<and> map l_Index (concat (map rc_Logs rs')) = map of_nat [0..<length (concat (map rc_Logs rs))])"
proof (cases "length txs = length rs")
  case True
  let ?rs = "derive_loop B C bc (MakeSigner config (Some (uint number)) time) bh number baseFee 0 0 0 rs txs"
  have "length ?rs = length rs" using True by (simp add: derive_loop_length)
  moreover have "sum_list (map rc_GasUsed ?rs) = rc_CumulativeGasUsed (last rs)" using True assms by (simp add: derive_loop_gas)
  moreover have "map l_Index (concat (map rc_Logs ?rs)) = map of_nat [0..<length (concat (map rc_Logs rs))]"
    using True by (simp add: derive_loop_logs [unfolded log_indices_def])
  ultimately show ?thesis using True by (simp add: DeriveFields_def)
qed (simp add: DeriveFields_def)

section \<open>Correctness\<close>

text \<open>C20: Receipts of the legacy, access list and dynamic fee types survive their consensus encoding with exactly the consensus
  fields, and the storage encoding gives them back with the bloom filter recomputed from the logs; a receipt of any
  other type is written but refused on reading.\<close>

theorem Receipt_roundtrip:
  assumes "receipt_ok r" "length (rlp_enc (item_of (receipt_value r))) < 2 ^ 63" "length (rlp_enc (item_of (stored_value r))) < 2 ^ 63"
  shows "\<exists>b s. Receipt_MarshalBinary r = Ok (Some b)
    \<and> (rc_Type r \<le> 2 \<longrightarrow> Receipt_UnmarshalBinary b zero_receipt = Some (Ok (consensus_receipt r)))
    \<and> (2 < rc_Type r \<and> rc_Type r \<le> 0x7F \<longrightarrow> Receipt_UnmarshalBinary b zero_receipt = Some (Err ErrReceiptTypeNotSupported))
    \<and> encodeWith (ReceiptForStorage_EncodeRLP r) = Ok (Some s)
    \<and> ReceiptForStorage_Decode K s = Some (Ok ((consensus_receipt r)\<lparr>rc_Type := 0, rc_Bloom := LogsBloom K (rc_Logs r)\<rparr>))"
proof -
  let ?b = "(if rc_Type r = 0 then [] else [rc_Type r]) @ bytes_of (receipt_value r)"
  note h = struct_head [OF assms(2) [unfolded receipt_value_def], folded receipt_value_def]
  have t: "rc_Type r = 0 \<or> rc_Type r = 1 \<or> rc_Type r = 2" if "rc_Type r \<le> 2"
    using that by (auto simp: word_le_nat_alt word_unat_eq_iff)
  have "Receipt_UnmarshalBinary ?b zero_receipt = Some (Ok (consensus_receipt r))" if "rc_Type r \<le> 2"
    using t [OF that] h decodeReceipt_value [OF assms(1,2)] by (auto simp: Receipt_UnmarshalBinary_def Receipt_decodeTyped_def)
  moreover have "Receipt_UnmarshalBinary ?b zero_receipt = Some (Err ErrReceiptTypeNotSupported)" if "2 < rc_Type r" "rc_Type r \<le> 0x7F"
    using that h by (auto simp: Receipt_UnmarshalBinary_def Receipt_decodeTyped_def)
  moreover have "encodeWith (ReceiptForStorage_EncodeRLP r) = Ok (Some (bytes_of (stored_value r)))"
    by (rule encodeWith_writes [OF ReceiptForStorage_writes [OF assms(3)]])
  ultimately show ?thesis
    using Receipt_MarshalBinary_eq [OF assms(2)] ReceiptForStorage_Decode_eq [OF assms(1,3), of K] unfolding LogsBloom_strip by blast
qed

definition sample_log :: Log where
  "sample_log = \<lparr>l_Address = replicate 20 1, l_Topics = [replicate 32 2], l_Data = [3], l_BlockNumber = 4, l_TxHash = zero_hash,
     l_TxIndex = 5, l_BlockHash = zero_hash, l_Index = 6, l_Removed = True\<rparr>"

definition sample_receipt :: Receipt where
  "sample_receipt = zero_receipt\<lparr>rc_Type := 2, rc_Status := 1, rc_CumulativeGasUsed := 21000, rc_Logs := [sample_log]\<rparr>"

lemma sample_receipt_ok:
  "receipt_ok sample_receipt" "length (rlp_enc (item_of (receipt_value sample_receipt))) < 2 ^ 63"
  "length (rlp_enc (item_of (stored_value sample_receipt))) < 2 ^ 63"
  by (simp_all add: receipt_ok_def log_ok_def sample_receipt_def sample_log_def zero_receipt_def receipt_value_def stored_value_def
      log_value_def statusEncoding_def ReceiptStatusFailed_def rlp_list_def rlp_string_def rlp_head_def be_bytes.simps)

theorem Receipt_roundtrip_witness:
  "\<exists>b s. Receipt_MarshalBinary sample_receipt = Ok (Some b)
    \<and> Receipt_UnmarshalBinary b zero_receipt = Some (Ok (sample_receipt\<lparr>rc_Logs := [strip_log sample_log]\<rparr>))
    \<and> ReceiptForStorage_Decode id s = Some (Ok ((consensus_receipt sample_receipt)\<lparr>rc_Type := 0, rc_Bloom := LogsBloom id [sample_log]\<rparr>))"
proof -
  have "consensus_receipt sample_receipt = sample_receipt\<lparr>rc_Logs := [strip_log sample_log]\<rparr>"
    by (simp add: consensus_receipt_def sample_receipt_def zero_receipt_def)
  moreover have "rc_Type sample_receipt \<le> 2" "rc_Logs sample_receipt = [sample_log]" by (simp_all add: sample_receipt_def)
  ultimately show ?thesis using Receipt_roundtrip [OF sample_receipt_ok, of id] by metis
qed

text \<open>C23: The bloom filter of a block has no false negatives: it tests positive for the address and for every topic of every log
  of its receipts.\<close>

theorem CreateBloom_complete:
  assumes "r \<in> set rs" "l \<in> set (rc_Logs r)" "x = l_Address l \<or> x \<in> set (l_Topics l)"
  shows "bloom_Test K x (CreateBloom K rs)"
  using CreateBloom_Test [OF assms(1,2)] assms(3) by auto

theorem CreateBloom_complete_witness:
  "bloom_Test id (replicate 32 2) (CreateBloom id [zero_receipt, sample_receipt])"
  by (rule CreateBloom_complete [of sample_receipt _ sample_log]) (simp_all add: sample_receipt_def sample_log_def)

end
