(* ===== verification/State_Processor.thy ===== *)
theory State_Processor
  imports State_Transition Types_Receipt
begin

text \<open>
  Processing a block (\<^verbatim>\<open>core/state_processor.go\<close>, \<^verbatim>\<open>core/evm.go\<close>, \<^verbatim>\<open>core/block_validator.go\<close>, \<open>NewBlock\<close> of
  \<^verbatim>\<open>core/types/block.go\<close>): the execution contexts, applying a transaction and making its receipt, the loop over a
  block, assembling a block and the checks of its body and state.  The consensus engine, the interpreter, the
  tries and the database are arguments.
\<close>

section \<open>Definitions\<close>

subsection \<open>Contexts\<close>

text \<open>What the processor uses of the chain: the engine's author of a header (an error leaves the zero address) and its
  rewards, the interpreter for a block and a transaction, the precompiled contracts, the virtual machine's
  configuration, and the update of the tries of a finalised state with the resulting root.\<close>

record ('t, 'e) chain =
  ch_Author :: "Header \<Rightarrow> address"
  ch_Finalize :: "Header \<Rightarrow> TxData list \<Rightarrow> Header list \<Rightarrow> Withdrawal list option \<Rightarrow> ('t, 'e) StateDB \<Rightarrow> ('t, 'e) StateDB"
  ch_Interpreter :: "BlockContext \<Rightarrow> ChainConfig \<Rightarrow> TxContext \<Rightarrow> Contract \<Rightarrow> bytes \<Rightarrow> bool \<Rightarrow> ('t, 'e) StateDB \<Rightarrow>
      ('t, 'e) StateDB \<times> u64 \<times> bytes option \<times> vm_err option"
  ch_pc :: precompile_impl
  ch_NoBaseFee :: bool
  ch_Root :: "('t, 'e) StateDB \<Rightarrow> ('t, 'e) StateDB \<times> hash"

text \<open>\<open>None\<close> when the number or the difficulty of the header is nil.\<close>

definition NewEVMBlockContext :: "('t, 'e) chain \<Rightarrow> Header \<Rightarrow> address option \<Rightarrow> BlockContext option" where
  "NewEVMBlockContext ch hdr author =
     (let beneficiary = (case author of None \<Rightarrow> ch_Author ch hdr | Some a \<Rightarrow> a)
      in case (h_Number hdr, h_Difficulty hdr) of
           (Some number, Some difficulty) \<Rightarrow>
             Some \<lparr>bc_Coinbase = beneficiary, bc_GasLimit = h_GasLimit hdr, bc_BlockNumber = number, bc_Time = h_Time hdr,
                   bc_Difficulty = difficulty, bc_BaseFee = h_BaseFee hdr,
                   bc_Random = (if difficulty = 0 then Some (h_MixDigest hdr) else None)\<rparr>
         | _ \<Rightarrow> None)"

definition NewEVMTxContext :: "Message \<Rightarrow> TxContext" where
  "NewEVMTxContext msg = \<lparr>tc_Origin = m_From msg, tc_GasPrice = m_GasPrice msg\<rparr>"

definition NewEVM :: "('t, 'e) chain \<Rightarrow> BlockContext \<Rightarrow> TxContext \<Rightarrow> ChainConfig \<Rightarrow> ('t, 'e) EVM" where
  "NewEVM ch blockCtx txCtx chainConfig =
     \<lparr>e_Context = blockCtx, e_TxContext = txCtx, e_depth = 0, e_chainConfig = chainConfig,
      e_chainRules = config_Rules chainConfig (Some (bc_BlockNumber blockCtx)) (bc_Random blockCtx \<noteq> None) (bc_Time blockCtx),
      e_NoBaseFee = ch_NoBaseFee ch, e_Run = ch_Interpreter ch blockCtx chainConfig txCtx, e_pc = ch_pc ch\<rparr>"

text \<open>The interpreter reads the transaction context of its machine.\<close>

definition evm_Reset :: "('t, 'e) chain \<Rightarrow> TxContext \<Rightarrow> ('t, 'e) EVM \<Rightarrow> ('t, 'e) EVM" where
  "evm_Reset ch txCtx evm = evm\<lparr>e_TxContext := txCtx, e_Run := ch_Interpreter ch (e_Context evm) (e_chainConfig evm) txCtx\<rparr>"

subsection \<open>Transactions\<close>

text \<open>The logs are shared with the state, which therefore sees the block fields too.\<close>

definition GetLogs :: "hash \<Rightarrow> u64 \<Rightarrow> hash \<Rightarrow> ('t, 'e) StateDB \<Rightarrow> ('t, 'e) StateDB \<times> Log list" where
  "GetLogs th blockNumber blockHash s =
     (let logs = map (\<lambda>l. l\<lparr>l_BlockNumber := blockNumber, l_BlockHash := blockHash\<rparr>) (sdb_logs s th)
      in (s\<lparr>sdb_logs := (sdb_logs s)(th := logs)\<rparr>, logs))"

definition IntermediateRoot :: "('t, 'e) backend \<Rightarrow> ('t, 'e) chain \<Rightarrow> bool \<Rightarrow> ('t, 'e) StateDB \<Rightarrow> ('t, 'e) StateDB \<times> hash" where
  "IntermediateRoot B ch deleteEmptyObjects s = ch_Root ch (Finalise B deleteEmptyObjects s)"

text \<open>The result: the state, the gas pool, the gas used in the block so far, and the receipt or the error.\<close>

definition applyTransaction :: "'k crypto \<Rightarrow> blobCodec \<Rightarrow> ('t, 'e) backend \<Rightarrow> ('t, 'e) chain \<Rightarrow> Message \<Rightarrow> ChainConfig \<Rightarrow> u64 \<Rightarrow> ('t, 'e) StateDB \<Rightarrow>
    int \<Rightarrow> hash \<Rightarrow> TxData \<Rightarrow> u64 \<Rightarrow> ('t, 'e) EVM \<Rightarrow> (('t, 'e) StateDB \<times> u64 \<times> u64 \<times> (core_err + Receipt)) option" where
  "applyTransaction C bc B ch msg config gp s blockNumber blockHash tx usedGas evm =
     (let evm = evm_Reset ch (NewEVMTxContext msg) evm
      in case ApplyMessage B evm msg gp s of None \<Rightarrow> None
         | Some (st, Err e) \<Rightarrow> Some (st_state st, st_gp st, usedGas, Err e)
         | Some (st, Ok result) \<Rightarrow>
             (case (if IsByzantium config (Some blockNumber) then (Finalise B True (st_state st), [])
                    else IntermediateRoot B ch (IsEIP158 config (Some blockNumber)) (st_state st)) of (s, root) \<Rightarrow>
                let usedGas = usedGas + er_UsedGas result;
                    receipt = zero_receipt\<lparr>rc_Type := txType tx, rc_PostState := root, rc_CumulativeGasUsed := usedGas,
                      rc_Status := (if er_Err result \<noteq> None then ReceiptStatusFailed else ReceiptStatusSuccessful),
                      rc_TxHash := tx_Hash C bc tx, rc_GasUsed := er_UsedGas result,
                      rc_ContractAddress := (if m_To msg = None then CreateAddress B (tc_Origin (e_TxContext evm)) (tx_nonce tx) else zero_address)\<rparr>
                in case GetLogs (tx_Hash C bc tx) (big_Uint64 blockNumber) blockHash s of (s, logs) \<Rightarrow>
                   let receipt = receipt\<lparr>rc_Logs := logs\<rparr>
                   in Some (s, st_gp st, usedGas,
                        Ok (receipt\<lparr>rc_Bloom := CreateBloom (Keccak256 C) [receipt], rc_BlockHash := blockHash,
                              rc_BlockNumber := Some blockNumber, rc_TransactionIndex := of_int (sdb_txIndex s)\<rparr>))))"

datatype apply_err = ErrMessage sig_err | ErrCore core_err

definition Header_Hash :: "'k crypto \<Rightarrow> Header \<Rightarrow> hash" where
  "Header_Hash C h = Keccak256 C (case encodeWith (Header_EncodeRLP h) of Ok (Some b) \<Rightarrow> b | _ \<Rightarrow> [])"

text \<open>\<open>None\<close> where the code panics.\<close>

definition ApplyTransaction :: "'k crypto \<Rightarrow> blobCodec \<Rightarrow> ('t, 'e) backend \<Rightarrow> ('t, 'e) chain \<Rightarrow> ChainConfig \<Rightarrow> address option \<Rightarrow> u64 \<Rightarrow> ('t, 'e) StateDB \<Rightarrow>
    Header \<Rightarrow> TxData \<Rightarrow> u64 \<Rightarrow> (('t, 'e) StateDB \<times> u64 \<times> u64 \<times> (apply_err + Receipt)) option" where
  "ApplyTransaction C bc B ch config author gp s hdr tx usedGas =
     (case TransactionToMessage C tx (MakeSigner config (h_Number hdr) (h_Time hdr)) (h_BaseFee hdr) of
        Err e \<Rightarrow> Some (s, gp, usedGas, Err (ErrMessage e))
      | Ok msg \<Rightarrow>
          (case NewEVMBlockContext ch hdr author of None \<Rightarrow> None
           | Some blockContext \<Rightarrow>
               let vmenv = NewEVM ch blockContext \<lparr>tc_Origin = zero_address, tc_GasPrice = 0\<rparr> config
               in map_option (\<lambda>(s, gp, used, r). (s, gp, used, map_sum ErrCore id r))
                    (applyTransaction C bc B ch msg config gp s (bc_BlockNumber blockContext) (Header_Hash C hdr) tx usedGas vmenv)))"

subsection \<open>Blocks\<close>

datatype process_err = ErrCouldNotApply nat apply_err | ErrWithdrawalsBeforeShanghai

text \<open>The loop over the transactions, with the receipts and the logs so far.\<close>

fun process_txs :: "'k crypto \<Rightarrow> blobCodec \<Rightarrow> ('t, 'e) backend \<Rightarrow> ('t, 'e) chain \<Rightarrow> ChainConfig \<Rightarrow> Signer \<Rightarrow> int option \<Rightarrow> int \<Rightarrow> hash \<Rightarrow> ('t, 'e) EVM \<Rightarrow>
    nat \<Rightarrow> TxData list \<Rightarrow> ('t, 'e) StateDB \<Rightarrow> u64 \<Rightarrow> u64 \<Rightarrow> Receipt list \<Rightarrow> Log list \<Rightarrow>
    (('t, 'e) StateDB \<times> (process_err + (Receipt list \<times> Log list \<times> u64))) option" where
  "process_txs C bc B ch config signer baseFee blockNumber blockHash vmenv i [] s gp usedGas receipts allLogs =
     Some (s, Ok (receipts, allLogs, usedGas))"
| "process_txs C bc B ch config signer baseFee blockNumber blockHash vmenv i (tx # txs) s gp usedGas receipts allLogs =
     (case TransactionToMessage C tx signer baseFee of
        Err e \<Rightarrow> Some (s, Err (ErrCouldNotApply i (ErrMessage e)))
      | Ok msg \<Rightarrow>
          let s = SetTxContext (tx_Hash C bc tx) (int i) s
          in (case applyTransaction C bc B ch msg config gp s blockNumber blockHash tx usedGas vmenv of None \<Rightarrow> None
              | Some (s, gp, usedGas, Err e) \<Rightarrow> Some (s, Err (ErrCouldNotApply i (ErrCore e)))
              | Some (s, gp, usedGas, Ok receipt) \<Rightarrow>
                  process_txs C bc B ch config signer baseFee blockNumber blockHash vmenv (i + 1) txs s gp usedGas
                    (receipts @ [receipt]) (allLogs @ rc_Logs receipt)))"

text \<open>The refund contract and the drained accounts are the constants of \<^verbatim>\<open>params/dao.go\<close>.\<close>

definition ApplyDAOHardFork :: "('t, 'e) backend \<Rightarrow> address \<Rightarrow> address list \<Rightarrow> ('t, 'e) StateDB \<Rightarrow> ('t, 'e) StateDB" where
  "ApplyDAOHardFork B refundContract drainList s =
     (case Exist B refundContract s of (s, ex) \<Rightarrow>
      let s = (if \<not> ex then CreateAccount B refundContract s else s)
      in fold (\<lambda>addr s. case GetBalance B addr s of (s, amount) \<Rightarrow> SetBalance B addr 0 (AddBalance B refundContract amount s)) drainList s)"

definition Process :: "'k crypto \<Rightarrow> blobCodec \<Rightarrow> ('t, 'e) backend \<Rightarrow> ('t, 'e) chain \<Rightarrow> ChainConfig \<Rightarrow> address \<Rightarrow> address list \<Rightarrow> Block \<Rightarrow> ('t, 'e) StateDB \<Rightarrow>
    (('t, 'e) StateDB \<times> (process_err + (Receipt list \<times> Log list \<times> u64))) option" where
  "Process C bc B ch config refundContract drainList block s =
     (let hdr = Block_Header block; blockHash = Header_Hash C (b_header block)
      in case (h_Number (b_header block), AddGas (h_GasLimit (b_header block)) 0) of
           (Some blockNumber, Some gp) \<Rightarrow>
             (let s = (if DAOForkSupport config \<and> DAOForkBlock config = Some blockNumber then ApplyDAOHardFork B refundContract drainList s else s)
              in case NewEVMBlockContext ch hdr None of None \<Rightarrow> None
                 | Some context \<Rightarrow>
                     let vmenv = NewEVM ch context \<lparr>tc_Origin = zero_address, tc_GasPrice = 0\<rparr> config;
                         signer = MakeSigner config (h_Number hdr) (h_Time hdr)
                     in (case process_txs C bc B ch config signer (h_BaseFee hdr) blockNumber blockHash vmenv 0 (b_transactions block) s gp 0 [] [] of
                           None \<Rightarrow> None
                         | Some (s, Err e) \<Rightarrow> Some (s, Err e)
                         | Some (s, Ok (receipts, allLogs, usedGas)) \<Rightarrow>
                             let withdrawals = b_withdrawals block
                             in if withdrawals \<noteq> None \<and> withdrawals \<noteq> Some [] \<and> \<not> IsShanghai config (h_Time (b_header block))
                                then Some (s, Err ErrWithdrawalsBeforeShanghai)
                                else Some (ch_Finalize ch hdr (b_transactions block) (b_uncles block) withdrawals s, Ok (receipts, allLogs, usedGas))))
         | _ \<Rightarrow> None)"

subsection \<open>Assembling a block\<close>

definition Transactions_EncodeIndex :: "blobCodec \<Rightarrow> TxData list \<Rightarrow> nat \<Rightarrow> bytes" where
  "Transactions_EncodeIndex bc txs i =
     (let tx = txs ! i
      in case (if txType tx = 0 then encodeInner bc tx else encodeTyped bc tx) of Ok (Some b) \<Rightarrow> b | _ \<Rightarrow> [])"

definition Withdrawals_EncodeIndex :: "Withdrawal list \<Rightarrow> nat \<Rightarrow> bytes" where
  "Withdrawals_EncodeIndex ws i = (case makeBytes (Withdrawal_EncodeRLP (ws ! i) newEncBuffer) of Some b \<Rightarrow> b | None \<Rightarrow> [])"

definition uncles_hash :: "'k crypto \<Rightarrow> Header list \<Rightarrow> hash" where
  "uncles_hash C uncles = Keccak256 C (case encodeWith (encode_slice Header_EncodeRLP uncles) of Ok (Some b) \<Rightarrow> b | _ \<Rightarrow> [])"

definition EmptyUncleHash :: "'k crypto \<Rightarrow> hash" where
  "EmptyUncleHash C = uncles_hash C []"

definition CalcUncleHash :: "'k crypto \<Rightarrow> Header list \<Rightarrow> hash" where
  "CalcUncleHash C uncles = (if length uncles = 0 then EmptyUncleHash C else uncles_hash C uncles)"

definition NewBlock :: "'k crypto \<Rightarrow> blobCodec \<Rightarrow> 'h TrieHasher \<Rightarrow> Header \<Rightarrow> TxData list \<Rightarrow> Header list \<Rightarrow> Receipt list \<Rightarrow> 'h \<Rightarrow> Block" where
  "NewBlock C bc H hdr txs uncles receipts hasher =
     (let h = CopyHeader hdr;
          h = h\<lparr>h_TxHash := (if length txs = 0 then EmptyRootHash else DeriveSha H (Transactions_EncodeIndex bc txs) (length txs) hasher)\<rparr>;
          h = (if length receipts = 0 then h\<lparr>h_ReceiptHash := EmptyRootHash\<rparr>
               else h\<lparr>h_ReceiptHash := DeriveSha H (Receipts_EncodeIndex receipts) (length receipts) hasher,
                      h_Bloom := CreateBloom (Keccak256 C) receipts\<rparr>);
          h = h\<lparr>h_UncleHash := (if length uncles = 0 then EmptyUncleHash C else CalcUncleHash C uncles)\<rparr>
      in \<lparr>b_header = h, b_uncles = map CopyHeader uncles, b_transactions = txs, b_withdrawals = None\<rparr>)"

definition NewBlockWithWithdrawals :: "'k crypto \<Rightarrow> blobCodec \<Rightarrow> 'h TrieHasher \<Rightarrow> Header \<Rightarrow> TxData list \<Rightarrow> Header list \<Rightarrow> Receipt list \<Rightarrow>
    Withdrawal list option \<Rightarrow> 'h \<Rightarrow> Block" where
  "NewBlockWithWithdrawals C bc H hdr txs uncles receipts withdrawals hasher =
     (let b = NewBlock C bc H hdr txs uncles receipts hasher;
          wh = (case withdrawals of None \<Rightarrow> None
                | Some ws \<Rightarrow> Some (if length ws = 0 then EmptyRootHash else DeriveSha H (Withdrawals_EncodeIndex ws) (length ws) hasher))
      in WithWithdrawals (b\<lparr>b_header := (b_header b)\<lparr>h_WithdrawalsHash := wh\<rparr>\<rparr>) withdrawals)"

subsection \<open>Validation\<close>

text \<open>What the validator asks of the chain and the engine; \<open>fresh\<close> is the empty stack trie.\<close>

record 'h validator =
  v_HasBlockAndState :: "hash \<Rightarrow> u64 \<Rightarrow> bool"
  v_HasBlock :: "hash \<Rightarrow> u64 \<Rightarrow> bool"
  v_VerifyUncles :: "Block \<Rightarrow> string option"
  v_hasher :: "'h TrieHasher"
  v_fresh :: 'h

datatype valid_err =
    ErrKnownBlock | ErrUncles string | ErrUncleHash | ErrTxHash | ErrMissingWithdrawals | ErrWithdrawalsHash | ErrUnexpectedWithdrawals
  | ErrUnknownAncestor | ErrPrunedAncestor | ErrGasUsed u64 u64 | ErrBloom | ErrReceiptHash | ErrRoot

definition body_check :: "'k crypto \<Rightarrow> blobCodec \<Rightarrow> 'h validator \<Rightarrow> Block \<Rightarrow> u64 \<Rightarrow> valid_err option" where
  "body_check C bc v block number =
     (let hdr = Block_Header block; H = v_hasher v; parent = h_ParentHash (b_header block)
      in if v_HasBlockAndState v (Header_Hash C (b_header block)) number then Some ErrKnownBlock
         else case v_VerifyUncles v block of Some e \<Rightarrow> Some (ErrUncles e)
         | None \<Rightarrow>
             if CalcUncleHash C (b_uncles block) \<noteq> h_UncleHash hdr then Some ErrUncleHash
             else if DeriveSha H (Transactions_EncodeIndex bc (b_transactions block)) (length (b_transactions block)) (v_fresh v) \<noteq> h_TxHash hdr
             then Some ErrTxHash
             else case (case (h_WithdrawalsHash hdr, b_withdrawals block) of
                          (Some wh, None) \<Rightarrow> Some ErrMissingWithdrawals
                        | (Some wh, Some ws) \<Rightarrow> if DeriveSha H (Withdrawals_EncodeIndex ws) (length ws) (v_fresh v) \<noteq> wh then Some ErrWithdrawalsHash else None
                        | (None, Some _) \<Rightarrow> Some ErrUnexpectedWithdrawals
                        | (None, None) \<Rightarrow> None) of Some e \<Rightarrow> Some e
             | None \<Rightarrow>
                 if \<not> v_HasBlockAndState v parent (number - 1) then
                   (if \<not> v_HasBlock v parent (number - 1) then Some ErrUnknownAncestor else Some ErrPrunedAncestor)
                 else None)"

text \<open>\<open>None\<close> when the block has no number.\<close>

definition ValidateBody :: "'k crypto \<Rightarrow> blobCodec \<Rightarrow> 'h validator \<Rightarrow> Block \<Rightarrow> valid_err option option" where
  "ValidateBody C bc v block = map_option (\<lambda>n. body_check C bc v block (big_Uint64 n)) (h_Number (b_header block))"

definition ValidateState :: "'k crypto \<Rightarrow> ('t, 'e) backend \<Rightarrow> ('t, 'e) chain \<Rightarrow> ChainConfig \<Rightarrow> 'h validator \<Rightarrow> Block \<Rightarrow> ('t, 'e) StateDB \<Rightarrow> Receipt list \<Rightarrow> u64 \<Rightarrow>
    ('t, 'e) StateDB \<times> valid_err option" where
  "ValidateState C B ch config v block s receipts usedGas =
     (let hdr = Block_Header block; H = v_hasher v
      in if h_GasUsed (b_header block) \<noteq> usedGas then (s, Some (ErrGasUsed (h_GasUsed (b_header block)) usedGas))
         else if CreateBloom (Keccak256 C) receipts \<noteq> h_Bloom hdr then (s, Some ErrBloom)
         else if DeriveSha H (Receipts_EncodeIndex receipts) (length receipts) (v_fresh v) \<noteq> h_ReceiptHash hdr then (s, Some ErrReceiptHash)
         else (case IntermediateRoot B ch (IsEIP158 config (h_Number hdr)) s of (s, root) \<Rightarrow>
                 if h_Root hdr \<noteq> root then (s, Some ErrRoot) else (s, None)))"

subsection \<open>Block hashes\<close>

text \<open>\<open>GetHashFn\<close>: the closure's cache is a list that is passed along; \<open>G\<close> is the chain's \<open>GetHeader\<close>.  The loop may not end on a chain
  whose headers have other numbers than asked for.\<close>

partial_function (option) getHash_loop :: "(hash \<Rightarrow> u64 \<Rightarrow> Header option) \<Rightarrow> u64 \<Rightarrow> hash list \<Rightarrow> hash \<Rightarrow> u64 \<Rightarrow> (hash list \<times> hash) option" where
  [code]: "getHash_loop G n cache lastKnownHash lastKnownNumber =
     (case G lastKnownHash lastKnownNumber of None \<Rightarrow> Some (cache, zero_hash)
      | Some hdr \<Rightarrow>
          (case h_Number hdr of None \<Rightarrow> None
           | Some number \<Rightarrow>
               let cache = cache @ [h_ParentHash hdr];
                   lastKnownHash = h_ParentHash hdr;
                   lastKnownNumber = big_Uint64 number - 1
               in if n = lastKnownNumber then Some (cache, lastKnownHash)
                  else getHash_loop G n cache lastKnownHash lastKnownNumber))"

definition GetHashFn :: "(hash \<Rightarrow> u64 \<Rightarrow> Header option) \<Rightarrow> Header \<Rightarrow> u64 \<Rightarrow> hash list \<Rightarrow> (hash list \<times> hash) option" where
  "GetHashFn G ref n cache =
     (case h_Number ref of None \<Rightarrow> None
      | Some number \<Rightarrow>
          let num = big_Uint64 number
          in if num \<le> n then Some (cache, zero_hash)
             else
               let cache = (if length cache = 0 then [h_ParentHash ref] else cache);
                   idx = num - n - 1
               in if idx < of_nat (length cache) then Some (cache, cache ! unat idx)
                  else getHash_loop G n cache (last cache) (num - of_nat (length cache)))"

section \<open>Lemmas\<close>

subsection \<open>One transaction\<close>

text \<open>What is assumed of the interpreter, as for a single machine, and of the update of the tries, which changes no account.\<close>

definition processor_ok :: "('t, 'e) backend \<Rightarrow> ('t, 'e) chain \<Rightarrow> bool" where
  "processor_ok B ch \<longleftrightarrow> \<not> ch_NoBaseFee ch
     \<and> (\<forall>b cfg t c inp ro s s' gas ret err. ch_Interpreter ch b cfg t c inp ro s = (s', gas, ret, err) \<longrightarrow> frame_run B s s' \<and> gas \<le> c_Gas c)
     \<and> (\<forall>s. sound B s \<longrightarrow> sound B (fst (ch_Root ch s)))"

lemma Reset_ok: "processor_ok B ch \<Longrightarrow> interpreter_ok B (evm_Reset ch t evm)"
  by (auto simp: processor_ok_def interpreter_ok_def evm_Reset_def)

lemma sound_Finalise: "sound B s \<Longrightarrow> sound B (Finalise B del s)"
  using Finalise_ok [of B s del] by (auto simp: sound_def rev_inv_def Finalise_def clearJournalAndRefund_def Let_def)

lemma sound_logs: "sound B (s\<lparr>sdb_logs := l\<rparr>) = sound B s"
  by (simp add: sound_def obs_ok_def obs_def account_def rev_inv_def)

lemma sound_SetTxContext: "sound B (SetTxContext th i s) = sound B s"
  by (simp add: sound_def SetTxContext_def rev_inv_def)

text \<open>What a receipt says of its transaction.\<close>

definition receipt_of :: "'k crypto \<Rightarrow> blobCodec \<Rightarrow> TxData \<Rightarrow> Receipt \<Rightarrow> bool" where
  "receipt_of C bc tx r \<longleftrightarrow> rc_Type r = txType tx \<and> rc_TxHash r = tx_Hash C bc tx \<and> rc_GasUsed r \<le> tx_gas tx
     \<and> rc_Bloom r = LogsBloom (Keccak256 C) (rc_Logs r)"

lemma applyTransaction_cases:
  assumes "backend_ok B" "processor_ok B ch" "sound B s" "m_GasFeeCap msg \<noteq> None" "bc_BaseFee (e_Context evm) \<noteq> None" "\<not> e_NoBaseFee evm"
    and "m_GasLimit msg = tx_gas tx"
  obtains (failed) s' gp' e where "applyTransaction C bc B ch msg config gp s number hash tx used evm = Some (s', gp', used, Err e)"
      "frame_run B s s'" "gp' = gp \<or> tx_gas tx \<le> gp \<and> gp' = gp - tx_gas tx"
    | (applied) s' gp' r where "applyTransaction C bc B ch msg config gp s number hash tx used evm = Some (s', gp', used + rc_GasUsed r, Ok r)"
      "sound B s'" "unat gp' + unat (rc_GasUsed r) = unat gp" "rc_CumulativeGasUsed r = used + rc_GasUsed r" "receipt_of C bc tx r"
proof -
  let ?evm = "evm_Reset ch (NewEVMTxContext msg) evm"
  have c: "\<not> e_NoBaseFee ?evm" "bc_BaseFee (e_Context ?evm) \<noteq> None" using assms(5,6) by (simp_all add: evm_Reset_def)
  from assms(1) Reset_ok [OF assms(2)] assms(3) c(1) assms(4) c(2) show thesis
  proof (cases rule: ApplyMessage_cases [where gp = gp and evm = ?evm])
    case (failed st e)
    then show thesis using that(1) [of "st_state st" "st_gp st" e] assms(7) by (simp add: applyTransaction_def)
  next
    case (applied st r)
    let ?fin = "if IsByzantium config (Some number) then (Finalise B True (st_state st), [])
        else IntermediateRoot B ch (IsEIP158 config (Some number)) (st_state st)"
    obtain s1 root where f: "?fin = (s1, root)" by fastforce
    have st: "er_UsedGas r \<le> m_GasLimit msg" "unat (st_gp st) + unat (er_UsedGas r) = unat gp" "sound B (st_state st)"
      using applied(2) by (simp_all add: settled_def)
    have "sound B (fst ?fin)"
      using sound_Finalise [OF st(3)] assms(2) by (simp add: IntermediateRoot_def processor_ok_def)
    then have "sound B s1" by (simp only: f fst_conv)
    moreover have "\<exists>r'. applyTransaction C bc B ch msg config gp s number hash tx used evm
          = Some (fst (GetLogs (tx_Hash C bc tx) (big_Uint64 number) hash s1), st_gp st, used + er_UsedGas r, Ok r')
        \<and> rc_GasUsed r' = er_UsedGas r \<and> rc_CumulativeGasUsed r' = used + er_UsedGas r \<and> receipt_of C bc tx r'"
      using st(1) assms(7) by (simp add: applyTransaction_def applied(1) f Let_def GetLogs_def receipt_of_def CreateBloom_def LogsBloom_def)
    ultimately show thesis using that(2) st(2) by (force simp: GetLogs_def sound_logs Let_def)
  qed
qed

subsection \<open>The loop over a block\<close>

definition accounted :: "Receipt list \<Rightarrow> u64 \<Rightarrow> bool" where
  "accounted rs used \<longleftrightarrow> unat used = sum_list (map (\<lambda>r. unat (rc_GasUsed r)) rs)
     \<and> (\<forall>k < length rs. unat (rc_CumulativeGasUsed (rs ! k)) = sum_list (map (\<lambda>r. unat (rc_GasUsed r)) (take (Suc k) rs)))"

lemma accounted_Nil: "accounted [] 0"
  by (simp add: accounted_def)

lemma accounted_snoc:
  assumes "accounted rs used" "rc_CumulativeGasUsed r = used + rc_GasUsed r" "unat used + unat (rc_GasUsed r) < 2 ^ 64"
  shows "accounted (rs @ [r]) (used + rc_GasUsed r)"
proof -
  have "unat (used + rc_GasUsed r) = unat used + unat (rc_GasUsed r)" using assms(3) by (simp add: unat_word_ariths)
  with assms(1,2) show ?thesis by (auto simp: accounted_def nth_append less_Suc_eq)
qed

lemma TransactionToMessage_fields:
  "TransactionToMessage C tx sg bf = Ok msg \<Longrightarrow> m_GasFeeCap msg \<noteq> None \<and> m_GasLimit msg = tx_gas tx"
  by (auto simp: TransactionToMessage_def Let_def split: sum.splits)

lemma process_txs_cases:
  assumes "backend_ok B" "processor_ok B ch" "bc_BaseFee (e_Context evm) \<noteq> None" "\<not> e_NoBaseFee evm"
    and "sound B s" "unat gp + unat used = unat limit" "accounted rs used"
  shows "(\<exists>s' e. process_txs C bc B ch config sg bf number hash evm i txs s gp used rs logs = Some (s', Err e))
    \<or> (\<exists>s' rs' used'. process_txs C bc B ch config sg bf number hash evm i txs s gp used rs logs
          = Some (s', Ok (rs @ rs', logs @ concat (map rc_Logs rs'), used'))
        \<and> accounted (rs @ rs') used' \<and> used' \<le> limit \<and> sound B s' \<and> list_all2 (receipt_of C bc) txs rs')"
  using assms(5-7)
proof (induction txs arbitrary: i s gp used rs logs)
  case Nil
  then have "used \<le> limit" by (simp add: word_le_nat_alt)
  with Nil show ?case by auto
next
  case (Cons tx txs)
  show ?case
  proof (cases "TransactionToMessage C tx sg bf")
    case (Inr msg)
    note m = TransactionToMessage_fields [OF Inr]
    let ?s = "SetTxContext (tx_Hash C bc tx) (int i) s"
    from assms(1,2) iffD2 [OF sound_SetTxContext Cons.prems(1)] conjunct1 [OF m] assms(3,4) conjunct2 [OF m]
    show ?thesis
    proof (cases rule: applyTransaction_cases [where C = C and bc = bc and config = config and gp = gp and number = number and hash = hash and used = used
          and s = ?s])
      case (failed s' gp' e)
      then show ?thesis by (simp add: Inr)
    next
      case (applied s' gp' r)
      have lt: "unat used + unat (rc_GasUsed r) \<le> unat limit" using applied(3) Cons.prems(2) by linarith
      then have lt64: "unat used + unat (rc_GasUsed r) < 2 ^ 64" using unsigned_less [of limit, where ?'a = nat] by simp
      then have "unat (used + rc_GasUsed r) = unat used + unat (rc_GasUsed r)" by (simp add: unat_word_ariths)
      then have g: "unat gp' + unat (used + rc_GasUsed r) = unat limit" using applied(3) Cons.prems(2) by linarith
      note IH = Cons.IH [OF applied(2) g accounted_snoc [OF Cons.prems(3) applied(4) lt64], of "i + 1" "logs @ rc_Logs r"]
      have step: "process_txs C bc B ch config sg bf number hash evm i (tx # txs) s gp used rs logs =
          process_txs C bc B ch config sg bf number hash evm (i + 1) txs s' gp' (used + rc_GasUsed r) (rs @ [r]) (logs @ rc_Logs r)"
        by (simp add: Inr applied(1))
      show ?thesis
      proof (use IH in \<open>elim disjE exE conjE\<close>)
        fix s'' rs' used'
        assume "process_txs C bc B ch config sg bf number hash evm (i + 1) txs s' gp' (used + rc_GasUsed r) (rs @ [r]) (logs @ rc_Logs r)
            = Some (s'', Ok ((rs @ [r]) @ rs', (logs @ rc_Logs r) @ concat (map rc_Logs rs'), used'))"
          and "accounted ((rs @ [r]) @ rs') used'" "used' \<le> limit" "sound B s''" "list_all2 (receipt_of C bc) txs rs'"
        then show ?thesis using applied(5) unfolding step by (intro disjI2 exI [of _ s''] exI [of _ "r # rs'"] exI [of _ used']) simp
      qed (unfold step, blast)
    qed
  qed simp
qed

subsection \<open>The DAO fork\<close>

lemma ApplyDAOHardFork_frame: "frame_run B s (ApplyDAOHardFork B refund drain s)"
proof -
  have op: "frame_run B s s2" if "frame_run B s s1" "sdb_op B s1 s2" for s1 s2 using that by (rule frame_run.op)
  have drain: "frame_run B s (fold (\<lambda>a s. case GetBalance B a s of (s, x) \<Rightarrow> SetBalance B a 0 (AddBalance B refund x s)) drain s1)" if "frame_run B s s1" for s1
    using that
  proof (induction drain arbitrary: s1)
    case (Cons a drain)
    obtain s2 x where g: "GetBalance B a s1 = (s2, x)" by fastforce
    have "frame_run B s s2" using op [OF Cons.prems sdb_op.intros(18) [of B s1 a]] g by simp
    then have "frame_run B s (SetBalance B a 0 (AddBalance B refund x s2))" by (intro op [OF op [OF _ sdb_op.intros(1)] sdb_op.intros(3)])
    then show ?case using Cons.IH g by simp
  qed simp
  obtain s1 ex where e: "Exist B refund s = (s1, ex)" by fastforce
  have "frame_run B s s1" using op [OF frame_run.stop sdb_op.intros(16) [of B s refund]] e by simp
  then have "frame_run B s (if \<not> ex then CreateAccount B refund s1 else s1)" using op [OF _ sdb_op.intros(7)] by simp
  from drain [OF this] show ?thesis by (simp add: ApplyDAOHardFork_def e)
qed

subsection \<open>Ancestors\<close>

text \<open>The specification: the hash of the block \<open>k + 1\<close> steps before \<open>ref\<close>, as far as the chain has the headers.\<close>

fun ancestor :: "(hash \<Rightarrow> u64 \<Rightarrow> Header option) \<Rightarrow> hash \<Rightarrow> nat \<Rightarrow> nat \<Rightarrow> hash option" where
  "ancestor G parent num 0 = Some parent"
| "ancestor G parent num (Suc k) =
     (case ancestor G parent num k of None \<Rightarrow> None | Some h \<Rightarrow> map_option h_ParentHash (G h (of_nat (num - k - 1))))"

definition numbered :: "(hash \<Rightarrow> u64 \<Rightarrow> Header option) \<Rightarrow> bool" where
  "numbered G \<longleftrightarrow> (\<forall>h n hdr. G h n = Some hdr \<longrightarrow> h_Number hdr = Some (uint n))"

definition cache_ok :: "(hash \<Rightarrow> u64 \<Rightarrow> Header option) \<Rightarrow> hash \<Rightarrow> nat \<Rightarrow> hash list \<Rightarrow> bool" where
  "cache_ok G parent num cache \<longleftrightarrow> length cache \<le> num \<and> (\<forall>i < length cache. ancestor G parent num i = Some (cache ! i))"

lemma ancestor_None: "ancestor G p num k = None \<Longrightarrow> k \<le> j \<Longrightarrow> ancestor G p num j = None"
  by (induction j) (auto simp: le_Suc_eq)

lemma getHash_loop_ok:
  assumes "numbered G" "num < 2 ^ 64"
  shows "cache_ok G p num cache \<Longrightarrow> cache \<noteq> [] \<Longrightarrow> unat n + length cache < num \<Longrightarrow>
    \<exists>cache'. getHash_loop G n cache (last cache) (of_nat (num - length cache)) =
        Some (cache', case ancestor G p num (num - 1 - unat n) of None \<Rightarrow> zero_hash | Some h \<Rightarrow> h) \<and> cache_ok G p num cache'"
proof (induction "num - length cache" arbitrary: cache)
  case (Suc d)
  let ?k = "length cache" and ?a = "ancestor G p num"
  have lst: "?a (?k - 1) = Some (last cache)" "?k = Suc (?k - 1)"
    using Suc.prems by (simp_all add: cache_ok_def last_conv_nth)
  have nx: "?a ?k = map_option h_ParentHash (G (last cache) (of_nat (num - ?k)))"
    using lst by (metis (no_types) ancestor.simps(2) diff_Suc_eq_diff_pred diff_diff_left option.simps(5) plus_1_eq_Suc add.commute)
  show ?case
  proof (cases "G (last cache) (of_nat (num - ?k))")
    case None
    then have "?a ?k = None" using nx by simp
    then have "?a (num - 1 - unat n) = None" by (rule ancestor_None) (use Suc.prems(3) in linarith)
    then show ?thesis using None Suc.prems by (subst getHash_loop.simps) simp
  next
    case (Some hdr)
    let ?cache = "cache @ [h_ParentHash hdr]"
    have u: "unat (of_nat (num - ?k) :: u64) = num - ?k" using assms(2) by (simp add: unat_of_nat_u64)
    have num: "h_Number hdr = Some (uint (of_nat (num - ?k) :: u64))" using assms(1) Some unfolding numbered_def by blast
    have "big_Uint64 (uint (of_nat (num - ?k) :: u64)) - 1 = of_nat (num - ?k) - 1" by (simp add: big_Uint64_def)
    also have "\<dots> = of_nat (num - length ?cache)" using Suc.prems(3) by (simp add: of_nat_diff)
    finally have num': "big_Uint64 (uint (of_nat (num - ?k) :: u64)) - 1 = of_nat (num - length ?cache)" .
    have ak: "?a ?k = Some (h_ParentHash hdr)" using nx Some by simp
    then have ok: "cache_ok G p num ?cache" using Suc.prems by (auto simp: cache_ok_def nth_append less_Suc_eq)
    have step: "getHash_loop G n cache (last cache) (of_nat (num - ?k)) =
        (if n = of_nat (num - length ?cache) then Some (?cache, h_ParentHash hdr) else getHash_loop G n ?cache (last ?cache) (of_nat (num - length ?cache)))"
      by (subst getHash_loop.simps) (simp only: Some option.case num num' Let_def last_snoc)
    show ?thesis
    proof (cases "n = of_nat (num - length ?cache)")
      case True
      then have "unat n = num - length ?cache" using assms(2) by (simp add: unat_of_nat_u64)
      then have "num - 1 - unat n = ?k" using Suc.prems(3) by simp
      then show ?thesis using True ok ak unfolding step by simp
    next
      case False
      have "of_nat (unat n) = n" by simp
      then have "unat n \<noteq> num - length ?cache" using False by metis
      then have "unat n + length ?cache < num" using Suc.prems(3) by simp
      moreover have "d = num - length ?cache" using Suc.hyps(2) by simp
      ultimately show ?thesis using Suc.hyps(1) [OF _ ok] unfolding step if_not_P [OF False] by blast
    qed
  qed
qed simp

lemma GetHashFn_ok:
  assumes "numbered G" "h_Number ref = Some (int num)" "num < 2 ^ 64" "cache_ok G (h_ParentHash ref) num cache"
  shows "\<exists>cache'. GetHashFn G ref n cache =
      Some (cache', if unat n < num then (case ancestor G (h_ParentHash ref) num (num - 1 - unat n) of None \<Rightarrow> zero_hash | Some h \<Rightarrow> h) else zero_hash)
    \<and> cache_ok G (h_ParentHash ref) num cache'"
proof -
  let ?N = "of_nat num :: u64" and ?p = "h_ParentHash ref"
  let ?c = "if length cache = 0 then [?p] else cache"
  have N: "unat ?N = num" "big_Uint64 (int num) = ?N" using assms(3) by (simp_all add: unat_of_nat_u64 big_Uint64_def)
  have le: "?N \<le> n \<longleftrightarrow> num \<le> unat n" by (simp add: word_le_nat_alt N)
  show ?thesis
  proof (cases "num \<le> unat n")
    case True
    then show ?thesis using assms(2,4) le by (simp add: GetHashFn_def N)
  next
    case False
    have c: "cache_ok G ?p num ?c" "?c \<noteq> []" using assms(4) False by (auto simp: cache_ok_def)
    have idx: "unat (?N - n - 1) = num - 1 - unat n"
    proof -
      have "n + 1 \<le> ?N" "unat (n + 1) = unat n + 1" using False N(1) assms(3) by (simp_all add: word_le_nat_alt unat_word_ariths)
      then have "unat (?N - (n + 1)) = num - (unat n + 1)" using N(1) by (simp add: unat_sub)
      then show ?thesis by (simp add: diff_diff_eq)
    qed
    have lenN: "length ?c \<le> num" using c(1) by (simp add: cache_ok_def)
    have len: "unat (of_nat (length ?c) :: u64) = length ?c" using lenN assms(3) by (intro unat_of_nat_u64) linarith
    have sub: "?N - of_nat (length ?c) = of_nat (num - length ?c)" using lenN by (simp only: of_nat_diff)
    have eq: "GetHashFn G ref n cache = (if num - 1 - unat n < length ?c then Some (?c, ?c ! (num - 1 - unat n))
        else getHash_loop G n ?c (last ?c) (of_nat (num - length ?c)))"
      using False le idx len by (simp only: GetHashFn_def assms(2) option.case N(2) Let_def sub word_less_nat_alt if_False)
    show ?thesis
    proof (cases "num - 1 - unat n < length ?c")
      case True
      then have "ancestor G ?p num (num - 1 - unat n) = Some (?c ! (num - 1 - unat n))" using c(1) by (simp add: cache_ok_def del: ancestor.simps)
      then show ?thesis using True False c(1) unfolding eq by simp
    next
      case F2: False
      then have "unat n + length ?c < num" using False by linarith
      from getHash_loop_ok [OF assms(1,3) c this] show ?thesis using False F2 unfolding eq by simp
    qed
  qed
qed

subsection \<open>Assembled blocks\<close>

text \<open>The stack trie: a reset forgets everything and the empty trie has the known root.\<close>

definition hasher_ok :: "'h TrieHasher \<Rightarrow> bool" where
  "hasher_ok H \<longleftrightarrow> (\<forall>x y. th_Reset H x = th_Reset H y) \<and> (\<forall>x. th_Hash H (th_Reset H x) = EmptyRootHash)"

lemma DeriveSha_fresh: "hasher_ok H \<Longrightarrow> DeriveSha H enc n x = DeriveSha H enc n y"
proof -
  assume "hasher_ok H"
  then have "th_Reset H x = th_Reset H y" unfolding hasher_ok_def by blast
  then show ?thesis by (simp add: DeriveSha_def)
qed

lemma DeriveSha_empty: "hasher_ok H \<Longrightarrow> DeriveSha H enc 0 x = EmptyRootHash"
  by (simp add: DeriveSha_def derive_order_def hasher_ok_def)

lemma write_big_nil: "write_big (Some 0) w = write_big None w"
  using BitLen_le [of 0 64] by (simp add: write_big_def writeBigInt_def writeUint64_eq rlp_string_def rlp_head_def)

lemma Header_EncodeRLP_Copy: "Header_EncodeRLP (CopyHeader h) = Header_EncodeRLP h"
proof -
  have "write_big (h_Difficulty (CopyHeader h)) = write_big (h_Difficulty h)" "write_big (h_Number (CopyHeader h)) = write_big (h_Number h)"
    by (rule ext, simp add: CopyHeader_def write_big_nil split: option.splits)+
  moreover have "h_ParentHash (CopyHeader h) = h_ParentHash h" "h_UncleHash (CopyHeader h) = h_UncleHash h" "h_Coinbase (CopyHeader h) = h_Coinbase h"
    "h_Root (CopyHeader h) = h_Root h" "h_TxHash (CopyHeader h) = h_TxHash h" "h_ReceiptHash (CopyHeader h) = h_ReceiptHash h" "h_Bloom (CopyHeader h) = h_Bloom h"
    "h_GasLimit (CopyHeader h) = h_GasLimit h" "h_GasUsed (CopyHeader h) = h_GasUsed h" "h_Time (CopyHeader h) = h_Time h" "h_Extra (CopyHeader h) = h_Extra h"
    "h_MixDigest (CopyHeader h) = h_MixDigest h" "h_Nonce (CopyHeader h) = h_Nonce h" "h_BaseFee (CopyHeader h) = h_BaseFee h"
    "h_WithdrawalsHash (CopyHeader h) = h_WithdrawalsHash h" "h_ExcessDataGas (CopyHeader h) = h_ExcessDataGas h"
    by (simp_all add: CopyHeader_def)
  ultimately show ?thesis by (intro ext) (simp only: Header_EncodeRLP_def)
qed

lemma CalcUncleHash_Copy: "CalcUncleHash C (map CopyHeader us) = CalcUncleHash C us"
proof -
  have "encode_elems Header_EncodeRLP (map CopyHeader us) w = encode_elems Header_EncodeRLP us w" for w
    by (induction us arbitrary: w) (simp_all add: Header_EncodeRLP_Copy split: sum.splits)
  then show ?thesis by (simp add: CalcUncleHash_def uncles_hash_def encode_slice_def [abs_def])
qed

lemma CopyHeader_fields:
  "h_BaseFee (CopyHeader h) = h_BaseFee h" "h_Bloom (CopyHeader h) = h_Bloom h" "h_ReceiptHash (CopyHeader h) = h_ReceiptHash h"
  "h_TxHash (CopyHeader h) = h_TxHash h" "h_UncleHash (CopyHeader h) = h_UncleHash h" "h_WithdrawalsHash (CopyHeader h) = h_WithdrawalsHash h"
  "h_Root (CopyHeader h) = h_Root h" "h_GasUsed (CopyHeader h) = h_GasUsed h" "h_ParentHash (CopyHeader h) = h_ParentHash h"
  "h_Number (CopyHeader h) = Some (case h_Number h of None \<Rightarrow> 0 | Some n \<Rightarrow> n)" "h_Difficulty (CopyHeader h) \<noteq> None"
  by (simp_all add: CopyHeader_def)

text \<open>The header of an assembled block: only the derived fields differ from the given header.\<close>

lemma NewBlock_header:
  fixes C :: "'k crypto" and bc :: blobCodec and H :: "'h TrieHasher" and hdr :: Header and txs :: "TxData list" and uncles :: "Header list"
    and receipts :: "Receipt list" and ws :: "Withdrawal list option" and hasher :: 'h
  assumes "hasher_ok H" "receipts \<noteq> [] \<or> h_Bloom hdr = replicate 256 0"
  defines "b \<equiv> b_header (NewBlockWithWithdrawals C bc H hdr txs uncles receipts ws hasher)"
  shows "h_TxHash b = DeriveSha H (Transactions_EncodeIndex bc txs) (length txs) x"
    "h_ReceiptHash b = DeriveSha H (Receipts_EncodeIndex receipts) (length receipts) x"
    "h_Bloom b = CreateBloom (Keccak256 C) receipts" "h_UncleHash b = CalcUncleHash C uncles"
    "h_WithdrawalsHash b = map_option (\<lambda>ws. DeriveSha H (Withdrawals_EncodeIndex ws) (length ws) x) ws"
    "h_Root b = h_Root hdr" "h_GasUsed b = h_GasUsed hdr" "h_ParentHash b = h_ParentHash hdr" "h_Number b = h_Number (CopyHeader hdr)"
proof -
  note fresh = DeriveSha_fresh [OF assms(1), of _ _ hasher x] and empty = DeriveSha_empty [OF assms(1)]
  show "h_TxHash b = DeriveSha H (Transactions_EncodeIndex bc txs) (length txs) x"
      "h_ReceiptHash b = DeriveSha H (Receipts_EncodeIndex receipts) (length receipts) x"
    by (auto simp: b_def NewBlockWithWithdrawals_def NewBlock_def Let_def WithWithdrawals_def fresh empty split: option.splits)
  show "h_Bloom b = CreateBloom (Keccak256 C) receipts"
    using assms(2) by (auto simp: b_def NewBlockWithWithdrawals_def NewBlock_def Let_def WithWithdrawals_def CopyHeader_fields CreateBloom_def
        BloomByteLength_def split: option.splits)
  show "h_UncleHash b = CalcUncleHash C uncles" "h_Root b = h_Root hdr" "h_GasUsed b = h_GasUsed hdr" "h_ParentHash b = h_ParentHash hdr"
      "h_Number b = h_Number (CopyHeader hdr)"
    by (auto simp: b_def NewBlockWithWithdrawals_def NewBlock_def Let_def WithWithdrawals_def CopyHeader_fields CalcUncleHash_def split: option.splits)
  show "h_WithdrawalsHash b = map_option (\<lambda>ws. DeriveSha H (Withdrawals_EncodeIndex ws) (length ws) x) ws"
    by (auto simp: b_def NewBlockWithWithdrawals_def NewBlock_def Let_def WithWithdrawals_def fresh empty split: option.splits)
qed

lemma NewBlock_body:
  fixes C :: "'k crypto" and bc :: blobCodec and H :: "'h TrieHasher" and hdr :: Header and txs :: "TxData list" and uncles :: "Header list"
    and receipts :: "Receipt list" and ws :: "Withdrawal list option" and hasher :: 'h
  defines "b \<equiv> NewBlockWithWithdrawals C bc H hdr txs uncles receipts ws hasher"
  shows "b_transactions b = txs" "b_uncles b = map CopyHeader uncles" "b_withdrawals b = ws"
  by (auto simp: b_def NewBlockWithWithdrawals_def NewBlock_def Let_def WithWithdrawals_def split: option.splits)

subsection \<open>Processing\<close>

lemma Process_cases:
  assumes "backend_ok B" "processor_ok B ch" "sound B s" "h_Number (b_header block) \<noteq> None" "h_BaseFee (b_header block) \<noteq> None"
  obtains (failed) s' e where "Process C bc B ch config refundContract drainList block s = Some (s', Err e)"
    | (processed) s' rs used where "Process C bc B ch config refundContract drainList block s = Some (s', Ok (rs, concat (map rc_Logs rs), used))"
      "accounted rs used" "used \<le> h_GasLimit (b_header block)" "list_all2 (receipt_of C bc) (b_transactions block) rs"
proof -
  from assms(4) obtain number where n: "h_Number (b_header block) = Some number" by blast
  let ?hdr = "Block_Header block" and ?L = "h_GasLimit (b_header block)"
  let ?s = "if DAOForkSupport config \<and> DAOForkBlock config = Some number then ApplyDAOHardFork B refundContract drainList s else s"
  have k: "sound B ?s" using assms(3) frame_sound [OF ApplyDAOHardFork_frame assms(1)] by simp
  obtain d where d: "h_Difficulty ?hdr = Some d" using CopyHeader_fields(11) by (auto simp: Block_Header_def)
  then obtain ctx where c: "NewEVMBlockContext ch ?hdr None = Some ctx" "bc_BaseFee ctx = h_BaseFee (b_header block)"
    by (auto simp: NewEVMBlockContext_def Block_Header_def CopyHeader_fields Let_def)
  let ?evm = "NewEVM ch ctx \<lparr>tc_Origin = zero_address, tc_GasPrice = 0\<rparr> config"
  let ?run = "process_txs C bc B ch config (MakeSigner config (h_Number ?hdr) (h_Time ?hdr)) (h_BaseFee ?hdr) number
      (Header_Hash C (b_header block)) ?evm 0 (b_transactions block) ?s ?L 0 [] []"
  have e: "bc_BaseFee (e_Context ?evm) \<noteq> None" "\<not> e_NoBaseFee ?evm" using c(2) assms(2,5) by (simp_all add: NewEVM_def processor_ok_def)
  have g: "AddGas ?L 0 = Some ?L" by (simp add: AddGas_def)
  have P: "Process C bc B ch config refundContract drainList block s = (case ?run of None \<Rightarrow> None | Some (s, Err e) \<Rightarrow> Some (s, Err e)
      | Some (s, Ok (receipts, allLogs, usedGas)) \<Rightarrow>
          if b_withdrawals block \<noteq> None \<and> b_withdrawals block \<noteq> Some [] \<and> \<not> IsShanghai config (h_Time (b_header block))
          then Some (s, Err ErrWithdrawalsBeforeShanghai)
          else Some (ch_Finalize ch ?hdr (b_transactions block) (b_uncles block) (b_withdrawals block) s, Ok (receipts, allLogs, usedGas)))"
    unfolding Process_def by (simp only: n g c(1) Let_def prod.case option.case)
  from process_txs_cases [OF assms(1,2) e k _ accounted_Nil, of ?L ?L C bc config "MakeSigner config (h_Number ?hdr) (h_Time ?hdr)" "h_BaseFee ?hdr" number
      "Header_Hash C (b_header block)" 0 "b_transactions block" "[]"]
  have r: "(\<exists>s' e. ?run = Some (s', Err e)) \<or> (\<exists>s' rs used. ?run = Some (s', Ok (rs, concat (map rc_Logs rs), used))
      \<and> accounted rs used \<and> used \<le> ?L \<and> list_all2 (receipt_of C bc) (b_transactions block) rs)" by auto
  show thesis
  proof (cases "b_withdrawals block \<noteq> None \<and> b_withdrawals block \<noteq> Some [] \<and> \<not> IsShanghai config (h_Time (b_header block))")
    case True
    show thesis using r failed unfolding P if_P [OF True] by auto
  next
    case False
    show thesis using r failed processed unfolding P if_not_P [OF False] by auto
  qed
qed

section \<open>Properties\<close>

text \<open>C2: Processing a block with a base fee never panics.  When it succeeds there is one receipt per transaction, in order and of its
  type and hash, with a bloom filter of exactly its logs; no transaction uses more than its gas limit, the cumulative gas of
  every receipt is the sum of the gas used up to it, the total is what is returned and stays within the block's gas
  limit, and the returned logs are those of the receipts.\<close>

theorem Process_accounting:
  assumes "backend_ok B" "processor_ok B ch" "obs_ok (obs B s)" "rev_inv s" "h_Number (b_header block) \<noteq> None" "h_BaseFee (b_header block) \<noteq> None"
  shows "\<exists>s' res. Process C bc B ch config refundContract drainList block s = Some (s', res) \<and>
    (case res of Err e \<Rightarrow> True
     | Ok (receipts, logs, usedGas) \<Rightarrow>
         list_all2 (\<lambda>tx r. rc_Type r = txType tx \<and> rc_TxHash r = tx_Hash C bc tx \<and> rc_GasUsed r \<le> tx_gas tx
             \<and> rc_Bloom r = LogsBloom (Keccak256 C) (rc_Logs r)) (b_transactions block) receipts
         \<and> (\<forall>k < length receipts. unat (rc_CumulativeGasUsed (receipts ! k)) = (\<Sum>r\<leftarrow>take (Suc k) receipts. unat (rc_GasUsed r)))
         \<and> unat usedGas = (\<Sum>r\<leftarrow>receipts. unat (rc_GasUsed r)) \<and> usedGas \<le> h_GasLimit (b_header block)
         \<and> logs = concat (map rc_Logs receipts))"
proof -
  have "sound B s" using assms(3,4) by (simp add: sound_def)
  from assms(1,2) this assms(5,6) show ?thesis
    by (cases rule: Process_cases [where C = C and bc = bc and config = config and refundContract = refundContract and drainList = drainList])
       (auto simp: accounted_def receipt_of_def [abs_def])
qed

definition sample_chain :: "(unit, string) chain" where
  "sample_chain = \<lparr>ch_Author = (\<lambda>_. replicate 20 9), ch_Finalize = (\<lambda>_ _ _ _ s. s), ch_Interpreter = (\<lambda>_ _ _ c inp ro s. (s, c_Gas c, None, None)),
     ch_pc = \<lparr>pc_RequiredGas = (\<lambda>_ _. 15), pc_Run = (\<lambda>_ inp. (Some inp, None))\<rparr>, ch_NoBaseFee = False, ch_Root = (\<lambda>s. (s, zero_hash))\<rparr>"

definition sample_transfer :: TxData where
  "sample_transfer = Legacy (sample_legacy\<lparr>lt_Nonce := 0, lt_GasPrice := 10, lt_Gas := 21000, lt_To := Some (replicate 20 2), lt_Value := 0, lt_Data := []\<rparr>)"

definition sample_block :: Block where
  "sample_block = \<lparr>b_header = zero_header\<lparr>h_Number := Some 1, h_GasLimit := 30000000, h_BaseFee := Some 7\<rparr>, b_uncles = [],
     b_transactions = [sample_transfer], b_withdrawals = None\<rparr>"

definition sample_state :: "(unit, string) StateDB" where
  "sample_state = AddBalance sample_backend (replicate 20 7) 1000000 StateDB_New"

lemma sample_chain_ok: "processor_ok sample_backend sample_chain"
  by (simp add: processor_ok_def sample_chain_def frame_run.stop)

lemma sample_state_ok: "sound sample_backend sample_state"
proof -
  have "sound sample_backend (StateDB_New :: (unit, string) StateDB)" using New_inv [OF sample_backend_ok] by (simp add: sdb_inv_def sound_def)
  then show ?thesis unfolding sample_state_def by (rule frame_sound [OF frame_op [OF sdb_op.intros(1)] sample_backend_ok])
qed

lemma sample_runs:
  "case NewEVMBlockContext sample_chain (Block_Header sample_block) None of None \<Rightarrow> False
   | Some ctx \<Rightarrow>
       (case TransactionToMessage sample_crypto sample_transfer (MakeSigner (london_config 1) (Some 1) 0) (Some 7) of Err _ \<Rightarrow> False
        | Ok msg \<Rightarrow>
            (case ApplyMessage sample_backend (evm_Reset sample_chain (NewEVMTxContext msg)
                    (NewEVM sample_chain ctx \<lparr>tc_Origin = zero_address, tc_GasPrice = 0\<rparr> (london_config 1))) msg 30000000
                  (SetTxContext h 0 sample_state) of
               Some (st, Ok r) \<Rightarrow> er_UsedGas r = 21000 | _ \<Rightarrow> False))"
  by code_simp

lemma case_applied: "(case x of Some (st, Ok r) \<Rightarrow> P st r | _ \<Rightarrow> False) \<Longrightarrow> \<exists>st r. x = Some (st, Ok r) \<and> P st r"
  by (cases x) (auto split: sum.splits)

lemma sample_processed:
  "\<exists>s' r logs. Process sample_crypto sample_codec sample_backend sample_chain (london_config 1) zero_address [] sample_block sample_state
     = Some (s', Ok ([r], logs, 21000))"
proof -
  let ?evm = "\<lambda>ctx. NewEVM sample_chain ctx \<lparr>tc_Origin = zero_address, tc_GasPrice = 0\<rparr> (london_config 1)"
  let ?s = "SetTxContext (tx_Hash sample_crypto sample_codec sample_transfer) 0 sample_state"
  have b: "h_Number (b_header sample_block) = Some 1" "h_GasLimit (b_header sample_block) = 30000000" "b_transactions sample_block = [sample_transfer]"
    "b_withdrawals sample_block = None" "h_Number (Block_Header sample_block) = Some 1" "h_Time (Block_Header sample_block) = 0"
    "h_BaseFee (Block_Header sample_block) = Some 7"
    by (simp_all add: sample_block_def zero_header_def Block_Header_def CopyHeader_def)
  have n: "\<not> DAOForkSupport (london_config 1)" by (simp add: config_eval)
  have g: "AddGas 30000000 0 = Some (30000000 :: u64)" by (simp add: AddGas_def)
  from sample_runs obtain ctx where c: "NewEVMBlockContext sample_chain (Block_Header sample_block) None = Some ctx"
    by (cases "NewEVMBlockContext sample_chain (Block_Header sample_block) None") simp_all
  from sample_runs obtain msg where m: "TransactionToMessage sample_crypto sample_transfer (MakeSigner (london_config 1) (Some 1) 0) (Some 7) = Ok msg"
    by (cases "TransactionToMessage sample_crypto sample_transfer (MakeSigner (london_config 1) (Some 1) 0) (Some 7)") (simp_all add: c)
  from sample_runs [unfolded c m option.case sum.case, THEN case_applied, of "tx_Hash sample_crypto sample_codec sample_transfer"] obtain st r where r:
    "ApplyMessage sample_backend (evm_Reset sample_chain (NewEVMTxContext msg) (?evm ctx)) msg 30000000 ?s = Some (st, Ok r)" "er_UsedGas r = 21000" by blast
  have "\<exists>s' gp' x. applyTransaction sample_crypto sample_codec sample_backend sample_chain msg (london_config 1) 30000000 ?s 1 hash sample_transfer 0 (?evm ctx)
      = Some (s', gp', 21000, Ok x)" for hash
    by (simp add: applyTransaction_def r Let_def split: prod.splits)
  then obtain s' gp' x where "applyTransaction sample_crypto sample_codec sample_backend sample_chain msg (london_config 1) 30000000 ?s 1
      (Header_Hash sample_crypto (b_header sample_block)) sample_transfer 0 (?evm ctx) = Some (s', gp', 21000, Ok x)" by blast
  then show ?thesis by (simp add: Process_def b n g c m Let_def)
qed

theorem Process_accounting_witness:
  "\<exists>s' r. Process sample_crypto sample_codec sample_backend sample_chain (london_config 1) zero_address [] sample_block sample_state
       = Some (s', Ok ([r], rc_Logs r, 21000))
     \<and> rc_GasUsed r = 21000 \<and> rc_CumulativeGasUsed r = 21000 \<and> rc_TxHash r = tx_Hash sample_crypto sample_codec sample_transfer"
proof -
  have ok: "obs_ok (obs sample_backend sample_state)" "rev_inv sample_state" using sample_state_ok by (simp_all add: sound_def)
  have b: "h_Number (b_header sample_block) \<noteq> None" "h_BaseFee (b_header sample_block) \<noteq> None" "b_transactions sample_block = [sample_transfer]"
    by (simp_all add: sample_block_def)
  from sample_processed obtain s' r logs where p: "Process sample_crypto sample_codec sample_backend sample_chain (london_config 1) zero_address [] sample_block
      sample_state = Some (s', Ok ([r], logs, 21000))" by blast
  with Process_accounting [OF sample_backend_ok sample_chain_ok ok b(1,2), of sample_crypto sample_codec "london_config 1" zero_address "[]"]
  have "logs = rc_Logs r" "unat (rc_GasUsed r) = 21000" "unat (rc_CumulativeGasUsed r) = 21000" "rc_TxHash r = tx_Hash sample_crypto sample_codec sample_transfer"
    by (auto simp: b(3))
  then show ?thesis using p by (simp add: word_unat_eq_iff)
qed


definition sample_hasher :: "(bytes \<times> bytes) list TrieHasher" where
  "sample_hasher = \<lparr>th_Reset = (\<lambda>_. []), th_Update = (\<lambda>k v h. (k, v) # h), th_Hash = (\<lambda>h. if h = [] then EmptyRootHash else replicate 32 5)\<rparr>"

definition sample_validator :: "(bytes \<times> bytes) list validator" where
  "sample_validator = \<lparr>v_HasBlockAndState = (\<lambda>_ n. n = 0), v_HasBlock = (\<lambda>_ _. True), v_VerifyUncles = (\<lambda>_. None), v_hasher = sample_hasher, v_fresh = []\<rparr>"

definition assembled_block :: Block where
  "assembled_block = NewBlockWithWithdrawals sample_crypto sample_codec sample_hasher (zero_header\<lparr>h_Number := Some 1, h_GasUsed := 21000\<rparr>)
     [sample_transfer] [] [sample_receipt] (Some []) []"


text \<open>Without receipts the bloom filter of the given header is kept, although it is documented as ignored: such a block fails validation.\<close>

lemma NewBlock_keeps_bloom:
  "h_Bloom (b_header (NewBlock C bc H hdr txs uncles [] hasher)) = h_Bloom hdr"
  by (simp add: NewBlock_def Let_def CopyHeader_fields)

lemma NewBlock_stale_bloom:
  assumes "h_Bloom hdr \<noteq> replicate 256 0" "h_GasUsed hdr = usedGas"
  shows "snd (ValidateState C B ch config v (NewBlock C bc H hdr txs uncles [] hasher) s [] usedGas) = Some ErrBloom"
  using assms by (auto simp: ValidateState_def NewBlock_def Let_def Block_Header_def CopyHeader_fields CreateBloom_def BloomByteLength_def)

text \<open>C40: Looking up a block hash always returns: the hash of the ancestor with that number as far as the chain has the headers, the zero hash for
  missing ancestors and for numbers that are not below the block's; the cache of the closure stays a list of ancestors, so that
  cached and uncached lookups agree.\<close>

theorem GetHashFn_ancestor:
  assumes "numbered G" "h_Number ref = Some (int num)" "num < 2 ^ 64" "cache_ok G (h_ParentHash ref) num cache"
  shows "\<exists>cache'. GetHashFn G ref n cache =
      Some (cache', if unat n < num then (case ancestor G (h_ParentHash ref) num (num - 1 - unat n) of None \<Rightarrow> zero_hash | Some h \<Rightarrow> h) else zero_hash)
    \<and> cache_ok G (h_ParentHash ref) num cache'"
  by (rule GetHashFn_ok [OF assms])

definition sample_headers :: "hash \<Rightarrow> u64 \<Rightarrow> Header option" where
  "sample_headers h n = (if n = 1 then Some (zero_header\<lparr>h_Number := Some 1, h_ParentHash := replicate 32 8\<rparr>) else None)"

theorem GetHashFn_ancestor_witness:
  "\<exists>cache'. GetHashFn sample_headers (zero_header\<lparr>h_Number := Some 2\<rparr>) 0 [] = Some (cache', replicate 32 8)"
proof -
  let ?ref = "zero_header\<lparr>h_Number := Some 2\<rparr>"
  have "numbered sample_headers" by (simp add: numbered_def sample_headers_def)
  moreover have "h_Number ?ref = Some (int 2)" "(2 :: nat) < 2 ^ 64" "cache_ok sample_headers (h_ParentHash ?ref) 2 []" by (simp_all add: cache_ok_def)
  ultimately show ?thesis using GetHashFn_ancestor [of sample_headers ?ref 2 "[]" 0]
    by (auto simp: numeral_2_eq_2 sample_headers_def)
qed

end
