(* ===== verification/Go_Heap.thy ===== *)
theory Go_Heap
  imports Go_Prelude "HOL-Library.Multiset"
begin

text \<open>
  Binary heaps as the standard library's \<^verbatim>\<open>container/heap\<close> builds them on a slice: sifting up and
  down, \<open>Init\<close>, \<open>Push\<close>, \<open>Pop\<close>, \<open>Fix\<close> and \<open>Remove\<close> over a list and a comparison \<open>lt\<close>.  The locale
  \<open>heap_order\<close> is what a client promises of its comparison; its lemmas are the heap property, the
  contents and the least element.
\<close>

section \<open>Definitions\<close>

definition heap_Swap :: "'a list \<Rightarrow> nat \<Rightarrow> nat \<Rightarrow> 'a list" where
  "heap_Swap h i j = h[i := h ! j, j := h ! i]"

function heap_up :: "('a \<Rightarrow> 'a \<Rightarrow> bool) \<Rightarrow> 'a list \<Rightarrow> nat \<Rightarrow> 'a list" where
  "heap_up lt h j =
     (let i = (j - 1) div 2
      in if i = j \<or> \<not> lt (h ! j) (h ! i) then h else heap_up lt (heap_Swap h i j) i)"
  by auto
termination by (relation "measure (\<lambda>(lt, h, j). j)") auto

declare heap_up.simps [simp del]

text \<open>\<open>down\<close> also returns the final index.\<close>

function heap_down :: "('a \<Rightarrow> 'a \<Rightarrow> bool) \<Rightarrow> 'a list \<Rightarrow> nat \<Rightarrow> nat \<Rightarrow> 'a list \<times> nat" where
  "heap_down lt h i n =
     (let j1 = 2 * i + 1
      in if j1 \<ge> n then (h, i)
         else
           let j = (if j1 + 1 < n \<and> lt (h ! (j1 + 1)) (h ! j1) then j1 + 1 else j1)
           in if \<not> lt (h ! j) (h ! i) then (h, i) else heap_down lt (heap_Swap h i j) j n)"
  by auto
termination by (relation "measure (\<lambda>(lt, h, i, n). n - i)") (auto simp: Let_def split: if_splits)

declare heap_down.simps [simp del]

fun heap_init_loop :: "('a \<Rightarrow> 'a \<Rightarrow> bool) \<Rightarrow> nat \<Rightarrow> 'a list \<Rightarrow> 'a list" where
  "heap_init_loop lt 0 h = h"
| "heap_init_loop lt (Suc i) h = heap_init_loop lt i (fst (heap_down lt h i (length h)))"

definition heap_Init :: "('a \<Rightarrow> 'a \<Rightarrow> bool) \<Rightarrow> 'a list \<Rightarrow> 'a list" where
  "heap_Init lt h = heap_init_loop lt (length h div 2) h"

definition heap_Push :: "('a \<Rightarrow> 'a \<Rightarrow> bool) \<Rightarrow> 'a list \<Rightarrow> 'a \<Rightarrow> 'a list" where
  "heap_Push lt h x = heap_up lt (h @ [x]) (length h)"

text \<open>\<open>Pop\<close> on an empty heap panics: \<open>None\<close>.\<close>

definition heap_Pop :: "('a \<Rightarrow> 'a \<Rightarrow> bool) \<Rightarrow> 'a list \<Rightarrow> ('a list \<times> 'a) option" where
  "heap_Pop lt h =
     (if h = [] then None
      else let n = length h - 1;
               h = fst (heap_down lt (heap_Swap h 0 n) 0 n)
           in Some (take n h, h ! n))"

definition heap_Fix :: "('a \<Rightarrow> 'a \<Rightarrow> bool) \<Rightarrow> 'a list \<Rightarrow> nat \<Rightarrow> 'a list" where
  "heap_Fix lt h i =
     (case heap_down lt h i (length h) of (h', i') \<Rightarrow> if i < i' then h' else heap_up lt h' i)"

section \<open>Lemmas\<close>

abbreviation par :: "nat \<Rightarrow> nat" where
  "par j \<equiv> (j - 1) div 2"

lemma par_less: "0 < j \<Longrightarrow> par j < j"
  by simp

lemma par_children: "0 < j \<Longrightarrow> par j = i \<longleftrightarrow> j = 2 * i + 1 \<or> j = 2 * i + 2"
  by auto

lemma length_heap_Swap [simp]: "length (heap_Swap h i j) = length h"
  by (simp add: heap_Swap_def)

lemma nth_heap_Swap:
  "i < length h \<Longrightarrow> j < length h \<Longrightarrow> k < length h \<Longrightarrow>
     heap_Swap h i j ! k = (if k = j then h ! i else if k = i then h ! j else h ! k)"
  by (simp add: heap_Swap_def nth_list_update)

lemma mset_heap_Swap [simp]: "i < length h \<Longrightarrow> j < length h \<Longrightarrow> mset (heap_Swap h i j) = mset h"
  unfolding heap_Swap_def by (rule mset_swap)

lemma length_heap_up [simp]: "length (heap_up lt h j) = length h"
  by (induction lt h j rule: heap_up.induct) (subst heap_up.simps, simp add: Let_def)

lemma length_heap_down [simp]: "length (fst (heap_down lt h i n)) = length h"
  by (induction lt h i n rule: heap_down.induct) (subst heap_down.simps, simp add: Let_def)

lemma mset_heap_up [simp]: "j < length h \<Longrightarrow> mset (heap_up lt h j) = mset h"
proof (induction lt h j rule: heap_up.induct)
  case (1 lt h j)
  show ?case
  proof (cases "par j = j \<or> \<not> lt (h ! j) (h ! par j)")
    case False
    have "par j < length h" using 1(2) by linarith
    with 1 False show ?thesis by (subst heap_up.simps) (simp add: Let_def)
  qed (subst heap_up.simps, simp)
qed

lemma heap_down_outside:
  "n \<le> length h \<Longrightarrow> n \<le> k \<Longrightarrow> k < length h \<Longrightarrow> i < n \<or> i = 0 \<Longrightarrow> fst (heap_down lt h i n) ! k = h ! k"
proof (induction lt h i n rule: heap_down.induct)
  case (1 lt h i n)
  show ?case
  proof (cases "2 * i + 1 \<ge> n")
    case False
    then show ?thesis using 1 by (subst heap_down.simps) (auto simp: Let_def nth_heap_Swap)
  qed (subst heap_down.simps, simp)
qed

lemma mset_heap_down [simp]: "n \<le> length h \<Longrightarrow> mset (fst (heap_down lt h i n)) = mset h"
proof (induction lt h i n rule: heap_down.induct)
  case (1 lt h i n)
  show ?case
  proof (cases "2 * i + 1 \<ge> n")
    case False
    then show ?thesis using 1 by (subst heap_down.simps) (auto simp: Let_def)
  qed (subst heap_down.simps, simp)
qed

lemma length_heap_init_loop [simp]: "length (heap_init_loop lt i h) = length h"
  by (induction i arbitrary: h) simp_all

lemma mset_heap_init_loop [simp]: "mset (heap_init_loop lt i h) = mset h"
  by (induction i arbitrary: h) simp_all

lemma mset_heap_Init [simp]: "mset (heap_Init lt h) = mset h"
  by (simp add: heap_Init_def)

text \<open>The heap property of the first \<open>n\<close> elements, for parents from \<open>k\<close> on; and the same except below \<open>i\<close>.\<close>

definition heap_from :: "('a \<Rightarrow> 'a \<Rightarrow> bool) \<Rightarrow> nat \<Rightarrow> nat \<Rightarrow> 'a list \<Rightarrow> bool" where
  "heap_from lt k n h \<longleftrightarrow> (\<forall>j < n. 0 < j \<longrightarrow> k \<le> par j \<longrightarrow> \<not> lt (h ! j) (h ! par j))"

definition except_down :: "('a \<Rightarrow> 'a \<Rightarrow> bool) \<Rightarrow> nat \<Rightarrow> nat \<Rightarrow> nat \<Rightarrow> 'a list \<Rightarrow> bool" where
  "except_down lt k n i h \<longleftrightarrow>
     (\<forall>j < n. 0 < j \<longrightarrow> k \<le> par j \<longrightarrow> par j \<noteq> i \<longrightarrow> \<not> lt (h ! j) (h ! par j))
     \<and> (\<forall>j < n. 0 < j \<longrightarrow> par j = i \<longrightarrow> 0 < i \<longrightarrow> k \<le> par i \<longrightarrow> \<not> lt (h ! j) (h ! par i))"

text \<open>What a client promises of its comparison: not being lt is a total preorder, read from right to left.\<close>

locale heap_order =
  fixes lt :: "'a \<Rightarrow> 'a \<Rightarrow> bool"
  assumes lt_asym: "lt x y \<Longrightarrow> \<not> lt y x"
    and not_lt_trans: "\<not> lt y x \<Longrightarrow> \<not> lt z y \<Longrightarrow> \<not> lt z x"
begin

lemma down_step:
  assumes "except_down lt k n i h" "n \<le> length h" "j < n" "0 < j" "par j = i" "lt (h ! j) (h ! i)"
    and min: "\<And>j'. j' < n \<Longrightarrow> 0 < j' \<Longrightarrow> par j' = i \<Longrightarrow> \<not> lt (h ! j') (h ! j)"
  shows "except_down lt k n j (heap_Swap h i j)"
  unfolding except_down_def
proof (intro conjI allI impI)
  have i: "i < j" using assms(4,5) by auto
  fix m assume m: "m < n" "0 < m"
  note sw = nth_heap_Swap [of i h j]
  { assume k: "k \<le> par m" "par m \<noteq> j"
    show "\<not> lt (heap_Swap h i j ! m) (heap_Swap h i j ! par m)"
    proof (cases "par m = i")
      case True
      then show ?thesis using m i assms(2-6) min [OF m True] lt_asym [OF assms(6)]
        by (auto simp: sw)
    next
      case False
      have "m \<noteq> j" using False assms(5) by auto
      moreover have "\<not> lt (h ! j) (h ! par m)" if "m = i"
        using assms(1,3-5) m k that unfolding except_down_def by auto
      moreover have "\<not> lt (h ! m) (h ! par m)"
        using assms(1) m k False unfolding except_down_def by auto
      moreover have "par m < length h" using m assms(2) by linarith
      ultimately show ?thesis using False k m i assms(2,3) by (auto simp: sw)
    qed }
  { assume k: "par m = j" "k \<le> par j"
    have "\<not> lt (h ! m) (h ! j)"
      using assms(1,5) m k i unfolding except_down_def by auto
    moreover have "m \<noteq> i" "m \<noteq> j" using k m i by auto
    ultimately show "\<not> lt (heap_Swap h i j ! m) (heap_Swap h i j ! par j)"
      using m i assms(2,3,5) by (simp add: sw) }
qed

lemma down_heap:
  "except_down lt k n i h \<Longrightarrow> n \<le> length h \<Longrightarrow> heap_from lt k n (fst (heap_down lt h i n))"
proof (induction "n - i" arbitrary: h i rule: less_induct)
  case (less i h)
  let ?j1 = "2 * i + 1"
  let ?j = "if ?j1 + 1 < n \<and> lt (h ! (?j1 + 1)) (h ! ?j1) then ?j1 + 1 else ?j1"
  have unfold: "heap_down lt h i n = (if ?j1 \<ge> n \<or> \<not> lt (h ! ?j) (h ! i) then (h, i)
      else heap_down lt (heap_Swap h i ?j) ?j n)"
    by (subst heap_down.simps) (simp add: Let_def)
  have min: "\<not> lt (h ! j') (h ! ?j)" if "j' < n" "0 < j'" "par j' = i" for j'
  proof -
    have "j' = ?j1 \<or> j' = ?j1 + 1" using that(2,3) by auto
    then show ?thesis using that(1) lt_asym by auto
  qed
  show ?case
  proof (cases "?j1 \<ge> n \<or> \<not> lt (h ! ?j) (h ! i)")
    case True
    have "\<not> lt (h ! j) (h ! i)" if "j < n" "0 < j" "par j = i" for j
    proof -
      have "\<not> ?j1 \<ge> n" using that by auto
      with True have "\<not> lt (h ! ?j) (h ! i)" by blast
      then show ?thesis using not_lt_trans min [OF that] by blast
    qed
    then have "heap_from lt k n h" using less(2) unfolding heap_from_def except_down_def by blast
    then show ?thesis using True by (simp add: unfold)
  next
    case False
    then have j: "?j < n" "0 < ?j" "par ?j = i" "n - ?j < n - i" by auto
    from False have "except_down lt k n ?j (heap_Swap h i ?j)"
      by (intro down_step [OF less(2,3) j(1-3)] min) auto
    from less(1) [OF j(4) this] less(3) False show ?thesis by (simp add: unfold)
  qed
qed

lemma heap_except: "heap_from lt (Suc i) n h \<Longrightarrow> except_down lt i n i h"
  unfolding heap_from_def except_down_def by auto

lemma init_loop_heap: "heap_from lt i (length h) h \<Longrightarrow> heap_from lt 0 (length h) (heap_init_loop lt i h)"
proof (induction i arbitrary: h)
  case (Suc i)
  from down_heap [OF heap_except [OF Suc.prems]] Suc.IH [of "fst (heap_down lt h i (length h))"]
  show ?case by simp
qed simp

lemma Init_heap: "heap_from lt 0 (length h) (heap_Init lt h)"
  unfolding heap_Init_def by (intro init_loop_heap) (auto simp: heap_from_def)

lemma heap_first: "heap_from lt 0 n h \<Longrightarrow> j < n \<Longrightarrow> \<not> lt (h ! j) (h ! 0)"
proof (induction j rule: less_induct)
  case (less j)
  show ?case
  proof (cases "j = 0")
    case True
    then show ?thesis using lt_asym by blast
  next
    case False
    with less have "\<not> lt (h ! par j) (h ! 0)" "\<not> lt (h ! j) (h ! par j)" by (auto simp: heap_from_def)
    then show ?thesis using not_lt_trans by blast
  qed
qed

text \<open>Replacing the first element and sifting it down.\<close>

lemma first_heap:
  assumes "heap_from lt 0 n h" "n \<le> length h" "n \<le> length h'" "\<And>j. 0 < j \<Longrightarrow> j < n \<Longrightarrow> h' ! j = h ! j"
  shows "heap_from lt 0 n (fst (heap_down lt h' 0 n))"
proof (intro down_heap heap_except assms(3))
  show "heap_from lt (Suc 0) n h'"
    using assms(1) unfolding heap_from_def
  proof (intro allI impI)
    fix j assume j: "j < n" "0 < j" "Suc 0 \<le> par j"
    then have "0 < par j" "par j < n" by linarith+
    then show "\<not> lt (h' ! j) (h' ! par j)" using j assms(1,4) unfolding heap_from_def by simp
  qed
qed

lemma heap_up_0: "heap_up lt h 0 = h"
  by (subst heap_up.simps) simp

lemma Fix_first:
  assumes "heap_from lt 0 (length h) h" "h \<noteq> []"
  shows "heap_from lt 0 (length h) (heap_Fix lt (h[0 := x]) 0)" "mset (heap_Fix lt (h[0 := x]) 0) = mset (h[0 := x])"
    "length (heap_Fix lt (h[0 := x]) 0) = length h"
proof -
  have f: "heap_Fix lt (h[0 := x]) 0 = fst (heap_down lt (h[0 := x]) 0 (length h))"
    by (simp add: heap_Fix_def heap_up_0 split: prod.splits)
  show "heap_from lt 0 (length h) (heap_Fix lt (h[0 := x]) 0)"
    unfolding f by (rule first_heap [OF assms(1)]) simp_all
  show "mset (heap_Fix lt (h[0 := x]) 0) = mset (h[0 := x])" unfolding f by simp
  show "length (heap_Fix lt (h[0 := x]) 0) = length h" unfolding f by simp
qed

lemma Pop_first:
  assumes "heap_from lt 0 (length h) h" "h \<noteq> []"
  obtains h' where "heap_Pop lt h = Some (h', h ! 0)" "heap_from lt 0 (length h') h'" "mset h = add_mset (h ! 0) (mset h')"
proof -
  let ?n = "length h - 1"
  let ?d = "fst (heap_down lt (heap_Swap h 0 ?n) 0 ?n)"
  have n: "?n < length h" "0 < length h" using assms(2) by simp_all
  have h0: "heap_from lt 0 ?n h" using assms(1) by (auto simp: heap_from_def)
  have last: "?d ! ?n = h ! 0"
    using n by (subst heap_down_outside) (auto simp: nth_heap_Swap)
  have "heap_from lt 0 ?n ?d"
    using n by (intro first_heap [OF h0]) (auto simp: nth_heap_Swap)
  then have heap: "heap_from lt 0 (length (take ?n ?d)) (take ?n ?d)"
    using n by (auto simp: heap_from_def)
  have "take (Suc ?n) ?d = take ?n ?d @ [?d ! ?n]" by (rule take_Suc_conv_app_nth) (use n in simp)
  then have "?d = take ?n ?d @ [?d ! ?n]" using n by simp
  then have "mset ?d = mset (take ?n ?d @ [h ! 0])" unfolding last by (rule arg_cong)
  then have "mset h = add_mset (h ! 0) (mset (take ?n ?d))" using n by simp
  with heap last assms(2) that show thesis by (simp add: heap_Pop_def Let_def)
qed

end

end
