(* ===== verification/Tx_Order.thy ===== *)
theory Tx_Order
  imports Tx_Signing Go_Heap Step_Systems
begin

text \<open>
  The miner's transaction order (\<^verbatim>\<open>core/types/transaction.go\<close>): per account nonce-sorted lists
  whose first elements sit in a heap ordered by miner fee and time.
\<close>

section \<open>Definitions\<close>

text \<open>A transaction with the time it was first seen; its caches are left out.\<close>

record Transaction =
  tr_inner :: TxData
  tr_time :: int

record TxWithMinerFee =
  wf_tx :: Transaction
  wf_minerFee :: int

definition NewTxWithMinerFee :: "Transaction \<Rightarrow> int option \<Rightarrow> tx_err + TxWithMinerFee" where
  "NewTxWithMinerFee tx baseFee =
     (case EffectiveGasTip (tr_inner tx) baseFee of
        (minerFee, Some err) \<Rightarrow> Err err
      | (minerFee, None) \<Rightarrow> Ok \<lparr>wf_tx = tx, wf_minerFee = minerFee\<rparr>)"

definition TxByPriceAndTime_Less :: "TxWithMinerFee \<Rightarrow> TxWithMinerFee \<Rightarrow> bool" where
  "TxByPriceAndTime_Less x y =
     (let cmp = big_Cmp (wf_minerFee x) (wf_minerFee y)
      in if cmp = 0 then tr_time (wf_tx x) < tr_time (wf_tx y) else cmp > 0)"

record TransactionsByPriceAndNonce =
  tp_txs :: "address \<Rightarrow> Transaction list option"
  tp_heads :: "TxWithMinerFee list"
  tp_signer :: Signer
  tp_baseFee :: "int option"

text \<open>\<open>acc, _ := Sender(signer, tx)\<close>: the zero address when recovery fails.\<close>

definition sender_of :: "'k crypto \<Rightarrow> Signer \<Rightarrow> Transaction \<Rightarrow> address" where
  "sender_of C signer tx =
     (case fst (Sender C signer (tr_inner tx) None) of Ok addr \<Rightarrow> addr | Err _ \<Rightarrow> replicate 20 0)"

text \<open>The loop over the map, in the order its iteration takes, which Go leaves open; an account with an empty
  list panics.\<close>

fun new_heads :: "'k crypto \<Rightarrow> Signer \<Rightarrow> int option \<Rightarrow> (address \<times> Transaction list) list \<Rightarrow>
    (address \<Rightarrow> Transaction list option) \<Rightarrow> TxWithMinerFee list \<Rightarrow>
    ((address \<Rightarrow> Transaction list option) \<times> TxWithMinerFee list) option" where
  "new_heads C signer baseFee [] txs heads = Some (txs, heads)"
| "new_heads C signer baseFee ((from, []) # rest) txs heads = None"
| "new_heads C signer baseFee ((from, tx # accTxs) # rest) txs heads =
     (case NewTxWithMinerFee tx baseFee of
        Err err \<Rightarrow> new_heads C signer baseFee rest (txs(from := None)) heads
      | Ok wrapped \<Rightarrow>
          if sender_of C signer tx \<noteq> from then new_heads C signer baseFee rest (txs(from := None)) heads
          else new_heads C signer baseFee rest (txs(from := Some accTxs)) (heads @ [wrapped]))"

definition NewTransactionsByPriceAndNonce :: "'k crypto \<Rightarrow> Signer \<Rightarrow> (address \<times> Transaction list) list \<Rightarrow>
    int option \<Rightarrow> TransactionsByPriceAndNonce option" where
  "NewTransactionsByPriceAndNonce C signer txs baseFee =
     (case new_heads C signer baseFee txs (map_of txs) [] of None \<Rightarrow> None
      | Some (m, heads) \<Rightarrow>
          Some \<lparr>tp_txs = m, tp_heads = heap_Init TxByPriceAndTime_Less heads, tp_signer = signer, tp_baseFee = baseFee\<rparr>)"

definition Peek :: "TransactionsByPriceAndNonce \<Rightarrow> Transaction option" where
  "Peek t = (case tp_heads t of [] \<Rightarrow> None | h # _ \<Rightarrow> Some (wf_tx h))"

text \<open>\<open>Pop\<close> and \<open>Shift\<close> panic when there are no heads.\<close>

definition TxPop :: "TransactionsByPriceAndNonce \<Rightarrow> TransactionsByPriceAndNonce option" where
  "TxPop t = (case heap_Pop TxByPriceAndTime_Less (tp_heads t) of None \<Rightarrow> None | Some (h, _) \<Rightarrow> Some (t\<lparr>tp_heads := h\<rparr>))"

definition TxShift :: "'k crypto \<Rightarrow> TransactionsByPriceAndNonce \<Rightarrow> TransactionsByPriceAndNonce option" where
  "TxShift C t =
     (case tp_heads t of [] \<Rightarrow> None
      | head # _ \<Rightarrow>
          let acc = sender_of C (tp_signer t) (wf_tx head)
          in (case tp_txs t acc of
                Some (tx # rest) \<Rightarrow>
                  (case NewTxWithMinerFee tx (tp_baseFee t) of
                     Ok wrapped \<Rightarrow>
                       Some (t\<lparr>tp_heads := heap_Fix TxByPriceAndTime_Less ((tp_heads t)[0 := wrapped]) 0,
                               tp_txs := (tp_txs t)(acc := Some rest)\<rparr>)
                   | Err _ \<Rightarrow> TxPop t)
              | _ \<Rightarrow> TxPop t))"

section \<open>Lemmas\<close>

interpretation fee: heap_order TxByPriceAndTime_Less
  by unfold_locales (auto simp: TxByPriceAndTime_Less_def big_Cmp_def Let_def split: if_splits)

text \<open>What the set stands for: the remaining transactions of every account that has a head.\<close>

definition queued :: "'k crypto \<Rightarrow> TransactionsByPriceAndNonce \<Rightarrow> address \<Rightarrow> Transaction list option" where
  "queued C t a =
     map_option (\<lambda>h. wf_tx h # (case tp_txs t a of None \<Rightarrow> [] | Some r \<Rightarrow> r))
       (find (\<lambda>h. sender_of C (tp_signer t) (wf_tx h) = a) (tp_heads t))"

definition tp_inv :: "'k crypto \<Rightarrow> TransactionsByPriceAndNonce \<Rightarrow> bool" where
  "tp_inv C t \<longleftrightarrow>
     heap_from TxByPriceAndTime_Less 0 (length (tp_heads t)) (tp_heads t)
     \<and> distinct (map (\<lambda>h. sender_of C (tp_signer t) (wf_tx h)) (tp_heads t))
     \<and> (\<forall>h \<in> set (tp_heads t). NewTxWithMinerFee (wf_tx h) (tp_baseFee t) = Ok h)
     \<and> (\<forall>a r. tp_txs t a = Some r \<longrightarrow> (\<forall>tx \<in> set r. sender_of C (tp_signer t) tx = a))"

text \<open>The abstract operations: taking an account out, and moving it to its next transaction, which must be
  able to pay the base fee.\<close>

definition advance :: "int option \<Rightarrow> address \<Rightarrow> (address \<Rightarrow> Transaction list option) \<Rightarrow> address \<Rightarrow> Transaction list option" where
  "advance baseFee a q =
     q(a := (case q a of Some (_ # tx # r) \<Rightarrow>
               (case NewTxWithMinerFee tx baseFee of Ok _ \<Rightarrow> Some (tx # r) | Err _ \<Rightarrow> None)
             | _ \<Rightarrow> None))"

text \<open>\<open>x\<close> is taken before \<open>y\<close>: it pays the miner more, or the same and was seen earlier.\<close>

definition before :: "int option \<Rightarrow> Transaction \<Rightarrow> Transaction \<Rightarrow> bool" where
  "before baseFee x y \<longleftrightarrow>
     EffectiveGasTipValue (tr_inner x) baseFee > EffectiveGasTipValue (tr_inner y) baseFee
     \<or> EffectiveGasTipValue (tr_inner x) baseFee = EffectiveGasTipValue (tr_inner y) baseFee \<and> tr_time x < tr_time y"

lemma wrap_fee: "NewTxWithMinerFee tx bf = Ok h \<Longrightarrow> wf_tx h = tx \<and> wf_minerFee h = EffectiveGasTipValue (tr_inner tx) bf"
  by (auto simp: NewTxWithMinerFee_def EffectiveGasTipValue_def split: prod.splits option.splits)

lemma Less_before:
  "NewTxWithMinerFee (wf_tx x) bf = Ok x \<Longrightarrow> NewTxWithMinerFee (wf_tx y) bf = Ok y \<Longrightarrow>
     TxByPriceAndTime_Less x y \<longleftrightarrow> before bf (wf_tx x) (wf_tx y)"
  by (auto dest!: wrap_fee simp: TxByPriceAndTime_Less_def before_def big_Cmp_def Let_def)

text \<open>Only the set of heads matters for \<open>queued\<close> when their senders differ.\<close>

lemma find_Some_distinct: "distinct (map f hs) \<Longrightarrow> find (\<lambda>h. f h = a) hs = Some h \<longleftrightarrow> h \<in> set hs \<and> f h = a"
  by (induction hs) auto

lemma distinct_map_mset: "distinct (map f xs) \<Longrightarrow> mset ys = mset xs \<Longrightarrow> distinct (map f ys)"
  by (metis mset_eq_imp_distinct_iff mset_map)

lemma find_mset:
  assumes "distinct (map f hs)" "mset hs' = mset hs"
  shows "find (\<lambda>h. f h = a) hs' = find (\<lambda>h. f h = a) hs"
proof -
  have "distinct (map f hs')" by (rule distinct_map_mset [OF assms])
  then have "find (\<lambda>h. f h = a) hs' = Some h \<longleftrightarrow> find (\<lambda>h. f h = a) hs = Some h" for h
    using assms mset_eq_setD [OF assms(2)] by (simp add: find_Some_distinct)
  then show ?thesis by (metis not_None_eq)
qed

lemma tp_invD:
  assumes "tp_inv C t"
  shows "heap_from TxByPriceAndTime_Less 0 (length (tp_heads t)) (tp_heads t)"
    "distinct (map (\<lambda>h. sender_of C (tp_signer t) (wf_tx h)) (tp_heads t))"
    "h \<in> set (tp_heads t) \<Longrightarrow> NewTxWithMinerFee (wf_tx h) (tp_baseFee t) = Ok h"
    "tp_txs t a = Some r \<Longrightarrow> tx \<in> set r \<Longrightarrow> sender_of C (tp_signer t) tx = a"
  using assms by (auto simp: tp_inv_def)

text \<open>Replacing the heads by a heap with the first head exchanged or gone.\<close>

lemma TxPop_queued:
  assumes "tp_inv C t" "tp_heads t = head # hs"
  shows "\<exists>t'. TxPop t = Some t' \<and> tp_inv C t' \<and> tp_signer t' = tp_signer t \<and> tp_baseFee t' = tp_baseFee t
    \<and> queued C t' = (queued C t)(sender_of C (tp_signer t) (wf_tx head) := None)"
proof -
  let ?F = "\<lambda>h. sender_of C (tp_signer t) (wf_tx h)"
  note inv = tp_invD [OF assms(1)]
  from fee.Pop_first [OF inv(1)] assms(2) obtain h' where
    h': "heap_Pop TxByPriceAndTime_Less (tp_heads t) = Some (h', head)"
      "heap_from TxByPriceAndTime_Less 0 (length h') h'" "mset (tp_heads t) = add_mset head (mset h')" by auto
  then have m: "mset (tp_heads t) = mset (head # h')" by simp
  have d: "distinct (map ?F (head # h'))" by (rule distinct_map_mset [OF inv(2) m [symmetric]])
  have f: "find (\<lambda>h. ?F h = a) (tp_heads t) = find (\<lambda>h. ?F h = a) (head # h')" for a
    by (rule find_mset [OF d m])
  have "find (\<lambda>h. ?F h = ?F head) h' = None" using d by (auto simp: find_None_iff image_iff)
  then have "queued C (t\<lparr>tp_heads := h'\<rparr>) = (queued C t)(?F head := None)"
    by (auto simp: queued_def f)
  moreover have "tp_inv C (t\<lparr>tp_heads := h'\<rparr>)"
    using h'(2) d inv(3,4) mset_eq_setD [OF m] by (auto simp: tp_inv_def)
  ultimately show ?thesis by (auto simp: TxPop_def h'(1))
qed

lemma TxShift_next:
  assumes "tp_inv C t" "tp_heads t = head # hs" "tp_txs t (sender_of C (tp_signer t) (wf_tx head)) = Some (tx # r)"
    "NewTxWithMinerFee tx (tp_baseFee t) = Ok w"
  shows "\<exists>t'. TxShift C t = Some t' \<and> tp_inv C t' \<and> tp_signer t' = tp_signer t \<and> tp_baseFee t' = tp_baseFee t
    \<and> queued C t' = (queued C t)(sender_of C (tp_signer t) (wf_tx head) := Some (tx # r))"
proof -
  let ?F = "\<lambda>h. sender_of C (tp_signer t) (wf_tx h)"
  let ?a = "?F head"
  let ?hs = "heap_Fix TxByPriceAndTime_Less (w # hs) 0"
  let ?t = "t\<lparr>tp_heads := ?hs, tp_txs := (tp_txs t)(?a := Some r)\<rparr>"
  note inv = tp_invD [OF assms(1)]
  have w: "wf_tx w = tx" "?F w = ?a" using wrap_fee [OF assms(4)] inv(4) [OF assms(3), of tx] by auto
  note fix1 = fee.Fix_first [OF inv(1) [unfolded assms(2)], of w, simplified]
  have m: "mset ?hs = mset (w # hs)" using fix1(2) by simp
  have d: "distinct (map ?F (w # hs))" using inv(2) assms(2) w(2) by simp
  have f: "find (\<lambda>h. ?F h = a) ?hs = find (\<lambda>h. ?F h = a) (w # hs)" for a by (rule find_mset [OF d m])
  have "queued C ?t = (queued C t)(?a := Some (tx # r))"
    using w assms(2) by (auto simp: queued_def f fun_eq_iff)
  moreover have "tp_inv C ?t"
    unfolding tp_inv_def
  proof (intro conjI)
    show "heap_from TxByPriceAndTime_Less 0 (length (tp_heads ?t)) (tp_heads ?t)"
      using fix1(1,3) by simp
    show "distinct (map (\<lambda>h. sender_of C (tp_signer ?t) (wf_tx h)) (tp_heads ?t))"
      using distinct_map_mset [OF d m] by simp
    show "\<forall>h \<in> set (tp_heads ?t). NewTxWithMinerFee (wf_tx h) (tp_baseFee ?t) = Ok h"
      using inv(3) assms(2,4) w mset_eq_setD [OF m] by auto
    show "\<forall>a r. tp_txs ?t a = Some r \<longrightarrow> (\<forall>tx \<in> set r. sender_of C (tp_signer ?t) tx = a)"
      using inv(4) assms(3) by auto
  qed
  moreover have "TxShift C t = Some ?t" using assms by (simp add: TxShift_def)
  ultimately show ?thesis by auto
qed

lemma queued_head:
  assumes "tp_inv C t" "tp_heads t = head # hs"
  shows "queued C t (sender_of C (tp_signer t) (wf_tx head)) =
    Some (wf_tx head # (case tp_txs t (sender_of C (tp_signer t) (wf_tx head)) of None \<Rightarrow> [] | Some r \<Rightarrow> r))"
  using assms(2) by (simp add: queued_def)

lemma TxShift_queued:
  assumes "tp_inv C t" "tp_heads t = head # hs"
  shows "\<exists>t'. TxShift C t = Some t' \<and> tp_inv C t' \<and> tp_signer t' = tp_signer t \<and> tp_baseFee t' = tp_baseFee t
    \<and> queued C t' = advance (tp_baseFee t) (sender_of C (tp_signer t) (wf_tx head)) (queued C t)"
proof (cases "\<exists>tx r w. tp_txs t (sender_of C (tp_signer t) (wf_tx head)) = Some (tx # r)
    \<and> NewTxWithMinerFee tx (tp_baseFee t) = Ok w")
  case True
  then show ?thesis using TxShift_next [OF assms] queued_head [OF assms] by (fastforce simp: advance_def)
next
  case False
  then have "TxShift C t = TxPop t"
    using assms(2) by (auto simp: TxShift_def Let_def split: option.splits list.splits sum.splits)
  moreover have "advance (tp_baseFee t) (sender_of C (tp_signer t) (wf_tx head)) (queued C t) =
      (queued C t)(sender_of C (tp_signer t) (wf_tx head) := None)"
    using False queued_head [OF assms]
    by (auto simp: advance_def fun_eq_iff split: option.splits list.splits sum.splits)
  ultimately show ?thesis using TxPop_queued [OF assms] by simp
qed

text \<open>The accounts that \<open>NewTransactionsByPriceAndNonce\<close> keeps.\<close>

definition admitted :: "'k crypto \<Rightarrow> Signer \<Rightarrow> int option \<Rightarrow> address \<times> Transaction list \<Rightarrow> bool" where
  "admitted C signer baseFee e \<longleftrightarrow>
     sender_of C signer (hd (snd e)) = fst e \<and> NewTxWithMinerFee (hd (snd e)) baseFee \<in> range Ok"

lemma new_heads_eq:
  assumes "\<forall>e \<in> set xs. snd e \<noteq> []" "distinct (map fst xs)"
  shows "\<exists>m'. new_heads C signer bf xs m hs =
      Some (m', hs @ map (\<lambda>e. projr (NewTxWithMinerFee (hd (snd e)) bf)) (filter (admitted C signer bf) xs))
    \<and> (\<forall>a. m' a = (case map_of xs a of None \<Rightarrow> m a
                   | Some l \<Rightarrow> if admitted C signer bf (a, l) then Some (tl l) else None))"
  using assms
proof (induction xs arbitrary: m hs)
  case (Cons e xs)
  obtain b tx r where e: "e = (b, tx # r)" using Cons.prems(1) by (cases e; cases "snd e") auto
  have fresh: "map_of xs b = None" using Cons.prems(2) e by (simp add: map_of_eq_None_iff)
  have IH: "\<exists>m'. new_heads C signer bf xs m hs =
      Some (m', hs @ map (\<lambda>e. projr (NewTxWithMinerFee (hd (snd e)) bf)) (filter (admitted C signer bf) xs))
    \<and> (\<forall>a. m' a = (case map_of xs a of None \<Rightarrow> m a
                   | Some l \<Rightarrow> if admitted C signer bf (a, l) then Some (tl l) else None))" for m hs
    using Cons by simp
  show ?case
  proof (cases "admitted C signer bf e")
    case True
    then obtain w where w: "NewTxWithMinerFee tx bf = Ok w" "sender_of C signer tx = b"
      by (auto simp: admitted_def e)
    then show ?thesis using IH [of "m(b := Some r)" "hs @ [w]"] True fresh by (auto simp: e) (simp split: option.splits)
  next
    case False
    then have "new_heads C signer bf (e # xs) m hs = new_heads C signer bf xs (m(b := None)) hs"
      by (auto simp: e admitted_def split: sum.splits)
    then show ?thesis using IH [of "m(b := None)" hs] False fresh by (auto simp: e) (simp split: option.splits)
  qed
qed simp

lemma admitted_wrap:
  "admitted C signer bf e \<Longrightarrow> NewTxWithMinerFee (hd (snd e)) bf = Ok (projr (NewTxWithMinerFee (hd (snd e)) bf))
     \<and> wf_tx (projr (NewTxWithMinerFee (hd (snd e)) bf)) = hd (snd e)"
  by (auto simp: admitted_def dest: wrap_fee)

lemma find_admitted:
  assumes "distinct (map fst xs)"
  shows "find (\<lambda>h. sender_of C signer (wf_tx h) = a)
       (map (\<lambda>e. projr (NewTxWithMinerFee (hd (snd e)) bf)) (filter (admitted C signer bf) xs)) =
     (case map_of xs a of None \<Rightarrow> None
      | Some l \<Rightarrow> if admitted C signer bf (a, l) then Some (projr (NewTxWithMinerFee (hd l) bf)) else None)"
  using assms
proof (induction xs)
  case (Cons e xs)
  obtain b l where e: "e = (b, l)" by (cases e)
  show ?case
  proof (cases "admitted C signer bf e")
    case True
    have "sender_of C signer (hd l) = b" using True by (simp add: admitted_def e)
    then show ?thesis using Cons True admitted_wrap [OF True] by (auto simp: e)
  next
    case False
    have "map_of xs b = None" using Cons.prems by (simp add: e map_of_eq_None_iff)
    then show ?thesis using Cons False by (auto simp: e split: option.splits)
  qed
qed simp

text \<open>The input the constructor is made for: every account has transactions, all of them its own.\<close>

definition by_account :: "'k crypto \<Rightarrow> Signer \<Rightarrow> (address \<times> Transaction list) list \<Rightarrow> bool" where
  "by_account C signer xs \<longleftrightarrow> distinct (map fst xs)
     \<and> (\<forall>e \<in> set xs. snd e \<noteq> [] \<and> (\<forall>tx \<in> set (tl (snd e)). sender_of C signer tx = fst e))"

lemma New_queued:
  assumes "by_account C signer xs"
  shows "\<exists>t. NewTransactionsByPriceAndNonce C signer xs bf = Some t \<and> tp_inv C t \<and> tp_signer t = signer \<and> tp_baseFee t = bf
    \<and> (\<forall>a. queued C t a = (case map_of xs a of None \<Rightarrow> None
                          | Some l \<Rightarrow> if admitted C signer bf (a, l) then Some l else None))"
proof -
  let ?hs = "map (\<lambda>e. projr (NewTxWithMinerFee (hd (snd e)) bf)) (filter (admitted C signer bf) xs)"
  have d: "distinct (map fst xs)" and ne: "\<forall>e \<in> set xs. snd e \<noteq> []" using assms by (auto simp: by_account_def)
  from new_heads_eq [OF ne d, of C signer bf "map_of xs" "[]"] obtain m where
    m: "new_heads C signer bf xs (map_of xs) [] = Some (m, ?hs)"
    and m0: "\<forall>a. m a = (case map_of xs a of None \<Rightarrow> map_of xs a
                        | Some l \<Rightarrow> if admitted C signer bf (a, l) then Some (tl l) else None)" by auto
  have m2: "m a = (case map_of xs a of None \<Rightarrow> None | Some l \<Rightarrow> if admitted C signer bf (a, l) then Some (tl l) else None)" for a
    by (simp add: m0 split: option.splits)
  let ?t = "\<lparr>tp_txs = m, tp_heads = heap_Init TxByPriceAndTime_Less ?hs, tp_signer = signer, tp_baseFee = bf\<rparr>"
  have "map (\<lambda>h. sender_of C signer (wf_tx h)) ?hs = map fst (filter (admitted C signer bf) xs)"
    using admitted_wrap [of C signer bf] by (auto simp: admitted_def)
  then have dh: "distinct (map (\<lambda>h. sender_of C signer (wf_tx h)) ?hs)" using d by (simp only: distinct_map_filter)
  have s: "set (heap_Init TxByPriceAndTime_Less ?hs) = set ?hs" by (rule mset_eq_setD) simp
  have q: "queued C ?t a = (case map_of xs a of None \<Rightarrow> None | Some l \<Rightarrow> if admitted C signer bf (a, l) then Some l else None)" for a
  proof -
    have "find (\<lambda>h. sender_of C signer (wf_tx h) = a) (heap_Init TxByPriceAndTime_Less ?hs) =
        find (\<lambda>h. sender_of C signer (wf_tx h) = a) ?hs" by (rule find_mset [OF dh]) simp
    moreover have "hd l # tl l = l" if "map_of xs a = Some l" for l using map_of_SomeD [OF that] ne by fastforce
    ultimately show ?thesis
      using admitted_wrap [of C signer bf "(a, _)"] unfolding queued_def
      by (auto simp: find_admitted [OF d] m2 split: option.splits)
  qed
  have "tp_inv C ?t"
    unfolding tp_inv_def
  proof (intro conjI)
    show "heap_from TxByPriceAndTime_Less 0 (length (tp_heads ?t)) (tp_heads ?t)"
      using fee.Init_heap [of ?hs] mset_eq_length [OF mset_heap_Init [of TxByPriceAndTime_Less ?hs]] by simp
    show "distinct (map (\<lambda>h. sender_of C (tp_signer ?t) (wf_tx h)) (tp_heads ?t))"
      using distinct_map_mset [OF dh mset_heap_Init] by simp
    show "\<forall>h \<in> set (tp_heads ?t). NewTxWithMinerFee (wf_tx h) (tp_baseFee ?t) = Ok h"
      using admitted_wrap [of C signer bf] by (auto simp: s)
    show "\<forall>a r. tp_txs ?t a = Some r \<longrightarrow> (\<forall>tx \<in> set r. sender_of C (tp_signer ?t) tx = a)"
      using assms by (auto simp: m2 by_account_def split: option.splits if_splits dest!: map_of_SomeD)
  qed
  with q m show ?thesis by (auto simp: NewTransactionsByPriceAndNonce_def)
qed

lemma Peek_best:
  assumes "tp_inv C t" "Peek t = Some tx"
  obtains head hs where "tp_heads t = head # hs" "tx = wf_tx head"
    "\<And>a tx' r. queued C t a = Some (tx' # r) \<Longrightarrow> \<not> before (tp_baseFee t) tx' tx"
proof -
  from assms(2) obtain head hs where h: "tp_heads t = head # hs" "tx = wf_tx head"
    by (auto simp: Peek_def split: list.splits)
  note inv = tp_invD [OF assms(1)]
  have "\<not> before (tp_baseFee t) tx' tx" if "queued C t a = Some (tx' # r)" for a tx' r
  proof -
    from that obtain h' where "find (\<lambda>h. sender_of C (tp_signer t) (wf_tx h) = a) (tp_heads t) = Some h'" "wf_tx h' = tx'"
      by (auto simp: queued_def)
    then have h': "h' \<in> set (tp_heads t)" "wf_tx h' = tx'" by (auto simp: find_Some_iff)
    then obtain i where "i < length (tp_heads t)" "tp_heads t ! i = h'" by (auto simp: in_set_conv_nth)
    then have "\<not> TxByPriceAndTime_Less h' head" using fee.heap_first [OF inv(1), of i] h by auto
    then show ?thesis using Less_before [OF inv(3) [OF h'(1)] inv(3) [of head]] h h'(2) by simp
  qed
  with h that show thesis by blast
qed

lemma Peek_None: "Peek t = None \<longleftrightarrow> queued C t = Map.empty"
  by (auto simp: Peek_def queued_def find_None_iff fun_eq_iff split: list.splits)

inductive tx_step :: "'k crypto \<Rightarrow> TransactionsByPriceAndNonce \<Rightarrow> TransactionsByPriceAndNonce \<Rightarrow> bool" for C where
  "TxShift C t = Some t' \<Longrightarrow> tx_step C t t'"
| "TxPop t = Some t' \<Longrightarrow> tx_step C t t'"

definition tx_start :: "'k crypto \<Rightarrow> TransactionsByPriceAndNonce \<Rightarrow> bool" where
  "tx_start C t \<longleftrightarrow> (\<exists>signer xs bf. by_account C signer xs \<and> NewTransactionsByPriceAndNonce C signer xs bf = Some t)"

lemma tx_step_inv: "tx_step C t t' \<Longrightarrow> tp_inv C t \<Longrightarrow> tp_inv C t' \<and> tp_signer t' = tp_signer t \<and> tp_baseFee t' = tp_baseFee t"
proof (induction rule: tx_step.induct)
  case (1 t t')
  then obtain head hs where "tp_heads t = head # hs" by (auto simp: TxShift_def split: list.splits)
  from TxShift_queued [OF 1(2) this] 1(1) show ?case by auto
next
  case (2 t t')
  then obtain head hs where "tp_heads t = head # hs" by (cases "tp_heads t") (auto simp: TxPop_def heap_Pop_def)
  from TxPop_queued [OF 2(2) this] 2(1) show ?case by auto
qed

interpretation txset: step_invariant "tx_start C" "tx_step C" "tp_inv C" for C :: "'k crypto"
proof
  fix t assume "tx_start C t"
  then obtain signer xs bf where "by_account C signer xs" "NewTransactionsByPriceAndNonce C signer xs bf = Some t"
    by (auto simp: tx_start_def)
  with New_queued [of C signer xs bf] show "tp_inv C t" by auto
qed (use tx_step_inv in blast)

section \<open>Properties\<close>

text \<open>C15: From any set built of per-account lists, after any calls of \<open>Shift\<close> and \<open>Pop\<close>: \<open>Peek\<close> returns nothing
  exactly when no account is queued; otherwise it returns the first transaction of its sender, no queued
  transaction comes before it in fee and time, \<open>Shift\<close> moves exactly that account on to its next payable
  transaction, and \<open>Pop\<close> removes exactly that account.\<close>

theorem TransactionsByPriceAndNonce_order:
  assumes "by_account C signer xs" "NewTransactionsByPriceAndNonce C signer xs bf = Some t0" "(tx_step C)\<^sup>*\<^sup>* t0 t"
  shows "case Peek t of
      None \<Rightarrow> queued C t = Map.empty
    | Some tx \<Rightarrow> (let a = sender_of C (tp_signer t) tx in
        (\<exists>r. queued C t a = Some (tx # r))
        \<and> (\<forall>b tx' r. queued C t b = Some (tx' # r) \<longrightarrow> \<not> before (tp_baseFee t) tx' tx)
        \<and> map_option (queued C) (TxShift C t) = Some (advance (tp_baseFee t) a (queued C t))
        \<and> map_option (queued C) (TxPop t) = Some ((queued C t)(a := None)))"
proof (cases "Peek t")
  case None
  then show ?thesis using Peek_None [of t C] by simp
next
  case (Some tx)
  have inv: "tp_inv C t" using assms txset.reach_inv [of C t0 t] by (auto simp: tx_start_def)
  from Peek_best [OF this Some] obtain head hs where
    h: "tp_heads t = head # hs" "tx = wf_tx head"
      "\<And>a tx' r. queued C t a = Some (tx' # r) \<Longrightarrow> \<not> before (tp_baseFee t) tx' tx" by metis
  show ?thesis
    using TxShift_queued [OF inv h(1)] TxPop_queued [OF inv h(1)] queued_head [OF inv h(1)] h(2,3) Some
    by (auto simp: Let_def)
qed

definition sample_txs :: "(address \<times> Transaction list) list" where
  "sample_txs = [(replicate 20 7, [\<lparr>tr_inner = Legacy sample_legacy, tr_time = 1\<rparr>, \<lparr>tr_inner = Legacy sample_legacy, tr_time = 2\<rparr>])]"

lemma sample_sender: "sender_of sample_crypto FrontierSigner \<lparr>tr_inner = Legacy sample_legacy, tr_time = n\<rparr> = replicate 20 7"
proof -
  have "bigBitLen 27 = 5" by code_simp
  then show ?thesis
    by (simp add: sender_of_def Sender_def frontier_Sender_def recoverPlain_def sample_legacy_def sample_crypto_def
        ValidateSignatureValues_def big_Uint64_def secp256k1N_def Let_def)
qed

theorem TransactionsByPriceAndNonce_order_witness:
  "\<exists>t. NewTransactionsByPriceAndNonce sample_crypto FrontierSigner sample_txs None = Some t
     \<and> map_option (queued sample_crypto) (TxPop t) = Some Map.empty"
proof -
  have ok: "by_account sample_crypto FrontierSigner sample_txs"
    by (simp add: by_account_def sample_txs_def sample_sender)
  from New_queued [OF ok, of None] obtain t where
    t: "NewTransactionsByPriceAndNonce sample_crypto FrontierSigner sample_txs None = Some t" "tp_signer t = FrontierSigner"
      "queued sample_crypto t = [replicate 20 7 \<mapsto> snd (hd sample_txs)]"
    by (auto simp: sample_txs_def admitted_def sample_sender NewTxWithMinerFee_def EffectiveGasTip_def fun_eq_iff)
  have "queued sample_crypto t (replicate 20 7) \<noteq> None" by (simp add: t(3))
  then have "Peek t \<noteq> None" using Peek_None [of t sample_crypto] by auto
  then obtain tx where "Peek t = Some tx" by blast
  with TransactionsByPriceAndNonce_order [OF ok t(1) rtranclp.rtrancl_refl] t show ?thesis
    by (auto simp: Let_def split: if_splits)
qed

end
