(* ===== verification/Consensus_Misc.thy ===== *)
theory Consensus_Misc
  imports Chain_Config Types_Block
begin

text \<open>
  Header rules shared by the consensus engines (\<^verbatim>\<open>consensus/misc\<close>, \<^verbatim>\<open>core/block_validator.go\<close>): the
  block gas limit, the EIP-1559 base fee, the EIP-4844 data gas price and the DAO extra data.  Gas is
  counted in 64-bit words and fees in unbounded integers, as in the code.
\<close>

section \<open>Definitions\<close>

definition GasLimitBoundDivisor :: u64 where
  "GasLimitBoundDivisor = 1024"

definition MinGasLimit :: u64 where
  "MinGasLimit = 5000"

definition InitialBaseFee :: u64 where
  "InitialBaseFee = 1000000000"

definition BaseFeeChangeDenominator :: "ChainConfig \<Rightarrow> u64" where
  "BaseFeeChangeDenominator c = 8"

definition ElasticityMultiplier :: "ChainConfig \<Rightarrow> u64" where
  "ElasticityMultiplier c = 2"

datatype misc_err =
    ErrInvalidGasLimit u64 u64 u64
  | ErrGasLimitBelowMin
  | ErrMissingBaseFee
  | ErrInvalidBaseFee int int
  | ErrBadProDAOExtra
  | ErrBadNoDAOExtra

text \<open>The difference is taken as a signed 64-bit number.\<close>

definition VerifyGaslimit :: "u64 \<Rightarrow> u64 \<Rightarrow> misc_err option" where
  "VerifyGaslimit parentGasLimit headerGasLimit =
     (let diff = parentGasLimit - headerGasLimit;
          diff = (if sint diff < 0 then diff * (-1) else diff);
          limit = parentGasLimit div GasLimitBoundDivisor
      in if diff \<ge> limit then Some (ErrInvalidGasLimit headerGasLimit parentGasLimit (limit - 1))
         else if headerGasLimit < MinGasLimit then Some ErrGasLimitBelowMin
         else None)"

definition CalcGasLimit :: "u64 \<Rightarrow> u64 \<Rightarrow> u64" where
  "CalcGasLimit parentGasLimit desiredLimit =
     (let delta = parentGasLimit div GasLimitBoundDivisor - 1;
          limit = parentGasLimit;
          desiredLimit = (if desiredLimit < MinGasLimit then MinGasLimit else desiredLimit)
      in if limit < desiredLimit then
           (let limit = parentGasLimit + delta in if limit > desiredLimit then desiredLimit else limit)
         else if limit > desiredLimit then
           (let limit = parentGasLimit - delta in if limit < desiredLimit then desiredLimit else limit)
         else limit)"

text \<open>\<open>None\<close> when the code panics: a parent without a base fee, or a gas target of zero.\<close>

definition CalcBaseFee :: "ChainConfig \<Rightarrow> Header \<Rightarrow> int option" where
  "CalcBaseFee config parent =
     (if \<not> IsLondon config (h_Number parent) then Some (uint InitialBaseFee)
      else
        let parentGasTarget = h_GasLimit parent div ElasticityMultiplier config
        in case h_BaseFee parent of None \<Rightarrow> None
           | Some parentBaseFee \<Rightarrow>
               if h_GasUsed parent = parentGasTarget then Some parentBaseFee
               else if parentGasTarget = 0 then None
               else if h_GasUsed parent > parentGasTarget then
                 (let num = uint (h_GasUsed parent - parentGasTarget);
                      num = num * parentBaseFee;
                      num = num div uint parentGasTarget;
                      num = num div uint (BaseFeeChangeDenominator config);
                      baseFeeDelta = max num 1
                  in Some (parentBaseFee + baseFeeDelta))
               else
                 (let num = uint (parentGasTarget - h_GasUsed parent);
                      num = num * parentBaseFee;
                      num = num div uint parentGasTarget;
                      num = num div uint (BaseFeeChangeDenominator config);
                      baseFee = parentBaseFee - num
                  in Some (max baseFee 0)))"

text \<open>The outer option is \<open>None\<close> when \<open>CalcBaseFee\<close> panics.\<close>

definition VerifyEip1559Header :: "ChainConfig \<Rightarrow> Header \<Rightarrow> Header \<Rightarrow> misc_err option option" where
  "VerifyEip1559Header config parent hdr =
     (let parentGasLimit = (if \<not> IsLondon config (h_Number parent)
                            then h_GasLimit parent * ElasticityMultiplier config else h_GasLimit parent)
      in case VerifyGaslimit parentGasLimit (h_GasLimit hdr) of Some err \<Rightarrow> Some (Some err)
         | None \<Rightarrow>
             (case h_BaseFee hdr of None \<Rightarrow> Some (Some ErrMissingBaseFee)
              | Some baseFee \<Rightarrow>
                  (case CalcBaseFee config parent of None \<Rightarrow> None
                   | Some expectedBaseFee \<Rightarrow>
                       Some (if baseFee \<noteq> expectedBaseFee then Some (ErrInvalidBaseFee baseFee expectedBaseFee)
                             else None))))"

subsection \<open>Data gas\<close>

definition BlobTxMinDataGasprice :: int where
  "BlobTxMinDataGasprice = 1"

definition BlobTxDataGaspriceUpdateFraction :: int where
  "BlobTxDataGaspriceUpdateFraction = 2225652"

text \<open>Once the counter exceeds the quotient of numerator and denominator, the terms decrease.\<close>

lemma fake_decreases:
  assumes "0 < accum" "0 < d" "n div d \<le> int i"
  shows "accum * n div d div (1 + int i) < accum"
proof -
  have "n div d * d \<le> int i * d" using assms by (intro mult_right_mono) auto
  moreover have "n mod d < d" using assms(2) by simp
  moreover have "d * (1 + int i) = int i * d + d" by (simp add: algebra_simps)
  ultimately have "n < d * (1 + int i)" using div_mult_mod_eq [of n d] by linarith
  then have less: "accum * n < accum * (d * (1 + int i))" using assms(1) by simp
  have m: "0 < d * (1 + int i)" using assms(2) by simp
  from less div_mult_mod_eq [of "accum * n" "d * (1 + int i)"] pos_mod_sign [OF m, of "accum * n"]
  have "accum * n div (d * (1 + int i)) * (d * (1 + int i)) < accum * (d * (1 + int i))" by linarith
  then have "accum * n div (d * (1 + int i)) < accum" using m by (simp only: mult_less_cancel_right)
  then show ?thesis using assms(2) by (simp add: zdiv_zmult2_eq)
qed

text \<open>The loop of \<open>fakeExponential\<close>: the counter is \<open>Suc i\<close>, then the partial sum and the current term.  The
  only denominator in use is positive; for others, where the code panics or does not end, the loop stops.\<close>

function fake_loop :: "int \<Rightarrow> int \<Rightarrow> nat \<Rightarrow> int \<Rightarrow> int \<Rightarrow> int" where
  "fake_loop numerator denominator i output accum =
     (if accum > 0 \<and> denominator > 0
      then fake_loop numerator denominator (Suc i) (output + accum)
             (accum * numerator div denominator div int (Suc i))
      else output)"
  by auto

termination
  by (relation "measures [\<lambda>(n, d, i, out, accum). nat (n div d + 1 - int i), \<lambda>(n, d, i, out, accum). nat accum]")
     (use fake_decreases in \<open>auto simp: not_less\<close>)

declare fake_loop.simps [simp del]

definition fakeExponential :: "int \<Rightarrow> int \<Rightarrow> int \<Rightarrow> int" where
  "fakeExponential factor numerator denominator =
     fake_loop numerator denominator 0 0 (factor * denominator) div denominator"

definition CalcBlobFee :: "int option \<Rightarrow> int" where
  "CalcBlobFee excessDataGas =
     (case excessDataGas of None \<Rightarrow> BlobTxMinDataGasprice
      | Some excess \<Rightarrow> fakeExponential BlobTxMinDataGasprice excess BlobTxDataGaspriceUpdateFraction)"

subsection \<open>The DAO fork\<close>

definition DAOForkBlockExtra :: bytes where
  "DAOForkBlockExtra = [0x64, 0x61, 0x6f, 0x2d, 0x68, 0x61, 0x72, 0x64, 0x2d, 0x66, 0x6f, 0x72, 0x6b]"

definition DAOForkExtraRange :: int where
  "DAOForkExtraRange = 10"

text \<open>A header without a number panics: the outer \<open>None\<close>.\<close>

definition VerifyDAOHeaderExtraData :: "ChainConfig \<Rightarrow> Header \<Rightarrow> misc_err option option" where
  "VerifyDAOHeaderExtraData config hdr =
     (case DAOForkBlock config of None \<Rightarrow> Some None
      | Some fork \<Rightarrow>
          (case h_Number hdr of None \<Rightarrow> None
           | Some number \<Rightarrow>
               let limit = fork + DAOForkExtraRange
               in if number < fork \<or> number \<ge> limit then Some None
                  else if DAOForkSupport config then
                    Some (if h_Extra hdr \<noteq> DAOForkBlockExtra then Some ErrBadProDAOExtra else None)
                  else Some (if h_Extra hdr = DAOForkBlockExtra then Some ErrBadNoDAOExtra else None)))"

section \<open>Lemmas\<close>

lemma unat_div1024: "unat (p div 1024 :: u64) = unat p div 1024"
  by (simp add: unat_div_distrib)

lemma unat_delta: "5000 \<le> unat p \<Longrightarrow> unat (p div 1024 - 1 :: u64) = unat p div 1024 - 1"
proof -
  assume "5000 \<le> unat p"
  then have "1 \<le> p div 1024" by (simp add: word_le_nat_alt unat_div1024)
  then show ?thesis by (simp add: unat_sub unat_div1024)
qed

lemma unat_u64: "unat (w :: u64) < 2 ^ 64"
  using unsigned_less [of w] by simp

lemma sint_neg_iff: "sint (w :: u64) < 0 \<longleftrightarrow> 2 ^ 63 \<le> unat w"
proof -
  have "unat w div 2 ^ 63 < 2" using unat_u64 [of w] by (simp add: less_mult_imp_div_less)
  then have "odd (unat w div 2 ^ 63) \<longleftrightarrow> 2 ^ 63 \<le> unat w"
    by (cases "unat w < 2 ^ 63") (auto simp: not_less less_2_cases_iff div_eq_0_iff)
  moreover have "sint w < 0 \<longleftrightarrow> bit (unat w) 63" using bit_last_iff [of w] by (simp add: bit_unsigned_iff)
  ultimately show ?thesis by (simp add: bit_iff_odd)
qed

lemma unat_minus: "(w :: u64) \<noteq> 0 \<Longrightarrow> unat (- w) = 2 ^ 64 - unat w"
proof -
  assume "w \<noteq> 0"
  then have "uint w \<noteq> 0" by (simp add: unsigned_eq_0_iff)
  then have "0 < uint w" "uint w < 2 ^ 64" using uint_nonnegative [of w] uint_bounded [of w] by (linarith, simp)
  then have "- uint w mod 2 ^ 64 = 2 ^ 64 - uint w" by (simp add: zmod_zminus1_eq_if)
  then have "uint (- w) = 2 ^ 64 - uint w" by (simp add: uint_word_ariths)
  then have "int (unat (- w)) = 18446744073709551616 - int (unat w)" by simp
  then have "unat (- w) = 18446744073709551616 - unat w" by linarith
  then show ?thesis by simp
qed

lemma unat_abs: "unat (if sint (w :: u64) < 0 then w * (-1) else w) = (if unat w < 2 ^ 63 then unat w else 2 ^ 64 - unat w)"
proof -
  have "w \<noteq> 0" if "2 ^ 63 \<le> unat w" using that by auto
  then show ?thesis by (auto simp: sint_neg_iff unat_minus)
qed

text \<open>The absolute difference as \<open>VerifyGaslimit\<close> computes it.\<close>

lemma abs_diff_word:
  fixes p h :: u64
  defines "d \<equiv> if unat h \<le> unat p then unat p - unat h else unat h - unat p"
  shows "unat (if sint (p - h) < 0 then (p - h) * (-1) else p - h) = (if d < 2 ^ 63 then d else 2 ^ 64 - d)"
proof (cases "unat h \<le> unat p")
  case True
  then have "unat (p - h) = d" by (simp add: d_def unat_sub word_le_nat_alt)
  then show ?thesis by (simp only: unat_abs)
next
  case False
  have d: "unat (h - p) = d" "h - p \<noteq> 0" using False by (auto simp: d_def unat_sub word_le_nat_alt)
  then have "unat (p - h) = 2 ^ 64 - d" using unat_minus [OF d(2)] by simp
  moreover have "d \<noteq> 0" "d < 2 ^ 64" using False unat_u64 [of h] by (auto simp: d_def)
  ultimately show ?thesis unfolding unat_abs by auto
qed

text \<open>Below \<open>2 ^ 63\<close> the check is the bound of the protocol: a change by less than a 1024th part.\<close>

lemma VerifyGaslimit_iff:
  fixes p h :: u64
  assumes "unat p < 2 ^ 63" "unat h < 2 ^ 63"
  shows "VerifyGaslimit p h = None \<longleftrightarrow>
    unat h < unat p + unat p div 1024 \<and> unat p < unat h + unat p div 1024 \<and> 5000 \<le> unat h"
proof -
  have "VerifyGaslimit p h = None \<longleftrightarrow> unat (if sint (p - h) < 0 then (p - h) * (-1) else p - h) < unat p div 1024 \<and> 5000 \<le> unat h"
    by (simp add: VerifyGaslimit_def Let_def GasLimitBoundDivisor_def MinGasLimit_def word_le_nat_alt word_less_nat_alt
        unat_div1024 not_le not_less if_distrib)
  also have "\<dots> \<longleftrightarrow> unat h < unat p + unat p div 1024 \<and> unat p < unat h + unat p div 1024 \<and> 5000 \<le> unat h"
    unfolding abs_diff_word using assms by auto
  finally show ?thesis .
qed

lemma unat_add_small: "unat (a :: u64) + unat b < 2 ^ 64 \<Longrightarrow> unat (a + b) = unat a + unat b"
  by (simp add: unat_word_ariths)

lemma CalcGasLimit_value:
  fixes p d :: u64
  assumes "5000 \<le> unat p" "unat p < 2 ^ 62"
  defines "t \<equiv> max 5000 (unat d)"
  shows "unat (CalcGasLimit p d) =
    (if unat p < t then min t (unat p + (unat p div 1024 - 1)) else max t (unat p - (unat p div 1024 - 1)))"
proof -
  let ?d = "p div 1024 - 1"
  define e where "e = unat p div 1024 - 1"
  have e: "e \<le> unat p" by (simp add: e_def)
  have d: "unat ?d = e" using unat_delta [OF assms(1)] by (simp only: e_def)
  have "unat p + e < 2 ^ 64" using assms(2) e by simp
  then have plus: "unat (p + ?d) = unat p + e" using unat_add_small [of p ?d] d by simp
  have "?d \<le> p" by (simp add: word_le_nat_alt d e)
  then have minus: "unat (p - ?d) = unat p - e" using unat_sub [of ?d p] d by simp
  show ?thesis
    unfolding CalcGasLimit_def Let_def GasLimitBoundDivisor_def MinGasLimit_def t_def word_less_nat_alt plus minus
      e_def [symmetric]
    using assms(1) plus minus by auto
qed

text \<open>The fee step, as a fraction of the fee.\<close>

lemma CalcGasLimit_verified:
  assumes "5000 \<le> unat p" "unat p < 2 ^ 62"
  shows "VerifyGaslimit p (CalcGasLimit p d) = None"
proof -
  note v = CalcGasLimit_value [OF assms, of d]
  have "unat p div 1024 \<noteq> 0" using assms(1) by simp
  then obtain e where e: "unat p div 1024 = Suc e" using not0_implies_Suc by blast
  moreover have "unat p div 1024 \<le> unat p" by simp
  ultimately have b: "unat (CalcGasLimit p d) < unat p + unat p div 1024" "unat p < unat (CalcGasLimit p d) + unat p div 1024"
    "5000 \<le> unat (CalcGasLimit p d)" using assms(1) unfolding v e by auto
  then have "unat (CalcGasLimit p d) < 2 ^ 63" using assms(2) by simp
  then show ?thesis using assms(2) b by (simp add: VerifyGaslimit_iff)
qed

lemma fee_step:
  fixes f x t :: int
  assumes "0 \<le> f" "0 \<le> x" "0 < t"
  shows "0 \<le> x * f div t div 8" "x \<le> t \<Longrightarrow> x * f div t div 8 \<le> f div 8"
proof -
  show "0 \<le> x * f div t div 8" using assms by (simp add: pos_imp_zdiv_nonneg_iff)
  assume "x \<le> t"
  then have "x * f \<le> t * f" using assms by (simp add: mult_right_mono)
  then have "x * f div t \<le> t * f div t" using assms(3) by (rule zdiv_mono1)
  then show "x * f div t div 8 \<le> f div 8" using assms(3) by (intro zdiv_mono1) simp_all
qed

section \<open>Properties\<close>

text \<open>C36: The gas limit a miner computes for the next block moves from the parent's limit towards the desired
  one, never below 5000, reaching it when it is less than a 1024th part away, and is accepted by the check
  that every other node runs on it.\<close>

theorem CalcGasLimit_accepted:
  assumes "5000 \<le> unat p" "unat p < 2 ^ 62"
  shows "VerifyGaslimit p (CalcGasLimit p d) = None
    \<and> unat (CalcGasLimit p d) =
        (if unat p < max 5000 (unat d) then min (max 5000 (unat d)) (unat p + (unat p div 1024 - 1))
         else max (max 5000 (unat d)) (unat p - (unat p div 1024 - 1)))"
  using CalcGasLimit_verified [OF assms] CalcGasLimit_value [OF assms] by blast

theorem CalcGasLimit_accepted_witness:
  "VerifyGaslimit 8000000 (CalcGasLimit 8000000 30000000) = None \<and> unat (CalcGasLimit 8000000 30000000) = 8007811"
  using CalcGasLimit_accepted [of 8000000 30000000] by simp

text \<open>C37: After London, with a positive gas target the base fee of the next block is defined and never negative;
  it stays when the parent used exactly the target, rises by at least one above it and, as long as no more
  than twice the target was used, by at most an eighth or one, and below it falls by at most an eighth.\<close>

theorem CalcBaseFee_bounds:
  assumes "IsLondon config (h_Number parent)" "h_BaseFee parent = Some f" "0 \<le> f" "2 \<le> unat (h_GasLimit parent)"
  defines "target \<equiv> unat (h_GasLimit parent) div 2" and "used \<equiv> unat (h_GasUsed parent)"
  shows "\<exists>f'. CalcBaseFee config parent = Some f' \<and> 0 \<le> f'
    \<and> (used = target \<longrightarrow> f' = f) \<and> (used > target \<longrightarrow> f < f') \<and> (used < target \<longrightarrow> f - f div 8 \<le> f' \<and> f' \<le> f)
    \<and> (used \<le> 2 * target \<longrightarrow> f' \<le> f + max 1 (f div 8))"
proof -
  let ?t = "h_GasLimit parent div 2" and ?u = "h_GasUsed parent"
  have t: "unat ?t = target" by (simp add: target_def unat_div_distrib)
  have tpos: "0 < target" using assms(4) by (simp add: target_def)
  then have t0: "?t \<noteq> 0" using t by auto
  have ut: "uint ?t = int target" unfolding t [symmetric] by simp
  consider "used = target" | "used > target" | "used < target" by linarith
  then show ?thesis
  proof cases
    case 1
    then have "?u = ?t" using t by (simp add: used_def word_unat_eq_iff)
    then show ?thesis using assms(1-3) 1 by (simp add: CalcBaseFee_def ElasticityMultiplier_def)
  next
    case 2
    let ?n = "uint (?u - ?t) * f div int target div 8"
    have u: "?t < ?u" "?u \<noteq> ?t" using 2 t by (auto simp: used_def word_less_nat_alt)
    then have "int (unat (?u - ?t)) = int used - int target" using 2 t by (simp add: unat_sub used_def less_imp_le of_nat_diff)
    then have x: "uint (?u - ?t) = int used - int target" by simp
    have "CalcBaseFee config parent = Some (f + max ?n 1)"
      using assms(1,2) u t0 ut by (simp add: CalcBaseFee_def ElasticityMultiplier_def BaseFeeChangeDenominator_def)
    moreover have "?n \<le> f div 8" if "used \<le> 2 * target" using fee_step(2) [of f "uint (?u - ?t)" "int target"] assms(3) tpos that x 2 by simp
    ultimately show ?thesis using 2 assms(3) by auto
  next
    case 3
    let ?n = "uint (?t - ?u) * f div int target div 8"
    have u: "\<not> ?t < ?u" "?u \<noteq> ?t" "?u \<le> ?t" using 3 t by (auto simp: used_def word_less_nat_alt word_le_nat_alt)
    then have "int (unat (?t - ?u)) = int target - int used" using 3 t by (simp add: unat_sub used_def of_nat_diff)
    then have x: "uint (?t - ?u) = int target - int used" by simp
    have "CalcBaseFee config parent = Some (max (f - ?n) 0)"
      using assms(1,2) u t0 ut by (simp add: CalcBaseFee_def ElasticityMultiplier_def BaseFeeChangeDenominator_def)
    moreover have "0 \<le> ?n" "?n \<le> f div 8" using fee_step [of f "uint (?t - ?u)" "int target"] assms(3) tpos x 3 by simp_all
    ultimately show ?thesis using 3 assms(3) by auto
  qed
qed

definition london_parent :: Header where
  "london_parent = zero_header\<lparr>h_Number := Some 7, h_GasLimit := 16, h_GasUsed := 16, h_BaseFee := Some 1000\<rparr>"

theorem CalcBaseFee_bounds_witness:
  "\<exists>f'. CalcBaseFee (london_config 5) london_parent = Some f' \<and> 1000 < f' \<and> f' \<le> 1125"
proof -
  have "IsLondon (london_config 5) (h_Number london_parent)" "h_BaseFee london_parent = Some 1000"
    "2 \<le> unat (h_GasLimit london_parent)"
    by (simp_all add: london_parent_def IsLondon_def isBlockForked_def config_eval)
  from CalcBaseFee_bounds [OF this(1,2) _ this(3)] show ?thesis by (auto simp: london_parent_def)
qed

text \<open>The data gas price starts at its minimum and never falls below it.\<close>

lemma fake_loop_ge: "out \<le> fake_loop n d i out accum"
  by (induction n d i out accum rule: fake_loop.induct) (subst fake_loop.simps, auto)

lemma CalcBlobFee_ge: "1 \<le> CalcBlobFee e"
proof (cases e)
  case (Some x)
  have "2225652 \<le> fake_loop x 2225652 0 0 2225652"
    by (subst fake_loop.simps) (use fake_loop_ge [of 2225652] in simp)
  then have "1 \<le> fake_loop x 2225652 0 0 2225652 div 2225652" by simp
  then show ?thesis
    by (simp add: Some CalcBlobFee_def fakeExponential_def BlobTxMinDataGasprice_def BlobTxDataGaspriceUpdateFraction_def)
qed (simp add: CalcBlobFee_def BlobTxMinDataGasprice_def)

end
