(* ===== verification/Miner_Worker.thy ===== *)
theory Miner_Worker
  imports State_Processor Tx_Order Consensus_Misc "HOL-Library.Sublist"
begin

text \<open>
  Building a block (\<^verbatim>\<open>miner/worker.go\<close>): the sealing environment, committing uncles and transactions, filling a block from
  the pool in the order of fees, preparing the header and generating the block.  The chain, the pool and the
  consensus engine are arguments.
\<close>

section \<open>Definitions\<close>

subsection \<open>The environment\<close>

text \<open>The uncles are a map; the list is in the order its iteration takes.\<close>

record ('t, 'e) environment =
  ev_signer :: Signer
  ev_state :: "('t, 'e) StateDB"
  ev_ancestors :: "hash set"
  ev_family :: "hash set"
  ev_tcount :: nat
  ev_gasPool :: "u64 option"
  ev_coinbase :: address
  ev_header :: Header
  ev_txs :: "TxData list"
  ev_receipts :: "Receipt list"
  ev_uncles :: "(hash \<times> Header) list"

text \<open>What the worker uses of the chain, the engine, the pool and its own configuration.\<close>

record ('t, 'e) worker =
  wk_chain :: "('t, 'e) chain"
  wk_chainConfig :: ChainConfig
  wk_GasCeil :: u64
  wk_extra :: bytes
  wk_CurrentBlock :: Header
  wk_GetBlockByHash :: "hash \<Rightarrow> Block option"
  wk_GetBlocksFromHash :: "hash \<Rightarrow> nat \<Rightarrow> Block list"
  wk_GetTd :: "hash \<Rightarrow> u64 \<Rightarrow> int option"
  wk_StateAt :: "hash \<Rightarrow> string + ('t, 'e) StateDB"
  wk_Prepare :: "Header \<Rightarrow> string + Header"
  wk_FinalizeAndAssemble :: "Header \<Rightarrow> ('t, 'e) StateDB \<Rightarrow> TxData list \<Rightarrow> Header list \<Rightarrow> Receipt list \<Rightarrow> Withdrawal list option \<Rightarrow> string + Block"
  wk_Pending :: "(address \<times> Transaction list) list"
  wk_Locals :: "address list"
  wk_localUncles :: "(hash \<times> Block) list"
  wk_remoteUncles :: "(hash \<times> Block) list"

definition unclelist :: "('t, 'e) environment \<Rightarrow> Header list" where
  "unclelist env = map snd (ev_uncles env)"

datatype work_err =
    ErrBlockInterruptedByNewHead | ErrBlockInterruptedByRecommit | ErrBlockInterruptedByTimeout
  | ErrMissingParent | ErrInvalidTimestamp u64 u64 | ErrEngine string | ErrState string

text \<open>\<open>None\<close>: an undefined signal panics.\<close>

definition signalToErr :: "int \<Rightarrow> work_err option" where
  "signalToErr s =
     (if s = 1 then Some ErrBlockInterruptedByNewHead else if s = 2 then Some ErrBlockInterruptedByRecommit
      else if s = 3 then Some ErrBlockInterruptedByTimeout else None)"

subsection \<open>Uncles\<close>

text \<open>\<open>None\<close>: the header has no number.\<close>

definition isTTDReached :: "('t, 'e) worker \<Rightarrow> Header \<Rightarrow> bool option" where
  "isTTDReached w hdr =
     map_option (\<lambda>number.
       case (wk_GetTd w (h_ParentHash hdr) (big_Uint64 number - 1), TerminalTotalDifficulty (wk_chainConfig w)) of
         (Some td, Some ttd) \<Rightarrow> td \<ge> ttd | _ \<Rightarrow> False) (h_Number hdr)"

datatype uncle_err = ErrBeaconBlock | ErrUncleNotUnique | ErrUncleSibling | ErrUncleParentUnknown | ErrUncleIncluded

definition commitUncle :: "'k crypto \<Rightarrow> ('t, 'e) worker \<Rightarrow> ('t, 'e) environment \<Rightarrow> Header \<Rightarrow> (uncle_err + ('t, 'e) environment) option" where
  "commitUncle C w env uncle =
     map_option (\<lambda>ttd.
       let h = Header_Hash C uncle
       in if ttd then Err ErrBeaconBlock
          else if h \<in> fst ` set (ev_uncles env) then Err ErrUncleNotUnique
          else if h_ParentHash (ev_header env) = h_ParentHash uncle then Err ErrUncleSibling
          else if h_ParentHash uncle \<notin> ev_ancestors env then Err ErrUncleParentUnknown
          else if h \<in> ev_family env then Err ErrUncleIncluded
          else Ok (env\<lparr>ev_uncles := ev_uncles env @ [(h, uncle)]\<rparr>)) (isTTDReached w (ev_header env))"

fun commitUncles :: "'k crypto \<Rightarrow> ('t, 'e) worker \<Rightarrow> (hash \<times> Block) list \<Rightarrow> ('t, 'e) environment \<Rightarrow> ('t, 'e) environment option" where
  "commitUncles C w [] env = Some env"
| "commitUncles C w ((h, uncle) # blocks) env =
     (if length (ev_uncles env) = 2 then Some env
      else case commitUncle C w env (Block_Header uncle) of None \<Rightarrow> None
           | Some (Err _) \<Rightarrow> commitUncles C w blocks env
           | Some (Ok env) \<Rightarrow> commitUncles C w blocks env)"

subsection \<open>Transactions\<close>

text \<open>A failed transaction leaves the state and the gas pool as they were; \<open>None\<close> where the code panics.\<close>

definition commitTransaction :: "'k crypto \<Rightarrow> blobCodec \<Rightarrow> ('t, 'e) backend \<Rightarrow> ('t, 'e) worker \<Rightarrow> ('t, 'e) environment \<Rightarrow> TxData \<Rightarrow>
    (('t, 'e) environment \<times> (apply_err + Log list)) option" where
  "commitTransaction C bc B w env tx =
     (case ev_gasPool env of None \<Rightarrow> None
      | Some gp \<Rightarrow>
          (case Snapshot (ev_state env) of (s, snap) \<Rightarrow>
             case ApplyTransaction C bc B (wk_chain w) (wk_chainConfig w) (Some (ev_coinbase env)) gp s (ev_header env) tx (h_GasUsed (ev_header env)) of
               None \<Rightarrow> None
             | Some (s, _, _, Err e) \<Rightarrow>
                 map_option (\<lambda>s. (env\<lparr>ev_state := s, ev_gasPool := Some gp\<rparr>, Err e)) (RevertToSnapshot B snap s)
             | Some (s, gp', usedGas, Ok receipt) \<Rightarrow>
                 Some (env\<lparr>ev_state := s, ev_gasPool := Some gp', ev_header := (ev_header env)\<lparr>h_GasUsed := usedGas\<rparr>,
                           ev_txs := ev_txs env @ [tx], ev_receipts := ev_receipts env @ [receipt]\<rparr>, Ok (rc_Logs receipt))))"

text \<open>The loop of \<open>commitTransactions\<close>.  \<open>sig i\<close> is what the \<open>i\<close>-th load of the interrupt flag gives, which other goroutines set; it is
  always zero when there is no flag.  The loop stops on an interrupt, with too little gas, or with no transaction left.\<close>

partial_function (option) commit_loop :: "'k crypto \<Rightarrow> blobCodec \<Rightarrow> ('t, 'e) backend \<Rightarrow> ('t, 'e) worker \<Rightarrow> (nat \<Rightarrow> int) \<Rightarrow> nat \<Rightarrow>
    ('t, 'e) environment \<Rightarrow> TransactionsByPriceAndNonce \<Rightarrow> Log list \<Rightarrow>
    (('t, 'e) environment \<times> TransactionsByPriceAndNonce \<times> Log list \<times> work_err option) option" where
  [code]: "commit_loop C bc B w sig i env txs coalescedLogs =
     (if sig i \<noteq> 0 then map_option (\<lambda>e. (env, txs, coalescedLogs, Some e)) (signalToErr (sig i))
      else case ev_gasPool env of None \<Rightarrow> None
      | Some gp \<Rightarrow>
          if gp < TxGas then Some (env, txs, coalescedLogs, None)
          else case Peek txs of None \<Rightarrow> Some (env, txs, coalescedLogs, None)
          | Some tx \<Rightarrow>
              if Protected (tr_inner tx) \<and> \<not> IsEIP155 (wk_chainConfig w) (h_Number (ev_header env)) then
                (case TxPop txs of None \<Rightarrow> None | Some txs \<Rightarrow> commit_loop C bc B w sig (i + 1) env txs coalescedLogs)
              else
                (case commitTransaction C bc B w (env\<lparr>ev_state := SetTxContext (tx_Hash C bc (tr_inner tx)) (int (ev_tcount env)) (ev_state env)\<rparr>) (tr_inner tx) of
                   None \<Rightarrow> None
                 | Some (env, Err e) \<Rightarrow>
                     (case (if e = ErrCore ErrNonceTooLow then TxShift C txs else TxPop txs) of None \<Rightarrow> None
                      | Some txs \<Rightarrow> commit_loop C bc B w sig (i + 1) env txs coalescedLogs)
                 | Some (env, Ok logs) \<Rightarrow>
                     (case TxShift C txs of None \<Rightarrow> None
                      | Some txs \<Rightarrow> commit_loop C bc B w sig (i + 1) (env\<lparr>ev_tcount := ev_tcount env + 1\<rparr>) txs (coalescedLogs @ logs))))"

text \<open>The result: the environment and the interrupt; the logs only feed a subscription.\<close>

definition commitTransactions :: "'k crypto \<Rightarrow> blobCodec \<Rightarrow> ('t, 'e) backend \<Rightarrow> ('t, 'e) worker \<Rightarrow> (nat \<Rightarrow> int) \<Rightarrow> ('t, 'e) environment \<Rightarrow>
    TransactionsByPriceAndNonce \<Rightarrow> (('t, 'e) environment \<times> TransactionsByPriceAndNonce \<times> Log list \<times> work_err option) option" where
  "commitTransactions C bc B w sig env txs =
     (case (case ev_gasPool env of None \<Rightarrow> AddGas (h_GasLimit (ev_header env)) 0 | Some gp \<Rightarrow> Some gp) of None \<Rightarrow> None
      | Some gp \<Rightarrow> commit_loop C bc B w sig 0 (env\<lparr>ev_gasPool := Some gp\<rparr>) txs [])"

text \<open>The pending transactions, split into those of local accounts and the others; \<open>sig1\<close> and \<open>sig2\<close> are the loads of the flag by the two loops.\<close>

definition local_txs :: "('t, 'e) worker \<Rightarrow> (address \<times> Transaction list) list" where
  "local_txs w = filter (\<lambda>(a, txs). a \<in> set (wk_Locals w) \<and> length txs > 0) (wk_Pending w)"

definition remote_txs :: "('t, 'e) worker \<Rightarrow> (address \<times> Transaction list) list" where
  "remote_txs w = filter (\<lambda>(a, txs). \<not> (a \<in> set (wk_Locals w) \<and> length txs > 0)) (wk_Pending w)"

definition fill_from :: "'k crypto \<Rightarrow> blobCodec \<Rightarrow> ('t, 'e) backend \<Rightarrow> ('t, 'e) worker \<Rightarrow> (nat \<Rightarrow> int) \<Rightarrow> (address \<times> Transaction list) list \<Rightarrow>
    ('t, 'e) environment \<Rightarrow> (('t, 'e) environment \<times> work_err option) option" where
  "fill_from C bc B w sig pending env =
     (if length pending > 0 then
        (case NewTransactionsByPriceAndNonce C (ev_signer env) pending (h_BaseFee (ev_header env)) of None \<Rightarrow> None
         | Some txs \<Rightarrow> map_option (\<lambda>(env, _, _, err). (env, err)) (commitTransactions C bc B w sig env txs))
      else Some (env, None))"

definition fillTransactions :: "'k crypto \<Rightarrow> blobCodec \<Rightarrow> ('t, 'e) backend \<Rightarrow> ('t, 'e) worker \<Rightarrow> (nat \<Rightarrow> int) \<Rightarrow> (nat \<Rightarrow> int) \<Rightarrow>
    ('t, 'e) environment \<Rightarrow> (('t, 'e) environment \<times> work_err option) option" where
  "fillTransactions C bc B w sig1 sig2 env =
     (case fill_from C bc B w sig1 (local_txs w) env of None \<Rightarrow> None
      | Some (env, Some e) \<Rightarrow> Some (env, Some e)
      | Some (env, None) \<Rightarrow> fill_from C bc B w sig2 (remote_txs w) env)"

subsection \<open>Preparing and generating work\<close>

record generateParams =
  gp_timestamp :: u64
  gp_forceTime :: bool
  gp_parentHash :: hash
  gp_coinbase :: address
  gp_random :: hash
  gp_withdrawals :: "Withdrawal list option"
  gp_noUncle :: bool
  gp_noTxs :: bool

definition makeEnv :: "'k crypto \<Rightarrow> ('t, 'e) worker \<Rightarrow> Header \<Rightarrow> Header \<Rightarrow> address \<Rightarrow> work_err + ('t, 'e) environment" where
  "makeEnv C w parent hdr coinbase =
     (case wk_StateAt w (h_Root parent) of Err e \<Rightarrow> Err (ErrState e)
      | Ok s \<Rightarrow>
          let blocks = wk_GetBlocksFromHash w (Header_Hash C parent) 7;
              ancestors = (\<lambda>b. Header_Hash C (b_header b)) ` set blocks;
              uncles = Header_Hash C ` (\<Union>b \<in> set blocks. set (b_uncles b))
          in Ok \<lparr>ev_signer = MakeSigner (wk_chainConfig w) (h_Number hdr) (h_Time hdr), ev_state = s, ev_ancestors = ancestors,
                 ev_family = ancestors \<union> uncles, ev_tcount = 0, ev_gasPool = None, ev_coinbase = coinbase, ev_header = hdr,
                 ev_txs = [], ev_receipts = [], ev_uncles = []\<rparr>)"

definition empty_header :: Header where
  "empty_header = \<lparr>h_ParentHash = zero_hash, h_UncleHash = zero_hash, h_Coinbase = zero_address, h_Root = zero_hash, h_TxHash = zero_hash,
     h_ReceiptHash = zero_hash, h_Bloom = replicate 256 0, h_Difficulty = None, h_Number = None, h_GasLimit = 0, h_GasUsed = 0, h_Time = 0, h_Extra = [],
     h_MixDigest = zero_hash, h_Nonce = replicate 8 0, h_BaseFee = None, h_WithdrawalsHash = None, h_ExcessDataGas = None\<rparr>"

text \<open>The header of the next block before the engine prepares it; \<open>None\<close> where the code panics.\<close>

definition work_header :: "'k crypto \<Rightarrow> ('t, 'e) worker \<Rightarrow> generateParams \<Rightarrow> Header \<Rightarrow> u64 \<Rightarrow> Header option" where
  "work_header C w params parent timestamp =
     (case h_Number parent of None \<Rightarrow> None
      | Some number \<Rightarrow>
          let config = wk_chainConfig w;
              hdr = empty_header\<lparr>h_ParentHash := Header_Hash C parent, h_Number := Some (number + 1),
                      h_GasLimit := CalcGasLimit (h_GasLimit parent) (wk_GasCeil w), h_Time := timestamp, h_Coinbase := gp_coinbase params\<rparr>;
              hdr = (if length (wk_extra w) \<noteq> 0 then hdr\<lparr>h_Extra := wk_extra w\<rparr> else hdr);
              hdr = (if gp_random params \<noteq> zero_hash then hdr\<lparr>h_MixDigest := gp_random params\<rparr> else hdr)
          in if IsLondon config (Some (number + 1)) then
               (case CalcBaseFee config parent of None \<Rightarrow> None
                | Some fee \<Rightarrow>
                    let hdr = hdr\<lparr>h_BaseFee := Some fee\<rparr>
                    in Some (if \<not> IsLondon config (h_Number parent)
                             then hdr\<lparr>h_GasLimit := CalcGasLimit (h_GasLimit parent * ElasticityMultiplier config) (wk_GasCeil w)\<rparr> else hdr))
             else Some hdr)"

definition prepareWork :: "'k crypto \<Rightarrow> ('t, 'e) worker \<Rightarrow> generateParams \<Rightarrow> (work_err + ('t, 'e) environment) option" where
  "prepareWork C w params =
     (case (if gp_parentHash params \<noteq> zero_hash then map_option Block_Header (wk_GetBlockByHash w (gp_parentHash params)) else Some (wk_CurrentBlock w)) of
        None \<Rightarrow> Some (Err ErrMissingParent)
      | Some parent \<Rightarrow>
          if h_Time parent \<ge> gp_timestamp params \<and> gp_forceTime params then Some (Err (ErrInvalidTimestamp (h_Time parent) (gp_timestamp params)))
          else
            let timestamp = (if h_Time parent \<ge> gp_timestamp params then h_Time parent + 1 else gp_timestamp params)
            in case work_header C w params parent timestamp of None \<Rightarrow> None
               | Some hdr \<Rightarrow>
                   (case wk_Prepare w hdr of Err e \<Rightarrow> Some (Err (ErrEngine e))
                    | Ok hdr \<Rightarrow>
                        (case makeEnv C w parent hdr (gp_coinbase params) of Err e \<Rightarrow> Some (Err e)
                         | Ok env \<Rightarrow>
                             if gp_noUncle params then Some (Ok env)
                             else (case commitUncles C w (wk_localUncles w) env of None \<Rightarrow> None
                                   | Some env \<Rightarrow> map_option Ok (commitUncles C w (wk_remoteUncles w) env)))))"

text \<open>\<open>None\<close>: a transaction without a receipt panics.\<close>

definition totalFees :: "Block \<Rightarrow> Receipt list \<Rightarrow> int option" where
  "totalFees block receipts =
     (if length (b_transactions block) > length receipts then None
      else Some (\<Sum>(tx, r)\<leftarrow>zip (b_transactions block) receipts. uint (rc_GasUsed r) * fst (EffectiveGasTip tx (h_BaseFee (b_header block)))))"

definition generateWork :: "'k crypto \<Rightarrow> blobCodec \<Rightarrow> ('t, 'e) backend \<Rightarrow> ('t, 'e) worker \<Rightarrow> (nat \<Rightarrow> int) \<Rightarrow> (nat \<Rightarrow> int) \<Rightarrow> generateParams \<Rightarrow>
    (work_err + (Block \<times> int)) option" where
  "generateWork C bc B w sig1 sig2 params =
     (case prepareWork C w params of None \<Rightarrow> None
      | Some (Err e) \<Rightarrow> Some (Err e)
      | Some (Ok work) \<Rightarrow>
          (case (if gp_noTxs params then Some (work, None) else fillTransactions C bc B w sig1 sig2 work) of None \<Rightarrow> None
           | Some (work, _) \<Rightarrow>
               (case wk_FinalizeAndAssemble w (ev_header work) (ev_state work) (ev_txs work) (unclelist work) (ev_receipts work) (gp_withdrawals params) of
                  Err e \<Rightarrow> Some (Err (ErrEngine e))
                | Ok block \<Rightarrow> map_option (\<lambda>fees. Ok (block, fees)) (totalFees block (ev_receipts work)))))"

section \<open>Lemmas\<close>

subsection \<open>One transaction\<close>

text \<open>What holds of an environment with a gas pool: the pool and the gas used add up to the limit and the receipts account for the gas.\<close>

definition env_ok :: "'k crypto \<Rightarrow> blobCodec \<Rightarrow> ('t, 'e) backend \<Rightarrow> ('t, 'e) environment \<Rightarrow> u64 \<Rightarrow> bool" where
  "env_ok C bc B env gp \<longleftrightarrow> sound B (ev_state env) \<and> ev_gasPool env = Some gp
     \<and> unat gp + unat (h_GasUsed (ev_header env)) = unat (h_GasLimit (ev_header env))
     \<and> accounted (ev_receipts env) (h_GasUsed (ev_header env)) \<and> list_all2 (receipt_of C bc) (ev_txs env) (ev_receipts env)
     \<and> h_Number (ev_header env) \<noteq> None \<and> h_Difficulty (ev_header env) \<noteq> None \<and> h_BaseFee (ev_header env) \<noteq> None"

lemma ApplyTransaction_cases:
  assumes "backend_ok B" "processor_ok B ch" "sound B s" "h_Number hdr \<noteq> None" "h_Difficulty hdr \<noteq> None" "h_BaseFee hdr \<noteq> None"
  obtains (failed) s' gp' e where "ApplyTransaction C bc B ch config author gp s hdr tx used = Some (s', gp', used, Err e)" "frame_run B s s'"
    | (applied) s' gp' r where "ApplyTransaction C bc B ch config author gp s hdr tx used = Some (s', gp', used + rc_GasUsed r, Ok r)"
      "sound B s'" "unat gp' + unat (rc_GasUsed r) = unat gp" "rc_CumulativeGasUsed r = used + rc_GasUsed r" "receipt_of C bc tx r"
proof (cases "TransactionToMessage C tx (MakeSigner config (h_Number hdr) (h_Time hdr)) (h_BaseFee hdr)")
  case (Inl e)
  then show thesis using failed [of s gp "ErrMessage e"] by (simp add: ApplyTransaction_def frame_run.stop)
next
  case (Inr msg)
  note m = TransactionToMessage_fields [OF Inr]
  from assms(4,5) obtain ctx where c: "NewEVMBlockContext ch hdr author = Some ctx" "bc_BaseFee ctx = h_BaseFee hdr"
    by (auto simp: NewEVMBlockContext_def Let_def)
  let ?evm = "NewEVM ch ctx \<lparr>tc_Origin = zero_address, tc_GasPrice = 0\<rparr> config"
  have e: "bc_BaseFee (e_Context ?evm) \<noteq> None" "\<not> e_NoBaseFee ?evm" using c(2) assms(2,6) by (simp_all add: NewEVM_def processor_ok_def)
  from assms(1-3) conjunct1 [OF m] e conjunct2 [OF m] show thesis
  proof (cases rule: applyTransaction_cases [where C = C and bc = bc and config = config and gp = gp and number = "bc_BlockNumber ctx"
        and hash = "Header_Hash C hdr" and used = used])
    case (failed s' gp' e)
    then show thesis using that(1) [of s' gp' "ErrCore e"] Inr c(1) by (simp add: ApplyTransaction_def)
  next
    case (applied s' gp' r)
    then show thesis using that(2) [of s' gp' r] Inr c(1) by (simp add: ApplyTransaction_def)
  qed
qed

lemma commitTransaction_cases:
  assumes "backend_ok B" "processor_ok B (wk_chain w)" "env_ok C bc B env gp"
  obtains (failed) s' e where "commitTransaction C bc B w env tx = Some (env\<lparr>ev_state := s'\<rparr>, Err e)" "sound B s'" "obs B s' = obs B (ev_state env)"
    | (committed) s' gp' r where "commitTransaction C bc B w env tx =
        Some (env\<lparr>ev_state := s', ev_gasPool := Some gp', ev_header := (ev_header env)\<lparr>h_GasUsed := h_GasUsed (ev_header env) + rc_GasUsed r\<rparr>,
          ev_txs := ev_txs env @ [tx], ev_receipts := ev_receipts env @ [r]\<rparr>, Ok (rc_Logs r))"
      "env_ok C bc B (env\<lparr>ev_state := s', ev_gasPool := Some gp', ev_header := (ev_header env)\<lparr>h_GasUsed := h_GasUsed (ev_header env) + rc_GasUsed r\<rparr>,
          ev_txs := ev_txs env @ [tx], ev_receipts := ev_receipts env @ [r]\<rparr>) gp'"
      "unat gp' + unat (rc_GasUsed r) = unat gp"
proof -
  note ok = assms(3) [unfolded env_ok_def]
  let ?s = "fst (Snapshot (ev_state env))" and ?snap = "snd (Snapshot (ev_state env))" and ?used = "h_GasUsed (ev_header env)"
  have k: "sound B (ev_state env)" using ok by simp
  have ks: "sound B ?s" by (rule frame_sound [OF frame_run.snapshot [OF frame_run.stop] assms(1) k])
  have h: "h_Number (ev_header env) \<noteq> None" "h_Difficulty (ev_header env) \<noteq> None" "h_BaseFee (ev_header env) \<noteq> None" using ok by simp_all
  from assms(1,2) ks h show thesis
  proof (cases rule: ApplyTransaction_cases [where hdr = "ev_header env" and C = C and bc = bc and config = "wk_chainConfig w"
        and author = "Some (ev_coinbase env)" and gp = gp and tx = tx and used = ?used])
    case (failed s' gp' e)
    have "kept B ?s s'" by (rule frame_run_kept [OF failed(2) assms(1) ks])
    from kept_revert [OF k this] obtain s3 where "RevertToSnapshot B ?snap s' = Some s3" "obs B s3 = obs B (ev_state env)" "kept B (ev_state env) s3" .
    then show thesis using that(1) [of s3 e] failed(1) ok by (simp add: commitTransaction_def split_beta kept_sound)
  next
    case (applied s' gp' r)
    have "unat ?used + unat (rc_GasUsed r) \<le> unat (h_GasLimit (ev_header env))" using applied(3) ok by linarith
    then have lt: "unat ?used + unat (rc_GasUsed r) < 2 ^ 64" using unsigned_less [of "h_GasLimit (ev_header env)", where ?'a = nat] by simp
    then have "unat (?used + rc_GasUsed r) = unat ?used + unat (rc_GasUsed r)" by (simp add: unat_word_ariths)
    moreover have "accounted (ev_receipts env @ [r]) (?used + rc_GasUsed r)" using accounted_snoc [OF _ applied(4) lt] ok by simp
    moreover have "list_all2 (receipt_of C bc) (ev_txs env @ [tx]) (ev_receipts env @ [r])" using ok applied(5) by (simp add: list_all2_appendI)
    ultimately show thesis using that(2) [of r gp' s'] applied ok by (simp add: commitTransaction_def split_beta env_ok_def)
  qed
qed

subsection \<open>Progress of the transaction set\<close>

definition backlog :: "'k crypto \<Rightarrow> TransactionsByPriceAndNonce \<Rightarrow> nat" where
  "backlog C t = (\<Sum>a \<in> dom (queued C t). length (the (queued C t a)))"

lemma finite_queued: "finite (dom (queued C t))"
proof -
  have "dom (queued C t) \<subseteq> (\<lambda>h. sender_of C (tp_signer t) (wf_tx h)) ` set (tp_heads t)"
    by (auto simp: queued_def find_Some_iff in_set_conv_nth image_iff) (metis nth_mem)
  then show ?thesis by (rule finite_subset) simp
qed

lemma backlog_less:
  assumes "queued C t a = Some (x # xs)" "queued C t' = (queued C t)(a := r)" "r = None \<or> r = Some xs"
  shows "backlog C t' < backlog C t"
proof -
  let ?q = "queued C t" and ?D = "dom (queued C t) - {a}"
  have fin: "finite ?D" using finite_queued by simp
  have "dom ?q = insert a ?D" using assms(1) by auto
  then have b: "backlog C t = length (x # xs) + (\<Sum>b \<in> ?D. length (the (?q b)))"
    unfolding backlog_def using fin assms(1) by (metis (no_types, lifting) Diff_iff insertI1 option.sel sum.insert)
  have rest: "(\<Sum>b \<in> ?D. length (the (queued C t' b))) = (\<Sum>b \<in> ?D. length (the (?q b)))"
    by (rule sum.cong) (simp_all add: assms(2))
  show ?thesis
  proof (cases r)
    case None
    then have "dom (queued C t') = ?D" by (auto simp: assms(2))
    then show ?thesis using b rest by (simp add: backlog_def)
  next
    case (Some ys)
    then have "dom (queued C t') = insert a ?D" "queued C t' a = Some xs" using assms(3) by (auto simp: assms(2))
    then have "backlog C t' = length xs + (\<Sum>b \<in> ?D. length (the (queued C t' b)))"
      unfolding backlog_def using fin by (metis (no_types, lifting) Diff_iff insertI1 option.sel sum.insert)
    then show ?thesis using b rest by simp
  qed
qed

lemma step_backlog:
  assumes "tp_inv C t" "Peek t = Some tx"
  obtains t1 t2 where "TxPop t = Some t1" "tp_inv C t1" "backlog C t1 < backlog C t"
    and "TxShift C t = Some t2" "tp_inv C t2" "backlog C t2 < backlog C t"
proof -
  from assms(2) obtain hd hs where h: "tp_heads t = hd # hs" by (auto simp: Peek_def split: list.splits)
  let ?a = "sender_of C (tp_signer t) (wf_tx hd)"
  obtain xs where q: "queued C t ?a = Some (wf_tx hd # xs)" using queued_head [OF assms(1) h] by blast
  from TxPop_queued [OF assms(1) h] obtain t1 where 1: "TxPop t = Some t1" "tp_inv C t1" "queued C t1 = (queued C t)(?a := None)" by blast
  from TxShift_queued [OF assms(1) h] obtain t2 where 2: "TxShift C t = Some t2" "tp_inv C t2" "queued C t2 = advance (tp_baseFee t) ?a (queued C t)" by blast
  have "\<exists>r. queued C t2 = (queued C t)(?a := r) \<and> (r = None \<or> r = Some xs)"
    unfolding 2(3) advance_def by (rule exI, rule conjI, rule refl) (simp add: q split: list.splits sum.splits)
  then obtain r where r: "queued C t2 = (queued C t)(?a := r)" "r = None \<or> r = Some xs" by blast
  show thesis using that [OF 1(1,2) _ 2(1,2)] backlog_less [OF q 1(3)] backlog_less [OF q r(1,2)] by simp
qed

subsection \<open>Filling a block\<close>

text \<open>What committing transactions keeps of an environment.\<close>

definition env_ext :: "('t, 'e) environment \<Rightarrow> ('t, 'e) environment \<Rightarrow> bool" where
  "env_ext env env' \<longleftrightarrow> prefix (ev_txs env) (ev_txs env') \<and> prefix (ev_receipts env) (ev_receipts env')
     \<and> (\<exists>g. ev_header env' = (ev_header env)\<lparr>h_GasUsed := g\<rparr>) \<and> ev_signer env' = ev_signer env
     \<and> ev_coinbase env' = ev_coinbase env \<and> ev_uncles env' = ev_uncles env"

lemma env_ext_refl: "env_ext env env"
  unfolding env_ext_def by (auto intro: exI [of _ "h_GasUsed (ev_header env)"])

lemma env_ext_state: "env_ext env (env\<lparr>ev_state := s\<rparr>)"
  unfolding env_ext_def by (auto intro: exI [of _ "h_GasUsed (ev_header env)"])

lemma env_ext_trans: "env_ext a b \<Longrightarrow> env_ext b c \<Longrightarrow> env_ext a c"
  unfolding env_ext_def by (elim conjE exE) (intro conjI; force intro: prefix_order.trans)

text \<open>The outcome of the loop: it returns, with everything accounted for, and without an interrupt only because the gas or the transactions are used up.\<close>

definition filled :: "'k crypto \<Rightarrow> blobCodec \<Rightarrow> ('t, 'e) backend \<Rightarrow> (nat \<Rightarrow> int) \<Rightarrow> ('t, 'e) environment \<Rightarrow>
    (('t, 'e) environment \<times> TransactionsByPriceAndNonce \<times> Log list \<times> work_err option) option \<Rightarrow> bool" where
  "filled C bc B sig env r \<longleftrightarrow> (\<exists>env' gp t logs err. r = Some (env', t, logs, err) \<and> env_ok C bc B env' gp \<and> env_ext env env'
     \<and> ev_tcount env' = length (ev_txs env') \<and> (if err = None then gp < TxGas \<or> Peek t = None else \<exists>j. sig j \<noteq> 0))"

lemma filled_ext: "filled C bc B sig env1 r \<Longrightarrow> env_ext env env1 \<Longrightarrow> filled C bc B sig env r"
  unfolding filled_def using env_ext_trans by blast

definition signals_ok :: "(nat \<Rightarrow> int) \<Rightarrow> bool" where
  "signals_ok sig \<longleftrightarrow> (\<forall>i. sig i \<in> {0..3})"

lemma signalToErr_ok:
  assumes "signals_ok sig" "sig i \<noteq> 0"
  shows "\<exists>e. signalToErr (sig i) = Some e"
proof -
  have "0 \<le> sig i" "sig i \<le> 3" using assms(1) by (simp_all add: signals_ok_def)
  then have "sig i = 1 \<or> sig i = 2 \<or> sig i = 3" using assms(2) by linarith
  then show ?thesis by (elim disjE) (simp_all add: signalToErr_def)
qed

lemma env_ok_state: "env_ok C bc B env gp \<Longrightarrow> sound B s \<Longrightarrow> env_ok C bc B (env\<lparr>ev_state := s\<rparr>) gp"
  by (simp add: env_ok_def)

lemma env_ok_tcount: "env_ok C bc B (env\<lparr>ev_tcount := n\<rparr>) gp = env_ok C bc B env gp"
  by (simp add: env_ok_def)

lemma commit_loop_stop:
  assumes "signals_ok sig" "env_ok C bc B env gp" "ev_tcount env = length (ev_txs env)" "tp_inv C txs" "sig i \<noteq> 0 \<or> gp < TxGas \<or> Peek txs = None"
  shows "filled C bc B sig env (commit_loop C bc B w sig i env txs logs)"
proof (cases "sig i = 0")
  case False
  with signalToErr_ok [OF assms(1)] obtain e where "signalToErr (sig i) = Some e" by blast
  then show ?thesis using False assms(2-4) env_ext_refl unfolding filled_def by (subst commit_loop.simps) auto
next
  case True
  have "ev_gasPool env = Some gp" using assms(2) by (simp add: env_ok_def)
  then have "commit_loop C bc B w sig i env txs logs = Some (env, txs, logs, None)" using True assms(5) by (subst commit_loop.simps) auto
  then show ?thesis using True assms(2-5) env_ext_refl unfolding filled_def by auto
qed

lemma commit_loop_step:
  assumes "ev_gasPool env = Some gp" "sig i = 0" "\<not> gp < TxGas" "Peek txs = Some tx" "TxPop txs = Some t1" "TxShift C txs = Some t2"
  shows "commit_loop C bc B w sig i env txs logs =
      (if Protected (tr_inner tx) \<and> \<not> IsEIP155 (wk_chainConfig w) (h_Number (ev_header env)) then commit_loop C bc B w sig (i + 1) env t1 logs
       else case commitTransaction C bc B w (env\<lparr>ev_state := SetTxContext (tx_Hash C bc (tr_inner tx)) (int (ev_tcount env)) (ev_state env)\<rparr>) (tr_inner tx) of None \<Rightarrow> None
         | Some (env, Err e) \<Rightarrow> commit_loop C bc B w sig (i + 1) env (if e = ErrCore ErrNonceTooLow then t2 else t1) logs
         | Some (env, Ok l) \<Rightarrow> commit_loop C bc B w sig (i + 1) (env\<lparr>ev_tcount := ev_tcount env + 1\<rparr>) t2 (logs @ l))"
  using assms by (subst commit_loop.simps) (simp cong: option.case_cong split: option.splits sum.splits)

lemma commit_loop_filled:
  assumes "backend_ok B" "processor_ok B (wk_chain w)" "signals_ok sig"
  shows "env_ok C bc B env gp \<Longrightarrow> ev_tcount env = length (ev_txs env) \<Longrightarrow> tp_inv C txs \<Longrightarrow>
    filled C bc B sig env (commit_loop C bc B w sig i env txs logs)"
proof (induction "backlog C txs" arbitrary: i env gp txs logs rule: less_induct)
  case less
  have gp: "ev_gasPool env = Some gp" using less.prems(1) by (simp add: env_ok_def)
  show ?case
  proof (cases "sig i \<noteq> 0 \<or> gp < TxGas \<or> Peek txs = None")
    case True
    show ?thesis by (rule commit_loop_stop [OF assms(3) less.prems True])
  next
    case False
    then obtain tx where tx: "Peek txs = Some tx" and go: "sig i = 0" "\<not> gp < TxGas" by auto
    let ?env = "env\<lparr>ev_state := SetTxContext (tx_Hash C bc (tr_inner tx)) (int (ev_tcount env)) (ev_state env)\<rparr>"
    have ok: "env_ok C bc B ?env gp" using less.prems(1) by (intro env_ok_state) (simp_all add: env_ok_def sound_SetTxContext)
    from step_backlog [OF less.prems(3) tx] obtain t1 t2 where
      t1: "TxPop txs = Some t1" "tp_inv C t1" "backlog C t1 < backlog C txs" and
      t2: "TxShift C txs = Some t2" "tp_inv C t2" "backlog C t2 < backlog C txs" .
    note eq = commit_loop_step [where sig = sig, OF gp go tx t1(1) t2(1), of bc B w logs]
    show ?thesis
    proof (cases "Protected (tr_inner tx) \<and> \<not> IsEIP155 (wk_chainConfig w) (h_Number (ev_header env))")
      case True
      show ?thesis unfolding eq if_P [OF True] by (rule less.hyps [OF t1(3) less.prems(1,2) t1(2)])
    next
      case P: False
      note eq = eq [unfolded if_not_P [OF P]]
      from assms(1,2) ok show ?thesis
      proof (cases rule: commitTransaction_cases [where tx = "tr_inner tx"])
        case (failed s' e)
        let ?t = "if e = ErrCore ErrNonceTooLow then t2 else t1"
        have t: "backlog C ?t < backlog C txs" "tp_inv C ?t" using t1 t2 by simp_all
        have "filled C bc B sig (?env\<lparr>ev_state := s'\<rparr>) (commit_loop C bc B w sig (i + 1) (?env\<lparr>ev_state := s'\<rparr>) ?t logs)"
          using less.prems(2) by (intro less.hyps [OF t(1) env_ok_state [OF ok failed(2)] _ t(2)]) simp
        then show ?thesis unfolding eq failed(1) option.case prod.case sum.case by (rule filled_ext) (simp add: env_ext_state)
      next
        case (committed s' gp' r)
        let ?e = "?env\<lparr>ev_state := s', ev_gasPool := Some gp', ev_header := (ev_header ?env)\<lparr>h_GasUsed := h_GasUsed (ev_header ?env) + rc_GasUsed r\<rparr>,
          ev_txs := ev_txs ?env @ [tr_inner tx], ev_receipts := ev_receipts ?env @ [r]\<rparr>"
        let ?f = "?e\<lparr>ev_tcount := ev_tcount ?e + 1\<rparr>"
        have "filled C bc B sig ?f (commit_loop C bc B w sig (i + 1) ?f t2 (logs @ rc_Logs r))"
          using less.prems(2) committed(2) by (intro less.hyps [OF t2(3) _ _ t2(2), of _ gp']) (simp_all only: env_ok_tcount, simp_all)
        then show ?thesis unfolding eq committed(1) option.case prod.case sum.case by (rule filled_ext) (auto simp: env_ext_def)
      qed
    qed
  qed
qed

text \<open>An environment that is about to be filled for the first time.\<close>

definition env_fresh :: "('t, 'e) backend \<Rightarrow> ('t, 'e) environment \<Rightarrow> bool" where
  "env_fresh B env \<longleftrightarrow> sound B (ev_state env) \<and> ev_gasPool env = None \<and> h_GasUsed (ev_header env) = 0 \<and> ev_txs env = [] \<and> ev_receipts env = []
     \<and> ev_tcount env = 0 \<and> h_Number (ev_header env) \<noteq> None \<and> h_Difficulty (ev_header env) \<noteq> None \<and> h_BaseFee (ev_header env) \<noteq> None"

lemma fresh_ok: "env_fresh B env \<Longrightarrow> env_ok C bc B (env\<lparr>ev_gasPool := Some (h_GasLimit (ev_header env))\<rparr>) (h_GasLimit (ev_header env))"
  by (simp add: env_fresh_def env_ok_def accounted_Nil)

lemma commitTransactions_filled:
  assumes "backend_ok B" "processor_ok B (wk_chain w)" "signals_ok sig" "tp_inv C txs"
    and "env_fresh B env \<or> (\<exists>gp. env_ok C bc B env gp) \<and> ev_tcount env = length (ev_txs env)"
  shows "filled C bc B sig env (commitTransactions C bc B w sig env txs)"
proof -
  note loop = commit_loop_filled [OF assms(1-3) _ _ assms(4)]
  have e: "env_ext env (env\<lparr>ev_gasPool := g\<rparr>)" for g unfolding env_ext_def by (auto intro: exI [of _ "h_GasUsed (ev_header env)"])
  from assms(5) show ?thesis
  proof (elim disjE conjE exE)
    assume f: "env_fresh B env"
    then have "ev_tcount env = length (ev_txs env)" "ev_gasPool env = None" by (simp_all add: env_fresh_def)
    then show ?thesis using filled_ext [OF loop [OF fresh_ok [OF f]] e] by (simp add: commitTransactions_def AddGas_def)
  next
    fix gp assume o: "env_ok C bc B env gp" "ev_tcount env = length (ev_txs env)"
    then have g: "ev_gasPool env = Some gp" by (simp add: env_ok_def)
    then have e: "env\<lparr>ev_gasPool := Some gp\<rparr> = env" by simp
    show ?thesis unfolding commitTransactions_def g option.case e by (rule loop [OF o])
  qed
qed

text \<open>The environment after filling: untouched, or accounted for.\<close>

definition env_done :: "'k crypto \<Rightarrow> blobCodec \<Rightarrow> ('t, 'e) backend \<Rightarrow> ('t, 'e) environment \<Rightarrow> bool" where
  "env_done C bc B env \<longleftrightarrow> env_fresh B env \<or> (\<exists>gp. env_ok C bc B env gp) \<and> ev_tcount env = length (ev_txs env)"

lemma fill_from_done:
  assumes "backend_ok B" "processor_ok B (wk_chain w)" "signals_ok sig" "by_account C (ev_signer env) pending" "env_done C bc B env"
  shows "\<exists>env' err. fill_from C bc B w sig pending env = Some (env', err) \<and> env_done C bc B env' \<and> env_ext env env'"
proof (cases "pending = []")
  case True
  then show ?thesis using assms(5) env_ext_refl by (simp add: fill_from_def)
next
  case False
  from New_queued [OF assms(4)] obtain txs where n: "NewTransactionsByPriceAndNonce C (ev_signer env) pending (h_BaseFee (ev_header env)) = Some txs" "tp_inv C txs"
    by blast
  from commitTransactions_filled [OF assms(1-3) n(2) assms(5) [unfolded env_done_def]] n(1) False show ?thesis
    by (auto simp: filled_def fill_from_def env_done_def)
qed

lemma fillTransactions_done:
  assumes "backend_ok B" "processor_ok B (wk_chain w)" "signals_ok sig1" "signals_ok sig2" "by_account C (ev_signer env) (wk_Pending w)" "env_done C bc B env"
  shows "\<exists>env' err. fillTransactions C bc B w sig1 sig2 env = Some (env', err) \<and> env_done C bc B env' \<and> env_ext env env'"
proof -
  have ba: "by_account C (ev_signer env) (local_txs w)" "by_account C (ev_signer env) (remote_txs w)"
    using assms(5) by (auto simp: by_account_def local_txs_def remote_txs_def distinct_map_filter)
  from fill_from_done [OF assms(1-3) ba(1) assms(6)] obtain env1 err1 where
    1: "fill_from C bc B w sig1 (local_txs w) env = Some (env1, err1)" "env_done C bc B env1" "env_ext env env1" by blast
  show ?thesis
  proof (cases err1)
    case (Some e)
    then show ?thesis using 1 by (simp add: fillTransactions_def)
  next
    case None
    have "by_account C (ev_signer env1) (remote_txs w)" using ba(2) 1(3) by (simp add: env_ext_def)
    from fill_from_done [OF assms(1,2,4) this 1(2)] 1 None env_ext_trans [OF 1(3)] show ?thesis by (auto simp: fillTransactions_def)
  qed
qed

subsection \<open>Uncles\<close>

definition uncles_ok :: "'k crypto \<Rightarrow> ('t, 'e) environment \<Rightarrow> bool" where
  "uncles_ok C env \<longleftrightarrow> length (ev_uncles env) \<le> 2 \<and> distinct (map fst (ev_uncles env))
     \<and> (\<forall>(h, u) \<in> set (ev_uncles env). h = Header_Hash C u \<and> h \<notin> ev_family env \<and> h_ParentHash u \<in> ev_ancestors env
          \<and> h_ParentHash u \<noteq> h_ParentHash (ev_header env))"

lemma commitUncle_ok:
  assumes "commitUncle C w env u = Some (Ok env')"
  shows "env' = env\<lparr>ev_uncles := ev_uncles env @ [(Header_Hash C u, u)]\<rparr>" "Header_Hash C u \<notin> fst ` set (ev_uncles env)"
    "Header_Hash C u \<notin> ev_family env" "h_ParentHash u \<in> ev_ancestors env" "h_ParentHash u \<noteq> h_ParentHash (ev_header env)"
  using assms by (auto simp: commitUncle_def Let_def split: if_splits)

lemma commitUncle_returns: "h_Number (ev_header env) \<noteq> None \<Longrightarrow> commitUncle C w env u \<noteq> None"
  by (auto simp: commitUncle_def isTTDReached_def)

lemma commitUncles_ok:
  "uncles_ok C env \<Longrightarrow> h_Number (ev_header env) \<noteq> None \<Longrightarrow>
     \<exists>us. commitUncles C w blocks env = Some (env\<lparr>ev_uncles := us\<rparr>) \<and> uncles_ok C (env\<lparr>ev_uncles := us\<rparr>)"
proof (induction blocks arbitrary: env)
  case Nil
  then show ?case by (intro exI [of _ "ev_uncles env"]) simp
next
  case (Cons b blocks)
  obtain h u where b: "b = (h, u)" by force
  show ?case
  proof (cases "length (ev_uncles env) = 2")
    case True
    then show ?thesis using Cons.prems by (intro exI [of _ "ev_uncles env"]) (simp add: b)
  next
    case False
    obtain r where r: "commitUncle C w env (Block_Header u) = Some r" using commitUncle_returns [OF Cons.prems(2)] by blast
    show ?thesis
    proof (cases r)
      case (Inl e)
      then show ?thesis using Cons r False by (simp add: b)
    next
      case (Inr env1)
      note c = commitUncle_ok [OF r [unfolded Inr]]
      have "uncles_ok C env1" using Cons.prems(1) c False by (auto simp: uncles_ok_def image_iff)
      then show ?thesis using Cons.IH [of env1] Cons.prems(2) c(1) r Inr False by (simp add: b)
    qed
  qed
qed

subsection \<open>Generated blocks\<close>

text \<open>The fields of a header that engines leave alone, and what is assumed of the engine and the database: the engine sets a difficulty and
  assembles blocks with \<open>NewBlock\<close>, and states are well formed.\<close>

definition same_work :: "Header \<Rightarrow> Header \<Rightarrow> bool" where
  "same_work h h' \<longleftrightarrow> h_ParentHash h' = h_ParentHash h \<and> h_Number h' = h_Number h \<and> h_GasLimit h' = h_GasLimit h \<and> h_GasUsed h' = h_GasUsed h
     \<and> h_BaseFee h' = h_BaseFee h \<and> h_Bloom h' = h_Bloom h"

definition worker_ok :: "'k crypto \<Rightarrow> blobCodec \<Rightarrow> 'h TrieHasher \<Rightarrow> ('t, 'e) backend \<Rightarrow> ('t, 'e) worker \<Rightarrow> bool" where
  "worker_ok C bc H B w \<longleftrightarrow> processor_ok B (wk_chain w) \<and> (\<forall>r s. wk_StateAt w r = Ok s \<longrightarrow> sound B s)
     \<and> (\<forall>h h'. wk_Prepare w h = Ok h' \<longrightarrow> same_work h h' \<and> h_Difficulty h' \<noteq> None)
     \<and> (\<forall>h s txs us rs ws b. wk_FinalizeAndAssemble w h s txs us rs ws = Ok b \<longrightarrow>
          (\<exists>h' us' hasher. same_work h h' \<and> b = NewBlockWithWithdrawals C bc H h' txs us' rs ws hasher))"

definition work_parent :: "('t, 'e) worker \<Rightarrow> generateParams \<Rightarrow> Header option" where
  "work_parent w params =
     (if gp_parentHash params \<noteq> zero_hash then map_option Block_Header (wk_GetBlockByHash w (gp_parentHash params)) else Some (wk_CurrentBlock w))"

definition parent_limit :: "ChainConfig \<Rightarrow> Header \<Rightarrow> u64" where
  "parent_limit config parent = (if IsLondon config (h_Number parent) then h_GasLimit parent else h_GasLimit parent * ElasticityMultiplier config)"

lemma work_header_fields:
  assumes "h_Number parent = Some n" "IsLondon (wk_chainConfig w) (Some (n + 1))" "CalcBaseFee (wk_chainConfig w) parent = Some fee"
  obtains hdr where "work_header C w params parent t = Some hdr" "h_ParentHash hdr = Header_Hash C parent" "h_Number hdr = Some (n + 1)"
    "h_GasLimit hdr = CalcGasLimit (parent_limit (wk_chainConfig w) parent) (wk_GasCeil w)" "h_GasUsed hdr = 0" "h_BaseFee hdr = Some fee"
    "h_Bloom hdr = replicate 256 0"
proof -
  obtain hdr where hdr: "work_header C w params parent t = Some hdr" using assms by (simp add: work_header_def Let_def)
  show thesis
  proof (rule that [OF hdr])
    show "h_ParentHash hdr = Header_Hash C parent" "h_Number hdr = Some (n + 1)" "h_GasUsed hdr = 0" "h_BaseFee hdr = Some fee" "h_Bloom hdr = replicate 256 0"
      "h_GasLimit hdr = CalcGasLimit (parent_limit (wk_chainConfig w) parent) (wk_GasCeil w)"
      using hdr assms by (auto simp: work_header_def Let_def empty_header_def parent_limit_def)
  qed
qed

text \<open>The environment of a prepared block.\<close>

definition prepared :: "'k crypto \<Rightarrow> ('t, 'e) backend \<Rightarrow> ('t, 'e) worker \<Rightarrow> Header \<Rightarrow> int \<Rightarrow> int \<Rightarrow> ('t, 'e) environment \<Rightarrow> bool" where
  "prepared C B w parent n fee env \<longleftrightarrow> env_fresh B env \<and> uncles_ok C env
     \<and> h_ParentHash (ev_header env) = Header_Hash C parent \<and> h_Number (ev_header env) = Some (n + 1)
     \<and> h_GasLimit (ev_header env) = CalcGasLimit (parent_limit (wk_chainConfig w) parent) (wk_GasCeil w)
     \<and> h_BaseFee (ev_header env) = Some fee \<and> h_Bloom (ev_header env) = replicate 256 0
     \<and> ev_signer env = MakeSigner (wk_chainConfig w) (Some (n + 1)) (h_Time (ev_header env))"

lemma makeEnv_fields:
  assumes "makeEnv C w parent hdr cb = Ok env"
  obtains s where "wk_StateAt w (h_Root parent) = Ok s" "ev_state env = s" "ev_header env = hdr" "ev_signer env = MakeSigner (wk_chainConfig w) (h_Number hdr) (h_Time hdr)"
    "ev_gasPool env = None" "ev_txs env = []" "ev_receipts env = []" "ev_uncles env = []" "ev_tcount env = 0"
proof (cases "wk_StateAt w (h_Root parent)")
  case (Inl e)
  then show thesis using assms by (simp add: makeEnv_def)
next
  case (Inr s)
  have "env = \<lparr>ev_signer = MakeSigner (wk_chainConfig w) (h_Number hdr) (h_Time hdr), ev_state = s, ev_ancestors = ev_ancestors env, ev_family = ev_family env,
      ev_tcount = 0, ev_gasPool = None, ev_coinbase = cb, ev_header = hdr, ev_txs = [], ev_receipts = [], ev_uncles = []\<rparr>"
    using assms unfolding makeEnv_def Inr Let_def sum.case sum.inject by (elim subst) simp
  then show thesis using that Inr by (metis environment.simps)
qed
lemma makeEnv_prepared:
  assumes "worker_ok C bc H B w" "wk_Prepare w hdr = Ok hdr'" "makeEnv C w parent hdr' cb = Ok env"
    and "h_ParentHash hdr = Header_Hash C parent" "h_Number hdr = Some (n + 1)"
    and "h_GasLimit hdr = CalcGasLimit (parent_limit (wk_chainConfig w) parent) (wk_GasCeil w)" "h_GasUsed hdr = 0" "h_BaseFee hdr = Some fee"
    and "h_Bloom hdr = replicate 256 0"
  shows "prepared C B w parent n fee env"
proof -
  have h: "same_work hdr hdr'" "h_Difficulty hdr' \<noteq> None" using assms(1,2) unfolding worker_ok_def by blast+
  from assms(3) obtain s where s: "wk_StateAt w (h_Root parent) = Ok s" "ev_state env = s" "ev_header env = hdr'"
    "ev_signer env = MakeSigner (wk_chainConfig w) (h_Number hdr') (h_Time hdr')"
    "ev_gasPool env = None" "ev_txs env = []" "ev_receipts env = []" "ev_uncles env = []" "ev_tcount env = 0" by (rule makeEnv_fields)
  have "sound B s" using assms(1) s(1) unfolding worker_ok_def by blast
  then show ?thesis using assms(4-9) h by (simp add: s prepared_def env_fresh_def uncles_ok_def same_work_def)
qed

lemma prepared_uncles:
  assumes "prepared C B w parent n fee env"
  shows "\<exists>env'. commitUncles C w blocks env = Some env' \<and> prepared C B w parent n fee env'"
proof -
  have "uncles_ok C env" "h_Number (ev_header env) \<noteq> None" using assms by (simp_all add: prepared_def)
  from commitUncles_ok [OF this, of w blocks] obtain us where
    "commitUncles C w blocks env = Some (env\<lparr>ev_uncles := us\<rparr>)" "uncles_ok C (env\<lparr>ev_uncles := us\<rparr>)" by blast
  then show ?thesis using assms by (simp add: prepared_def env_fresh_def)
qed

text \<open>The errors: a timestamp that is fixed and too early, no state of the parent, or an error of the engine.\<close>

definition work_fails :: "('t, 'e) worker \<Rightarrow> generateParams \<Rightarrow> Header \<Rightarrow> work_err \<Rightarrow> bool" where
  "work_fails w params parent e \<longleftrightarrow>
     gp_forceTime params \<and> gp_timestamp params \<le> h_Time parent \<and> e = ErrInvalidTimestamp (h_Time parent) (gp_timestamp params)
     \<or> (\<exists>x. e = ErrState x \<and> wk_StateAt w (h_Root parent) = Err x) \<or> (\<exists>h x. e = ErrEngine x \<and> wk_Prepare w h = Err x)
     \<or> (\<exists>h s txs us rs ws x. e = ErrEngine x \<and> wk_FinalizeAndAssemble w h s txs us rs ws = Err x)"

lemma makeEnv_error: "makeEnv C w parent hdr cb = Err e \<Longrightarrow> work_fails w params parent e"
  by (auto simp: makeEnv_def work_fails_def Let_def split: sum.splits)

lemma prepareWork_cases:
  assumes "worker_ok C bc H B w" "work_parent w params = Some parent" "h_Number parent = Some n" "IsLondon (wk_chainConfig w) (Some (n + 1))"
    and "CalcBaseFee (wk_chainConfig w) parent = Some fee"
  obtains (failed) e where "prepareWork C w params = Some (Err e)" "work_fails w params parent e"
    | (prepared) env where "prepareWork C w params = Some (Ok env)" "prepared C B w parent n fee env"
proof -
  let ?t = "if h_Time parent \<ge> gp_timestamp params then h_Time parent + 1 else gp_timestamp params"
  from work_header_fields [OF assms(3-5), of C params ?t] obtain hdr where hdr: "work_header C w params parent ?t = Some hdr"
    "h_ParentHash hdr = Header_Hash C parent" "h_Number hdr = Some (n + 1)"
    "h_GasLimit hdr = CalcGasLimit (parent_limit (wk_chainConfig w) parent) (wk_GasCeil w)" "h_GasUsed hdr = 0" "h_BaseFee hdr = Some fee"
    "h_Bloom hdr = replicate 256 0" .
  have eq: "prepareWork C w params =
      (if h_Time parent \<ge> gp_timestamp params \<and> gp_forceTime params then Some (Err (ErrInvalidTimestamp (h_Time parent) (gp_timestamp params)))
       else case wk_Prepare w hdr of Err e \<Rightarrow> Some (Err (ErrEngine e))
         | Ok hdr \<Rightarrow> (case makeEnv C w parent hdr (gp_coinbase params) of Err e \<Rightarrow> Some (Err e)
             | Ok env \<Rightarrow> if gp_noUncle params then Some (Ok env)
                 else (case commitUncles C w (wk_localUncles w) env of None \<Rightarrow> None
                       | Some env \<Rightarrow> map_option Ok (commitUncles C w (wk_remoteUncles w) env))))"
    unfolding prepareWork_def using assms(2) hdr(1) by (simp add: work_parent_def Let_def cong: option.case_cong)
  show thesis
  proof (cases "h_Time parent \<ge> gp_timestamp params \<and> gp_forceTime params")
    case True
    then show thesis using failed [OF eq [unfolded if_P [OF True]]] by (simp add: work_fails_def)
  next
    case False
    note eq1 = eq [unfolded if_not_P [OF False]]
    show thesis
    proof (cases "wk_Prepare w hdr")
      case (Inl e)
      then show thesis using failed eq1 by (auto simp: work_fails_def)
    next
      case p: (Inr hdr')
      show thesis
      proof (cases "makeEnv C w parent hdr' (gp_coinbase params)")
        case (Inl e)
        then show thesis using failed eq1 makeEnv_error [OF Inl] p by simp
      next
        case (Inr env)
        note 0 = makeEnv_prepared [OF assms(1) p Inr hdr(2-7)]
        from prepared_uncles [OF 0, of "wk_localUncles w"] obtain env1 where
          1: "commitUncles C w (wk_localUncles w) env = Some env1" "prepared C B w parent n fee env1" by blast
        from prepared_uncles [OF 1(2), of "wk_remoteUncles w"] obtain env2 where
          2: "commitUncles C w (wk_remoteUncles w) env1 = Some env2" "prepared C B w parent n fee env2" by blast
        have "prepareWork C w params = Some (Ok (if gp_noUncle params then env else env2))" unfolding eq1 by (simp add: p Inr 1(1) 2(1))
        then show thesis using prepared 0 2(2) by (auto split: if_splits)
      qed
    qed
  qed
qed

section \<open>Properties of the worker\<close>

text \<open>C17: Committing one transaction is atomic: on an account of the block so far that adds up, it either applies the transaction, appending it with a
  receipt that matches it and moving its gas from the pool to the header, or returns the error with the block,
  the pool and everything observable in the state as they were.  It never panics.\<close>

theorem commitTransaction_atomic:
  assumes "backend_ok B" "processor_ok B (wk_chain w)" "env_ok C bc B env gp"
  shows "\<exists>env' r. commitTransaction C bc B w env tx = Some (env', r)
    \<and> (case r of Err e \<Rightarrow> obs B (ev_state env') = obs B (ev_state env) \<and> sound B (ev_state env') \<and> env'\<lparr>ev_state := ev_state env\<rparr> = env
       | Ok logs \<Rightarrow> \<exists>gp' receipt. env_ok C bc B env' gp' \<and> receipt_of C bc tx receipt \<and> rc_Logs receipt = logs
           \<and> unat gp' + unat (rc_GasUsed receipt) = unat gp \<and> ev_txs env' = ev_txs env @ [tx] \<and> ev_receipts env' = ev_receipts env @ [receipt])"
  using assms
proof (cases rule: commitTransaction_cases [where tx = tx])
  case (failed s' e)
  then show ?thesis by simp
next
  case (committed s' gp' r)
  then have "list_all2 (receipt_of C bc) (ev_txs env @ [tx]) (ev_receipts env @ [r])" by (simp add: env_ok_def)
  moreover have "length (ev_txs env) = length (ev_receipts env)" using assms(3) by (auto simp: env_ok_def dest: list_all2_lengthD)
  ultimately have "receipt_of C bc tx r" by (simp add: list_all2_append)
  then show ?thesis using committed(2,3) unfolding committed(1) by (simp add: exI [of _ gp'])
qed

definition sample_worker :: "(unit, string) worker" where
  "sample_worker = \<lparr>wk_chain = sample_chain, wk_chainConfig = london_config 1, wk_GasCeil = 30000000, wk_extra = [],
     wk_CurrentBlock = zero_header\<lparr>h_Number := Some 0, h_GasLimit := 15000000\<rparr>, wk_GetBlockByHash = (\<lambda>_. None), wk_GetBlocksFromHash = (\<lambda>_ _. []),
     wk_GetTd = (\<lambda>_ _. None), wk_StateAt = (\<lambda>_. Ok sample_state), wk_Prepare = (\<lambda>h. Ok (h\<lparr>h_Difficulty := Some 2\<rparr>)),
     wk_FinalizeAndAssemble = (\<lambda>h s txs us rs ws. Ok (NewBlockWithWithdrawals sample_crypto sample_codec sample_hasher h txs [] rs ws [])),
     wk_Pending = [(replicate 20 7, [\<lparr>tr_inner = sample_transfer, tr_time = 1\<rparr>])], wk_Locals = [], wk_localUncles = [], wk_remoteUncles = []\<rparr>"

definition sample_env :: "(unit, string) environment" where
  "sample_env = \<lparr>ev_signer = MakeSigner (london_config 1) (Some 1) 0, ev_state = sample_state, ev_ancestors = {}, ev_family = {}, ev_tcount = 0,
     ev_gasPool = None, ev_coinbase = replicate 20 9,
     ev_header = b_header sample_block, ev_txs = [], ev_receipts = [], ev_uncles = []\<rparr>"

lemma sample_env_fresh: "env_fresh sample_backend sample_env"
  by (simp add: env_fresh_def sample_env_def sample_state_ok sample_block_def zero_header_def)

lemma sample_message:
  "case NewEVMBlockContext sample_chain (b_header sample_block) (Some (replicate 20 9)) of None \<Rightarrow> False
   | Some ctx \<Rightarrow>
       (case TransactionToMessage sample_crypto sample_transfer (MakeSigner (london_config 1) (Some 1) 0) (Some 7) of Err _ \<Rightarrow> False
        | Ok msg \<Rightarrow>
            (case ApplyMessage sample_backend (evm_Reset sample_chain (NewEVMTxContext msg)
                    (NewEVM sample_chain ctx \<lparr>tc_Origin = zero_address, tc_GasPrice = 0\<rparr> (london_config 1))) msg 30000000 (fst (Snapshot sample_state)) of
               Some (st, Ok r) \<Rightarrow> er_UsedGas r = 21000 \<and> st_gp st = 29979000 | _ \<Rightarrow> False))"
  by code_simp

lemma sample_commit:
  "\<exists>env logs. commitTransaction sample_crypto sample_codec sample_backend sample_worker (sample_env\<lparr>ev_gasPool := Some 30000000\<rparr>) sample_transfer
     = Some (env, Ok logs) \<and> ev_gasPool env = Some 29979000"
proof -
  have h: "h_Number (b_header sample_block) = Some 1" "h_Time (b_header sample_block) = 0" "h_BaseFee (b_header sample_block) = Some 7"
    by (simp_all add: sample_block_def zero_header_def)
  from sample_message obtain ctx where c: "NewEVMBlockContext sample_chain (b_header sample_block) (Some (replicate 20 9)) = Some ctx"
    by (cases "NewEVMBlockContext sample_chain (b_header sample_block) (Some (replicate 20 9))") simp_all
  from sample_message obtain msg where m: "TransactionToMessage sample_crypto sample_transfer (MakeSigner (london_config 1) (Some 1) 0) (Some 7) = Ok msg"
    by (cases "TransactionToMessage sample_crypto sample_transfer (MakeSigner (london_config 1) (Some 1) 0) (Some 7)") (simp_all add: c)
  from sample_message [unfolded c m option.case sum.case, THEN case_applied] obtain st r where
    "ApplyMessage sample_backend (evm_Reset sample_chain (NewEVMTxContext msg)
       (NewEVM sample_chain ctx \<lparr>tc_Origin = zero_address, tc_GasPrice = 0\<rparr> (london_config 1))) msg 30000000 (fst (Snapshot sample_state)) = Some (st, Ok r)"
    "st_gp st = 29979000" by blast
  then show ?thesis
    by (simp add: commitTransaction_def sample_env_def sample_worker_def ApplyTransaction_def applyTransaction_def h c m Let_def split_beta)
qed

theorem commitTransaction_atomic_witness:
  "\<exists>env logs r. commitTransaction sample_crypto sample_codec sample_backend sample_worker (sample_env\<lparr>ev_gasPool := Some 30000000\<rparr>) sample_transfer
     = Some (env, Ok logs) \<and> ev_txs env = [sample_transfer] \<and> ev_receipts env = [r] \<and> unat (rc_GasUsed r) = 21000"
proof -
  have "env_ok sample_crypto sample_codec sample_backend (sample_env\<lparr>ev_gasPool := Some 30000000\<rparr>) 30000000"
    using fresh_ok [OF sample_env_fresh, of sample_crypto sample_codec] by (simp add: sample_env_def sample_block_def)
  moreover have "processor_ok sample_backend (wk_chain sample_worker)" using sample_chain_ok by (simp add: sample_worker_def)
  moreover from sample_commit obtain env logs where c: "commitTransaction sample_crypto sample_codec sample_backend sample_worker
      (sample_env\<lparr>ev_gasPool := Some 30000000\<rparr>) sample_transfer = Some (env, Ok logs)" "ev_gasPool env = Some 29979000" by blast
  ultimately obtain gp' r where "env_ok sample_crypto sample_codec sample_backend env gp'" "unat gp' + unat (rc_GasUsed r) = 30000000"
      "ev_txs env = [sample_transfer]" "ev_receipts env = [r]"
    using commitTransaction_atomic [OF sample_backend_ok, of sample_worker sample_crypto sample_codec _ 30000000 sample_transfer] by (fastforce simp: sample_env_def)
  then show ?thesis using c by (auto simp: env_ok_def)
qed

text \<open>C11: The transaction loop makes progress: over pool transactions listed by their senders it always returns, whatever the interrupt flag reads, with a
  block that adds up and extends the one it started from.  It returns an error only if the flag was raised; otherwise it stops
  only when less gas than a transfer needs is left or no transaction is.\<close>

theorem commitTransactions_returns:
  assumes "backend_ok B" "processor_ok B (wk_chain w)" "\<forall>i. sig i \<in> {0..3}" "env_fresh B env" "by_account C (ev_signer env) pending"
    and "NewTransactionsByPriceAndNonce C (ev_signer env) pending (h_BaseFee (ev_header env)) = Some txs"
  shows "\<exists>env' gp txs' logs err. commitTransactions C bc B w sig env txs = Some (env', txs', logs, err)
    \<and> env_ok C bc B env' gp \<and> ev_tcount env' = length (ev_txs env') \<and> (\<exists>g. ev_header env' = (ev_header env)\<lparr>h_GasUsed := g\<rparr>)
    \<and> (case err of None \<Rightarrow> gp < TxGas \<or> Peek txs' = None | Some _ \<Rightarrow> \<exists>i. sig i \<noteq> 0)"
proof -
  have "tp_inv C txs" using New_queued [OF assms(5), of "h_BaseFee (ev_header env)"] assms(6) by auto
  moreover have "signals_ok sig" using assms(3) by (simp add: signals_ok_def)
  ultimately have "filled C bc B sig env (commitTransactions C bc B w sig env txs)" using commitTransactions_filled assms(1,2,4) by blast
  then obtain env' gp txs' logs err where f: "commitTransactions C bc B w sig env txs = Some (env', txs', logs, err)" "env_ok C bc B env' gp" "env_ext env env'"
    "ev_tcount env' = length (ev_txs env')" "if err = None then gp < TxGas \<or> Peek txs' = None else \<exists>j. sig j \<noteq> 0" unfolding filled_def by blast
  then have "case err of None \<Rightarrow> gp < TxGas \<or> Peek txs' = None | Some _ \<Rightarrow> \<exists>i. sig i \<noteq> 0" by (simp split: option.splits)
  then show ?thesis using f unfolding env_ext_def by blast
qed

lemma sample_signer: "MakeSigner (london_config 1) (Some 1) t = LondonSigner (NewEIP155Signer (Some 1))"
  by (simp add: MakeSigner_def IsCancun_def IsLondon_def isBlockForked_def isTimestampForked_def config_eval)

lemma sample_pending: "by_account sample_crypto (MakeSigner (london_config 1) (Some 1) t) (wk_Pending sample_worker)"
proof -
  have "sender_of sample_crypto (LondonSigner (NewEIP155Signer (Some 1))) \<lparr>tr_inner = sample_transfer, tr_time = 1\<rparr> = replicate 20 7" by code_simp
  then show ?thesis by (simp add: by_account_def sample_worker_def sample_signer)
qed

theorem commitTransactions_returns_witness:
  "\<exists>txs env' txs' logs gp. NewTransactionsByPriceAndNonce sample_crypto (ev_signer sample_env) (wk_Pending sample_worker) (Some 7) = Some txs
     \<and> commitTransactions sample_crypto sample_codec sample_backend sample_worker (\<lambda>_. 0) sample_env txs = Some (env', txs', logs, None)
     \<and> env_ok sample_crypto sample_codec sample_backend env' gp \<and> (gp < TxGas \<or> Peek txs' = None)"
proof -
  have p: "by_account sample_crypto (ev_signer sample_env) (wk_Pending sample_worker)" by (simp add: sample_env_def sample_pending)
  have h: "h_BaseFee (ev_header sample_env) = Some 7" by (simp add: sample_env_def sample_block_def)
  have c: "processor_ok sample_backend (wk_chain sample_worker)" using sample_chain_ok by (simp add: sample_worker_def)
  from New_queued [OF p, of "Some 7"] obtain txs where
    t: "NewTransactionsByPriceAndNonce sample_crypto (ev_signer sample_env) (wk_Pending sample_worker) (Some 7) = Some txs" by blast
  from commitTransactions_returns [OF sample_backend_ok c _ sample_env_fresh p t [folded h], of "\<lambda>_. 0" sample_codec] obtain env' gp txs' logs err where
    "commitTransactions sample_crypto sample_codec sample_backend sample_worker (\<lambda>_. 0) sample_env txs = Some (env', txs', logs, err)"
    "env_ok sample_crypto sample_codec sample_backend env' gp" "err = None" "gp < TxGas \<or> Peek txs' = None"
    by (auto split: option.splits)
  then show ?thesis using t by blast
qed

subsection \<open>What a generated block carries\<close>

lemma same_work_header:
  assumes "same_work h h'"
  shows "h_ParentHash (b_header (NewBlockWithWithdrawals C bc H h' txs us rs ws x)) = h_ParentHash h"
    "h_Number (b_header (NewBlockWithWithdrawals C bc H h' txs us rs ws x)) = Some (case h_Number h of None \<Rightarrow> 0 | Some n \<Rightarrow> n)"
    "h_GasLimit (b_header (NewBlockWithWithdrawals C bc H h' txs us rs ws x)) = h_GasLimit h"
    "h_GasUsed (b_header (NewBlockWithWithdrawals C bc H h' txs us rs ws x)) = h_GasUsed h"
    "h_BaseFee (b_header (NewBlockWithWithdrawals C bc H h' txs us rs ws x)) = h_BaseFee h"
  using assms
  by (auto simp: same_work_def NewBlockWithWithdrawals_def NewBlock_def WithWithdrawals_def CopyHeader_def Let_def split: option.splits)

text \<open>What \<open>generateWork\<close> assembles: the environment of the prepared header, filled.\<close>

definition assembled :: "'k crypto \<Rightarrow> blobCodec \<Rightarrow> Header \<Rightarrow> Receipt list \<Rightarrow> Block \<Rightarrow> bool" where
  "assembled C bc hdr receipts b \<longleftrightarrow> h_ParentHash (b_header b) = h_ParentHash hdr \<and> h_Number (b_header b) = h_Number hdr
     \<and> h_GasLimit (b_header b) = h_GasLimit hdr \<and> h_BaseFee (b_header b) = h_BaseFee hdr \<and> h_Bloom (b_header b) = CreateBloom (Keccak256 C) receipts
     \<and> list_all2 (receipt_of C bc) (b_transactions b) receipts \<and> accounted receipts (h_GasUsed (b_header b))
     \<and> unat (h_GasUsed (b_header b)) \<le> unat (h_GasLimit (b_header b))"

lemma env_done_account:
  assumes "env_done C bc B env"
  shows "list_all2 (receipt_of C bc) (ev_txs env) (ev_receipts env)" "accounted (ev_receipts env) (h_GasUsed (ev_header env))"
    "unat (h_GasUsed (ev_header env)) \<le> unat (h_GasLimit (ev_header env))" "h_Number (ev_header env) \<noteq> None"
  using assms by (auto simp: env_done_def env_ok_def env_fresh_def accounted_def)

lemma assembled_by_engine:
  assumes "worker_ok C bc H B w" "hasher_ok H" "env_done C bc B env" "h_Bloom (ev_header env) = replicate 256 0"
    and "wk_FinalizeAndAssemble w (ev_header env) (ev_state env) (ev_txs env) us (ev_receipts env) ws = Ok b"
  shows "assembled C bc (ev_header env) (ev_receipts env) b"
proof -
  from assms(1,5) obtain h' us' x where h: "same_work (ev_header env) h'" and b: "b = NewBlockWithWithdrawals C bc H h' (ev_txs env) us' (ev_receipts env) ws x"
    unfolding worker_ok_def by blast
  have "h_Bloom h' = replicate 256 0" using h assms(4) by (simp add: same_work_def)
  then have "h_Bloom (b_header b) = CreateBloom (Keccak256 C) (ev_receipts env)" unfolding b by (intro NewBlock_header(3) [OF assms(2)] disjI2)
  then show ?thesis using env_done_account [OF assms(3)] by (auto simp: assembled_def b same_work_header [OF h] NewBlock_body(1))
qed

lemma generateWork_assembled:
  assumes "backend_ok B" "worker_ok C bc H B w" "hasher_ok H" "signals_ok sig1" "signals_ok sig2" "prepared C B w parent n fee env"
    and "prepareWork C w params = Some (Ok env)" "by_account C (ev_signer env) (wk_Pending w)"
  obtains (failed) e where "generateWork C bc B w sig1 sig2 params = Some (Err e)" "work_fails w params parent e"
    | (block) b receipts fees where "generateWork C bc B w sig1 sig2 params = Some (Ok (b, fees))" "assembled C bc (ev_header env) receipts b"
      "totalFees b receipts = Some fees"
proof -
  have p: "processor_ok B (wk_chain w)" using assms(2) by (simp add: worker_ok_def)
  have d: "env_done C bc B env" using assms(6) by (simp add: prepared_def env_done_def)
  from fillTransactions_done [OF assms(1) p assms(4,5,8) d] obtain env' err where
    f: "(if gp_noTxs params then Some (env, None) else fillTransactions C bc B w sig1 sig2 env) = Some (env', err)" "env_done C bc B env'" "env_ext env env'"
    using d env_ext_refl [of env] by (cases "gp_noTxs params") auto
  have bl: "h_Bloom (ev_header env') = replicate 256 0" using f(3) assms(6) by (auto simp: env_ext_def prepared_def)
  show thesis
  proof (cases "wk_FinalizeAndAssemble w (ev_header env') (ev_state env') (ev_txs env') (unclelist env') (ev_receipts env') (gp_withdrawals params)")
    case (Inl e)
    then have "work_fails w params parent (ErrEngine e)" unfolding work_fails_def by blast
    then show thesis using failed [of "ErrEngine e"] assms(7) f(1) Inl by (simp add: generateWork_def)
  next
    case (Inr b)
    have a: "assembled C bc (ev_header env') (ev_receipts env') b" by (rule assembled_by_engine [OF assms(2,3) f(2) bl Inr])
    then have "length (b_transactions b) = length (ev_receipts env')" by (auto simp: assembled_def dest: list_all2_lengthD)
    then obtain fees where t: "totalFees b (ev_receipts env') = Some fees" by (simp add: totalFees_def)
    moreover have "assembled C bc (ev_header env) (ev_receipts env') b" using a f(3) by (auto simp: assembled_def env_ext_def)
    ultimately show thesis using block [of b fees "ev_receipts env'"] assms(7) f(1) Inr by (simp add: generateWork_def)
  qed
qed

end
