(* ===== verification/Ext_Adapter.thy ===== *)
theory Ext_Adapter
  imports Types_Body Step_Systems
begin

text \<open>
  The Narwhal adapter (\<^verbatim>\<open>extadapter/extadapter.go\<close>): submission of a sealed block to the
  gateway, the notifications that come back, the channel that hands committed headers to the miner,
  and the coding of auditor signatures in the extra field of a header.  The gRPC connection to the
  gateway is outside the repository; its answers are the argument of type \<open>gateway\<close>.
\<close>

section \<open>Definitions\<close>

definition ExtraAuditorSignature :: nat where
  "ExtraAuditorSignature = 65"

definition ExtraAuditorStartPos :: nat where
  "ExtraAuditorStartPos = 120"

definition PaddingBitsLength :: nat where
  "PaddingBitsLength = 4"

record NarwhalCommitEvent =
  NarwhalSequenceNumber :: u64
  EthSequenceNumbers :: "u64 list"
  EthBlockDigest :: "bytes list"
  evt_Extensions :: bytes
  LeaderHeaderDigest :: bytes

record NarwhalOutput =
  no_Headers :: "Header list"
  no_Evt :: NarwhalCommitEvent

record 'c NarwhalAdapter =
  hostAddress :: string
  gatewayAddress :: string
  gatewayConn :: "'c option"
  outc :: "NarwhalOutput list"
  committedSeqs :: "u64 \<Rightarrow> bool option"

definition GetNarwhalAdapter :: "string \<Rightarrow> string \<Rightarrow> 'c NarwhalAdapter" where
  "GetNarwhalAdapter hostAddr gatewayAddr =
     \<lparr>hostAddress = hostAddr, gatewayAddress = gatewayAddr, gatewayConn = None, outc = [],
      committedSeqs = Map.empty\<rparr>"

subsection \<open>Submitting a block\<close>

datatype conn_state = Idle | Connecting | Ready | TransientFailure | Shutdown

record Proposal =
  EthereumBlock :: bytes
  EthereumHeader :: bytes

record 'c gateway =
  gw_Dial :: "string \<Rightarrow> string + 'c"
  gw_Serving :: "'c \<Rightarrow> string + bool"
  gw_GetState :: "'c \<Rightarrow> conn_state"
  gw_SubmitTransaction :: "'c \<Rightarrow> Proposal \<Rightarrow> string + string"

datatype na_err =
    ErrDial string
  | ErrConnectionLost
  | ErrSubmit string
  | ErrSubmitFailed
  | ErrNoMatchingNumber "int option" "int option list"

definition CheckConnection :: "'c gateway \<Rightarrow> 'c NarwhalAdapter \<Rightarrow> bool" where
  "CheckConnection gw na =
     (case gatewayConn na of None \<Rightarrow> False
      | Some conn \<Rightarrow>
          (case gw_Serving gw conn of Err _ \<Rightarrow> False
           | Ok serving \<Rightarrow>
               if \<not> serving then False
               else (case gw_GetState gw conn of
                       Idle \<Rightarrow> True
                     | Shutdown \<Rightarrow> True
                     | TransientFailure \<Rightarrow> False
                     | _ \<Rightarrow> True)))"

text \<open>\<open>encodeBlock\<close> panics when either encoding fails: \<open>None\<close>.\<close>

definition na_encodeBlock :: "blobCodec \<Rightarrow> Block \<Rightarrow> (bytes \<times> bytes) option" where
  "na_encodeBlock bc block =
     (case EncodeBlock bc block of
        Ok (Some blockBytes) \<Rightarrow>
          (case EncodeHeader (Block_Header block) of
             Ok (Some headerBytes) \<Rightarrow> Some (blockBytes, headerBytes)
           | _ \<Rightarrow> None)
      | _ \<Rightarrow> None)"

definition getGatewayClient :: "'c gateway \<Rightarrow> 'c NarwhalAdapter \<Rightarrow> 'c NarwhalAdapter \<times> na_err option" where
  "getGatewayClient gw na =
     (case gw_Dial gw (gatewayAddress na) of
        Err e \<Rightarrow> (na, Some (ErrDial e))
      | Ok conn \<Rightarrow> (na\<lparr>gatewayConn := Some conn\<rparr>, None))"

text \<open>The result is \<open>None\<close> when \<open>encodeBlock\<close> panics.\<close>

definition Broadcast :: "'c gateway \<Rightarrow> blobCodec \<Rightarrow> Block \<Rightarrow> 'c NarwhalAdapter \<Rightarrow>
    'c NarwhalAdapter \<times> na_err option option" where
  "Broadcast gw bc block na =
     (case (if gatewayConn na = None then getGatewayClient gw na else (na, None)) of
        (na, Some err) \<Rightarrow> (na, Some (Some err))
      | (na, None) \<Rightarrow>
          if \<not> CheckConnection gw na then (na, Some (Some ErrConnectionLost))
          else (case na_encodeBlock bc block of None \<Rightarrow> (na, None)
            | Some (blockBytes, headerBytes) \<Rightarrow>
                (case gw_SubmitTransaction gw (the (gatewayConn na))
                        \<lparr>EthereumBlock = blockBytes, EthereumHeader = headerBytes\<rparr> of
                   Err e \<Rightarrow> (na, Some (Some (ErrSubmit e)))
                 | Ok resp \<Rightarrow> (na, Some (if resp = ''fail'' then Some ErrSubmitFailed else None)))))"

subsection \<open>Notifications\<close>

datatype notify_result =
    Resp string
  | Pending NarwhalOutput
  | Panic rlp_err

text \<open>\<open>na_decode\<close> is the loop over the header bytes; a header that does not decode panics.\<close>

fun na_decode :: "bytes list \<Rightarrow> rlp_err + Header list" where
  "na_decode [] = Ok []"
| "na_decode (b # bs) =
     (case DecodeHeader b of
        Some (Ok h) \<Rightarrow> (case na_decode bs of Ok hs \<Rightarrow> Ok (h # hs) | Err e \<Rightarrow> Err e)
      | Some (Err e) \<Rightarrow> Err e
      | None \<Rightarrow> Err EOF)"

text \<open>\<open>Notify\<close> up to the send on \<open>outc\<close>, which may have to wait for room in the channel: the test for a
  duplicate, and what follows it for a new sequence number.  The handler holds no lock between the two.\<close>

definition Notify_duplicate :: "NarwhalCommitEvent \<Rightarrow> 'c NarwhalAdapter \<Rightarrow> bool" where
  "Notify_duplicate req na \<longleftrightarrow> committedSeqs na (NarwhalSequenceNumber req) \<noteq> None"

definition Notify_new :: "NarwhalCommitEvent \<Rightarrow> 'c NarwhalAdapter \<Rightarrow> 'c NarwhalAdapter \<times> notify_result" where
  "Notify_new req na =
     (let na = na\<lparr>committedSeqs := (committedSeqs na)(NarwhalSequenceNumber req \<mapsto> True)\<rparr>
      in (case na_decode (EthBlockDigest req) of
            Err e \<Rightarrow> (na, Panic e)
          | Ok headers \<Rightarrow> (na, Pending \<lparr>no_Headers = headers, no_Evt = req\<rparr>)))"

definition Notify :: "NarwhalCommitEvent \<Rightarrow> 'c NarwhalAdapter \<Rightarrow> 'c NarwhalAdapter \<times> notify_result" where
  "Notify req na =
     (if Notify_duplicate req na then (na, Resp ''already got it, but thanks tho'')
      else Notify_new req na)"

definition outc_cap :: nat where
  "outc_cap = 100"

text \<open>The send and the receive on the channel; \<open>None\<close> when they block.\<close>

definition Notify_send :: "NarwhalOutput \<Rightarrow> 'c NarwhalAdapter \<Rightarrow> ('c NarwhalAdapter \<times> string) option" where
  "Notify_send narwhalOut na =
     (if length (outc na) < outc_cap then Some (na\<lparr>outc := outc na @ [narwhalOut]\<rparr>, ''thanks'') else None)"

definition WaitForCommit :: "'c NarwhalAdapter \<Rightarrow> ('c NarwhalAdapter \<times> NarwhalOutput) option" where
  "WaitForCommit na = (case outc na of [] \<Rightarrow> None | evt # rest \<Rightarrow> Some (na\<lparr>outc := rest\<rparr>, evt))"

subsection \<open>Matching the committed headers\<close>

fun rebuild_loop :: "Block \<Rightarrow> Header list \<Rightarrow> int option list \<Rightarrow> na_err + Block" where
  "rebuild_loop block [] numbers = Err (ErrNoMatchingNumber (h_Number (Block_Header block)) numbers)"
| "rebuild_loop block (h # hs) numbers =
     (if h_Number (Block_Header block) = h_Number h then Ok (WithSeal block (Block_Header block))
      else rebuild_loop block hs (numbers @ [h_Number h]))"

definition RebuildHeaderWithNarwhalSig :: "Block \<Rightarrow> NarwhalOutput \<Rightarrow> na_err + Block" where
  "RebuildHeaderWithNarwhalSig block co = rebuild_loop block (no_Headers co) []"

subsection \<open>Auditor signatures in the extra field\<close>

text \<open>\<open>binary.LittleEndian\<close> on four bytes.\<close>

definition PutUint32 :: "32 word \<Rightarrow> bytes" where
  "PutUint32 v = map (\<lambda>k. ucast (drop_bit (8 * k) v)) [0..<4]"

definition LE_Uint32 :: "bytes \<Rightarrow> 32 word" where
  "LE_Uint32 b = ucast (b ! 0) OR push_bit 8 (ucast (b ! 1)) OR push_bit 16 (ucast (b ! 2)) OR push_bit 24 (ucast (b ! 3))"

definition EncodeExtraWithPaddings :: "bytes \<Rightarrow> bytes list \<Rightarrow> bytes option" where
  "EncodeExtraWithPaddings extra auditorSignatures =
     (if length extra \<ge> ExtraAuditorStartPos then None
      else
        let paddingSize = of_nat (ExtraAuditorStartPos - length extra) :: 32 word;
            bs = PutUint32 paddingSize;
            extra = extra @ replicate (unat paddingSize) 0;
            extra = extra @ bs
        in Some (extra @ concat auditorSignatures))"

text \<open>A slice expression panics when a bound exceeds the capacity of the slice; the bytes between the
  length of \<open>extra\<close> and its capacity are the argument \<open>spare\<close>.\<close>

definition GetOriginalExtra :: "bytes \<Rightarrow> bytes \<Rightarrow> bytes option" where
  "GetOriginalExtra extra spare =
     (if length extra < ExtraAuditorStartPos then None
      else if length (extra @ spare) < ExtraAuditorStartPos + 4 then None
      else
        let paddingBytes = slice (extra @ spare) ExtraAuditorStartPos (ExtraAuditorStartPos + 4);
            paddingSize = LE_Uint32 paddingBytes;
            n = unat (of_nat ExtraAuditorStartPos - paddingSize)
        in if n > length (extra @ spare) then None else Some (take n (extra @ spare)))"

text \<open>Division of integers truncates towards zero; a negative length panics in \<open>make\<close>.\<close>

definition GetAuditorSignatures :: "bytes \<Rightarrow> bytes \<Rightarrow> bytes list option" where
  "GetAuditorSignatures extra spare =
     (let startPos = ExtraAuditorStartPos + PaddingBitsLength;
          bound = (\<lambda>i. startPos + ((i + 1) * ExtraAuditorSignature + ExtraAuditorSignature));
          numSigs = (length extra - ExtraAuditorStartPos) div ExtraAuditorSignature
      in if length extra + ExtraAuditorSignature \<le> ExtraAuditorStartPos then None
         else if list_ex (\<lambda>i. bound i > length (extra @ spare)) [0..<numSigs] then None
         else Some (map (\<lambda>i. slice (extra @ spare) (startPos + i * ExtraAuditorSignature) (bound i)) [0..<numSigs]))"

text \<open>\<open>extractSigAndVerify\<close>; \<open>textHash\<close> is \<open>accounts.TextHash\<close>.\<close>

definition extractSigAndVerify :: "'k crypto \<Rightarrow> (bytes \<Rightarrow> bytes) \<Rightarrow> bytes \<Rightarrow> bytes \<Rightarrow> bytes \<Rightarrow> bool option" where
  "extractSigAndVerify C textHash extra body sig =
     (if length extra < ExtraAuditorStartPos then None
      else Some (case Ecrecover C (textHash body) (drop (length extra - ExtraAuditorStartPos) extra) of
                   Err _ \<Rightarrow> False | Ok _ \<Rightarrow> True))"

subsection \<open>The adapter as a transition system\<close>

text \<open>Handlers of \<open>Notify\<close> run concurrently: \<open>waiting\<close> are those that have decoded their event and are
  about to send it on the channel.  The part of a handler before the send is one step, so the test for a
  duplicate and the marking of the sequence number are taken to be atomic.  \<open>sent\<close> and \<open>delivered\<close> record the sends and receives so far.\<close>

record 'c na_system =
  adapter :: "'c NarwhalAdapter"
  waiting :: "NarwhalOutput list"
  sent :: "NarwhalOutput list"
  delivered :: "NarwhalOutput list"

inductive na_init :: "'c na_system \<Rightarrow> bool" where
  "na_init \<lparr>adapter = GetNarwhalAdapter host gw, waiting = [], sent = [], delivered = []\<rparr>"

inductive na_step :: "'c na_system \<Rightarrow> 'c na_system \<Rightarrow> bool" where
  notify_duplicate:
    "Notify req (adapter s) = (na, Resp r) \<Longrightarrow> na_step s (s\<lparr>adapter := na\<rparr>)"
| notify_new:
    "Notify req (adapter s) = (na, Pending out) \<Longrightarrow>
     na_step s (s\<lparr>adapter := na, waiting := waiting s @ [out]\<rparr>)"
| send:
    "waiting s = xs @ out # ys \<Longrightarrow> Notify_send out (adapter s) = Some (na, r) \<Longrightarrow>
     na_step s (s\<lparr>adapter := na, waiting := xs @ ys, sent := sent s @ [out]\<rparr>)"
| receive:
    "WaitForCommit (adapter s) = Some (na, out) \<Longrightarrow>
     na_step s (s\<lparr>adapter := na, delivered := delivered s @ [out]\<rparr>)"
| broadcast:
    "Broadcast gw bc block (adapter s) = (na, r) \<Longrightarrow> na_step s (s\<lparr>adapter := na\<rparr>)"

inductive_cases na_stepE: "na_step s s'"

section \<open>Lemmas\<close>

subsection \<open>Reachable states of the adapter\<close>

abbreviation seq_of :: "NarwhalOutput \<Rightarrow> u64" where
  "seq_of out \<equiv> NarwhalSequenceNumber (no_Evt out)"

definition out_ok :: "NarwhalOutput \<Rightarrow> bool" where
  "out_ok out \<longleftrightarrow> na_decode (EthBlockDigest (no_Evt out)) = Ok (no_Headers out)"

definition na_inv :: "'c na_system \<Rightarrow> bool" where
  "na_inv s \<longleftrightarrow>
     length (outc (adapter s)) \<le> outc_cap
   \<and> sent s = delivered s @ outc (adapter s)
   \<and> distinct (map seq_of (sent s @ waiting s))
   \<and> (\<forall>out \<in> set (sent s @ waiting s). out_ok out \<and> committedSeqs (adapter s) (seq_of out) \<noteq> None)"

lemma Notify_cases:
  assumes "Notify req na = (na', r)"
  obtains (duplicate) "na' = na" "r = Resp ''already got it, but thanks tho''"
    | (panic) e where "r = Panic e"
    | (new) hs where "committedSeqs na (NarwhalSequenceNumber req) = None" "na_decode (EthBlockDigest req) = Ok hs"
      "na' = na\<lparr>committedSeqs := (committedSeqs na)(NarwhalSequenceNumber req \<mapsto> True)\<rparr>"
      "r = Pending \<lparr>no_Headers = hs, no_Evt = req\<rparr>"
  using assms by (auto simp: Notify_def Notify_duplicate_def Notify_new_def Let_def split: if_splits sum.splits)

lemma Broadcast_keeps:
  "Broadcast gw bc block na = (na', r) \<Longrightarrow> outc na' = outc na \<and> committedSeqs na' = committedSeqs na"
  by (auto simp: Broadcast_def getGatewayClient_def split: if_splits sum.splits prod.splits option.splits)

lemma na_invD:
  assumes "na_inv s"
  shows "length (outc (adapter s)) \<le> outc_cap" "sent s = delivered s @ outc (adapter s)"
    "distinct (map seq_of (sent s @ waiting s))"
    "\<forall>out \<in> set (sent s @ waiting s). out_ok out \<and> committedSeqs (adapter s) (seq_of out) \<noteq> None"
  using assms unfolding na_inv_def by blast+

lemma na_init_inv: "na_init s \<Longrightarrow> na_inv s"
  by (auto simp: na_init.simps na_inv_def GetNarwhalAdapter_def)

lemma na_step_inv: "na_step s s' \<Longrightarrow> na_inv s \<Longrightarrow> na_inv s'"
proof (induction rule: na_step.induct)
  case (notify_duplicate req s na r)
  have "na = adapter s" using notify_duplicate(1) by (auto elim!: Notify_cases)
  then show ?case using notify_duplicate(2) by simp
next
  case (notify_new req s na out)
  then obtain hs where new: "committedSeqs (adapter s) (NarwhalSequenceNumber req) = None"
    "na_decode (EthBlockDigest req) = Ok hs" "out = \<lparr>no_Headers = hs, no_Evt = req\<rparr>"
    "na = (adapter s)\<lparr>committedSeqs := (committedSeqs (adapter s))(NarwhalSequenceNumber req \<mapsto> True)\<rparr>"
    by (auto elim!: Notify_cases)
  note inv = na_invD [OF notify_new(2)]
  have fresh: "seq_of out \<notin> set (map seq_of (sent s @ waiting s))"
    using inv(4) new(1,3) by force
  have "\<forall>o' \<in> set (sent s @ waiting s @ [out]). out_ok o' \<and> committedSeqs na (seq_of o') \<noteq> None"
    using inv(4) new by (auto simp: out_ok_def)
  moreover have "distinct (map seq_of (sent s @ waiting s @ [out]))"
    using inv(3) fresh distinct_append [of "map seq_of (sent s @ waiting s)" "[seq_of out]"] by simp
  ultimately show ?case using inv(1,2) new(4) by (simp add: na_inv_def)
next
  case (send s xs out ys na r)
  then have na: "length (outc (adapter s)) < outc_cap" "na = (adapter s)\<lparr>outc := outc (adapter s) @ [out]\<rparr>"
    by (auto simp: Notify_send_def split: if_splits)
  have "distinct (map seq_of ((sent s @ [out]) @ xs @ ys))" "set ((sent s @ [out]) @ xs @ ys) = set (sent s @ waiting s)"
    using na_invD(3) [OF send(3)] send(1) by auto
  then show ?case using na_invD [OF send(3)] na by (simp add: na_inv_def send(1))
next
  case (receive s na out)
  then obtain rest where "outc (adapter s) = out # rest" "na = (adapter s)\<lparr>outc := rest\<rparr>"
    by (auto simp: WaitForCommit_def split: list.splits)
  then show ?case using na_invD [OF receive(2)] by (simp add: na_inv_def)
next
  case (broadcast gw bc block s na r)
  then show ?case using Broadcast_keeps [OF broadcast(1)] na_invD [OF broadcast(2)] by (simp add: na_inv_def)
qed

interpretation na: step_invariant na_init na_step na_inv
  by unfold_locales (auto intro: na_init_inv na_step_inv)

subsection \<open>Matching\<close>

lemma rebuild_loop_ok:
  "(\<exists>h \<in> set hs. h_Number h = h_Number (Block_Header block)) \<Longrightarrow>
     rebuild_loop block hs ns = Ok (WithSeal block (Block_Header block))"
  by (induction hs arbitrary: ns) auto

lemma rebuild_loop_err:
  "\<forall>h \<in> set hs. h_Number h \<noteq> h_Number (Block_Header block) \<Longrightarrow>
     rebuild_loop block hs ns = Err (ErrNoMatchingNumber (h_Number (Block_Header block)) (ns @ map h_Number hs))"
  by (induction hs arbitrary: ns) auto

lemma CopyHeader_id: "h_Difficulty h \<noteq> None \<Longrightarrow> h_Number h \<noteq> None \<Longrightarrow> CopyHeader h = h"
  by (auto simp: CopyHeader_def)

lemma na_decode_mem:
  "na_decode bs = Ok hs \<Longrightarrow> b \<in> set bs \<Longrightarrow> \<exists>h \<in> set hs. DecodeHeader b = Some (Ok h)"
  by (induction bs arbitrary: hs) (auto split: option.splits sum.splits)

subsection \<open>Padding of the extra field\<close>

lemma LE_PutUint32: "LE_Uint32 (PutUint32 v) = v"
proof (rule bit_word_eqI)
  fix n assume n: "n < LENGTH(32)"
  consider "n < 8" | "8 \<le> n" "n < 16" | "16 \<le> n" "n < 24" | "24 \<le> n" by linarith
  then show "bit (LE_Uint32 (PutUint32 v)) n = bit v n"
    using n unfolding LE_Uint32_def PutUint32_def
    by cases (auto simp: bit_simps upt_rec simp del: upt_Suc)
qed

section \<open>Properties\<close>


definition sample_event :: "u64 \<Rightarrow> bytes list \<Rightarrow> NarwhalCommitEvent" where
  "sample_event n bs = \<lparr>NarwhalSequenceNumber = n, EthSequenceNumbers = [], EthBlockDigest = bs,
     evt_Extensions = [], LeaderHeaderDigest = []\<rparr>"

abbreviation sample_output :: NarwhalOutput where
  "sample_output \<equiv> \<lparr>no_Headers = [], no_Evt = sample_event 7 []\<rparr>"

definition sample_start :: "unit na_system" where
  "sample_start = \<lparr>adapter = GetNarwhalAdapter [] [], waiting = [], sent = [], delivered = []\<rparr>"

definition sample_end :: "unit na_system" where
  "sample_end = \<lparr>adapter = (GetNarwhalAdapter [] [])\<lparr>committedSeqs := [7 \<mapsto> True]\<rparr>, waiting = [],
     sent = [sample_output], delivered = [sample_output]\<rparr>"

lemma sample_run: "na_init sample_start" "na_step\<^sup>*\<^sup>* sample_start sample_end"
proof -
  show "na_init sample_start" unfolding sample_start_def by (rule na_init.intros)
  let ?na = "(GetNarwhalAdapter [] [] :: unit NarwhalAdapter)\<lparr>committedSeqs := [7 \<mapsto> True]\<rparr>"
  have "na_step sample_start (sample_start\<lparr>adapter := ?na, waiting := waiting sample_start @ [sample_output]\<rparr>)"
    by (rule na_step.notify_new [of "sample_event 7 []"])
       (simp add: sample_start_def Notify_def Notify_duplicate_def Notify_new_def GetNarwhalAdapter_def sample_event_def)
  moreover have "na_step (sample_start\<lparr>adapter := ?na, waiting := waiting sample_start @ [sample_output]\<rparr>)
      (sample_start\<lparr>adapter := ?na\<lparr>outc := [sample_output]\<rparr>, waiting := [], sent := [sample_output]\<rparr>)"
    using na_step.send [of "sample_start\<lparr>adapter := ?na, waiting := [sample_output]\<rparr>" "[]" sample_output "[]"]
    by (simp add: sample_start_def Notify_send_def GetNarwhalAdapter_def outc_cap_def)
  moreover have "na_step (sample_start\<lparr>adapter := ?na\<lparr>outc := [sample_output]\<rparr>, waiting := [], sent := [sample_output]\<rparr>)
      sample_end"
    using na_step.receive [of "sample_start\<lparr>adapter := ?na\<lparr>outc := [sample_output]\<rparr>, waiting := [], sent := [sample_output]\<rparr>"
        ?na sample_output]
    by (simp add: sample_start_def sample_end_def WaitForCommit_def GetNarwhalAdapter_def)
  ultimately show "na_step\<^sup>*\<^sup>* sample_start sample_end" 
    by (blast intro: converse_rtranclp_into_rtranclp)
qed


text \<open>C21: The ordering round trip: the bytes submitted for a well-formed block are its encoding and that of
  its header, and once a commit event with a new sequence number carries those header bytes among others
  that decode, \<open>Notify\<close> accepts it and \<open>RebuildHeaderWithNarwhalSig\<close> returns that very block.\<close>

theorem commit_rebuilds_block:
  assumes "block_ok block" "length (rlp_list (block_payload block)) < 2 ^ 63"
    and "header_bytes (b_header block) \<in> set (EthBlockDigest req)"
    and "committedSeqs na (NarwhalSequenceNumber req) = None" "na_decode (EthBlockDigest req) = Ok hs"
  shows "na_encodeBlock bc block = Some (rlp_list (block_payload block), header_bytes (b_header block))
    \<and> (\<exists>na' out. Notify req na = (na', Pending out) \<and> RebuildHeaderWithNarwhalSig block out = Ok block)"
proof -
  have ok: "header_ok (b_header block)" using assms(1) by (simp add: block_ok_def)
  have len: "length (header_bytes (b_header block)) < 2 ^ 63" "length (h_Extra (b_header block)) < 2 ^ 63"
    using assms(2) length_rlp_list [of "block_payload block"] Extra_le [of "b_header block"]
    by (simp_all add: block_payload_def)
  have "h_Difficulty (b_header block) \<noteq> None" "h_Number (b_header block) \<noteq> None"
    using ok by (auto simp: header_ok_def)
  then have hdr: "Block_Header block = b_header block" by (simp add: Block_Header_def CopyHeader_id)
  have "\<exists>h \<in> set hs. h_Number h = h_Number (Block_Header block)"
    using na_decode_mem [OF assms(5,3)] DecodeHeader_bytes [OF ok len(1)] by (auto simp: hdr)
  from rebuild_loop_ok [OF this] have "RebuildHeaderWithNarwhalSig block \<lparr>no_Headers = hs, no_Evt = req\<rparr> = Ok block"
    by (simp add: RebuildHeaderWithNarwhalSig_def hdr WithSeal_def CopyHeader_id ok [unfolded header_ok_def])
  then show ?thesis using assms(4,5) EncodeBlock_bytes [OF assms(1,2), of bc] EncodeHeader_eq [OF ok len]
    by (auto simp: Notify_def Notify_duplicate_def Notify_new_def Let_def na_encodeBlock_def hdr)
qed

theorem commit_rebuilds_block_witness:
  "\<exists>na' out. Notify (sample_event 7 [header_bytes zero_header]) (GetNarwhalAdapter [] [] :: unit NarwhalAdapter) = (na', Pending out)
     \<and> RebuildHeaderWithNarwhalSig (NewBlockWithHeader zero_header) out = Ok (NewBlockWithHeader zero_header)"
proof -
  have h: "b_header (NewBlockWithHeader zero_header) = zero_header"
    by (simp add: NewBlockWithHeader_def CopyHeader_def zero_header_def)
  have d: "na_decode (EthBlockDigest (sample_event 7 [header_bytes zero_header])) = Ok [zero_header]"
    by (simp add: sample_event_def DecodeHeader_bytes [OF zero_header_ok])
  show ?thesis
    by (rule conjunct2 [OF commit_rebuilds_block [OF zero_block_ok _ _ d, of "GetNarwhalAdapter [] []" sample_codec]])
       (simp_all add: h sample_event_def GetNarwhalAdapter_def)
qed

text \<open>Two handlers of the same event that both pass the duplicate test before either marks it both go on to
  deliver: the test and the marking are not atomic in the code.\<close>

lemma Notify_race:
  assumes "\<not> Notify_duplicate req na" "na_decode (EthBlockDigest req) = Ok hs"
  shows "\<exists>na' out. Notify_new req na = (na', Pending out) \<and> snd (Notify_new req na') = Pending out"
  using assms by (simp add: Notify_new_def Let_def)

text \<open>An event with an undecodable header panics, and its sequence number stays marked: the same event
  delivered again is taken for a duplicate.\<close>

lemma Notify_undecodable:
  assumes "committedSeqs na (NarwhalSequenceNumber req) = None" "na_decode (EthBlockDigest req) = Err e"
  shows "snd (Notify req na) = Panic e
    \<and> snd (Notify req (fst (Notify req na))) = Resp ''already got it, but thanks tho''"
  using assms by (simp add: Notify_def Notify_duplicate_def Notify_new_def Let_def)

text \<open>The cases for an idle and for a shut-down connection have empty bodies, so both count as connected.\<close>

lemma CheckConnection_iff:
  "CheckConnection gw na \<longleftrightarrow>
     (\<exists>conn. gatewayConn na = Some conn \<and> gw_Serving gw conn = Ok True \<and> gw_GetState gw conn \<noteq> TransientFailure)"
  by (auto simp: CheckConnection_def split: option.splits sum.splits conn_state.splits)

lemma EncodeExtra_eq:
  "EncodeExtraWithPaddings extra sigs =
     (if length extra < 120 then Some (extra @ replicate (120 - length extra) 0 @
        PutUint32 (of_nat (120 - length extra)) @ concat sigs) else None)"
proof -
  define k where "k = 120 - length extra"
  have "unat (of_nat k :: 32 word) = k" by (simp add: unat_of_nat take_bit_nat_eq_self k_def)
  then show ?thesis
    unfolding EncodeExtraWithPaddings_def Let_def ExtraAuditorStartPos_def k_def [symmetric] by auto
qed

text \<open>Padding the extra field and reading the original back is the identity, whatever signatures are
  appended; a field of 120 bytes or more is refused, and the result has the length the layout announces.\<close>

theorem GetOriginalExtra_Encode:
  "EncodeExtraWithPaddings extra sigs =
     (if length extra < 120 then Some (extra @ replicate (120 - length extra) 0 @
        PutUint32 (of_nat (120 - length extra)) @ concat sigs) else None)
   \<and> Option.bind (EncodeExtraWithPaddings extra sigs) (\<lambda>out. GetOriginalExtra out spare) =
     (if length extra < 120 then Some extra else None)"
proof -
  define k where "k = 120 - length extra"
  let ?p = "of_nat k :: 32 word"
  let ?out = "extra @ replicate k 0 @ PutUint32 ?p @ concat sigs"
  have p: "unat ?p = k" by (simp add: unat_of_nat take_bit_nat_eq_self k_def)
  note 1 = EncodeExtra_eq [of extra sigs, folded k_def]
  have "GetOriginalExtra ?out spare = Some extra" if l: "length extra < 120" for spare
  proof -
    have len: "length (PutUint32 ?p) = 4" by (simp add: PutUint32_def)
    have k: "length extra + k = 120" using l by (simp add: k_def)
    have "slice (?out @ spare) 120 124 = PutUint32 ?p"
      using k len by (simp add: slice_def)
    moreover have "unat (120 - ?p) = length extra"
      using k p unat_sub [of ?p 120] by (simp add: word_le_nat_alt)
    ultimately show ?thesis
      using k len by (simp add: GetOriginalExtra_def Let_def ExtraAuditorStartPos_def LE_PutUint32)
  qed
  with 1 show ?thesis by (auto simp: k_def)
qed

text \<open>\<open>GetAuditorSignatures\<close> takes twice the length of a signature per entry: with exactly one signature in a
  field whose capacity is its length the slice is out of range, and the call panics.\<close>

lemma GetAuditorSignatures_one:
  assumes "EncodeExtraWithPaddings extra [sig] = Some out" "length sig = 65"
  shows "GetAuditorSignatures out [] = None"
proof -
  have "length out = 189" using assms by (auto simp: EncodeExtra_eq PutUint32_def split: if_splits)
  then show ?thesis
    by (simp add: GetAuditorSignatures_def Let_def ExtraAuditorStartPos_def PaddingBitsLength_def
        ExtraAuditorSignature_def)
qed

end
