(* ===== verification/Miner_Seal.thy ===== *)
theory Miner_Seal
  imports Miner_Worker Ext_Adapter
begin

text \<open>
  Sealing a block and writing it (\<^verbatim>\<open>miner/worker.go\<close>, \<open>taskLoop\<close> and \<open>resultLoop\<close>; \<^verbatim>\<open>miner/unconfirmed.go\<close>): the goroutines
  that hand tasks to the consensus engine, take sealed blocks, have them ordered by Narwhal and write them, as one
  transition system with the adapter's notification handlers.
\<close>

section \<open>Definitions\<close>

subsection \<open>Unconfirmed blocks\<close>

text \<open>The ring is the list of its elements from the oldest on.\<close>

record unconfirmedBlock =
  ub_index :: u64
  ub_hash :: hash

record unconfirmedBlocks =
  us_depth :: u64
  us_blocks :: "unconfirmedBlock list"

definition newUnconfirmedBlocks :: "u64 \<Rightarrow> unconfirmedBlocks" where
  "newUnconfirmedBlocks depth = \<lparr>us_depth = depth, us_blocks = []\<rparr>"

record chainRetriever =
  cr_GetHeaderByNumber :: "u64 \<Rightarrow> Header option"
  cr_GetBlockByNumber :: "u64 \<Rightarrow> Block option"

text \<open>What is reported of a block that leaves the set.\<close>

datatype report = NoHeader unconfirmedBlock | Canonical unconfirmedBlock | BecameUncle unconfirmedBlock | BlockLost unconfirmedBlock

text \<open>The search for the block among the uncles; the loop runs at most \<open>depth\<close> times, the first argument counts down from there.\<close>

fun uncle_search :: "nat \<Rightarrow> 'k crypto \<Rightarrow> chainRetriever \<Rightarrow> u64 \<Rightarrow> u64 \<Rightarrow> hash \<Rightarrow> u64 \<Rightarrow> bool" where
  "uncle_search 0 C chain limit height h number = False"
| "uncle_search (Suc k) C chain limit height h number =
     (if number < limit \<and> number \<le> height then
        (case cr_GetBlockByNumber chain number of
           Some block \<Rightarrow> h \<in> set (map (Header_Hash C) (b_uncles block)) \<or> uncle_search k C chain limit height h (number + 1)
         | None \<Rightarrow> uncle_search k C chain limit height h (number + 1))
      else False)"

definition confirm :: "'k crypto \<Rightarrow> chainRetriever \<Rightarrow> u64 \<Rightarrow> u64 \<Rightarrow> unconfirmedBlock \<Rightarrow> report" where
  "confirm C chain depth height b =
     (case cr_GetHeaderByNumber chain (ub_index b) of
        None \<Rightarrow> NoHeader b
      | Some hdr \<Rightarrow>
          if Header_Hash C hdr = ub_hash b then Canonical b
          else if uncle_search (unat depth) C chain (ub_index b + depth) height (ub_hash b) (ub_index b) then BecameUncle b
          else BlockLost b)"

fun shift_blocks :: "'k crypto \<Rightarrow> chainRetriever \<Rightarrow> u64 \<Rightarrow> u64 \<Rightarrow> unconfirmedBlock list \<Rightarrow> unconfirmedBlock list \<times> report list" where
  "shift_blocks C chain depth height [] = ([], [])"
| "shift_blocks C chain depth height (b # bs) =
     (if ub_index b + depth > height then (b # bs, [])
      else case shift_blocks C chain depth height bs of (rest, reports) \<Rightarrow> (rest, confirm C chain depth height b # reports))"

definition unconfirmed_Shift :: "'k crypto \<Rightarrow> chainRetriever \<Rightarrow> u64 \<Rightarrow> unconfirmedBlocks \<Rightarrow> unconfirmedBlocks \<times> report list" where
  "unconfirmed_Shift C chain height us =
     (case shift_blocks C chain (us_depth us) height (us_blocks us) of (bs, reports) \<Rightarrow> (us\<lparr>us_blocks := bs\<rparr>, reports))"

definition unconfirmed_Insert :: "'k crypto \<Rightarrow> chainRetriever \<Rightarrow> u64 \<Rightarrow> hash \<Rightarrow> unconfirmedBlocks \<Rightarrow> unconfirmedBlocks \<times> report list" where
  "unconfirmed_Insert C chain index h us =
     (case unconfirmed_Shift C chain index us of (us, reports) \<Rightarrow>
        (us\<lparr>us_blocks := us_blocks us @ [\<lparr>ub_index = index, ub_hash = h\<rparr>]\<rparr>, reports))"

definition sealingLogAtDepth :: u64 where
  "sealingLogAtDepth = 0"

definition resultQueueSize :: nat where
  "resultQueueSize = 10"

definition staleThreshold :: u64 where
  "staleThreshold = 7"

subsection \<open>Tasks\<close>

record ('t, 'e) task =
  tk_receipts :: "Receipt list"
  tk_state :: "('t, 'e) StateDB"
  tk_block :: Block

text \<open>The task loop's variables and the table of pending tasks it shares with the other goroutines.  Stop channels are numbered in the
  order they are made; \<open>tl_closed\<close> are the closed ones.\<close>

record ('t, 'e) taskloop =
  tl_stopCh :: "nat option"
  tl_prev :: hash
  tl_made :: nat
  tl_closed :: "nat set"
  tl_pendingTasks :: "hash \<rightharpoonup> ('t, 'e) task"

definition tl_interrupt :: "('t, 'e) taskloop \<Rightarrow> ('t, 'e) taskloop" where
  "tl_interrupt l = (case tl_stopCh l of None \<Rightarrow> l | Some c \<Rightarrow> l\<lparr>tl_closed := insert c (tl_closed l), tl_stopCh := None\<rparr>)"

text \<open>One round of \<open>taskLoop\<close>; \<open>skipSeal\<close> is the hook, \<open>sealErr\<close> the answer of the engine's \<open>Seal\<close>.\<close>

definition taskLoop_task :: "(Header \<Rightarrow> hash) \<Rightarrow> (('t, 'e) task \<Rightarrow> bool) \<Rightarrow> string option \<Rightarrow> ('t, 'e) task \<Rightarrow> ('t, 'e) taskloop \<Rightarrow> ('t, 'e) taskloop" where
  "taskLoop_task SealHash skipSeal sealErr task l =
     (let sealHash = SealHash (Block_Header (tk_block task))
      in if sealHash = tl_prev l then l
         else
           let l = tl_interrupt l;
               l = l\<lparr>tl_stopCh := Some (tl_made l), tl_made := tl_made l + 1, tl_prev := sealHash\<rparr>
           in if skipSeal task then l
              else
                let l = l\<lparr>tl_pendingTasks := (tl_pendingTasks l)(sealHash \<mapsto> task)\<rparr>
                in if sealErr \<noteq> None then l\<lparr>tl_pendingTasks := (tl_pendingTasks l)(sealHash := None)\<rparr> else l)"

text \<open>\<open>clearPending\<close> of \<open>newWorkLoop\<close>.  The number of a task's block is there: blocks are made by \<open>NewBlock\<close>.\<close>

definition NumberU64 :: "Block \<Rightarrow> u64 option" where
  "NumberU64 b = map_option big_Uint64 (h_Number (b_header b))"

definition clearPending :: "u64 \<Rightarrow> ('t, 'e) taskloop \<Rightarrow> ('t, 'e) taskloop" where
  "clearPending number l = l\<lparr>tl_pendingTasks := (\<lambda>h. case tl_pendingTasks l h of None \<Rightarrow> None
     | Some t \<Rightarrow> (case NumberU64 (tk_block t) of Some n \<Rightarrow> if n + staleThreshold \<le> number then None else Some t | None \<Rightarrow> Some t))\<rparr>"

subsection \<open>Results\<close>

text \<open>The receipts of the task with the location of the block filled in.\<close>

definition seal_receipt :: "'k crypto \<Rightarrow> Block \<Rightarrow> nat \<Rightarrow> Receipt \<Rightarrow> Receipt" where
  "seal_receipt C block i r =
     (let h = Header_Hash C (b_header block)
      in r\<lparr>rc_BlockHash := h, rc_BlockNumber := h_Number (b_header block), rc_TransactionIndex := of_nat i,
           rc_Logs := map (\<lambda>l. l\<lparr>l_BlockHash := h\<rparr>) (rc_Logs r)\<rparr>)"

definition seal_receipts :: "'k crypto \<Rightarrow> Block \<Rightarrow> Receipt list \<Rightarrow> Receipt list" where
  "seal_receipts C block rs = map (\<lambda>(i, r). seal_receipt C block i r) (enumerate 0 rs)"

datatype ('t, 'e) phase = Listening | Ordering Block "('t, 'e) task" "Receipt list" "Log list" | Crashed

record ('t, 'e) chain_write =
  wr_block :: Block
  wr_receipts :: "Receipt list"
  wr_logs :: "Log list"
  wr_state :: "('t, 'e) StateDB"

text \<open>The system: the task loop, the queue of sealed blocks, the result loop's position, the adapter, and the chain with the blocks it has.
  \<open>ss_posted\<close> records the announced blocks, each with the commit it waited for, and \<open>ss_written\<close> the blocks the miner wrote.\<close>

record ('t, 'e, 'c) seal_system =
  ss_tasks :: "('t, 'e) taskloop"
  ss_resultCh :: "Block option list"
  ss_phase :: "('t, 'e) phase"
  ss_sys :: "'c na_system"
  ss_known :: "(hash \<times> u64) set"
  ss_unconfirmed :: unconfirmedBlocks
  ss_posted :: "(Block \<times> NarwhalOutput option) list"
  ss_written :: "('t, 'e) chain_write list"

text \<open>What the result loop does with a block from the engine: \<open>None\<close> where the code panics, \<open>Some None\<close> when it is skipped.\<close>

definition result_task :: "'k crypto \<Rightarrow> (Header \<Rightarrow> hash) \<Rightarrow> Block option \<Rightarrow> ('t, 'e, 'c) seal_system \<Rightarrow> (Block \<times> ('t, 'e) task) option option" where
  "result_task C SealHash result s =
     (case result of None \<Rightarrow> Some None
      | Some block \<Rightarrow>
          (case NumberU64 block of None \<Rightarrow> None
           | Some number \<Rightarrow>
               if (Header_Hash C (b_header block), number) \<in> ss_known s then Some None
               else (case tl_pendingTasks (ss_tasks s) (SealHash (Block_Header block)) of
                       None \<Rightarrow> Some None
                     | Some task \<Rightarrow> Some (Some (block, task)))))"

text \<open>Announcing and writing the block; \<open>writeErr\<close> is the answer of \<open>WriteBlockAndSetHead\<close>.\<close>

definition finish_result :: "'k crypto \<Rightarrow> chainRetriever \<Rightarrow> string option \<Rightarrow> Block \<Rightarrow> NarwhalOutput option \<Rightarrow> ('t, 'e) task \<Rightarrow> Receipt list \<Rightarrow> Log list \<Rightarrow>
    ('t, 'e, 'c) seal_system \<Rightarrow> ('t, 'e, 'c) seal_system" where
  "finish_result C chain writeErr block out task receipts logs s =
     (let s = s\<lparr>ss_posted := ss_posted s @ [(block, out)]\<rparr>
      in case (writeErr, NumberU64 block) of
           (None, Some number) \<Rightarrow>
             s\<lparr>ss_written := ss_written s @ [\<lparr>wr_block = block, wr_receipts = receipts, wr_logs = logs, wr_state = tk_state task\<rparr>],
               ss_known := insert (Header_Hash C (b_header block), number) (ss_known s),
               ss_unconfirmed := fst (unconfirmed_Insert C chain number (Header_Hash C (b_header block)) (ss_unconfirmed s))\<rparr>
         | _ \<Rightarrow> s)"

subsection \<open>The system\<close>

text \<open>The initial state: \<open>newWorker\<close> and \<open>GetNarwhalAdapter\<close>.\<close>

inductive seal_init :: "('t, 'e, 'c) seal_system \<Rightarrow> bool" where
  "seal_init \<lparr>ss_tasks = \<lparr>tl_stopCh = None, tl_prev = zero_hash, tl_made = 0, tl_closed = {}, tl_pendingTasks = Map.empty\<rparr>, ss_resultCh = [],
     ss_phase = Listening, ss_sys = \<lparr>adapter = GetNarwhalAdapter host gwAddr, waiting = [], sent = [], delivered = []\<rparr>, ss_known = known,
     ss_unconfirmed = newUnconfirmedBlocks sealingLogAtDepth, ss_posted = [], ss_written = []\<rparr>"

text \<open>The steps: blocks imported from peers, tasks of the main loop, stale tasks cleared, results of the engine, the result loop, and the
  adapter's handlers.  A panic in any goroutine ends the process.  \<open>signer\<close> is \<open>CheckSignerFlag\<close>; the answers of the gateway, the engine and
  the database are chosen anew at every step.\<close>

inductive seal_step :: "'k crypto \<Rightarrow> blobCodec \<Rightarrow> (Header \<Rightarrow> hash) \<Rightarrow> bool \<Rightarrow> ('t, 'e, 'c) seal_system \<Rightarrow> ('t, 'e, 'c) seal_system \<Rightarrow> bool"
  for C :: "'k crypto" and bc :: blobCodec and SealHash :: "Header \<Rightarrow> hash" and signer :: bool where
  imported: "ss_phase s \<noteq> Crashed \<Longrightarrow> seal_step C bc SealHash signer s (s\<lparr>ss_known := insert k (ss_known s)\<rparr>)"
| new_task: "ss_phase s \<noteq> Crashed \<Longrightarrow>
    seal_step C bc SealHash signer s (s\<lparr>ss_tasks := taskLoop_task SealHash skipSeal sealErr task (ss_tasks s)\<rparr>)"
| clear: "ss_phase s \<noteq> Crashed \<Longrightarrow> seal_step C bc SealHash signer s (s\<lparr>ss_tasks := clearPending number (ss_tasks s)\<rparr>)"
| sealed: "ss_phase s \<noteq> Crashed \<Longrightarrow> length (ss_resultCh s) < resultQueueSize \<Longrightarrow>
    seal_step C bc SealHash signer s (s\<lparr>ss_resultCh := ss_resultCh s @ [result]\<rparr>)"
| result_skip: "ss_phase s = Listening \<Longrightarrow> ss_resultCh s = result # rest \<Longrightarrow> result_task C SealHash result s = Some None \<Longrightarrow>
    seal_step C bc SealHash signer s (s\<lparr>ss_resultCh := rest\<rparr>)"
| result_panic: "ss_phase s = Listening \<Longrightarrow> ss_resultCh s = result # rest \<Longrightarrow> result_task C SealHash result s = None \<Longrightarrow>
    seal_step C bc SealHash signer s (s\<lparr>ss_resultCh := rest, ss_phase := Crashed\<rparr>)"
| result_local: "ss_phase s = Listening \<Longrightarrow> ss_resultCh s = result # rest \<Longrightarrow> result_task C SealHash result s = Some (Some (block, task)) \<Longrightarrow>
    receipts = seal_receipts C block (tk_receipts task) \<Longrightarrow> \<not> signer \<Longrightarrow>
    seal_step C bc SealHash signer s
      (finish_result C chain writeErr block None task receipts (concat (map rc_Logs receipts)) (s\<lparr>ss_resultCh := rest\<rparr>))"
| result_offline: "ss_phase s = Listening \<Longrightarrow> ss_resultCh s = result # rest \<Longrightarrow> result_task C SealHash result s = Some (Some (block, task)) \<Longrightarrow>
    receipts = seal_receipts C block (tk_receipts task) \<Longrightarrow> signer \<Longrightarrow> Broadcast gw bc block (adapter (ss_sys s)) = (na, Some (Some err)) \<Longrightarrow>
    seal_step C bc SealHash signer s
      (finish_result C chain writeErr block None task receipts (concat (map rc_Logs receipts))
        (s\<lparr>ss_resultCh := rest, ss_sys := (ss_sys s)\<lparr>adapter := na\<rparr>\<rparr>))"
| result_submit: "ss_phase s = Listening \<Longrightarrow> ss_resultCh s = result # rest \<Longrightarrow> result_task C SealHash result s = Some (Some (block, task)) \<Longrightarrow>
    receipts = seal_receipts C block (tk_receipts task) \<Longrightarrow> signer \<Longrightarrow> Broadcast gw bc block (adapter (ss_sys s)) = (na, Some None) \<Longrightarrow>
    seal_step C bc SealHash signer s
      (s\<lparr>ss_resultCh := rest, ss_sys := (ss_sys s)\<lparr>adapter := na\<rparr>, ss_phase := Ordering block task receipts (concat (map rc_Logs receipts))\<rparr>)"
| submit_panic: "ss_phase s = Listening \<Longrightarrow> ss_resultCh s = result # rest \<Longrightarrow> result_task C SealHash result s = Some (Some (block, task)) \<Longrightarrow>
    signer \<Longrightarrow> Broadcast gw bc block (adapter (ss_sys s)) = (na, None) \<Longrightarrow>
    seal_step C bc SealHash signer s (s\<lparr>ss_resultCh := rest, ss_sys := (ss_sys s)\<lparr>adapter := na\<rparr>, ss_phase := Crashed\<rparr>)"
| ordered: "ss_phase s = Ordering block task receipts logs \<Longrightarrow> WaitForCommit (adapter (ss_sys s)) = Some (na, out) \<Longrightarrow>
    RebuildHeaderWithNarwhalSig block out = Ok block' \<Longrightarrow>
    seal_step C bc SealHash signer s
      (finish_result C chain writeErr block' (Some out) task receipts logs
        (s\<lparr>ss_sys := (ss_sys s)\<lparr>adapter := na, delivered := delivered (ss_sys s) @ [out]\<rparr>, ss_phase := Listening\<rparr>))"
| unmatched: "ss_phase s = Ordering block task receipts logs \<Longrightarrow> WaitForCommit (adapter (ss_sys s)) = Some (na, out) \<Longrightarrow>
    RebuildHeaderWithNarwhalSig block out = Err err \<Longrightarrow>
    seal_step C bc SealHash signer s
      (s\<lparr>ss_sys := (ss_sys s)\<lparr>adapter := na, delivered := delivered (ss_sys s) @ [out]\<rparr>, ss_phase := Crashed\<rparr>)"
| notify_dup: "ss_phase s \<noteq> Crashed \<Longrightarrow> Notify req (adapter (ss_sys s)) = (na, Resp r) \<Longrightarrow>
    seal_step C bc SealHash signer s (s\<lparr>ss_sys := (ss_sys s)\<lparr>adapter := na\<rparr>\<rparr>)"
| notify_fresh: "ss_phase s \<noteq> Crashed \<Longrightarrow> Notify req (adapter (ss_sys s)) = (na, Pending out) \<Longrightarrow>
    seal_step C bc SealHash signer s (s\<lparr>ss_sys := (ss_sys s)\<lparr>adapter := na, waiting := waiting (ss_sys s) @ [out]\<rparr>\<rparr>)"
| notify_panic: "ss_phase s \<noteq> Crashed \<Longrightarrow> Notify req (adapter (ss_sys s)) = (na, Panic e) \<Longrightarrow>
    seal_step C bc SealHash signer s (s\<lparr>ss_phase := Crashed\<rparr>)"
| notify_send: "ss_phase s \<noteq> Crashed \<Longrightarrow> waiting (ss_sys s) = xs @ out # ys \<Longrightarrow> Notify_send out (adapter (ss_sys s)) = Some (na, r) \<Longrightarrow>
    seal_step C bc SealHash signer s (s\<lparr>ss_sys := (ss_sys s)\<lparr>adapter := na, waiting := xs @ ys, sent := sent (ss_sys s) @ [out]\<rparr>\<rparr>)"

section \<open>Lemmas\<close>

subsection \<open>Unconfirmed blocks\<close>

lemma uncle_search_iff:
  assumes "unat number + k < 2 ^ 64"
  shows "uncle_search k C chain (number + of_nat k) height h number \<longleftrightarrow>
    (\<exists>i < k. number + of_nat i \<le> height
       \<and> (\<exists>block. cr_GetBlockByNumber chain (number + of_nat i) = Some block \<and> h \<in> Header_Hash C ` set (b_uncles block)))"
  (is "_ \<longleftrightarrow> (\<exists>i < k. ?P number i)")
  using assms
proof (induction k arbitrary: number)
  case (Suc k)
  have u: "unat (number + of_nat m) = unat number + m" if "m \<le> Suc k" for m
    using Suc.prems that by (subst unat_add_lem [THEN iffD1]) (simp_all add: unat_of_nat)
  have lt: "number < number + of_nat (Suc k)" using u [of "Suc k"] by (simp add: word_less_nat_alt del: of_nat_Suc)
  have n1: "unat (number + 1) + k < 2 ^ 64" using Suc.prems u [of 1] by simp
  have eq: "number + of_nat (Suc i) = (number + 1) + of_nat i" for i by simp
  have "uncle_search k C chain (number + of_nat (Suc k)) height h (number + 1) \<longleftrightarrow> (\<exists>i < k. ?P number (Suc i))"
    unfolding eq by (rule Suc.IH [OF n1])
  moreover have "\<not> (\<exists>i < k. ?P number (Suc i))" if "\<not> number \<le> height"
  proof -
    have "number \<le> number + of_nat (Suc i)" if "i < k" for i using u [of "Suc i"] that by (simp add: word_le_nat_alt del: of_nat_Suc)
    then show ?thesis using that order_trans by blast
  qed
  ultimately show ?case using lt by (subst Ex_less_Suc2) (auto split: option.splits)
qed simp

lemma shift_blocks_prefix:
  "shift_blocks C chain depth height bs = (rest, reports) \<Longrightarrow>
     \<exists>dropped. bs = dropped @ rest \<and> reports = map (confirm C chain depth height) dropped \<and> (\<forall>b \<in> set dropped. ub_index b + depth \<le> height)
       \<and> (rest \<noteq> [] \<longrightarrow> ub_index (hd rest) + depth > height)"
proof (induction bs arbitrary: rest reports)
  case (Cons b bs)
  show ?case
  proof (cases "ub_index b + depth > height")
    case False
    then obtain reports' where r: "shift_blocks C chain depth height bs = (rest, reports')" "reports = confirm C chain depth height b # reports'"
      using Cons.prems by (auto split: prod.splits)
    from Cons.IH [OF r(1)] obtain dropped where "bs = dropped @ rest" "reports' = map (confirm C chain depth height) dropped"
      "\<forall>b \<in> set dropped. ub_index b + depth \<le> height" "rest \<noteq> [] \<longrightarrow> ub_index (hd rest) + depth > height" by blast
    then show ?thesis using False r(2) by (intro exI [of _ "b # dropped"]) auto
  qed (use Cons.prems in auto)
qed simp

lemma confirm_depth_0: "confirm C chain 0 height b \<noteq> BecameUncle b'"
  by (simp add: confirm_def split: option.splits)

subsection \<open>Tasks\<close>

definition tasks_ok :: "(Header \<Rightarrow> hash) \<Rightarrow> ('t, 'e) taskloop \<Rightarrow> bool" where
  "tasks_ok SealHash l \<longleftrightarrow> (\<forall>h t. tl_pendingTasks l h = Some t \<longrightarrow> SealHash (Block_Header (tk_block t)) = h)
     \<and> tl_closed l = {..<tl_made l} - set_option (tl_stopCh l) \<and> set_option (tl_stopCh l) \<subseteq> {..<tl_made l}"

lemma taskLoop_ok: "tasks_ok SealHash l \<Longrightarrow> tasks_ok SealHash (taskLoop_task SealHash skipSeal sealErr task l)"
  unfolding tasks_ok_def taskLoop_task_def tl_interrupt_def Let_def by (auto simp: lessThan_Suc split: option.splits)

lemma clearPending_ok: "tasks_ok SealHash l \<Longrightarrow> tasks_ok SealHash (clearPending number l)"
  unfolding tasks_ok_def clearPending_def by (auto split: option.splits if_splits)

subsection \<open>Results\<close>

lemma Header_Hash_Copy: "Header_Hash C (CopyHeader h) = Header_Hash C h"
  by (simp add: Header_Hash_def Header_EncodeRLP_Copy)

lemma Copy_Copy: "CopyHeader (CopyHeader h) = CopyHeader h"
  by (simp add: CopyHeader_def)

lemma Rebuild_ok:
  assumes "RebuildHeaderWithNarwhalSig block out = Ok block'"
  shows "Block_Header block' = Block_Header block" "Header_Hash C (b_header block') = Header_Hash C (b_header block)"
    "NumberU64 block \<noteq> None \<Longrightarrow> h_Number (b_header block') = h_Number (b_header block)"
    "\<exists>h \<in> set (no_Headers out). h_Number h = h_Number (b_header block')"
proof -
  have m: "(\<exists>h \<in> set (no_Headers out). h_Number h = h_Number (Block_Header block)) \<and> block' = WithSeal block (Block_Header block)"
  proof (cases "\<exists>h \<in> set (no_Headers out). h_Number h = h_Number (Block_Header block)")
    case True
    then show ?thesis using assms rebuild_loop_ok [OF True, of "[]"] by (simp add: RebuildHeaderWithNarwhalSig_def)
  next
    case False
    then show ?thesis using assms rebuild_loop_err [of "no_Headers out" block "[]"] by (simp add: RebuildHeaderWithNarwhalSig_def)
  qed
  then show "Block_Header block' = Block_Header block" "Header_Hash C (b_header block') = Header_Hash C (b_header block)"
    "\<exists>h \<in> set (no_Headers out). h_Number h = h_Number (b_header block')"
    by (auto simp: WithSeal_def Block_Header_def Copy_Copy Header_Hash_Copy)
  show "NumberU64 block \<noteq> None \<Longrightarrow> h_Number (b_header block') = h_Number (b_header block)"
    using m by (auto simp: WithSeal_def Block_Header_def CopyHeader_def NumberU64_def)
qed

lemma seal_receipts_cong:
  "Header_Hash C (b_header b) = Header_Hash C (b_header b') \<Longrightarrow> h_Number (b_header b) = h_Number (b_header b') \<Longrightarrow> seal_receipts C b rs = seal_receipts C b' rs"
  by (simp add: seal_receipts_def seal_receipt_def)

subsection \<open>The invariant of the system\<close>

definition block_key :: "'k crypto \<Rightarrow> Block \<Rightarrow> hash \<times> u64 option" where
  "block_key C b = (Header_Hash C (b_header b), NumberU64 b)"

text \<open>A sealed block goes with a task of the same seal hash, and carries that task's receipts with its own location.\<close>

definition write_ok :: "'k crypto \<Rightarrow> (Header \<Rightarrow> hash) \<Rightarrow> ('t, 'e) chain_write \<Rightarrow> bool" where
  "write_ok C SealHash w \<longleftrightarrow> wr_logs w = concat (map rc_Logs (wr_receipts w))
     \<and> (\<exists>task :: ('t, 'e) task. SealHash (Block_Header (tk_block task)) = SealHash (Block_Header (wr_block w)) \<and> wr_state w = tk_state task
          \<and> wr_receipts w = seal_receipts C (wr_block w) (tk_receipts task))"

definition accepted :: "'k crypto \<Rightarrow> (Header \<Rightarrow> hash) \<Rightarrow> ('t, 'e) chain_write list \<Rightarrow> ('t, 'e) phase \<Rightarrow> bool" where
  "accepted C SealHash ws p = (case p of
     Ordering b task receipts logs \<Rightarrow> NumberU64 b \<noteq> None \<and> block_key C b \<notin> block_key C ` wr_block ` set ws
       \<and> write_ok C SealHash \<lparr>wr_block = b, wr_receipts = receipts, wr_logs = logs, wr_state = tk_state task\<rparr>
   | _ \<Rightarrow> True)"

definition matched :: "Block \<times> NarwhalOutput option \<Rightarrow> bool" where
  "matched p = (case snd p of None \<Rightarrow> True | Some out \<Rightarrow> \<exists>h \<in> set (no_Headers out). h_Number h = h_Number (b_header (fst p)))"

abbreviation commits :: "('t, 'e, 'c) seal_system \<Rightarrow> NarwhalOutput list" where
  "commits s \<equiv> List.map_filter snd (ss_posted s)"

definition chain_inv :: "'k crypto \<Rightarrow> (Header \<Rightarrow> hash) \<Rightarrow> ('t, 'e, 'c) seal_system \<Rightarrow> bool" where
  "chain_inv C SealHash s \<longleftrightarrow> distinct (map (block_key C \<circ> wr_block) (ss_written s))
     \<and> (\<forall>w \<in> set (ss_written s). write_ok C SealHash w \<and> (\<exists>n. NumberU64 (wr_block w) = Some n \<and> (Header_Hash C (b_header (wr_block w)), n) \<in> ss_known s))
     \<and> subseq (map wr_block (ss_written s)) (map fst (ss_posted s)) \<and> list_all matched (ss_posted s)"

definition seal_inv :: "'k crypto \<Rightarrow> (Header \<Rightarrow> hash) \<Rightarrow> bool \<Rightarrow> ('t, 'e, 'c) seal_system \<Rightarrow> bool" where
  "seal_inv C SealHash signer s \<longleftrightarrow> na_inv (ss_sys s) \<and> tasks_ok SealHash (ss_tasks s) \<and> chain_inv C SealHash s
     \<and> accepted C SealHash (ss_written s) (ss_phase s)
     \<and> (delivered (ss_sys s) = commits s \<or> ss_phase s = Crashed \<and> (\<exists>out. delivered (ss_sys s) = commits s @ [out]))
     \<and> (\<not> signer \<longrightarrow> commits s = [] \<and> (\<forall>b task rs logs. ss_phase s \<noteq> Ordering b task rs logs))"

lemma finish_fields:
  "ss_sys (finish_result C chain err b out task rs logs s) = ss_sys s" "ss_tasks (finish_result C chain err b out task rs logs s) = ss_tasks s"
  "ss_phase (finish_result C chain err b out task rs logs s) = ss_phase s"
  "ss_posted (finish_result C chain err b out task rs logs s) = ss_posted s @ [(b, out)]"
  by (simp_all add: finish_result_def Let_def split: option.splits)

lemma finish_chain:
  assumes "chain_inv C SealHash s" "accepted C SealHash (ss_written s) (Ordering b task rs logs)" "matched (b, out)"
  shows "chain_inv C SealHash (finish_result C chain err b out task rs logs s)"
proof (cases "err = None")
  case False
  then show ?thesis using assms(1,3) by (auto simp: chain_inv_def finish_result_def Let_def split: option.splits)
next
  case True
  obtain n where n: "NumberU64 b = Some n" using assms(2) by (auto simp: accepted_def)
  show ?thesis using assms True n
    by (auto simp: chain_inv_def finish_result_def Let_def accepted_def list_emb_append_mono intro: list_emb_append_mono)
qed

lemma result_accepted:
  assumes "seal_inv C SealHash signer s" "result_task C SealHash result s = Some (Some (b, task))" "rs = seal_receipts C b (tk_receipts task)"
  shows "accepted C SealHash (ss_written s) (Ordering b task rs (concat (map rc_Logs rs)))"
proof -
  from assms(2) obtain n where n: "NumberU64 b = Some n" "(Header_Hash C (b_header b), n) \<notin> ss_known s"
    "tl_pendingTasks (ss_tasks s) (SealHash (Block_Header b)) = Some task"
    by (auto simp: result_task_def split: option.splits if_splits)
  have "SealHash (Block_Header (tk_block task)) = SealHash (Block_Header b)" using assms(1) n(3) by (auto simp: seal_inv_def tasks_ok_def)
  moreover have "block_key C b \<noteq> block_key C (wr_block w)" if "w \<in> set (ss_written s)" for w
    using assms(1) that n(1,2) by (fastforce simp: seal_inv_def chain_inv_def block_key_def)
  ultimately show ?thesis using n(1) assms(3) by (auto simp: accepted_def write_ok_def)
qed

lemma rebuilt_accepted:
  assumes "accepted C SealHash ws (Ordering b task rs logs)" "RebuildHeaderWithNarwhalSig b out = Ok b'"
  shows "accepted C SealHash ws (Ordering b' task rs logs)" "matched (b', Some out)"
proof -
  have "NumberU64 b \<noteq> None" using assms(1) by (simp add: accepted_def)
  note r = Rebuild_ok(1,4) [OF assms(2)] Rebuild_ok(2) [OF assms(2), of C] Rebuild_ok(3) [OF assms(2) this]
  show "matched (b', Some out)" using r(2) by (simp add: matched_def)
  have "NumberU64 b' = NumberU64 b" using r(4) by (simp add: NumberU64_def)
  then show "accepted C SealHash ws (Ordering b' task rs logs)"
    using assms(1) seal_receipts_cong [OF r(3,4)] r(1,3) by (simp add: accepted_def write_ok_def block_key_def)
qed

text \<open>Every step of the system is one of the adapter's or leaves it alone: the miner uses the adapter as its transition system allows.\<close>

lemma seal_step_na: "seal_step C bc SealHash signer s s' \<Longrightarrow> na_step\<^sup>=\<^sup>= (ss_sys s) (ss_sys s')"
  by (induction rule: seal_step.induct)
    (auto simp: finish_fields intro: na_step.broadcast na_step.receive na_step.notify_duplicate na_step.notify_new na_step.send)

lemma seal_init_inv: "seal_init s \<Longrightarrow> seal_inv C SealHash signer s"
  by (auto simp: seal_init.simps seal_inv_def tasks_ok_def chain_inv_def accepted_def map_filter_simps intro!: na_init_inv na_init.intros)

lemma map_filter_append: "List.map_filter f (xs @ ys) = List.map_filter f xs @ List.map_filter f ys"
  by (induction xs) (simp_all add: map_filter_simps split: option.splits)

text \<open>Steps that neither announce a block nor crash.\<close>

lemma quiet_inv:
  assumes "seal_inv C SealHash signer s" "na_inv (ss_sys s')" "delivered (ss_sys s') = delivered (ss_sys s)" "tasks_ok SealHash (ss_tasks s')"
    and "ss_written s' = ss_written s" "ss_posted s' = ss_posted s" "ss_known s \<subseteq> ss_known s'" "ss_phase s \<noteq> Crashed"
    and "accepted C SealHash (ss_written s') (ss_phase s')" "ss_phase s' = ss_phase s \<or> signer"
  shows "seal_inv C SealHash signer s'"
proof -
  have "chain_inv C SealHash s'" using assms(1,5-7) unfolding seal_inv_def chain_inv_def by (elim conjE) (simp, blast)
  then show ?thesis using assms by (auto simp: seal_inv_def)
qed

lemma finish_inv:
  assumes "seal_inv C SealHash signer s" "na_inv (ss_sys s1)" "delivered (ss_sys s1) = delivered (ss_sys s) @ (case out of None \<Rightarrow> [] | Some x \<Rightarrow> [x])"
    and "ss_tasks s1 = ss_tasks s" "ss_written s1 = ss_written s" "ss_posted s1 = ss_posted s" "ss_known s1 = ss_known s" "ss_phase s \<noteq> Crashed"
    and "ss_phase s1 = Listening" "accepted C SealHash (ss_written s) (Ordering b task rs logs)" "matched (b, out)" "out \<noteq> None \<Longrightarrow> signer"
  shows "seal_inv C SealHash signer (finish_result C chain err b out task rs logs s1)"
proof -
  have "chain_inv C SealHash s1" using assms(1,5-7) by (simp add: seal_inv_def chain_inv_def)
  then have "chain_inv C SealHash (finish_result C chain err b out task rs logs s1)" using finish_chain assms(5,10,11) by metis
  then show ?thesis using assms by (auto simp: seal_inv_def finish_fields accepted_def map_filter_append map_filter_simps split: option.splits)
qed

lemma crash_inv:
  assumes "seal_inv C SealHash signer s" "na_inv (ss_sys s')" "ss_phase s' = Crashed" "ss_tasks s' = ss_tasks s" "ss_written s' = ss_written s"
    and "ss_posted s' = ss_posted s" "ss_known s' = ss_known s" "ss_phase s \<noteq> Crashed"
    and "delivered (ss_sys s') = delivered (ss_sys s) \<or> (\<exists>out. delivered (ss_sys s') = delivered (ss_sys s) @ [out])"
  shows "seal_inv C SealHash signer s'"
  using assms by (auto simp: seal_inv_def chain_inv_def accepted_def)

lemma seal_step_inv:
  assumes "seal_step C bc SealHash signer s s'" "seal_inv C SealHash signer s"
  shows "seal_inv C SealHash signer s'"
proof -
  have na: "na_inv (ss_sys s')" using seal_step_na [OF assms(1)] na_step_inv assms(2) by (auto simp: seal_inv_def)
  have ok: "tasks_ok SealHash (ss_tasks s)" "accepted C SealHash (ss_written s) (ss_phase s)" using assms(2) by (simp_all add: seal_inv_def)
  from assms(1) show ?thesis
  proof cases
    case (result_local result rest block task receipts chain writeErr)
    show ?thesis unfolding result_local(1)
      by (rule finish_inv [OF assms(2) _ _ _ _ _ _ _ _ result_accepted [OF assms(2) result_local(4,5)]])
         (use na result_local in \<open>auto simp: finish_fields matched_def\<close>)
  next
    case (result_offline result rest block task receipts gw na err chain writeErr)
    show ?thesis unfolding result_offline(1)
      by (rule finish_inv [OF assms(2) _ _ _ _ _ _ _ _ result_accepted [OF assms(2) result_offline(4,5)]])
         (use na result_offline in \<open>auto simp: finish_fields matched_def\<close>)
  next
    case (ordered block task receipts logs na' out block' chain writeErr)
    note r = rebuilt_accepted [OF ok(2) [unfolded ordered(2)] ordered(4)]
    have signer using assms(2) ordered(2) by (auto simp: seal_inv_def)
    show ?thesis unfolding ordered(1)
      by (rule finish_inv [OF assms(2) _ _ _ _ _ _ _ _ r]) (use na ordered \<open>signer\<close> in \<open>auto simp: finish_fields matched_def\<close>)
  next
    case (result_submit result rest block task receipts gw na' )
    show ?thesis
      by (rule quiet_inv [OF assms(2) na]) (use result_submit ok result_accepted [OF assms(2) result_submit(4,5)] in auto)
  next
    case (result_panic result rest)
    then show ?thesis by (intro crash_inv [OF assms(2) na]) auto
  next
    case (submit_panic result rest block task gw na)
    then show ?thesis using \<open>na_inv (ss_sys s')\<close> by (intro crash_inv [OF assms(2)]) auto
  next
    case (unmatched block task receipts logs na out err)
    then show ?thesis using \<open>na_inv (ss_sys s')\<close> by (intro crash_inv [OF assms(2)]) auto
  next
    case (notify_panic req na e)
    then show ?thesis using \<open>na_inv (ss_sys s')\<close> by (intro crash_inv [OF assms(2)]) auto
  qed (rule quiet_inv [OF assms(2) na]; use ok in \<open>auto intro: taskLoop_ok clearPending_ok\<close>)+
qed

interpretation seal: step_invariant seal_init "seal_step C bc SealHash signer" "seal_inv C SealHash signer"
  for C bc SealHash signer
  by unfold_locales (auto intro: seal_init_inv seal_step_inv)

subsection \<open>A run\<close>

abbreviation sealed_sample :: Block where
  "sealed_sample \<equiv> NewBlockWithHeader zero_header"

definition sample_task :: "(unit, string) task" where
  "sample_task = \<lparr>tk_receipts = [sample_receipt], tk_state = StateDB_New, tk_block = sealed_sample\<rparr>"

definition sample_gateway :: "unit gateway" where
  "sample_gateway = \<lparr>gw_Dial = (\<lambda>_. Ok ()), gw_Serving = (\<lambda>_. Ok True), gw_GetState = (\<lambda>_. Ready), gw_SubmitTransaction = (\<lambda>_ _. Ok ''success'')\<rparr>"

definition sample_commit_out :: NarwhalOutput where
  "sample_commit_out = \<lparr>no_Headers = [zero_header], no_Evt = sample_event 7 [header_bytes zero_header]\<rparr>"

abbreviation sample_SealHash :: "Header \<Rightarrow> hash" where
  "sample_SealHash \<equiv> \<lambda>_. replicate 32 3"

definition seal_start :: "(unit, string, unit) seal_system" where
  "seal_start = \<lparr>ss_tasks = \<lparr>tl_stopCh = None, tl_prev = zero_hash, tl_made = 0, tl_closed = {}, tl_pendingTasks = Map.empty\<rparr>, ss_resultCh = [],
     ss_phase = Listening, ss_sys = \<lparr>adapter = GetNarwhalAdapter [] [], waiting = [], sent = [], delivered = []\<rparr>, ss_known = {},
     ss_unconfirmed = newUnconfirmedBlocks sealingLogAtDepth, ss_posted = [], ss_written = []\<rparr>"

lemma seal_start_init: "seal_init seal_start"
  unfolding seal_start_def by (rule seal_init.intros)

lemma sealed_sample_header: "b_header sealed_sample = zero_header" "Block_Header sealed_sample = zero_header" "NumberU64 sealed_sample = Some 0"
  by (simp_all add: NewBlockWithHeader_def Block_Header_def CopyHeader_def zero_header_def NumberU64_def big_Uint64_def)

lemma sample_submit:
  "Broadcast sample_gateway sample_codec sealed_sample (GetNarwhalAdapter [] []) = ((GetNarwhalAdapter [] [])\<lparr>gatewayConn := Some ()\<rparr>, Some None)"
proof -
  have "EncodeHeader zero_header = Ok (Some (header_bytes zero_header))"
    by (rule EncodeHeader_eq [OF zero_header_ok]) (simp add: zero_header_def)
  then have "na_encodeBlock sample_codec sealed_sample = Some (rlp_list (block_payload sealed_sample), header_bytes zero_header)"
    by (simp add: na_encodeBlock_def EncodeBlock_bytes [OF zero_block_ok] sealed_sample_header)
  then show ?thesis by (simp add: Broadcast_def getGatewayClient_def CheckConnection_def sample_gateway_def GetNarwhalAdapter_def)
qed

text \<open>The task is given to the engine and the sealed block comes back.\<close>

definition seal_ready :: "(unit, string, unit) seal_system" where
  "seal_ready = seal_start\<lparr>ss_tasks := taskLoop_task sample_SealHash (\<lambda>_. False) None sample_task (ss_tasks seal_start), ss_resultCh := [Some sealed_sample]\<rparr>"

lemma seal_ready_run: "(seal_step sample_crypto sample_codec sample_SealHash True)\<^sup>*\<^sup>* seal_start seal_ready"
proof -
  let ?step = "seal_step sample_crypto sample_codec sample_SealHash True"
  let ?s1 = "seal_start\<lparr>ss_tasks := taskLoop_task sample_SealHash (\<lambda>_. False) None sample_task (ss_tasks seal_start)\<rparr>"
  have "?step seal_start ?s1" by (rule seal_step.new_task) (simp add: seal_start_def)
  moreover have "?step ?s1 seal_ready" using seal_step.sealed [of ?s1] by (simp add: seal_start_def seal_ready_def resultQueueSize_def)
  ultimately show ?thesis by (meson converse_rtranclp_into_rtranclp rtranclp.rtrancl_refl)
qed

lemma seal_ready_task: "result_task sample_crypto sample_SealHash (Some sealed_sample) seal_ready = Some (Some (sealed_sample, sample_task))"
  by (simp add: result_task_def sealed_sample_header seal_ready_def seal_start_def taskLoop_task_def tl_interrupt_def Let_def zero_hash_def)

text \<open>Then the submission, the notification with the block's header, its delivery, and the write.\<close>

lemma seal_run:
  "\<exists>s. (seal_step sample_crypto sample_codec sample_SealHash True)\<^sup>*\<^sup>* seal_start s
     \<and> ss_posted s = [(sealed_sample, Some sample_commit_out)] \<and> map wr_block (ss_written s) = [sealed_sample]"
proof -
  let ?step = "seal_step sample_crypto sample_codec sample_SealHash True"
  let ?na = "(GetNarwhalAdapter [] [] :: unit NarwhalAdapter)\<lparr>gatewayConn := Some ()\<rparr>"
  let ?seen = "\<lambda>na. na\<lparr>committedSeqs := [7 \<mapsto> True]\<rparr>"
  let ?rs = "seal_receipts sample_crypto sealed_sample [sample_receipt]"
  let ?s3 = "seal_ready\<lparr>ss_resultCh := [], ss_sys := (ss_sys seal_ready)\<lparr>adapter := ?na\<rparr>,
      ss_phase := Ordering sealed_sample sample_task ?rs (concat (map rc_Logs ?rs))\<rparr>"
  let ?s4 = "?s3\<lparr>ss_sys := (ss_sys ?s3)\<lparr>adapter := ?seen ?na, waiting := [sample_commit_out]\<rparr>\<rparr>"
  let ?s5 = "?s4\<lparr>ss_sys := (ss_sys ?s4)\<lparr>adapter := (?seen ?na)\<lparr>outc := [sample_commit_out]\<rparr>, waiting := [], sent := [sample_commit_out]\<rparr>\<rparr>"
  have 3: "?step seal_ready ?s3"
    by (rule seal_step.result_submit [of seal_ready "Some sealed_sample" "[]" _ _ sealed_sample sample_task ?rs True sample_gateway sample_codec])
       (use seal_ready_task sample_submit in \<open>simp_all add: seal_ready_def seal_start_def sample_task_def\<close>)
  have d: "na_decode [header_bytes zero_header] = Ok [zero_header]" by (simp add: DecodeHeader_bytes [OF zero_header_ok])
  have "Notify (sample_event 7 [header_bytes zero_header]) ?na = (?seen ?na, Pending sample_commit_out)"
    using d by (simp add: Notify_def Notify_duplicate_def Notify_new_def GetNarwhalAdapter_def sample_event_def sample_commit_out_def)
  then have 4: "?step ?s3 ?s4"
    using seal_step.notify_fresh [of ?s3 "sample_event 7 [header_bytes zero_header]" "?seen ?na" sample_commit_out] by (simp add: seal_ready_def seal_start_def)
  have 5: "?step ?s4 ?s5"
    using seal_step.notify_send [of ?s4 "[]" sample_commit_out "[]" "(?seen ?na)\<lparr>outc := [sample_commit_out]\<rparr>" "''thanks''"]
    by (simp add: seal_ready_def seal_start_def Notify_send_def GetNarwhalAdapter_def outc_cap_def)
  have "WithSeal sealed_sample zero_header = sealed_sample"
    by (simp add: WithSeal_def NewBlockWithHeader_def CopyHeader_def zero_header_def)
  then have r: "RebuildHeaderWithNarwhalSig sealed_sample sample_commit_out = Ok sealed_sample"
    by (simp add: RebuildHeaderWithNarwhalSig_def sample_commit_out_def sealed_sample_header)
  have w: "WaitForCommit (adapter (ss_sys ?s5)) = Some (?seen ?na, sample_commit_out)" by (simp add: WaitForCommit_def GetNarwhalAdapter_def)
  have p: "ss_phase ?s5 = Ordering sealed_sample sample_task ?rs (concat (map rc_Logs ?rs))" by simp
  let ?s6 = "\<lambda>chain. finish_result sample_crypto chain None sealed_sample (Some sample_commit_out) sample_task ?rs (concat (map rc_Logs ?rs))
      (?s5\<lparr>ss_sys := (ss_sys ?s5)\<lparr>adapter := ?seen ?na, delivered := delivered (ss_sys ?s5) @ [sample_commit_out]\<rparr>, ss_phase := Listening\<rparr>)"
  have "?step ?s5 (?s6 chain)" for chain by (rule seal_step.ordered [OF p w r])
  moreover have "ss_posted (?s6 chain) = [(sealed_sample, Some sample_commit_out)]" "map wr_block (ss_written (?s6 chain)) = [sealed_sample]" for chain
    by (simp_all add: finish_result_def Let_def sealed_sample_header seal_ready_def seal_start_def)
  ultimately show ?thesis using 3 4 5 seal_ready_run by (meson rtranclp.rtrancl_into_rtrancl)
qed

text \<open>With a gateway that cannot be reached the same block is announced and written without having been ordered, also on a signer.\<close>

lemma seal_run_offline:
  "\<exists>s. (seal_step sample_crypto sample_codec sample_SealHash True)\<^sup>*\<^sup>* seal_start s
     \<and> ss_posted s = [(sealed_sample, None)] \<and> map wr_block (ss_written s) = [sealed_sample] \<and> delivered (ss_sys s) = []"
proof -
  let ?gw = "sample_gateway\<lparr>gw_Dial := (\<lambda>_. Err ''refused'')\<rparr>"
  let ?rs = "seal_receipts sample_crypto sealed_sample (tk_receipts sample_task)"
  let ?s = "\<lambda>chain. finish_result sample_crypto chain None sealed_sample None sample_task ?rs (concat (map rc_Logs ?rs))
      (seal_ready\<lparr>ss_resultCh := [], ss_sys := (ss_sys seal_ready)\<lparr>adapter := GetNarwhalAdapter [] []\<rparr>\<rparr>)"
  have "Broadcast ?gw sample_codec sealed_sample (GetNarwhalAdapter [] [] :: unit NarwhalAdapter) = (GetNarwhalAdapter [] [], Some (Some (ErrDial ''refused'')))"
    by (simp add: Broadcast_def getGatewayClient_def GetNarwhalAdapter_def)
  then have "seal_step sample_crypto sample_codec sample_SealHash True seal_ready (?s chain)" for chain
    by (intro seal_step.result_offline [OF _ _ seal_ready_task refl]) (simp_all add: seal_ready_def seal_start_def)
  moreover have "ss_posted (?s chain) = [(sealed_sample, None)]" "map wr_block (ss_written (?s chain)) = [sealed_sample]" "delivered (ss_sys (?s chain)) = []" for chain
    by (simp_all add: finish_result_def Let_def sealed_sample_header seal_ready_def seal_start_def)
  ultimately show ?thesis using seal_ready_run by (meson rtranclp.rtrancl_into_rtrancl)
qed

end
