(* ===== verification/Trie_Encoding.thy ===== *)
theory Trie_Encoding
  imports Rlp_Raw
begin

text \<open>
  The three encodings of trie keys (\<^verbatim>\<open>trie/encoding.go\<close>): key bytes, hex (a nibble per byte with a terminator) and compact.
\<close>

section \<open>Definitions\<close>

definition hasTerm :: "bytes \<Rightarrow> bool" where
  "hasTerm s \<longleftrightarrow> length s > 0 \<and> s ! (length s - 1) = 16"

text \<open>The bytes \<open>decodeNibbles\<close> writes; an odd number of nibbles panics.\<close>

fun decodeNibbles :: "bytes \<Rightarrow> bytes option" where
  "decodeNibbles [] = Some []"
| "decodeNibbles [n] = None"
| "decodeNibbles (n1 # n2 # nibbles) = map_option (\<lambda>bs. (push_bit 4 n1 OR n2) # bs) (decodeNibbles nibbles)"

definition hexToCompact :: "bytes \<Rightarrow> bytes option" where
  "hexToCompact hex =
     (let terminator = (if hasTerm hex then 1 else 0 :: byte);
          hex = (if hasTerm hex then take (length hex - 1) hex else hex);
          first = push_bit 5 terminator
      in if length hex mod 2 = 1 then map_option (\<lambda>bs. ((first OR push_bit 4 1) OR hex ! 0) # bs) (decodeNibbles (drop 1 hex))
         else map_option (\<lambda>bs. first # bs) (decodeNibbles hex))"

text \<open>The loop of \<open>hexToCompactInPlace\<close> over its buffer.\<close>

function compact_loop :: "nat \<Rightarrow> nat \<Rightarrow> nat \<Rightarrow> bytes \<Rightarrow> bytes" where
  "compact_loop hexLen bi ni hex =
     (if ni < hexLen then compact_loop hexLen (bi + 1) (ni + 2) (hex[bi := push_bit 4 (hex ! ni) OR hex ! (ni + 1)]) else hex)"
  by pat_completeness auto
termination
  by (relation "measure (\<lambda>(hexLen, _, ni, _). hexLen - ni)") auto

text \<open>The length and the buffer; an empty buffer panics.\<close>

definition hexToCompactInPlace :: "bytes \<Rightarrow> (nat \<times> bytes) option" where
  "hexToCompactInPlace hex =
     (if hex = [] then None
      else
        let hexLen = length hex;
            term = (hexLen > 0 \<and> hex ! (hexLen - 1) = 16);
            firstByte = (if term then push_bit 5 1 else 0 :: byte);
            hexLen = (if term then hexLen - 1 else hexLen);
            odd = (hexLen mod 2 = 1);
            firstByte = (if odd then (firstByte OR push_bit 4 1) OR hex ! 0 else firstByte);
            ni = (if odd then 1 else 0)
        in Some (hexLen div 2 + 1, (compact_loop hexLen 1 ni hex)[0 := firstByte]))"

definition keybytesToHex :: "bytes \<Rightarrow> bytes" where
  "keybytesToHex str = concat (map (\<lambda>b. [b div 16, b mod 16]) str) @ [16]"

definition compactToHex :: "bytes \<Rightarrow> bytes" where
  "compactToHex compact =
     (if length compact = 0 then compact
      else
        let base = keybytesToHex compact;
            base = (if base ! 0 < 2 then take (length base - 1) base else base);
            chop = 2 - (base ! 0 AND 1)
        in drop (unat chop) base)"

text \<open>\<open>None\<close>: a key of odd length panics.\<close>

definition hexToKeybytes :: "bytes \<Rightarrow> bytes option" where
  "hexToKeybytes hex = decodeNibbles (if hasTerm hex then take (length hex - 1) hex else hex)"

fun prefixLen :: "bytes \<Rightarrow> bytes \<Rightarrow> nat" where
  "prefixLen (a # as) (b # bs) = (if a = b then Suc (prefixLen as bs) else 0)"
| "prefixLen _ _ = 0"

section \<open>Lemmas\<close>

definition nibbles :: "bytes \<Rightarrow> bool" where
  "nibbles ns \<longleftrightarrow> (\<forall>n \<in> set ns. n < 16)"

lemma nibbles_simps [simp]: "nibbles []" "nibbles (n # ns) \<longleftrightarrow> n < 16 \<and> nibbles ns" "nibbles (ms @ ns) \<longleftrightarrow> nibbles ms \<and> nibbles ns"
  by (auto simp: nibbles_def)

lemma div_16: "(b :: byte) div 16 = drop_bit 4 b" and mod_16: "b mod 16 = take_bit 4 b"
  by (simp_all add: drop_bit_eq_div take_bit_eq_mod)

lemma small_nibble: "(n :: byte) < 16 \<Longrightarrow> take_bit 4 n = n"
  by (simp add: word_less_nat_alt take_bit_eq_mod word_unat_eq_iff unat_mod)

lemma nibble_bit: "(n :: byte) < 16 \<Longrightarrow> 4 \<le> i \<Longrightarrow> \<not> bit n i"
  using small_nibble [of n] by (metis bit_take_bit_iff not_le)

lemma nibble_pair:
  assumes "(n1 :: byte) < 16" "n2 < 16"
  shows "(push_bit 4 n1 OR n2) div 16 = n1" "(push_bit 4 n1 OR n2) mod 16 = n2"
  unfolding div_16 mod_16 using assms
  by (auto intro!: bit_word_eqI simp: bit_simps nibble_bit) (metis nibble_bit not_le)

lemma byte_pair: "push_bit 4 (b div 16) OR b mod 16 = (b :: byte)" "b div 16 < (16 :: byte)" "b mod 16 < (16 :: byte)"
proof -
  show "push_bit 4 (b div 16) OR b mod 16 = b" unfolding div_16 mod_16 by (auto intro!: bit_word_eqI simp: bit_simps)
  have "unat b div 16 < 16" using unsigned_less [of b, where ?'a = nat] by simp
  then show "b div 16 < 16" by (simp add: word_less_nat_alt unat_div)
  show "b mod 16 < 16" by (simp add: word_less_nat_alt unat_mod)
qed

abbreviation split_bytes :: "bytes \<Rightarrow> bytes" where
  "split_bytes bs \<equiv> concat (map (\<lambda>b. [b div 16, b mod 16]) bs)"

lemma decodeNibbles_even:
  "nibbles ns \<Longrightarrow> even (length ns) \<Longrightarrow> \<exists>bs. decodeNibbles ns = Some bs \<and> split_bytes bs = ns \<and> length ns = 2 * length bs"
proof (induction ns rule: decodeNibbles.induct)
  case (3 n1 n2 ns)
  then obtain bs where "decodeNibbles ns = Some bs" "split_bytes bs = ns" "length ns = 2 * length bs" by auto
  then show ?case using 3(2) by (simp add: nibble_pair)
qed simp_all

lemma decodeNibbles_split: "decodeNibbles (split_bytes bs) = Some bs"
  by (induction bs) (simp_all add: byte_pair)

lemma split_nibbles: "nibbles (split_bytes bs)" "length (split_bytes bs) = 2 * length bs"
  by (induction bs) (simp_all add: byte_pair)

definition hexkey :: "bytes \<Rightarrow> bool" where
  "hexkey hex \<longleftrightarrow> (\<exists>ns. nibbles ns \<and> (hex = ns \<or> hex = ns @ [16]))"

lemma hasTerm_append [simp]: "hasTerm (ns @ [16])"
  by (simp add: hasTerm_def)

lemma hasTerm_nibbles: "nibbles ns \<Longrightarrow> \<not> hasTerm ns"
  by (cases ns rule: rev_cases) (auto simp: hasTerm_def)

text \<open>The flag byte: the terminator and the oddness, and the first nibble of an odd key.\<close>

lemma compact_even:
  assumes "nibbles ns" "even (length ns)" "hex = (if t then ns @ [16] else ns)"
  shows "\<exists>bs. hexToCompact hex = Some ((if t then 32 else 0) # bs) \<and> split_bytes bs = ns"
  using decodeNibbles_even [OF assms(1,2)] hasTerm_nibbles [OF assms(1)] assms(2,3)
  by (auto simp: hexToCompact_def Let_def)

lemma compact_odd:
  assumes "nibbles ns" "n < 16" "even (length ns)" "hex = (if t then n # ns @ [16] else n # ns)"
  shows "\<exists>bs. hexToCompact hex = Some ((push_bit 4 (if t then 3 else 1) OR n) # bs) \<and> split_bytes bs = ns"
proof -
  have "hasTerm (n # ns @ [16])" using hasTerm_append [of "n # ns"] by simp
  moreover have "\<not> hasTerm (n # ns)" by (rule hasTerm_nibbles) (simp add: assms(1,2))
  ultimately show ?thesis using decodeNibbles_even [OF assms(1,3)] assms(3,4) by (auto simp: hexToCompact_def Let_def)
qed

lemma compactToHex_flag:
  "compactToHex (f # bs) = drop (unat (2 - (f div 16 AND 1))) ((f div 16) # (f mod 16) # split_bytes bs @ (if f div 16 < 2 then [] else [16]))"
  by (simp add: compactToHex_def keybytesToHex_def Let_def)

lemma hexkey_cases:
  assumes "hexkey hex"
  obtains (even) ns t where "nibbles ns" "even (length ns)" "hex = (if t then ns @ [16] else ns)"
    | (odd) n ns t where "nibbles ns" "n < 16" "even (length ns)" "hex = (if t then n # ns @ [16] else n # ns)"
proof -
  from assms obtain ms t where m: "nibbles ms" "hex = (if t then ms @ [16] else ms)" by (auto simp: hexkey_def split: if_splits) (metis (full_types))
  show thesis
  proof (cases "even (length ms)")
    case False
    then obtain n ns where "ms = n # ns" by (cases ms) auto
    then show thesis using odd [of ns n t] m False by (auto split: if_splits)
  qed (use even m in blast)
qed

lemma compactToHex_hexToCompact:
  assumes "hexkey hex"
  shows "\<exists>c. hexToCompact hex = Some c \<and> compactToHex c = hex"
  using assms
proof (cases rule: hexkey_cases)
  case (even ns t)
  from compact_even [OF this] obtain bs where "hexToCompact hex = Some ((if t then 32 else 0) # bs)" "split_bytes bs = ns" by blast
  then show ?thesis using even(3) by (simp add: compactToHex_flag)
next
  case (odd n ns t)
  from compact_odd [OF this] obtain bs where "hexToCompact hex = Some ((push_bit 4 (if t then 3 else 1) OR n) # bs)" "split_bytes bs = ns" by blast
  then show ?thesis using odd(2,4) nibble_pair [of 3 n] nibble_pair [of 1 n] by (cases t) (simp_all add: compactToHex_flag)
qed

declare compact_loop.simps [simp del]

lemma compact_loop_eq:
  assumes "decodeNibbles ms = Some bs" "drop ni hex = ms @ rest" "bi \<le> ni + 1" "hexLen = ni + length ms"
  shows "compact_loop hexLen bi ni hex = take bi hex @ bs @ drop (bi + length bs) hex"
  using assms
proof (induction ms arbitrary: bs bi ni hex rule: decodeNibbles.induct)
  case 1
  then show ?case by (simp add: compact_loop.simps)
next
  case (3 n1 n2 ms)
  from 3(2) obtain bs' where bs: "decodeNibbles ms = Some bs'" "bs = (push_bit 4 n1 OR n2) # bs'" by auto
  let ?hex = "hex[bi := push_bit 4 n1 OR n2]"
  have len: "length hex = ni + 2 + length ms + length rest" using arg_cong [OF 3(3), of length] by simp
  then have n: "hex ! ni = n1" "hex ! (ni + 1) = n2" using 3(3) nth_drop [of ni hex 0] nth_drop [of ni hex 1] by simp_all
  have d: "drop (ni + 2) hex = ms @ rest" using arg_cong [OF 3(3), of "drop 2"] by simp
  have "compact_loop hexLen bi ni hex = compact_loop hexLen (bi + 1) (ni + 2) ?hex"
    using 3(5) n by (subst compact_loop.simps) simp
  also have "\<dots> = take (bi + 1) ?hex @ bs' @ drop (bi + 1 + length bs') ?hex"
    by (rule 3(1) [OF bs(1)]) (use 3(4,5) d in simp_all)
  also have "take (bi + 1) ?hex = take bi hex @ [push_bit 4 n1 OR n2]" using 3(4) len by (simp add: take_Suc_conv_app_nth)
  finally show ?case by (simp add: bs(2))
qed simp

text \<open>Both conversions decode the same nibbles, those after the first nibble of an odd key, and set the same first byte.\<close>

lemma length_decodeNibbles: "decodeNibbles ns = Some bs \<Longrightarrow> length ns = 2 * length bs"
  by (induction ns arbitrary: bs rule: decodeNibbles.induct) auto

lemma InPlace_loop:
  assumes "hex = a # l" "core = (if hasTerm hex then take (length hex - 1) hex else hex)" "k = length core mod 2"
    and "decodeNibbles (drop k core) = Some bs"
  shows "compact_loop (length core) 1 k hex = a # bs @ drop (length bs) l" "length core div 2 = length bs" "length bs \<le> length l"
proof -
  have k: "k \<le> length core" "k \<le> 1" using assms(3) by auto
  have "hex = core @ drop (length core) hex" by (cases "hasTerm hex") (simp_all add: assms(2))
  then have "drop k hex = drop k core @ drop (length core) hex" using k(1) by (metis drop_append diff_is_0_eq drop0)
  from compact_loop_eq [OF assms(4) this, of 1 "length core"] k(1) assms(1)
  show "compact_loop (length core) 1 k hex = a # bs @ drop (length bs) l" by simp
  have d: "length core - k = 2 * length bs" using length_decodeNibbles [OF assms(4)] by simp
  then show "length core div 2 = length bs" using assms(3) by presburger
  have "length core \<le> Suc (length l)" using assms(1,2) by simp
  then show "length bs \<le> length l" using d k(2) by linarith
qed

lemma hexToCompactInPlace_eq:
  assumes "hexkey hex" "hex \<noteq> []"
  shows "\<exists>n buf. hexToCompactInPlace hex = Some (n, buf) \<and> hexToCompact hex = Some (take n buf) \<and> length buf = length hex"
proof -
  obtain a l where h: "hex = a # l" using assms(2) by (cases hex) auto
  define core where "core = (if hasTerm hex then take (length hex - 1) hex else hex)"
  define k where "k = length core mod 2"
  have t: "hex ! (length hex - 1) = 16 \<longleftrightarrow> hasTerm hex" using assms(2) by (simp add: hasTerm_def)
  have c: "hex ! 0 = core ! 0" if "length core mod 2 = 1" using that by (auto simp: core_def)
  have l: "length core = (if hasTerm hex then length hex - 1 else length hex)" by (simp add: core_def)
  from compactToHex_hexToCompact [OF assms(1)] obtain bs where bs: "decodeNibbles (drop k core) = Some bs"
    by (auto simp: hexToCompact_def Let_def k_def core_def split: if_splits)
  note loop = InPlace_loop [OF h core_def k_def bs]
  let ?first = "if k = 1 then ((if hasTerm hex then push_bit 5 1 else 0) OR push_bit 4 1) OR core ! 0 else if hasTerm hex then push_bit 5 1 else 0"
  have k: "(if length core mod 2 = 1 then 1 else 0) = k" by (simp add: k_def mod2_eq_if)
  have "hexToCompactInPlace hex = Some (length core div 2 + 1, (compact_loop (length core) 1 k hex)[0 := ?first])"
    unfolding hexToCompactInPlace_def Let_def using assms(2) t c
    by (cases "hasTerm hex") (simp_all add: l k [symmetric] cong: if_cong)
  then have "hexToCompactInPlace hex = Some (length bs + 1, ?first # bs @ drop (length bs) l)" unfolding loop by simp
  moreover have "hexToCompact hex = Some (?first # bs)"
    using bs by (auto simp: hexToCompact_def Let_def k_def simp flip: core_def)
  ultimately show ?thesis using loop(3) h by simp
qed

section \<open>Properties\<close>



end
