(* ===== verification/Trie_Node.thy ===== *)
theory Trie_Node
  imports Trie_Encoding State_DB Rlp_Encode "HOL-Library.Monad_Syntax"
begin

text \<open>
  The Merkle Patricia trie (\<^verbatim>\<open>trie/trie.go\<close>, \<^verbatim>\<open>trie/node.go\<close>, \<^verbatim>\<open>trie/tracer.go\<close>): decoding of nodes, lookup, insertion and deletion with
  nodes loaded from the database on the way.  The database is an argument.
\<close>

section \<open>Definitions\<close>

subsection \<open>Nodes\<close>

record nodeFlag =
  nf_hash :: "bytes option"
  nf_dirty :: bool

text \<open>\<open>NilNode\<close> is the nil interface; a full node has 17 children.\<close>

datatype node = NilNode | ValueNode bytes | HashNode bytes | ShortNode bytes node nodeFlag | FullNode "node list" nodeFlag

datatype trie_err =
    ErrNodeEOF | ErrNodeRlp rlp_err | ErrValueNode rlp_err | ErrNodeElements nat | ErrOversizedNode nat | ErrRefSize nat
  | MissingNodeError bytes bytes | ErrStateNotFound bytes

text \<open>Decoding; the context that \<open>wrapError\<close> adds to the message of an error is left out.  \<open>CountValues\<close> counts zero when it fails.\<close>

lemma SplitList_shorter:
  assumes "SplitList b = Ok (elems, rest)"
  shows "length elems < length b"
proof -
  from assms obtain ts cs where r: "readKind b = Ok (KList, ts, cs)" and e: "elems = slice b (unat ts) (unat (ts + cs))"
    by (auto simp: SplitList_def Split_def split: sum.splits if_splits)
  have "b \<noteq> []" by (rule readKind_progress(1) [OF r])
  moreover have "ucast x + 1 \<noteq> (0 :: u64)" for x :: byte using unat_ucast_byte_Suc [of x] by (metis add_is_0 one_neq_zero unat_0)
  then have "ts \<noteq> 0" using r by (auto simp: readKind_def Let_def map_sum_Inr_iff split: if_splits sum.splits)
  then have "0 < unat ts" by (simp add: unat_gt_0)
  ultimately show ?thesis by (cases b) (auto simp: e min_less_iff_disj)
qed

lemma SplitString_rest: "SplitString b = Ok (c, rest) \<Longrightarrow> length rest \<le> length b"
  by (auto simp: SplitString_def Split_def split: sum.splits if_splits)

lemma Split_rest: "Split b = Ok (k, c, rest) \<Longrightarrow> length rest \<le> length b"
  by (auto simp: Split_def split: sum.splits)

text \<open>\<open>decodeChildren\<close> is the loop of \<open>decodeFull\<close>; what \<open>decodeRef\<close> leaves is what \<open>Split\<close> leaves.\<close>

function decodeNode :: "bytes option \<Rightarrow> bytes \<Rightarrow> trie_err + node"
  and decodeShort :: "bytes option \<Rightarrow> bytes \<Rightarrow> trie_err + node"
  and decodeChildren :: "nat \<Rightarrow> bytes \<Rightarrow> trie_err + (node list \<times> bytes)"
  and decodeRef :: "bytes \<Rightarrow> trie_err + (node \<times> bytes)" where
  "decodeNode hash buf =
     (if length buf = 0 then Err ErrNodeEOF
      else case SplitList buf of Err e \<Rightarrow> Err (ErrNodeRlp e)
      | Ok (elems, _) \<Rightarrow>
          let c = (case CountValues elems of Ok c \<Rightarrow> c | Err _ \<Rightarrow> 0)
          in if c = 2 then decodeShort hash elems
             else if c = 17 then
               (case decodeChildren 16 elems of Err e \<Rightarrow> Err e
                | Ok (children, elems) \<Rightarrow>
                    (case SplitString elems of Err e \<Rightarrow> Err (ErrNodeRlp e)
                     | Ok (val, _) \<Rightarrow> Ok (FullNode (children @ [if length val > 0 then ValueNode val else NilNode]) \<lparr>nf_hash = hash, nf_dirty = False\<rparr>)))
             else Err (ErrNodeElements c))"
| "decodeShort hash elems =
     (case SplitString elems of Err e \<Rightarrow> Err (ErrNodeRlp e)
      | Ok (kbuf, rest) \<Rightarrow>
          let flag = \<lparr>nf_hash = hash, nf_dirty = False\<rparr>; key = compactToHex kbuf
          in if hasTerm key then
               (case SplitString rest of Err e \<Rightarrow> Err (ErrValueNode e) | Ok (val, _) \<Rightarrow> Ok (ShortNode key (ValueNode val) flag))
             else (case decodeRef rest of Err e \<Rightarrow> Err e | Ok (r, _) \<Rightarrow> Ok (ShortNode key r flag)))"
| "decodeChildren 0 elems = Ok ([], elems)"
| "decodeChildren (Suc n) elems =
     (case Split elems of Err e \<Rightarrow> Err (ErrNodeRlp e)
      | Ok (_, _, rest) \<Rightarrow>
          (case decodeRef elems of Err e \<Rightarrow> Err e
           | Ok (cld, _) \<Rightarrow> (case decodeChildren n rest of Err e \<Rightarrow> Err e | Ok (cs, rest) \<Rightarrow> Ok (cld # cs, rest))))"
| "decodeRef buf =
     (case Split buf of Err e \<Rightarrow> Err (ErrNodeRlp e)
      | Ok (kind, val, rest) \<Rightarrow>
          if kind = KList then
            (let size = length buf - length rest
             in if size > 32 then Err (ErrOversizedNode size)
                else (case decodeNode None buf of Err e \<Rightarrow> Err e | Ok n \<Rightarrow> Ok (n, rest)))
          else if kind = KString \<and> length val = 0 then Ok (NilNode, rest)
          else if kind = KString \<and> length val = 32 then Ok (HashNode val, rest)
          else Err (ErrRefSize (length val)))"
  by pat_completeness auto
termination
  by (relation "measures [\<lambda>x. case x of Inl (Inl (_, b)) \<Rightarrow> 4 * length b | Inl (Inr (_, b)) \<Rightarrow> 4 * length b + 3
        | Inr (Inl (_, b)) \<Rightarrow> 4 * length b + 2 | Inr (Inr b) \<Rightarrow> 4 * length b + 1, \<lambda>x. case x of Inr (Inl (n, _)) \<Rightarrow> n | _ \<Rightarrow> 0]")
     (auto dest: SplitList_shorter SplitString_rest Split_rest split: sum.splits)

declare decodeNode.simps [simp del] decodeShort.simps [simp del] decodeRef.simps [simp del]

subsection \<open>The tracer\<close>

record tracer =
  tr_inserts :: "bytes set"
  tr_deletes :: "bytes set"
  tr_accessList :: "bytes \<rightharpoonup> bytes"

definition newTracer :: tracer where
  "newTracer = \<lparr>tr_inserts = {}, tr_deletes = {}, tr_accessList = Map.empty\<rparr>"

definition onRead :: "bytes \<Rightarrow> bytes \<Rightarrow> tracer \<Rightarrow> tracer" where
  "onRead path val t = t\<lparr>tr_accessList := (tr_accessList t)(path \<mapsto> val)\<rparr>"

definition onInsert :: "bytes \<Rightarrow> tracer \<Rightarrow> tracer" where
  "onInsert path t =
     (if path \<in> tr_deletes t then t\<lparr>tr_deletes := tr_deletes t - {path}\<rparr> else t\<lparr>tr_inserts := insert path (tr_inserts t)\<rparr>)"

definition onDelete :: "bytes \<Rightarrow> tracer \<Rightarrow> tracer" where
  "onDelete path t =
     (if path \<in> tr_inserts t then t\<lparr>tr_inserts := tr_inserts t - {path}\<rparr> else t\<lparr>tr_deletes := insert path (tr_deletes t)\<rparr>)"

subsection \<open>Operations on nodes\<close>

text \<open>The database: the blob stored for a path and a hash; a missing or empty one is an error.\<close>

type_synonym nodeReader = "bytes \<Rightarrow> bytes \<Rightarrow> bytes option"

definition reader_node :: "nodeReader \<Rightarrow> bytes \<Rightarrow> bytes \<Rightarrow> trie_err + bytes" where
  "reader_node R path hash = (case R path hash of Some blob \<Rightarrow> if length blob = 0 then Err (MissingNodeError hash path) else Ok blob
     | None \<Rightarrow> Err (MissingNodeError hash path))"

text \<open>The outcome of an operation on a node: \<open>None\<close> where the code panics or does not return.\<close>

type_synonym 'a trie_result = "((trie_err + 'a) \<times> tracer) option"

definition newFlag :: nodeFlag where
  "newFlag = \<lparr>nf_hash = None, nf_dirty = True\<rparr>"

text \<open>\<open>mustDecodeNode\<close> panics on an error.\<close>

definition resolveAndTrack :: "nodeReader \<Rightarrow> bytes \<Rightarrow> bytes \<Rightarrow> tracer \<Rightarrow> node trie_result" where
  "resolveAndTrack R n prefix tr =
     (case reader_node R prefix (BytesToHash n) of Err e \<Rightarrow> Some (Err e, tr)
      | Ok blob \<Rightarrow> (case decodeNode (Some n) blob of Err _ \<Rightarrow> None | Ok rn \<Rightarrow> Some (Ok rn, onRead prefix blob tr)))"

definition resolve :: "nodeReader \<Rightarrow> node \<Rightarrow> bytes \<Rightarrow> tracer \<Rightarrow> node trie_result" where
  "resolve R n prefix tr = (case n of HashNode h \<Rightarrow> resolveAndTrack R h prefix tr | _ \<Rightarrow> Some (Ok n, tr))"

text \<open>The result of \<open>get\<close>: the value, the node with what was loaded, and whether anything was.\<close>

partial_function (option) trie_get :: "nodeReader \<Rightarrow> node \<Rightarrow> bytes \<Rightarrow> nat \<Rightarrow> tracer \<Rightarrow> (bytes option \<times> node \<times> bool) trie_result" where
  "trie_get R origNode key pos tr =
     (case origNode of
        NilNode \<Rightarrow> Some (Ok (None, NilNode, False), tr)
      | ValueNode v \<Rightarrow> Some (Ok (Some v, ValueNode v, False), tr)
      | ShortNode k val flags \<Rightarrow>
          if length key - pos < length k \<or> slice key pos (pos + length k) \<noteq> k then Some (Ok (None, ShortNode k val flags, False), tr)
          else do {
            (r, tr) \<leftarrow> trie_get R val key (pos + length k) tr;
            Some (map_sum id (\<lambda>(value, newnode, didResolve). (value, ShortNode k (if didResolve then newnode else val) flags, didResolve)) r, tr)
          }
      | FullNode children flags \<Rightarrow>
          if length key \<le> pos \<or> length children \<le> unat (key ! pos) then None
          else do {
            (r, tr) \<leftarrow> trie_get R (children ! unat (key ! pos)) key (pos + 1) tr;
            Some (map_sum id (\<lambda>(value, newnode, didResolve).
              (value, FullNode (if didResolve then children[unat (key ! pos) := newnode] else children) flags, didResolve)) r, tr)
          }
      | HashNode h \<Rightarrow>
          do {
            (r, tr) \<leftarrow> resolveAndTrack R h (take pos key) tr;
            (case r of Err e \<Rightarrow> Some (Err e, tr)
             | Ok child \<Rightarrow>
                 do {
                   (r, tr) \<leftarrow> trie_get R child key pos tr;
                   Some (map_sum id (\<lambda>(value, newnode, _). (value, newnode, True)) r, tr)
                 })
          })"

text \<open>The result of \<open>insert\<close> and \<open>delete\<close>: whether the node changed, and the node.  An index outside the children panics.\<close>

partial_function (option) trie_insert :: "nodeReader \<Rightarrow> node \<Rightarrow> bytes \<Rightarrow> bytes \<Rightarrow> node \<Rightarrow> tracer \<Rightarrow> (bool \<times> node) trie_result" where
  "trie_insert R n prefix key value tr =
     (if length key = 0 then
        (case n of ValueNode v \<Rightarrow> (case value of ValueNode w \<Rightarrow> Some (Ok (v \<noteq> w, value), tr) | _ \<Rightarrow> None)
         | _ \<Rightarrow> Some (Ok (True, value), tr))
      else case n of
        ShortNode k val flags \<Rightarrow>
          let matchlen = prefixLen key k
          in if matchlen = length k then
               do {
                 (r, tr) \<leftarrow> trie_insert R val (prefix @ take matchlen key) (drop matchlen key) value tr;
                 Some (map_sum id (\<lambda>(dirty, nn). if \<not> dirty then (False, n) else (True, ShortNode k nn newFlag)) r, tr)
               }
             else if length key \<le> matchlen \<or> 17 \<le> unat (k ! matchlen) \<or> 17 \<le> unat (key ! matchlen) then None
             else
               do {
                 (r1, tr) \<leftarrow> trie_insert R NilNode (prefix @ take (matchlen + 1) k) (drop (matchlen + 1) k) val tr;
                 (case r1 of Err e \<Rightarrow> Some (Err e, tr)
                  | Ok (_, c1) \<Rightarrow>
                      do {
                        (r2, tr) \<leftarrow> trie_insert R NilNode (prefix @ take (matchlen + 1) key) (drop (matchlen + 1) key) value tr;
                        (case r2 of Err e \<Rightarrow> Some (Err e, tr)
                         | Ok (_, c2) \<Rightarrow>
                             let branch = FullNode ((replicate 17 NilNode)[unat (k ! matchlen) := c1, unat (key ! matchlen) := c2]) newFlag
                             in if matchlen = 0 then Some (Ok (True, branch), tr)
                                else Some (Ok (True, ShortNode (take matchlen key) branch newFlag), onInsert (prefix @ take matchlen key) tr))
                      })
               }
      | FullNode children flags \<Rightarrow>
          if length children \<le> unat (key ! 0) then None
          else do {
            (r, tr) \<leftarrow> trie_insert R (children ! unat (key ! 0)) (prefix @ [key ! 0]) (drop 1 key) value tr;
            Some (map_sum id (\<lambda>(dirty, nn). if \<not> dirty then (False, n) else (True, FullNode (children[unat (key ! 0) := nn]) newFlag)) r, tr)
          }
      | NilNode \<Rightarrow> Some (Ok (True, ShortNode key value newFlag), onInsert prefix tr)
      | HashNode h \<Rightarrow>
          do {
            (r, tr) \<leftarrow> resolveAndTrack R h prefix tr;
            (case r of Err e \<Rightarrow> Some (Err e, tr)
             | Ok rn \<Rightarrow>
                 do {
                   (r, tr) \<leftarrow> trie_insert R rn prefix key value tr;
                   Some (map_sum id (\<lambda>(dirty, nn). if \<not> dirty then (False, rn) else (True, nn)) r, tr)
                 })
          }
      | ValueNode _ \<Rightarrow> None)"

text \<open>The position of the only child, as the loop of \<open>delete\<close> finds it.\<close>

definition only_child :: "node list \<Rightarrow> nat option" where
  "only_child children = (case filter (\<lambda>i. children ! i \<noteq> NilNode) [0..<length children] of [i] \<Rightarrow> Some i | _ \<Rightarrow> None)"

text \<open>A full node after a child was removed: with one child left it becomes a short node.\<close>

definition reduce_full :: "nodeReader \<Rightarrow> bytes \<Rightarrow> node list \<Rightarrow> tracer \<Rightarrow> (bool \<times> node) trie_result" where
  "reduce_full R prefix children tr =
     (case only_child children of None \<Rightarrow> Some (Ok (True, FullNode children newFlag), tr)
      | Some pos \<Rightarrow>
          if pos \<noteq> 16 then
            do {
              (r, tr) \<leftarrow> resolve R (children ! pos) (prefix @ [of_nat pos]) tr;
              (case r of Err e \<Rightarrow> Some (Err e, tr)
               | Ok (ShortNode k val _) \<Rightarrow> Some (Ok (True, ShortNode (of_nat pos # k) val newFlag), onDelete (prefix @ [of_nat pos]) tr)
               | Ok _ \<Rightarrow> Some (Ok (True, ShortNode [of_nat pos] (children ! pos) newFlag), tr))
            }
          else Some (Ok (True, ShortNode [of_nat pos] (children ! pos) newFlag), tr))"

partial_function (option) trie_delete :: "nodeReader \<Rightarrow> node \<Rightarrow> bytes \<Rightarrow> bytes \<Rightarrow> tracer \<Rightarrow> (bool \<times> node) trie_result" where
  "trie_delete R n prefix key tr =
     (case n of
        ShortNode k val flags \<Rightarrow>
          let matchlen = prefixLen key k
          in if matchlen < length k then Some (Ok (False, n), tr)
             else if matchlen = length key then Some (Ok (True, NilNode), onDelete prefix tr)
             else
               do {
                 (r, tr) \<leftarrow> trie_delete R val (prefix @ take (length k) key) (drop (length k) key) tr;
                 (case r of Err e \<Rightarrow> Some (Err e, tr)
                  | Ok (dirty, child) \<Rightarrow>
                      if \<not> dirty then Some (Ok (False, n), tr)
                      else (case child of
                              ShortNode k2 val2 _ \<Rightarrow> Some (Ok (True, ShortNode (k @ k2) val2 newFlag), onDelete (prefix @ k) tr)
                            | _ \<Rightarrow> Some (Ok (True, ShortNode k child newFlag), tr)))
               }
      | FullNode children flags \<Rightarrow>
          if length key = 0 \<or> length children \<le> unat (key ! 0) then None
          else do {
            (r, tr) \<leftarrow> trie_delete R (children ! unat (key ! 0)) (prefix @ [key ! 0]) (drop 1 key) tr;
            (case r of Err e \<Rightarrow> Some (Err e, tr)
             | Ok (dirty, nn) \<Rightarrow>
                 if \<not> dirty then Some (Ok (False, n), tr)
                 else let children = children[unat (key ! 0) := nn]
                      in if nn \<noteq> NilNode then Some (Ok (True, FullNode children newFlag), tr) else reduce_full R prefix children tr)
          }
      | ValueNode _ \<Rightarrow> Some (Ok (True, NilNode), tr)
      | NilNode \<Rightarrow> Some (Ok (False, NilNode), tr)
      | HashNode h \<Rightarrow>
          do {
            (r, tr) \<leftarrow> resolveAndTrack R h prefix tr;
            (case r of Err e \<Rightarrow> Some (Err e, tr)
             | Ok rn \<Rightarrow>
                 do {
                   (r, tr) \<leftarrow> trie_delete R rn prefix key tr;
                   Some (map_sum id (\<lambda>(dirty, nn). if \<not> dirty then (False, rn) else (True, nn)) r, tr)
                 })
          })"

subsection \<open>The trie\<close>

text \<open>The owner and the reader of a trie do not change; they are in the reader argument of the operations.\<close>

record Trie =
  t_root :: node
  t_unhashed :: nat
  t_tracer :: tracer

definition emptyTrie :: Trie where
  "emptyTrie = \<lparr>t_root = NilNode, t_unhashed = 0, t_tracer = newTracer\<rparr>"

text \<open>The readers of the states the database has are an argument; a root that is not empty is loaded at once.\<close>

definition Trie_New :: "(hash \<Rightarrow> nodeReader option) \<Rightarrow> hash \<Rightarrow> hash \<Rightarrow> (trie_err + Trie) option" where
  "Trie_New GetReader stateRoot root =
     (case GetReader stateRoot of None \<Rightarrow> Some (Err (ErrStateNotFound stateRoot))
      | Some R \<Rightarrow>
          if root \<noteq> zero_hash \<and> root \<noteq> EmptyRootHash then
            do {
              (r, tr) \<leftarrow> resolveAndTrack R root [] newTracer;
              Some (map_sum id (\<lambda>rootnode. \<lparr>t_root = rootnode, t_unhashed = 0, t_tracer = tr\<rparr>) r)
            }
          else Some (Ok emptyTrie))"

text \<open>Results with the trie afterwards; an error leaves the root.\<close>

definition Trie_Get :: "nodeReader \<Rightarrow> bytes \<Rightarrow> Trie \<Rightarrow> ((trie_err + bytes option) \<times> Trie) option" where
  "Trie_Get R key t =
     do {
       (r, tr) \<leftarrow> trie_get R (t_root t) (keybytesToHex key) 0 (t_tracer t);
       Some (case r of Err e \<Rightarrow> (Err e, t\<lparr>t_tracer := tr\<rparr>)
         | Ok (value, newroot, didResolve) \<Rightarrow> (Ok value, t\<lparr>t_root := (if didResolve then newroot else t_root t), t_tracer := tr\<rparr>))
     }"

definition Trie_Delete :: "nodeReader \<Rightarrow> bytes \<Rightarrow> Trie \<Rightarrow> ((trie_err + unit) \<times> Trie) option" where
  "Trie_Delete R key t =
     do {
       (r, tr) \<leftarrow> trie_delete R (t_root t) [] (keybytesToHex key) (t_tracer t);
       Some (case r of Err e \<Rightarrow> (Err e, t\<lparr>t_unhashed := t_unhashed t + 1, t_tracer := tr\<rparr>)
         | Ok (_, n) \<Rightarrow> (Ok (), t\<lparr>t_unhashed := t_unhashed t + 1, t_root := n, t_tracer := tr\<rparr>))
     }"

definition Trie_Update :: "nodeReader \<Rightarrow> bytes \<Rightarrow> bytes \<Rightarrow> Trie \<Rightarrow> ((trie_err + unit) \<times> Trie) option" where
  "Trie_Update R key value t =
     (if length value \<noteq> 0 then
        do {
          (r, tr) \<leftarrow> trie_insert R (t_root t) [] (keybytesToHex key) (ValueNode value) (t_tracer t);
          Some (case r of Err e \<Rightarrow> (Err e, t\<lparr>t_unhashed := t_unhashed t + 1, t_tracer := tr\<rparr>)
            | Ok (_, n) \<Rightarrow> (Ok (), t\<lparr>t_unhashed := t_unhashed t + 1, t_root := n, t_tracer := tr\<rparr>))
        }
      else Trie_Delete R key t)"

subsection \<open>Hashing\<close>

text \<open>A nil child is written as an empty string by its parent.\<close>

fun node_encode :: "node \<Rightarrow> encBuffer \<Rightarrow> encBuffer" where
  "node_encode (FullNode children _) w =
     (let (offset, w) = eb_list w; w = fold node_encode children w in eb_listEnd offset w)"
| "node_encode (ShortNode key val _) w =
     (let (offset, w) = eb_list w; w = writeBytes key w; w = node_encode val w in eb_listEnd offset w)"
| "node_encode (HashNode h) w = writeBytes h w"
| "node_encode (ValueNode v) w = writeBytes v w"
| "node_encode NilNode w = eb_append [0x80] w"

text \<open>The Keccak state is a function from the data to the digest.  An encoding below 32 bytes stays inside the parent unless the hash is forced.\<close>

definition nodeToHash :: "(bytes \<Rightarrow> bytes) \<Rightarrow> node \<Rightarrow> bool \<Rightarrow> node option" where
  "nodeToHash sha n force =
     (case makeBytes (node_encode n newEncBuffer) of None \<Rightarrow> None
      | Some enc \<Rightarrow> Some (if length enc < 32 \<and> \<not> force then n else HashNode (sha enc)))"

abbreviation set_hash :: "node \<Rightarrow> nodeFlag \<Rightarrow> nodeFlag" where
  "set_hash hashed f \<equiv> f\<lparr>nf_hash := (case hashed of HashNode h \<Rightarrow> Some h | _ \<Rightarrow> None)\<rparr>"

text \<open>The hashed node and the node with its hashes cached.  \<open>hash_children\<close> goes through the first children of a full node, one after the other:
  hashing them in parallel gives the same nodes.\<close>

fun hasher_hash :: "(bytes \<Rightarrow> bytes) \<Rightarrow> node \<Rightarrow> bool \<Rightarrow> (node \<times> node) option"
  and hash_children :: "(bytes \<Rightarrow> bytes) \<Rightarrow> nat \<Rightarrow> node list \<Rightarrow> (node list \<times> node list) option" where
  "hasher_hash sha (ShortNode key val flags) force =
     (case nf_hash flags of Some h \<Rightarrow> Some (HashNode h, ShortNode key val flags)
      | None \<Rightarrow>
          do {
            ckey \<leftarrow> hexToCompact key;
            (cval, val) \<leftarrow> (case val of FullNode _ _ \<Rightarrow> hasher_hash sha val False | ShortNode _ _ _ \<Rightarrow> hasher_hash sha val False | _ \<Rightarrow> Some (val, val));
            hashed \<leftarrow> nodeToHash sha (ShortNode ckey cval flags) force;
            Some (hashed, ShortNode key val (set_hash hashed flags))
          })"
| "hasher_hash sha (FullNode children flags) force =
     (case nf_hash flags of Some h \<Rightarrow> Some (HashNode h, FullNode children flags)
      | None \<Rightarrow>
          do {
            (collapsed, cached) \<leftarrow> hash_children sha 16 children;
            hashed \<leftarrow> nodeToHash sha (FullNode collapsed flags) force;
            Some (hashed, FullNode cached (set_hash hashed flags))
          })"
| "hasher_hash sha n force = Some (n, n)"
| "hash_children sha (Suc i) (c # cs) =
     do {
       (collapsed, cached) \<leftarrow> (if c \<noteq> NilNode then hasher_hash sha c False else Some (ValueNode [], c));
       (ccs, cs) \<leftarrow> hash_children sha i cs;
       Some (collapsed # ccs, cached # cs)
     }"
| "hash_children sha _ cs = Some (cs, cs)"

text \<open>The hash of the root and the root with hashes cached; the counter of unhashed changes is reset unless the trie is empty.\<close>

definition hashRoot :: "(bytes \<Rightarrow> bytes) \<Rightarrow> Trie \<Rightarrow> (node \<times> node \<times> Trie) option" where
  "hashRoot sha t =
     (if t_root t = NilNode then Some (HashNode EmptyRootHash, NilNode, t)
      else do { (hashed, cached) \<leftarrow> hasher_hash sha (t_root t) True; Some (hashed, cached, t\<lparr>t_unhashed := 0\<rparr>) })"

definition Trie_Hash :: "(bytes \<Rightarrow> bytes) \<Rightarrow> Trie \<Rightarrow> (hash \<times> Trie) option" where
  "Trie_Hash sha t =
     do {
       (hashed, cached, t) \<leftarrow> hashRoot sha t;
       (case hashed of HashNode h \<Rightarrow> Some (BytesToHash h, t\<lparr>t_root := cached\<rparr>) | _ \<Rightarrow> None)
     }"

end
