(* ===== verification/Trie_Map.thy ===== *)
theory Trie_Map
  imports Trie_Node
begin

text \<open>
  What the nodes of a trie stand for: the map of a node over a database, the tree of a map, and that lookup, insertion and deletion (\<^verbatim>\<open>trie/trie.go\<close>) on a node
  are those of its map and keep it in minimal form.
\<close>

section \<open>The map a trie represents\<close>

definition terminated :: "bytes \<Rightarrow> bool" where
  "terminated p \<longleftrightarrow> (\<exists>q. nibbles q \<and> p = q @ [16])"

text \<open>The keys that may continue a path: nothing after the terminator, a terminated key before it.\<close>

definition continues :: "bytes \<Rightarrow> bytes \<Rightarrow> bool" where
  "continues p key \<longleftrightarrow> (if terminated p then key = [] else nibbles p \<and> terminated key)"

text \<open>The map of a short node and of a full node.\<close>

definition under :: "bytes \<Rightarrow> (bytes \<rightharpoonup> bytes) \<Rightarrow> bytes \<rightharpoonup> bytes" where
  "under k m = (\<lambda>x. if take (length k) x = k then m (drop (length k) x) else None)"

definition branch_map :: "(nat \<Rightarrow> bytes \<rightharpoonup> bytes) \<Rightarrow> bytes \<rightharpoonup> bytes" where
  "branch_map ms = (\<lambda>x. case x of [] \<Rightarrow> None | b # y \<Rightarrow> if unat b < 17 then ms (unat b) y else None)"

text \<open>The hash a node has cached is right for its map, in the sense of \<open>H\<close>.\<close>

definition flag_ok :: "(bytes \<Rightarrow> (bytes \<rightharpoonup> bytes) \<Rightarrow> bytes \<Rightarrow> bool) \<Rightarrow> bytes \<Rightarrow> (bytes \<rightharpoonup> bytes) \<Rightarrow> nodeFlag \<Rightarrow> bool" where
  "flag_ok H p m f \<longleftrightarrow> (\<forall>h. nf_hash f = Some h \<longrightarrow> H p m h)"

lemma flag_ok_new [simp]: "flag_ok H p m newFlag"
  by (simp add: flag_ok_def newFlag_def)

text \<open>\<open>rep H R p n m s\<close>: the node \<open>n\<close> at path \<open>p\<close> stands for the map \<open>m\<close> over a database \<open>R\<close> that has all its nodes, in the minimal form the code
  keeps: no empty subtrie, no short node below a short node, no full node with fewer than two children.  \<open>H p m h\<close> is what is asked of the hash of a node with map \<open>m\<close> at path \<open>p\<close>, cached or in its place.  \<open>s\<close> tells whether \<open>n\<close>, once loaded, is a short node.\<close>

inductive rep :: "(bytes \<Rightarrow> (bytes \<rightharpoonup> bytes) \<Rightarrow> bytes \<Rightarrow> bool) \<Rightarrow> nodeReader \<Rightarrow> bytes \<Rightarrow> node \<Rightarrow> (bytes \<rightharpoonup> bytes) \<Rightarrow> bool \<Rightarrow> bool" for H R where
  rep_nil: "rep H R p NilNode Map.empty False"
| rep_value: "terminated p \<Longrightarrow> v \<noteq> [] \<Longrightarrow> rep H R p (ValueNode v) [[] \<mapsto> v] False"
| rep_short: "nibbles p \<Longrightarrow> k \<noteq> [] \<Longrightarrow> hexkey k \<Longrightarrow> rep H R (p @ k) n m False \<Longrightarrow> n \<noteq> NilNode \<Longrightarrow>
    flag_ok H p (under k m) f \<Longrightarrow> rep H R p (ShortNode k n f) (under k m) True"
| rep_full: "nibbles p \<Longrightarrow> length cs = 17 \<Longrightarrow> (\<And>i. i < 17 \<Longrightarrow> rep H R (p @ [of_nat i]) (cs ! i) (ms i) (ss i)) \<Longrightarrow>
    i < 17 \<Longrightarrow> j < 17 \<Longrightarrow> i \<noteq> j \<Longrightarrow> cs ! i \<noteq> NilNode \<Longrightarrow> cs ! j \<noteq> NilNode \<Longrightarrow>
    flag_ok H p (branch_map ms) f \<Longrightarrow> rep H R p (FullNode cs f) (branch_map ms) False"
| rep_hash: "reader_node R p (BytesToHash h) = Ok blob \<Longrightarrow> decodeNode (Some h) blob = Ok n \<Longrightarrow> rep H R p n m s \<Longrightarrow> n \<noteq> NilNode \<Longrightarrow>
    H p m h \<Longrightarrow> rep H R p (HashNode h) m s"

inductive_cases rep_nilE: "rep H R p NilNode m s"
inductive_cases rep_valueE: "rep H R p (ValueNode v) m s"
inductive_cases rep_shortE: "rep H R p (ShortNode k n f) m s"
inductive_cases rep_fullE: "rep H R p (FullNode cs f) m s"
inductive_cases rep_hashE: "rep H R p (HashNode h) m s"

lemmas rep_short_new = rep.rep_short [OF _ _ _ _ _ flag_ok_new]
lemmas rep_full_new = rep.rep_full [OF _ _ _ _ _ _ _ _ flag_ok_new]

lemmas rep_elims = rep_nilE rep_valueE rep_shortE rep_fullE rep_hashE

lemma terminated_nibbles: "terminated p \<Longrightarrow> \<not> nibbles p"
  by (auto simp: terminated_def)

lemma nibbles_terminated: "nibbles p \<Longrightarrow> \<not> terminated p"
  using terminated_nibbles by blast

lemma under_Nil: "under [] m = m"
  by (simp add: under_def)

lemma under_append: "under k (under k2 m) = under (k @ k2) m"
  by (rule ext) (auto simp: under_def take_add drop_drop add.commute append_eq_conv_conj)

lemma under_upd: "(under k m)(k @ x := y) = under k (m(x := y))"
proof (rule ext)
  fix z
  show "((under k m)(k @ x := y)) z = under k (m(x := y)) z"
    by (auto simp: under_def) (metis append_take_drop_id)+
qed

lemma branch_upd: "unat b < 17 \<Longrightarrow> (branch_map ms)(b # x := y) = branch_map (ms(unat b := (ms (unat b))(x := y)))"
  by (auto simp: branch_map_def fun_eq_iff split: list.splits) (metis word_unat_eq_iff)+

text \<open>Paths.\<close>

lemma terminated_app: "terminated (p @ k) \<longleftrightarrow> (if k = [] then terminated p else nibbles p \<and> terminated k)"
  by (cases k rule: rev_cases) (auto simp: terminated_def)

lemma hexkey_iff: "hexkey k \<longleftrightarrow> nibbles k \<or> terminated k"
  by (auto simp: hexkey_def terminated_def)

lemma continues_app: "nibbles p \<Longrightarrow> k \<noteq> [] \<Longrightarrow> continues p (k @ x) \<longleftrightarrow> hexkey k \<and> continues (p @ k) x"
  by (cases x rule: rev_cases) (auto simp: continues_def terminated_app hexkey_iff nibbles_terminated dest: terminated_nibbles split: if_splits)

lemma continues_nonempty: "nibbles p \<Longrightarrow> continues p x \<Longrightarrow> x \<noteq> []"
  using nibbles_terminated [of p] by (auto simp: continues_def) (simp add: terminated_def)

lemma under_apply: "under k m (k @ y) = m y" "take (length k) x \<noteq> k \<Longrightarrow> under k m x = None"
  by (simp_all add: under_def)

lemma nibble_index: "terminated (b # y) \<Longrightarrow> unat b < 17"
  by (auto simp: terminated_def Cons_eq_append_conv word_less_nat_alt)

lemma terminated_Nil [simp]: "\<not> terminated []"
  by (simp add: terminated_def)

lemma continues_Nil [simp]: "continues p [] \<longleftrightarrow> terminated p"
  by (simp add: continues_def)

lemma continuesD: "continues p x \<Longrightarrow> x \<noteq> [] \<Longrightarrow> nibbles p \<and> terminated x"
  by (auto simp: continues_def split: if_splits)

lemma full_step:
  assumes "nibbles p" "continues p x"
  obtains b y where "x = b # y" "unat b < 17" "continues (p @ [b]) y"
proof -
  obtain b y where x: "x = b # y" using continues_nonempty [OF assms] by (cases x) auto
  have "unat b < 17" using continuesD [OF assms(2)] x nibble_index by auto
  moreover have "continues (p @ [b]) y" using assms x continues_app [of p "[b]" y] by simp
  ultimately show thesis using that x by blast
qed

lemma rep_terminated: "rep H R p n m s \<Longrightarrow> terminated p \<Longrightarrow> n = NilNode \<or> (\<exists>v. m = [[] \<mapsto> v])"
  by (induction rule: rep.induct) (auto simp: nibbles_terminated)

lemma resolve_rep: "reader_node R p (BytesToHash h) = Ok blob \<Longrightarrow> decodeNode (Some h) blob = Ok n \<Longrightarrow> resolveAndTrack R h p tr = Some (Ok n, onRead p blob tr)"
  by (simp add: resolveAndTrack_def)

lemma rep_full_upd:
  assumes "nibbles p" "length cs = 17" "\<And>i. i < 17 \<Longrightarrow> rep H R (p @ [of_nat i]) (cs ! i) (ms i) (ss i)"
    and "unat b < 17" "rep H R (p @ [b]) n m s" "i < 17" "j < 17" "i \<noteq> j" "cs[unat b := n] ! i \<noteq> NilNode" "cs[unat b := n] ! j \<noteq> NilNode"
    and "flag_ok H p (branch_map (ms(unat b := m))) f"
  shows "rep H R p (FullNode (cs[unat b := n]) f) (branch_map (ms(unat b := m))) False"
proof (rule rep.rep_full [OF assms(1) _ _ assms(6-11)])
  show "rep H R (p @ [of_nat k]) (cs[unat b := n] ! k) ((ms(unat b := m)) k) ((ss(unat b := s)) k)" if "k < 17" for k
    using assms(2-5) that by (auto simp: nth_list_update)
qed (use assms(2) in simp)

subsection \<open>Lookup\<close>

lemma trie_get_rep:
  assumes "rep H R p n m s" "continues p x" "key = p @ x"
  shows "\<exists>n' d tr'. trie_get R n key (length p) tr = Some (Ok (m x, n', d), tr') \<and> rep H R p n' m s \<and> (n \<noteq> NilNode \<longrightarrow> n' \<noteq> NilNode)"
  using assms
proof (induction arbitrary: x tr rule: rep.induct)
  case (rep_nil p)
  then show ?case by (subst trie_get.simps) (auto intro: rep.rep_nil)
next
  case (rep_value p v)
  then show ?case by (subst trie_get.simps) (auto simp: continues_def intro: rep.rep_value)
next
  case (rep_short p k n m f)
  show ?case
  proof (cases "take (length k) x = k")
    case True
    then obtain y where y: "x = k @ y" by (metis append_take_drop_id)
    have "continues (p @ k) y" using rep_short y by (simp add: continues_app)
    from rep_short.IH [OF this, of tr] y rep_short.prems obtain n' d tr' where
      "trie_get R n key (length p + length k) tr = Some (Ok (m y, n', d), tr')" "rep H R (p @ k) n' m False" "n' \<noteq> NilNode"
      using rep_short.hyps by auto
    then show ?thesis using rep_short.prems(2) rep_short.hyps y
      by (subst trie_get.simps) (auto simp: slice_def under_apply intro: rep.rep_short)
  next
    case False
    then show ?thesis using rep_short.prems(2) rep_short.hyps
      by (subst trie_get.simps) (auto simp: slice_def under_apply intro: rep.rep_short)
  qed
next
  case (rep_full p cs ms ss i j f)
  from full_step [OF rep_full.hyps(1) rep_full.prems(1)] obtain b y where x: "x = b # y" and b: "unat b < 17" and "continues (p @ [b]) y" .
  then obtain n' d tr' where g: "trie_get R (cs ! unat b) key (Suc (length p)) tr = Some (Ok (ms (unat b) y, n', d), tr')"
    "rep H R (p @ [b]) n' (ms (unat b)) (ss (unat b))" "cs ! unat b \<noteq> NilNode \<longrightarrow> n' \<noteq> NilNode"
    using rep_full.IH [OF b, of y tr] rep_full.prems(2) x by auto
  have k: "key ! length p = b" "length p < length key" using rep_full.prems(2) x by simp_all
  have "rep H R p (FullNode (cs[unat b := n']) f) (branch_map ms) False"
    using rep_full_upd [OF rep_full.hyps(1-3) b g(2), of i j f] rep_full.hyps b g(3) by (auto simp: nth_list_update)
  moreover have "branch_map ms x = ms (unat b) y" using b by (simp add: branch_map_def x)
  ultimately show ?case using g(1) k b rep_full.hyps by (subst trie_get.simps) (auto intro: rep.rep_full [where i = i and j = j])
next
  case (rep_hash p h blob n m s)
  from rep_hash.IH [OF rep_hash.prems, of "onRead p blob tr"] rep_hash.hyps resolve_rep [OF rep_hash.hyps(1,2)] rep_hash.prems
  show ?case by (subst trie_get.simps) auto
qed

subsection \<open>Insertion\<close>

lemma prefixLen_le: "prefixLen a b \<le> length a" "prefixLen a b \<le> length b"
  by (induction a b rule: prefixLen.induct) auto

lemma prefixLen_full: "prefixLen a b = length b \<longleftrightarrow> (\<exists>x. a = b @ x)"
  by (induction a b rule: prefixLen.induct) auto

lemma prefixLen_split:
  "prefixLen a b < length a \<Longrightarrow> prefixLen a b < length b \<Longrightarrow>
     \<exists>q x y as bs. a = q @ x # as \<and> b = q @ y # bs \<and> x \<noteq> y \<and> length q = prefixLen a b"
proof (induction a b rule: prefixLen.induct)
  case (1 a as b bs)
  show ?case
  proof (cases "a = b")
    case True
    then obtain q x y as' bs' where "as = q @ x # as'" "bs = q @ y # bs'" "x \<noteq> y" "length q = prefixLen as bs" using 1 by auto
    then show ?thesis using True by (intro exI [of _ "b # q"]) auto
  next
    case False
    then show ?thesis by (intro exI [of _ "[]"]) auto
  qed
qed auto

lemma insert_nil:
  "trie_insert R NilNode pre key v tr = Some (Ok (True, if key = [] then v else ShortNode key v newFlag), if key = [] then tr else onInsert pre tr)"
  by (subst trie_insert.simps) auto

text \<open>A node below a path it did not start at: what \<open>insert\<close> makes of a nil node.\<close>

lemma rep_attach:
  assumes "nibbles p" "hexkey k" "rep H R (p @ k) n m False" "n \<noteq> NilNode"
  shows "\<exists>s. rep H R p (if k = [] then n else ShortNode k n newFlag) (under k m) s \<and> (if k = [] then n else ShortNode k n newFlag) \<noteq> NilNode"
proof (cases "k = []")
  case True
  then show ?thesis using assms(3,4) by (auto simp: under_def)
qed (use rep_short_new [OF assms(1) _ assms(2-4)] in auto)

lemma branch_two:
  assumes "unat a < 17" "unat b < 17" "a \<noteq> b"
  shows "branch_map ((\<lambda>_. Map.empty)(unat a := under as m1, unat b := under bs m2)) = (\<lambda>x. if take 1 x = [a] then under (a # as) m1 x else under (b # bs) m2 x)"
  using assms by (auto simp: branch_map_def under_def fun_eq_iff word_unat_eq_iff split: list.splits)

text \<open>The branch node that replaces a short node whose key differs from the new one.\<close>

lemma rep_branch:
  assumes "nibbles p" "a \<noteq> b" "unat a < 17" "unat b < 17"
    and "rep H R (p @ [a]) n1 m1 s1" "n1 \<noteq> NilNode" "rep H R (p @ [b]) n2 m2 s2" "n2 \<noteq> NilNode"
  shows "rep H R p (FullNode ((replicate 17 NilNode)[unat a := n1, unat b := n2]) newFlag) (branch_map ((\<lambda>_. Map.empty)(unat a := m1, unat b := m2))) False"
proof (rule rep_full_new [OF assms(1), where i = "unat a" and j = "unat b"])
  show "rep H R (p @ [of_nat i]) ((replicate 17 NilNode)[unat a := n1, unat b := n2] ! i) (((\<lambda>_. Map.empty)(unat a := m1, unat b := m2)) i)
      ((if i = unat b then s2 else if i = unat a then s1 else False))" if "i < 17" for i
    using assms that by (auto simp: nth_list_update intro: rep.rep_nil)
qed (use assms in \<open>auto simp: nth_list_update word_unat_eq_iff\<close>)

lemma prefixLen_prefix: "prefixLen a b = length a \<longleftrightarrow> (\<exists>x. b = a @ x)"
  by (induction a b rule: prefixLen.induct) auto

text \<open>A terminated key and the key of a short node that does not lead to it part at some nibble.\<close>

lemma keys_part:
  assumes "terminated x" "hexkey k" "prefixLen x k \<noteq> length k"
  obtains q a b as bs where "k = q @ a # as" "x = q @ b # bs" "a \<noteq> b" "length q = prefixLen x k" "nibbles q" "unat a < 17" "unat b < 17"
proof -
  have "prefixLen x k \<noteq> length x"
  proof
    assume "prefixLen x k = length x"
    then obtain z where "k = x @ z" using prefixLen_prefix by blast
    then show False using assms by (cases "z = []") (auto simp: hexkey_iff terminated_app prefixLen_full dest: terminated_nibbles)
  qed
  then have "prefixLen x k < length x" "prefixLen x k < length k" using prefixLen_le [of x k] assms(3) by linarith+
  from prefixLen_split [OF this] obtain q b a bs as where s: "x = q @ b # bs" "k = q @ a # as" "b \<noteq> a" "length q = prefixLen x k" by blast
  have t: "terminated (b # bs)" "nibbles q" using assms(1) s(1) by (auto simp: terminated_app)
  have "unat a < 17" using assms(2) s(2) nibble_index [of a as] by (auto simp: hexkey_iff terminated_app word_less_nat_alt)
  then show thesis using that [OF s(2,1)] s(3,4) t nibble_index by auto
qed

lemma hexkey_tail: "hexkey (q @ a # as) \<Longrightarrow> as \<noteq> [] \<Longrightarrow> hexkey as \<and> nibbles [a]"
  using terminated_app [of "q @ [a]" as] by (auto simp: hexkey_iff)

lemma rep_part:
  assumes "nibbles p" "k = q @ a # as" "x = q @ b # bs" "a \<noteq> b" "nibbles q" "unat a < 17" "unat b < 17"
    and "hexkey k" "rep H R (p @ k) n m False" "n \<noteq> NilNode" "terminated x" "v \<noteq> []"
  defines "c1 \<equiv> if as = [] then n else ShortNode as n newFlag" and "c2 \<equiv> if bs = [] then ValueNode v else ShortNode bs (ValueNode v) newFlag"
  defines "branch \<equiv> FullNode ((replicate 17 NilNode)[unat a := c1, unat b := c2]) newFlag"
  shows "rep H R (p @ q) branch ((under (a # as) m)(b # bs \<mapsto> v)) False"
proof -
  have pa: "nibbles (p @ q)" using assms(1,5) by simp
  have "\<exists>s. rep H R (p @ q @ [a]) c1 (under as m) s \<and> c1 \<noteq> NilNode"
  proof (cases "as = []")
    case True
    then show ?thesis using assms(2,9,10) by (auto simp: c1_def under_Nil)
  next
    case False
    have "hexkey as" "nibbles [a]" using hexkey_tail [of q a as] assms(2,8) False by auto
    then show ?thesis using rep_attach [of "p @ q @ [a]" as H R n m] assms(1,2,5,9,10) by (simp add: c1_def)
  qed
  then obtain s1 where 1: "rep H R (p @ q @ [a]) c1 (under as m) s1" "c1 \<noteq> NilNode" by blast
  have tx: "terminated (p @ x)" using assms(1,3,11) by (simp add: terminated_app)
  have "\<exists>s. rep H R (p @ q @ [b]) c2 (under bs [[] \<mapsto> v]) s \<and> c2 \<noteq> NilNode"
  proof (cases "bs = []")
    case True
    then show ?thesis using tx assms(3,12) by (auto simp: c2_def under_Nil intro: rep.rep_value)
  next
    case False
    have "hexkey bs" "nibbles [b]" using hexkey_tail [of q b bs] assms(3,11) False by (auto simp: hexkey_iff)
    then show ?thesis using rep_attach [of "p @ q @ [b]" bs H R "ValueNode v" "[[] \<mapsto> v]"] rep.rep_value [OF tx assms(12), of H R] assms(1,3,5)
      by (simp add: c2_def)
  qed
  then obtain s2 where 2: "rep H R (p @ q @ [b]) c2 (under bs [[] \<mapsto> v]) s2" "c2 \<noteq> NilNode" by blast
  have "rep H R (p @ q) branch (branch_map ((\<lambda>_. Map.empty)(unat a := under as m, unat b := under bs [[] \<mapsto> v]))) False"
    unfolding branch_def using rep_branch [OF pa assms(4,6,7)] 1 2 by simp
  moreover have "branch_map ((\<lambda>_. Map.empty)(unat a := under as m, unat b := under bs [[] \<mapsto> v])) = (under (a # as) m)(b # bs \<mapsto> v)"
    (is "?l = ?r")
  proof (rule ext)
    fix y
    show "?l y = ?r y" unfolding branch_two [OF assms(6,7,4)] using assms(4) by (cases y) (auto simp: under_def append_eq_conv_conj)
  qed
  ultimately show ?thesis by simp
qed

text \<open>What an insertion gives.\<close>

definition inserted :: "(bytes \<Rightarrow> (bytes \<rightharpoonup> bytes) \<Rightarrow> bytes \<Rightarrow> bool) \<Rightarrow> nodeReader \<Rightarrow> bytes \<Rightarrow> node \<Rightarrow> (bytes \<rightharpoonup> bytes) \<Rightarrow> bool \<Rightarrow> bytes \<Rightarrow> bytes \<Rightarrow> (bool \<times> node) trie_result \<Rightarrow> bool" where
  "inserted H R p n m s x v r \<longleftrightarrow> (\<exists>d n' s' tr'. r = Some (Ok (d, n'), tr') \<and> rep H R p n' (m(x \<mapsto> v)) s' \<and> n' \<noteq> NilNode
     \<and> (n \<noteq> NilNode \<longrightarrow> \<not> s \<longrightarrow> \<not> s') \<and> (\<not> d \<longrightarrow> m x = Some v))"

lemma insertedI:
  "r = Some (Ok (d, n'), tr') \<Longrightarrow> rep H R p n' (m(x \<mapsto> v)) s' \<Longrightarrow> n' \<noteq> NilNode \<Longrightarrow> (n \<noteq> NilNode \<Longrightarrow> \<not> s \<Longrightarrow> \<not> s') \<Longrightarrow> (\<not> d \<Longrightarrow> m x = Some v) \<Longrightarrow>
     inserted H R p n m s x v r"
  unfolding inserted_def by blast

lemma insertedE:
  assumes "inserted H R p n m s x v r"
  obtains d n' s' tr' where "r = Some (Ok (d, n'), tr')" "rep H R p n' (m(x \<mapsto> v)) s'" "n' \<noteq> NilNode" "n \<noteq> NilNode \<longrightarrow> \<not> s \<longrightarrow> \<not> s'" "\<not> d \<longrightarrow> m x = Some v"
  using assms unfolding inserted_def by blast

lemma under_single: "under x [[] \<mapsto> v] = [x \<mapsto> v]"
proof (rule ext)
  fix y
  show "under x [[] \<mapsto> v] y = [x \<mapsto> v] y"
    by (auto simp: under_def)
qed

lemma insert_rep_nil:
  assumes "continues p x" "v \<noteq> []"
  shows "inserted H R p NilNode Map.empty False x v (trie_insert R NilNode p x (ValueNode v) tr)"
proof (cases "x = []")
  case True
  then have "rep H R p (ValueNode v) [x \<mapsto> v] False" using assms rep.rep_value by simp
  then show ?thesis unfolding insert_nil using True by (intro insertedI [OF refl]) simp_all
next
  case False
  with assms(1) have "nibbles p" "terminated x" by (auto dest: continuesD)
  then have "rep H R p (ShortNode x (ValueNode v) newFlag) (under x [[] \<mapsto> v]) True"
    by (intro rep_short_new rep.rep_value) (simp_all add: False assms(2) hexkey_iff terminated_app)
  then show ?thesis unfolding insert_nil using False by (intro insertedI [OF refl]) (simp_all add: under_single)
qed

lemma insert_rep_short:
  assumes "nibbles p" "k \<noteq> []" "hexkey k" "rep H R (p @ k) n m False" "n \<noteq> NilNode" "flag_ok H p (under k m) f"
    and "inserted H R (p @ k) n m False y v (trie_insert R n (p @ k) y (ValueNode v) tr)"
  shows "inserted H R p (ShortNode k n f) (under k m) True (k @ y) v (trie_insert R (ShortNode k n f) p (k @ y) (ValueNode v) tr)"
proof -
  from assms(7,5) obtain d n' tr' where g: "trie_insert R n (p @ k) y (ValueNode v) tr = Some (Ok (d, n'), tr')"
      "rep H R (p @ k) n' (m(y \<mapsto> v)) False" "n' \<noteq> NilNode" "\<not> d \<longrightarrow> m y = Some v"
    by (elim insertedE) (metis (full_types))
  have "prefixLen (k @ y) k = length k" using prefixLen_full by blast
  then have e: "trie_insert R (ShortNode k n f) p (k @ y) (ValueNode v) tr =
      Some (Ok (if d then (True, ShortNode k n' newFlag) else (False, ShortNode k n f)), tr')"
    using g(1) assms(2) by (subst trie_insert.simps) simp
  show ?thesis
  proof (cases d)
    case True
    have "rep H R p (ShortNode k n' newFlag) (under k (m(y \<mapsto> v))) True" using assms(1-3) g(2,3) by (rule rep_short_new)
    then show ?thesis unfolding e if_P [OF True] by (intro insertedI [OF refl]) (simp_all add: under_upd)
  next
    case False
    then have "(under k m)(k @ y \<mapsto> v) = under k m" using g(4) by (simp add: under_apply fun_upd_idem)
    moreover have "rep H R p (ShortNode k n f) (under k m) True" using assms(1-6) by (rule rep.rep_short)
    ultimately show ?thesis unfolding e if_not_P [OF False] using False g(4) by (intro insertedI [OF refl]) (simp_all add: under_apply)
  qed
qed

lemma insert_rep_part:
  assumes "nibbles p" "k \<noteq> []" "hexkey k" "rep H R (p @ k) n m False" "n \<noteq> NilNode" "terminated x" "prefixLen x k \<noteq> length k" "v \<noteq> []"
  shows "inserted H R p (ShortNode k n f) (under k m) True x v (trie_insert R (ShortNode k n f) p x (ValueNode v) tr)"
proof -
  from keys_part [OF assms(6,3,7)] obtain q a b as bs where
    s: "k = q @ a # as" "x = q @ b # bs" "a \<noteq> b" "length q = prefixLen x k" "nibbles q" "unat a < 17" "unat b < 17" .
  let ?branch = "FullNode ((replicate 17 NilNode)[unat a := if as = [] then n else ShortNode as n newFlag,
      unat b := if bs = [] then ValueNode v else ShortNode bs (ValueNode v) newFlag]) newFlag"
  have branch: "rep H R (p @ q) ?branch ((under (a # as) m)(b # bs \<mapsto> v)) False"
    by (rule rep_part [OF assms(1) s(1-3,5-7) assms(3-6,8)])
  have m: "(under k m)(x \<mapsto> v) = under q ((under (a # as) m)(b # bs \<mapsto> v))" 
    unfolding s(1,2) under_append [of q "a # as" m, symmetric] under_upd ..
  have "x \<noteq> []" "length q \<noteq> length k" "length q < length x" "k ! length q = a" "x ! length q = b" "drop (Suc (length q)) k = as"
      "drop (Suc (length q)) x = bs" "take (length q) x = q" using s(1,2) by simp_all
  then have "\<exists>tr'. trie_insert R (ShortNode k n f) p x (ValueNode v) tr = Some (Ok (True, if q = [] then ?branch else ShortNode q ?branch newFlag), tr')"
    using s(6,7) by (subst trie_insert.simps) (simp add: insert_nil Let_def s(4) [symmetric])
  then obtain tr' where e: "trie_insert R (ShortNode k n f) p x (ValueNode v) tr = Some (Ok (True, if q = [] then ?branch else ShortNode q ?branch newFlag), tr')" by blast
  show ?thesis
  proof (cases "q = []")
    case True
    then show ?thesis using e branch by (intro insertedI [OF e]) (simp_all add: m under_Nil)
  next
    case False
    then have "rep H R p (ShortNode q ?branch newFlag) ((under k m)(x \<mapsto> v)) True"
      unfolding m using assms(1) s(5) branch by (intro rep_short_new) (simp_all add: hexkey_iff)
    then show ?thesis using False by (intro insertedI [OF e]) simp_all
  qed
qed

lemma insert_rep_full:
  assumes "nibbles p" "length cs = 17" "\<And>i. i < 17 \<Longrightarrow> rep H R (p @ [of_nat i]) (cs ! i) (ms i) (ss i)"
    and "i < 17" "j < 17" "i \<noteq> j" "cs ! i \<noteq> NilNode" "cs ! j \<noteq> NilNode" "flag_ok H p (branch_map ms) f" "unat b < 17"
    and "inserted H R (p @ [b]) (cs ! unat b) (ms (unat b)) (ss (unat b)) y v (trie_insert R (cs ! unat b) (p @ [b]) y (ValueNode v) tr)"
  shows "inserted H R p (FullNode cs f) (branch_map ms) False (b # y) v (trie_insert R (FullNode cs f) p (b # y) (ValueNode v) tr)"
proof -
  from assms(11) obtain d n' s' tr' where g: "trie_insert R (cs ! unat b) (p @ [b]) y (ValueNode v) tr = Some (Ok (d, n'), tr')"
    "rep H R (p @ [b]) n' ((ms (unat b))(y \<mapsto> v)) s'" "n' \<noteq> NilNode" "\<not> d \<longrightarrow> ms (unat b) y = Some v" by (rule insertedE)
  have e: "trie_insert R (FullNode cs f) p (b # y) (ValueNode v) tr =
      Some (Ok (if d then (True, FullNode (cs[unat b := n']) newFlag) else (False, FullNode cs f)), tr')"
    using g(1) assms(2,10) by (subst trie_insert.simps) simp
  show ?thesis
  proof (cases d)
    case True
    have "rep H R p (FullNode (cs[unat b := n']) newFlag) ((branch_map ms)(b # y \<mapsto> v)) False"
      using rep_full_upd [OF assms(1-3,10) g(2), of i j newFlag] assms(2,4-10) g(3) by (auto simp: nth_list_update branch_upd)
    then show ?thesis unfolding e if_P [OF True] by (intro insertedI [OF refl, where s' = False]) simp_all
  next
    case False
    then have v: "branch_map ms (b # y) = Some v" using g(4) assms(10) by (simp add: branch_map_def)
    have "rep H R p (FullNode cs f) (branch_map ms) False" using assms(1-9) by (rule rep.rep_full)
    then show ?thesis unfolding e if_not_P [OF False] using v by (intro insertedI [OF refl, where s' = False]) (simp_all add: fun_upd_idem)
  qed
qed

lemma insert_rep_hash:
  assumes "reader_node R p (BytesToHash h) = Ok blob" "decodeNode (Some h) blob = Ok n" "rep H R p n m s" "n \<noteq> NilNode" "H p m h" "continues p x" "v \<noteq> []"
    and "inserted H R p n m s x v (trie_insert R n p x (ValueNode v) (onRead p blob tr))"
  shows "inserted H R p (HashNode h) m s x v (trie_insert R (HashNode h) p x (ValueNode v) tr)"
proof (cases "x = []")
  case True
  then have t: "terminated p" using assms(6) by simp
  then obtain w where m: "m = [[] \<mapsto> w]" using rep_terminated [OF assms(3)] assms(4) by blast
  have e: "trie_insert R (HashNode h) p x (ValueNode v) tr = Some (Ok (True, ValueNode v), tr)" using True by (subst trie_insert.simps) simp
  show ?thesis using True m rep.rep_value [OF t assms(7), of H R] by (intro insertedI [OF e, where s' = False]) simp_all
next
  case False
  from assms(8) obtain d n' s' tr' where g: "trie_insert R n p x (ValueNode v) (onRead p blob tr) = Some (Ok (d, n'), tr')"
    "rep H R p n' (m(x \<mapsto> v)) s'" "n' \<noteq> NilNode" "n \<noteq> NilNode \<longrightarrow> \<not> s \<longrightarrow> \<not> s'" "\<not> d \<longrightarrow> m x = Some v" by (rule insertedE)
  have e: "trie_insert R (HashNode h) p x (ValueNode v) tr = Some (Ok (if d then (True, n') else (False, n)), tr')"
    using False g(1) resolve_rep [OF assms(1,2)] by (subst trie_insert.simps) simp
  show ?thesis
  proof (cases d)
    case True
    then show ?thesis unfolding e if_P [OF True] using g assms(4) by (intro insertedI [OF refl, where s' = s']) simp_all
  next
    case False
    then show ?thesis unfolding e if_not_P [OF False] using g assms(3,4) by (intro insertedI [OF refl, where s' = s]) (simp_all add: fun_upd_idem)
  qed
qed

lemma trie_insert_rep: "rep H R p n m s \<Longrightarrow> continues p x \<Longrightarrow> v \<noteq> [] \<Longrightarrow> inserted H R p n m s x v (trie_insert R n p x (ValueNode v) tr)"
proof (induction arbitrary: x tr rule: rep.induct)
  case (rep_value p w)
  then have x: "x = []" by (simp add: continues_def)
  then have e: "trie_insert R (ValueNode w) p x (ValueNode v) tr = Some (Ok (w \<noteq> v, ValueNode v), tr)" by (subst trie_insert.simps) simp
  have "[[] \<mapsto> w](x \<mapsto> v) = [[] \<mapsto> v]" by (simp add: x)
  then have "rep H R p (ValueNode v) ([[] \<mapsto> w](x \<mapsto> v)) False" using rep.rep_value [OF rep_value(1) rep_value(4), of H R] by (simp only:)
  then show ?case by (rule insertedI [OF e]) (simp_all add: x)
next
  case (rep_short p k n m f)
  have x: "terminated x" using rep_short.prems(1) rep_short.hyps(1) continuesD continues_nonempty by blast
  show ?case
  proof (cases "prefixLen x k = length k")
    case True
    then obtain y where y: "x = k @ y" using prefixLen_full by blast
    then have "continues (p @ k) y" using rep_short by (simp add: continues_app)
    from insert_rep_short [OF rep_short.hyps rep_short.IH [OF this rep_short.prems(2)]] show ?thesis by (simp add: y)
  next
    case False
    show ?thesis by (rule insert_rep_part [OF rep_short.hyps(1-5) x False rep_short.prems(2)])
  qed
next
  case (rep_full p cs ms ss i j f)
  from full_step [OF rep_full.hyps(1) rep_full.prems(1)] obtain b y where x: "x = b # y" and b: "unat b < 17" and c: "continues (p @ [b]) y" .
  have w: "of_nat (unat b) = b" by simp
  show ?case unfolding x by (rule insert_rep_full [OF rep_full.hyps b rep_full.IH [OF b, unfolded w, OF c rep_full.prems(2)]])
next
  case (rep_hash p h blob n m s)
  show ?case by (rule insert_rep_hash [OF rep_hash.hyps rep_hash.prems rep_hash.IH [OF rep_hash.prems]])
qed (rule insert_rep_nil)

subsection \<open>Deletion\<close>

lemma decodeNode_kind: "decodeNode h buf = Ok n \<Longrightarrow> (\<exists>k v f. n = ShortNode k v f) \<or> (\<exists>cs f. n = FullNode cs f)"
  by (subst (asm) decodeNode.simps) (auto simp: decodeShort.simps Let_def split: if_splits sum.splits)

lemma rep_short_iff: "rep H R p n m s \<Longrightarrow> (\<And>h. n \<noteq> HashNode h) \<Longrightarrow> s \<longleftrightarrow> (\<exists>k v f. n = ShortNode k v f)"
  by (induction rule: rep.cases) auto

lemma rep_resolve:
  assumes "rep H R p n m s"
  obtains rn tr' where "resolve R n p tr = Some (Ok rn, tr')" "rep H R p rn m s" "s \<longleftrightarrow> (\<exists>k v f. rn = ShortNode k v f)" "rn = NilNode \<longleftrightarrow> n = NilNode"
proof (cases "\<exists>h. n = HashNode h")
  case True
  then obtain h blob rn where r: "n = HashNode h" "reader_node R p (BytesToHash h) = Ok blob" "decodeNode (Some h) blob = Ok rn" "rep H R p rn m s" "rn \<noteq> NilNode"
    using assms by (auto elim: rep_hashE)
  moreover have "\<And>h. rn \<noteq> HashNode h" using decodeNode_kind [OF r(3)] by auto
  ultimately show thesis using that [of rn "onRead p blob tr"] rep_short_iff [of H R p rn m s] resolve_rep [OF r(2,3)] by (simp add: resolve_def)
next
  case False
  then have "resolve R n p tr = Some (Ok n, tr)" by (cases n) (auto simp: resolve_def)
  then show thesis using that [of n tr] assms rep_short_iff [OF assms] False by blast
qed

lemma rep_terminated_sort: "rep H R p n m s \<Longrightarrow> terminated p \<Longrightarrow> \<not> s"
  by (induction rule: rep.induct) (auto simp: nibbles_terminated)

lemma rep_nil_map: "rep H R p NilNode m s \<Longrightarrow> m = Map.empty"
  by (auto elim: rep_nilE)

text \<open>Two short nodes in a row, as one.\<close>

lemma rep_merge:
  assumes "nibbles p" "k \<noteq> []" "nibbles k" "rep H R (p @ k) (ShortNode k2 n f) m s"
  shows "rep H R p (ShortNode (k @ k2) n newFlag) (under k m) True"
proof -
  from assms(4) obtain m2 where r: "m = under k2 m2" "k2 \<noteq> []" "hexkey k2" "rep H R ((p @ k) @ k2) n m2 False" "n \<noteq> NilNode" by (auto elim: rep_shortE)
  have "hexkey (k @ k2)" using assms(3) r(3) by (auto simp: hexkey_iff terminated_app split: if_splits)
  then show ?thesis using rep_short_new [OF assms(1) _ _ _ r(5), of "k @ k2" H R m2] assms(2) r by (simp add: under_append)
qed

lemma only_child_Some:
  assumes "only_child cs = Some pos"
  shows "pos < length cs" "cs ! pos \<noteq> NilNode" "i < length cs \<Longrightarrow> i \<noteq> pos \<Longrightarrow> cs ! i = NilNode"
proof -
  from assms have f: "filter (\<lambda>i. cs ! i \<noteq> NilNode) [0..<length cs] = [pos]" by (auto simp: only_child_def split: list.splits)
  from arg_cong [OF this, of set] show "pos < length cs" "cs ! pos \<noteq> NilNode" "i < length cs \<Longrightarrow> i \<noteq> pos \<Longrightarrow> cs ! i = NilNode" by auto
qed

lemma only_child_None:
  assumes "only_child cs = None" "i < length cs" "cs ! i \<noteq> NilNode"
  obtains j where "j < length cs" "j \<noteq> i" "cs ! j \<noteq> NilNode"
proof -
  let ?f = "filter (\<lambda>i. cs ! i \<noteq> NilNode) [0..<length cs]"
  have i: "i \<in> set ?f" using assms(2,3) by simp
  moreover have "?f \<noteq> [i]" using assms(1) by (auto simp: only_child_def split: list.splits)
  moreover have "distinct ?f" by simp
  ultimately obtain j where "j \<in> set ?f" "j \<noteq> i" by (metis (no_types, lifting) distinct.simps(2) empty_iff insert_iff list.exhaust list.set(1) list.set(2))
  then show thesis using that by auto
qed

definition deleted :: "(bytes \<Rightarrow> (bytes \<rightharpoonup> bytes) \<Rightarrow> bytes \<Rightarrow> bool) \<Rightarrow> nodeReader \<Rightarrow> bytes \<Rightarrow> node \<Rightarrow> (bytes \<rightharpoonup> bytes) \<Rightarrow> bool \<Rightarrow> bytes \<Rightarrow> (bool \<times> node) trie_result \<Rightarrow> bool" where
  "deleted H R p n m s x r \<longleftrightarrow> (\<exists>d n' s' tr'. r = Some (Ok (d, n'), tr') \<and> rep H R p n' (m(x := None)) s' \<and> (\<not> d \<longrightarrow> m x = None) \<and> (d \<longrightarrow> (\<forall>h. n' \<noteq> HashNode h))
     \<and> (n \<noteq> NilNode \<longrightarrow> \<not> s \<longrightarrow> nibbles p \<longrightarrow> n' \<noteq> NilNode))"

lemma deletedI:
  "r = Some (Ok (d, n'), tr') \<Longrightarrow> rep H R p n' (m(x := None)) s' \<Longrightarrow> (\<not> d \<Longrightarrow> m x = None) \<Longrightarrow> (d \<Longrightarrow> \<forall>h. n' \<noteq> HashNode h) \<Longrightarrow>
     (n \<noteq> NilNode \<Longrightarrow> \<not> s \<Longrightarrow> nibbles p \<Longrightarrow> n' \<noteq> NilNode) \<Longrightarrow> deleted H R p n m s x r"
  unfolding deleted_def by blast

lemma deletedE:
  assumes "deleted H R p n m s x r"
  obtains d n' s' tr' where "r = Some (Ok (d, n'), tr')" "rep H R p n' (m(x := None)) s'" "\<not> d \<longrightarrow> m x = None" "d \<longrightarrow> (\<forall>h. n' \<noteq> HashNode h)"
    "n \<noteq> NilNode \<longrightarrow> \<not> s \<longrightarrow> nibbles p \<longrightarrow> n' \<noteq> NilNode"
  using assms unfolding deleted_def by blast

lemma reduce_rep:
  assumes "nibbles p" "length cs = 17" "\<And>i. i < 17 \<Longrightarrow> rep H R (p @ [of_nat i]) (cs ! i) (ms i) (ss i)" "i < 17" "cs ! i \<noteq> NilNode"
  shows "\<exists>n' s' tr'. reduce_full R p cs tr = Some (Ok (True, n'), tr') \<and> rep H R p n' (branch_map ms) s' \<and> n' \<noteq> NilNode \<and> (\<forall>h. n' \<noteq> HashNode h)"
proof (cases "only_child cs")
  case None
  from only_child_None [OF None, of i] assms(2,4,5) obtain j where "j < 17" "i \<noteq> j" "cs ! j \<noteq> NilNode" by metis
  then have "rep H R p (FullNode cs newFlag) (branch_map ms) False" using assms by (intro rep_full_new [where i = i and j = j]) auto
  then show ?thesis by (auto simp: reduce_full_def None)
next
  case (Some pos)
  note o = only_child_Some [OF Some, unfolded assms(2)]
  have u: "unat (of_nat pos :: byte) = pos" using o(1) by (simp add: unat_of_nat)
  have ne: "unat b \<noteq> pos" if "b \<noteq> of_nat pos" for b :: byte using that by auto
  have "ms i = Map.empty" if "i < 17" "i \<noteq> pos" for i using assms(3) [OF that(1)] o(3) [OF that] rep_nil_map by metis
  then have m: "branch_map ms = under [of_nat pos] (ms pos)"
    using o(1) u ne by (auto simp: branch_map_def under_def fun_eq_iff split: list.splits)
  note c = assms(3) [OF o(1)]
  have h: "hexkey [of_nat pos]" using o(1) u by (cases "pos = 16") (auto simp: hexkey_iff terminated_def word_less_nat_alt)
  have short: "rep H R p (ShortNode [of_nat pos] (cs ! pos) newFlag) (branch_map ms) True" if "\<not> ss pos"
    unfolding m using c that o(2) assms(1) h by (intro rep_short_new) simp_all
  show ?thesis
  proof (cases "pos = 16")
    case True
    then have "\<not> ss pos" using rep_terminated_sort [OF c] assms(1) by (simp add: terminated_app) (simp add: terminated_def)
    then show ?thesis using short True by (auto simp: reduce_full_def Some)
  next
    case False
    from rep_resolve [OF c, of tr] obtain rn tr' where r: "resolve R (cs ! pos) (p @ [of_nat pos]) tr = Some (Ok rn, tr')" "rep H R (p @ [of_nat pos]) rn (ms pos) (ss pos)"
      "ss pos \<longleftrightarrow> (\<exists>k v f. rn = ShortNode k v f)" .
    have "nibbles [of_nat pos]" using False o(1) u by (simp add: word_less_nat_alt)
    then have "rep H R p (ShortNode (of_nat pos # k) v newFlag) (branch_map ms) True" if "rn = ShortNode k v f" for k v f
      using rep_merge [OF assms(1), of "[of_nat pos]" H R k v f] r(2) that by (simp add: m)
    then show ?thesis using r(1,3) short False by (cases rn) (auto simp: reduce_full_def Some)
  qed
qed

lemma delete_rep_miss:
  assumes "rep H R p (ShortNode k n f) (under k m) True" "prefixLen x k \<noteq> length k"
  shows "deleted H R p (ShortNode k n f) (under k m) True x (trie_delete R (ShortNode k n f) p x tr)"
proof -
  have "prefixLen x k < length k" using assms(2) prefixLen_le [of x k] by simp
  then have e: "trie_delete R (ShortNode k n f) p x tr = Some (Ok (False, ShortNode k n f), tr)" by (subst trie_delete.simps) simp
  have "under k m x = None" using assms(2) prefixLen_full [of x k] append_take_drop_id [of "length k" x] by (metis under_apply(2))
  then show ?thesis using assms(1) by (intro deletedI [OF e, where s' = True]) (simp_all add: fun_upd_idem)
qed

lemma delete_rep_here:
  assumes "nibbles p" "k \<noteq> []" "terminated (p @ k)" "rep H R (p @ k) n m False" "n \<noteq> NilNode"
  shows "deleted H R p (ShortNode k n f) (under k m) True k (trie_delete R (ShortNode k n f) p k tr)"
proof -
  have "prefixLen k k = length k" using prefixLen_full [of k k] by simp
  then have e: "trie_delete R (ShortNode k n f) p k tr = Some (Ok (True, NilNode), onDelete p tr)" by (subst trie_delete.simps) simp
  obtain w where "m = [[] \<mapsto> w]" using rep_terminated [OF assms(4)] assms(3,5) by blast
  then have "(under k m)(k := None) = Map.empty" by (simp add: under_single)
  then show ?thesis using rep.rep_nil [of H R p] by (intro deletedI [OF e]) simp_all
qed

lemma delete_rep_short:
  assumes "nibbles p" "k \<noteq> []" "nibbles k" "rep H R (p @ k) n m False" "n \<noteq> NilNode" "flag_ok H p (under k m) f" "y \<noteq> []"
    and "deleted H R (p @ k) n m False y (trie_delete R n (p @ k) y tr)"
  shows "deleted H R p (ShortNode k n f) (under k m) True (k @ y) (trie_delete R (ShortNode k n f) p (k @ y) tr)"
proof -
  from assms(8) obtain d n' s' tr' where g: "trie_delete R n (p @ k) y tr = Some (Ok (d, n'), tr')" "rep H R (p @ k) n' (m(y := None)) s'"
    "\<not> d \<longrightarrow> m y = None" "d \<longrightarrow> (\<forall>h. n' \<noteq> HashNode h)" "n' \<noteq> NilNode"
    using assms(1,3,5) by (elim deletedE) auto
  have "prefixLen (k @ y) k = length k" using prefixLen_full by blast
  then have e: "trie_delete R (ShortNode k n f) p (k @ y) tr = (if \<not> d then Some (Ok (False, ShortNode k n f), tr') else
       (case n' of ShortNode k2 val2 _ \<Rightarrow> Some (Ok (True, ShortNode (k @ k2) val2 newFlag), onDelete (p @ k) tr')
        | _ \<Rightarrow> Some (Ok (True, ShortNode k n' newFlag), tr')))"
    using g(1) assms(7) by (subst trie_delete.simps) simp
  have m: "(under k m)(k @ y := None) = under k (m(y := None))" by (rule under_upd)
  show ?thesis
  proof (cases d)
    case False
    have "rep H R p (ShortNode k n f) (under k m) True" using assms by (intro rep.rep_short) (simp_all add: hexkey_iff)
    with False g(3) show ?thesis by (intro deletedI [OF e [simplified False, simplified], where s' = True]) (simp_all add: under_apply fun_upd_idem)
  next
    case True
    then have s: "s' \<longleftrightarrow> (\<exists>k v f. n' = ShortNode k v f)" using g(4) rep_short_iff [OF g(2)] by simp
    show ?thesis
    proof (cases s')
      case True
      with s obtain k2 v2 f2 where n': "n' = ShortNode k2 v2 f2" by blast
      have "rep H R p (ShortNode (k @ k2) v2 newFlag) (under k (m(y := None))) True" using rep_merge [OF assms(1-3)] g(2) n' by blast
      then show ?thesis unfolding e using \<open>d\<close> n' by (intro deletedI [where s' = True and d = True and n' = "ShortNode (k @ k2) v2 newFlag"]) (simp_all add: m)
    next
      case False
      have "rep H R p (ShortNode k n' newFlag) (under k (m(y := None))) True" using assms(1-3) g(2,5) False by (intro rep_short_new) (simp_all add: hexkey_iff)
      moreover have "(case n' of ShortNode k2 val2 _ \<Rightarrow> Some (Ok (True, ShortNode (k @ k2) val2 newFlag), onDelete (p @ k) tr')
        | _ \<Rightarrow> Some (Ok (True, ShortNode k n' newFlag), tr')) = Some (Ok (True, ShortNode k n' newFlag), tr')" using s False by (cases n') auto
      ultimately show ?thesis unfolding e using \<open>d\<close> by (intro deletedI [where s' = True and d = True and n' = "ShortNode k n' newFlag"]) (simp_all add: m)
    qed
  qed
qed

lemma delete_rep_full:
  assumes "nibbles p" "length cs = 17" "\<And>i. i < 17 \<Longrightarrow> rep H R (p @ [of_nat i]) (cs ! i) (ms i) (ss i)"
    and "i < 17" "j < 17" "i \<noteq> j" "cs ! i \<noteq> NilNode" "cs ! j \<noteq> NilNode" "flag_ok H p (branch_map ms) f" "unat b < 17"
    and "deleted H R (p @ [b]) (cs ! unat b) (ms (unat b)) (ss (unat b)) y (trie_delete R (cs ! unat b) (p @ [b]) y tr)"
  shows "deleted H R p (FullNode cs f) (branch_map ms) False (b # y) (trie_delete R (FullNode cs f) p (b # y) tr)"
proof -
  from assms(11) obtain d n' s' tr' where g: "trie_delete R (cs ! unat b) (p @ [b]) y tr = Some (Ok (d, n'), tr')"
    "rep H R (p @ [b]) n' ((ms (unat b))(y := None)) s'" "\<not> d \<longrightarrow> ms (unat b) y = None" by (rule deletedE)
  let ?cs = "cs[unat b := n']"
  have e: "trie_delete R (FullNode cs f) p (b # y) tr =
      (if \<not> d then Some (Ok (False, FullNode cs f), tr') else if n' \<noteq> NilNode then Some (Ok (True, FullNode ?cs newFlag), tr') else reduce_full R p ?cs tr')"
    using g(1) assms(2,10) by (subst trie_delete.simps) (simp add: Let_def)
  have m: "(branch_map ms)(b # y := None) = branch_map (ms(unat b := (ms (unat b))(y := None)))" using assms(10) by (simp add: branch_upd)
  show ?thesis
  proof (cases d)
    case False
    then have v: "branch_map ms (b # y) = None" using g(3) assms(10) by (simp add: branch_map_def)
    have "rep H R p (FullNode cs f) (branch_map ms) False" using assms(1-9) by (rule rep.rep_full)
    then show ?thesis unfolding e using False v by (intro deletedI [where s' = False and d = False and n' = "FullNode cs f"]) (simp_all add: fun_upd_idem)
  next
    case True
    show ?thesis
    proof (cases "n' = NilNode")
      case False
      have "rep H R p (FullNode ?cs newFlag) ((branch_map ms)(b # y := None)) False"
        using rep_full_upd [OF assms(1-3,10) g(2), of i j newFlag] assms(2,4-10) False by (auto simp: nth_list_update m)
      then show ?thesis unfolding e using True False by (intro deletedI [where s' = False and d = True and n' = "FullNode ?cs newFlag"]) simp_all
    next
      case nil: True
      define q where "q = (if unat b = i then j else i)"
      have c: "rep H R (p @ [of_nat k]) (?cs ! k) ((ms(unat b := (ms (unat b))(y := None))) k) ((ss(unat b := s')) k)" if "k < 17" for k
        using assms(2,3,10) g(2) that by (simp add: nth_list_update)
      have "q < 17" "?cs ! q \<noteq> NilNode" using assms(2,4-8) by (auto simp: q_def)
      moreover have "length ?cs = 17" using assms(2) by simp
      ultimately obtain n2 s2 tr2 where "reduce_full R p ?cs tr' = Some (Ok (True, n2), tr2)"
        "rep H R p n2 ((branch_map ms)(b # y := None)) s2" "n2 \<noteq> NilNode" "\<forall>h. n2 \<noteq> HashNode h"
        unfolding m using reduce_rep [OF assms(1) _ c, of q tr'] by blast
      then show ?thesis unfolding e using True nil by (intro deletedI [where s' = s2 and d = True and n' = n2]) simp_all
    qed
  qed
qed

lemma delete_rep_hash:
  assumes "reader_node R p (BytesToHash h) = Ok blob" "decodeNode (Some h) blob = Ok n" "rep H R p n m s" "n \<noteq> NilNode" "H p m h"
    and "deleted H R p n m s x (trie_delete R n p x (onRead p blob tr))"
  shows "deleted H R p (HashNode h) m s x (trie_delete R (HashNode h) p x tr)"
proof -
  from assms(6) obtain d n' s' tr' where g: "trie_delete R n p x (onRead p blob tr) = Some (Ok (d, n'), tr')"
    "rep H R p n' (m(x := None)) s'" "\<not> d \<longrightarrow> m x = None" "d \<longrightarrow> (\<forall>h. n' \<noteq> HashNode h)" "n \<noteq> NilNode \<longrightarrow> \<not> s \<longrightarrow> nibbles p \<longrightarrow> n' \<noteq> NilNode" by (rule deletedE)
  have e: "trie_delete R (HashNode h) p x tr = Some (Ok (if d then (True, n') else (False, n)), tr')"
    using g(1) resolve_rep [OF assms(1,2)] by (subst trie_delete.simps) simp
  show ?thesis
  proof (cases d)
    case True
    then show ?thesis unfolding e if_P [OF True] using g assms(4) by (intro deletedI [OF refl, where s' = s']) simp_all
  next
    case False
    then show ?thesis unfolding e if_not_P [OF False] using g assms(3,4) by (intro deletedI [OF refl, where s' = s]) (simp_all add: fun_upd_idem)
  qed
qed

lemma trie_delete_rep: "rep H R p n m s \<Longrightarrow> continues p x \<Longrightarrow> deleted H R p n m s x (trie_delete R n p x tr)"
proof (induction arbitrary: x tr rule: rep.induct)
  case (rep_nil p)
  have e: "trie_delete R NilNode p x tr = Some (Ok (False, NilNode), tr)" by (subst trie_delete.simps) simp
  show ?case using rep.rep_nil [of H R p] by (intro deletedI [OF e]) simp_all
next
  case (rep_value p w)
  then have x: "x = []" by (simp add: continues_def)
  have e: "trie_delete R (ValueNode w) p x tr = Some (Ok (True, NilNode), tr)" by (subst trie_delete.simps) simp
  have "[[] \<mapsto> w](x := None) = Map.empty" by (simp add: x)
  then have "rep H R p NilNode ([[] \<mapsto> w](x := None)) False" using rep.rep_nil [of H R p] by (simp only:)
  then show ?case by (rule deletedI [OF e]) (use rep_value(1) in \<open>simp_all add: nibbles_terminated\<close>)
next
  case (rep_short p k n m f)
  show ?case
  proof (cases "prefixLen x k = length k")
    case True
    then obtain y where y: "x = k @ y" using prefixLen_full by blast
    then have c: "continues (p @ k) y" using rep_short by (simp add: continues_app)
    show ?thesis
    proof (cases "y = []")
      case True
      then show ?thesis using delete_rep_here [OF rep_short.hyps(1,2) _ rep_short.hyps(4,5)] c y by simp
    next
      case False
      then have "nibbles k" using continuesD [OF c] by simp
      from delete_rep_short [OF rep_short.hyps(1,2) this rep_short.hyps(4-6) False rep_short.IH [OF c]] show ?thesis by (simp add: y)
    qed
  next
    case False
    show ?thesis by (rule delete_rep_miss [OF rep.rep_short [OF rep_short.hyps] False])
  qed
next
  case (rep_full p cs ms ss i j f)
  from full_step [OF rep_full.hyps(1) rep_full.prems(1)] obtain b y where x: "x = b # y" and b: "unat b < 17" and c: "continues (p @ [b]) y" .
  have w: "of_nat (unat b) = b" by simp
  show ?case unfolding x by (rule delete_rep_full [OF rep_full.hyps b rep_full.IH [OF b, unfolded w, OF c]])
next
  case (rep_hash p h blob n m s)
  show ?case by (rule delete_rep_hash [OF rep_hash.hyps rep_hash.IH [OF rep_hash.prems]])
qed

subsection \<open>The contents determine the trie\<close>

text \<open>The tree of a map, all of it in memory and without cached hashes.\<close>

inductive whole :: "bytes \<Rightarrow> node \<Rightarrow> (bytes \<rightharpoonup> bytes) \<Rightarrow> bool \<Rightarrow> bool" where
  whole_nil: "whole p NilNode Map.empty False"
| whole_value: "terminated p \<Longrightarrow> whole p (ValueNode v) [[] \<mapsto> v] False"
| whole_short: "nibbles p \<Longrightarrow> k \<noteq> [] \<Longrightarrow> whole (p @ k) n m False \<Longrightarrow> n \<noteq> NilNode \<Longrightarrow> whole p (ShortNode k n newFlag) (under k m) True"
| whole_full: "nibbles p \<Longrightarrow> length cs = 17 \<Longrightarrow> (\<And>i. i < 17 \<Longrightarrow> whole (p @ [of_nat i]) (cs ! i) (ms i) (ss i)) \<Longrightarrow>
    i < 17 \<Longrightarrow> j < 17 \<Longrightarrow> i \<noteq> j \<Longrightarrow> cs ! i \<noteq> NilNode \<Longrightarrow> cs ! j \<noteq> NilNode \<Longrightarrow> whole p (FullNode cs newFlag) (branch_map ms) False"

lemma rep_loaded: "rep H R p n m s \<Longrightarrow> \<exists>a. whole p a m s \<and> (n \<noteq> NilNode \<longrightarrow> a \<noteq> NilNode)"
proof (induction rule: rep.induct)
  case (rep_short p k n m f)
  then obtain a where "whole (p @ k) a m False" "a \<noteq> NilNode" by blast
  then show ?case using whole_short [OF rep_short.hyps(1,2)] by blast
next
  case (rep_full p cs ms ss i j f)
  then obtain g where g: "\<And>i. i < 17 \<Longrightarrow> whole (p @ [of_nat i]) (g i) (ms i) (ss i) \<and> (cs ! i \<noteq> NilNode \<longrightarrow> g i \<noteq> NilNode)" by metis
  let ?as = "map g [0..<17]"
  have "whole p (FullNode ?as newFlag) (branch_map ms) False" using g rep_full.hyps by (intro whole_full [where i = i and j = j and ss = ss]) simp_all
  then show ?case by blast
qed (blast intro: whole.intros)+

text \<open>A subtrie that is not empty holds a key, and the keys of a value or full node have no common first nibble.\<close>

lemma whole_key: "whole p n m s \<Longrightarrow> n \<noteq> NilNode \<Longrightarrow> \<exists>x. m x \<noteq> None"
proof (induction rule: whole.induct)
  case (whole_short p k n m)
  then obtain x where "m x \<noteq> None" by blast
  then show ?case by (intro exI [of _ "k @ x"]) (simp add: under_apply)
next
  case (whole_full p cs ms ss i j)
  then obtain x where "ms i x \<noteq> None" by blast
  then show ?case using whole_full.hyps(4) by (intro exI [of _ "of_nat i # x"]) (simp add: branch_map_def unat_of_nat)
qed auto

lemma full_keys:
  assumes "\<And>i. i < 17 \<Longrightarrow> whole (p @ [of_nat i]) (cs ! i) (ms i) (ss i)" "i < 17" "cs ! i \<noteq> NilNode"
  obtains x where "branch_map ms (of_nat i # x) \<noteq> None"
  using whole_key [OF assms(1) [OF assms(2)] assms(3)] assms(2) that by (auto simp: branch_map_def unat_of_nat)

lemma of_nat_nibble: "i < 17 \<Longrightarrow> j < 17 \<Longrightarrow> (of_nat i :: byte) = of_nat j \<longleftrightarrow> i = j"
  by (simp add: word_unat_eq_iff unat_of_nat)

lemma whole_prefix:
  assumes "whole p n m False" "n \<noteq> NilNode" "\<And>x. m x \<noteq> None \<Longrightarrow> take (length c) x = c"
  shows "c = []"
  using assms(1)
proof (cases rule: whole.cases)
  case (whole_value v)
  then show ?thesis using assms(3) [of "[]"] by simp
next
  case (whole_full cs ms ss i j)
  from full_keys [OF whole_full(5,6,9)] obtain x where x: "m (of_nat i # x) \<noteq> None" using whole_full by auto
  from full_keys [OF whole_full(5,7,10)] obtain y where y: "m (of_nat j # y) \<noteq> None" using whole_full by auto
  from assms(3) [OF x] assms(3) [OF y] of_nat_nibble [of i j] whole_full(6-8) show ?thesis by (cases c) auto
qed (use assms(2) in simp_all)

lemma under_keys: "under k m x \<noteq> None \<Longrightarrow> \<exists>y. x = k @ y \<and> m y \<noteq> None"
  by (auto simp: under_def split: if_splits) (metis append_take_drop_id)

lemma short_longer:
  assumes "whole (p @ k) n m False" "n \<noteq> NilNode" "under k m = under k' m'" "length k \<le> length k'"
  shows "k = k' \<and> m = m'"
proof -
  from whole_key [OF assms(1,2)] obtain x where "under k m (k @ x) \<noteq> None" by (auto simp: under_apply)
  with assms(3) obtain y where "k @ x = k' @ y" using under_keys by metis
  then obtain c where c: "k' = k @ c" using assms(4) by (auto simp: append_eq_append_conv_if intro: that) (metis append_take_drop_id)
  have "m = under c m'" using assms(3) unfolding c under_append [symmetric] by (metis under_apply(1) ext)
  moreover then have "c = []" using assms(1,2) by (intro whole_prefix [of "p @ k" n m]) (auto simp: under_def split: if_splits)
  ultimately show ?thesis by (simp add: c under_Nil)
qed

lemma short_not_full:
  assumes "under k m = branch_map ms" "k \<noteq> []" "\<And>i. i < 17 \<Longrightarrow> whole (p @ [of_nat i]) (cs ! i) (ms i) (ss i)"
    and "i < 17" "j < 17" "i \<noteq> j" "cs ! i \<noteq> NilNode" "cs ! j \<noteq> NilNode"
  shows False
proof -
  from full_keys [OF assms(3,4,7)] obtain x where "take (length k) (of_nat i # x) = k" using under_keys assms(1) by (metis append_eq_conv_conj)
  moreover from full_keys [OF assms(3,5,8)] obtain y where "take (length k) (of_nat j # y) = k" using under_keys assms(1) by (metis append_eq_conv_conj)
  ultimately show False using assms(2,4-6) of_nat_nibble [of i j] by (cases k) auto
qed

lemma branch_inj: "branch_map ms = branch_map ms' \<Longrightarrow> i < 17 \<Longrightarrow> ms i = ms' i"
proof
  fix x assume "branch_map ms = branch_map ms'" "i < 17"
  from fun_cong [OF this(1), of "of_nat i # x"] this(2) show "ms i x = ms' i x" by (simp add: branch_map_def unat_of_nat)
qed

lemma whole_canonical: "whole p a m s \<Longrightarrow> whole p b m s' \<Longrightarrow> a = b"
proof (induction arbitrary: b s' rule: whole.induct)
  case (whole_nil p)
  then show ?case using whole_key by blast
next
  case (whole_value p v)
  from whole_value(2) show ?case
    by (cases rule: whole.cases) (use whole_value(1) in \<open>auto simp: nibbles_terminated fun_eq_iff split: if_splits\<close>)
next
  case (whole_short p k n m)
  note ih = whole_short.IH
  from whole_short.prems show ?case
  proof (cases rule: whole.cases)
    case whole_nil
    then show ?thesis using whole_key [OF whole.whole_short [OF whole_short.hyps]] by auto
  next
    case (whole_short k' n' m')
    then have "k = k' \<and> m = m'" using short_longer [of p k n m k' m'] short_longer [of p k' n' m' k m] \<open>whole (p @ k) n m False\<close> \<open>n \<noteq> NilNode\<close> by (metis nat_le_linear)
    then have "n = n'" using ih whole_short(6) by simp
    then show ?thesis using whole_short(1) \<open>k = k' \<and> m = m'\<close> by simp
  next
    case (whole_full cs ms ss i j)
    then show ?thesis using short_not_full [OF whole_full(2) \<open>k \<noteq> []\<close> whole_full(6-11)] by blast
  qed (use whole_short.hyps(1) nibbles_terminated in blast)
next
  case (whole_full p cs ms ss i j)
  note me = whole_full
  from whole_full.prems show ?case
  proof (cases rule: whole.cases)
    case whole_nil
    then show ?thesis using whole_key [OF whole.whole_full [OF me(1-8)]] by auto
  next
    case (whole_short k' n' m')
    then show ?thesis using short_not_full [OF _ whole_short(5) me(3-8)] by metis
  next
    case (whole_full cs' ms' ss' i' j')
    have "cs ! i = cs' ! i" if "i < 17" for i by (rule me(9) [OF that]) (use whole_full(6) [OF that] branch_inj [OF whole_full(2) that] in simp)
    then have "cs = cs'" using me(2) whole_full(5) by (intro nth_equalityI) simp_all
    then show ?thesis by (simp add: whole_full(1))
  qed (use whole_full.hyps(1) nibbles_terminated in blast)
qed

end
