(* ===== verification/Trie_Contents.thy ===== *)
theory Trie_Contents
  imports Trie_Map
begin

text \<open>
  The trie as a key-value store with a hash: hashing nodes (\<^verbatim>\<open>trie/hasher.go\<close>) gives what hashing the tree of the contents gives and caches only such hashes, and
  the operations of \<^verbatim>\<open>Trie\<close> implement a map.
\<close>

section \<open>Hashes\<close>

fun strip :: "node \<Rightarrow> node" where
  "strip (ShortNode k n _) = ShortNode k (strip n) newFlag"
| "strip (FullNode cs _) = FullNode (map strip cs) newFlag"
| "strip n = n"

lemma node_encode_strip [simp]: "node_encode (strip n) w = node_encode n w"
proof (induction n arbitrary: w)
  case (FullNode cs f)
  have "fold node_encode (map strip cs) w' = fold node_encode cs w'" for w'
    unfolding fold_map by (rule fold_cong) (auto simp: FullNode fun_eq_iff)
  then show ?case by (simp add: split_beta Let_def)
qed (simp_all add: split_beta Let_def)

lemma node_encode_cong: "strip n = strip n' \<Longrightarrow> node_encode n w = node_encode n' w"
  by (metis node_encode_strip)

lemma strip_hash [simp]: "strip n = HashNode h \<longleftrightarrow> n = HashNode h" "HashNode h = strip n \<longleftrightarrow> n = HashNode h"
  by (cases n; auto)+

lemma nodeToHash_strip: "strip n = strip n' \<Longrightarrow> map_option strip (nodeToHash K n force) = map_option strip (nodeToHash K n' force)"
  using node_encode_cong [of n n' newEncBuffer] by (auto simp: nodeToHash_def split: option.splits)

lemma hash_child [simp]:
  "(case val of FullNode _ _ \<Rightarrow> hasher_hash K val False | ShortNode _ _ _ \<Rightarrow> hasher_hash K val False | _ \<Rightarrow> Some (val, val)) = hasher_hash K val False"
  by (cases val) simp_all

text \<open>The hashes of a node, as far as its encoding and the encoding of its parents go.\<close>

abbreviation hashed :: "(bytes \<Rightarrow> bytes) \<Rightarrow> node \<Rightarrow> bool \<Rightarrow> node option" where
  "hashed K n force \<equiv> map_option (strip \<circ> fst) (hasher_hash K n force)"

lemma bind_Some_map: "Option.bind x (\<lambda>y. Some (f y)) = map_option f x"
  by (cases x) simp_all

lemma hashed_short:
  assumes "hashed K n False = hashed K n' False" "nf_hash f = None" "nf_hash f' = None"
  shows "hashed K (ShortNode k n f) force = hashed K (ShortNode k n' f') force"
proof -
  have "map_option strip (nodeToHash K (ShortNode ck c f) force) = map_option strip (nodeToHash K (ShortNode ck c' f') force)" if "strip c = strip c'" for ck c c'
    using that by (intro nodeToHash_strip) simp
  then show ?thesis using assms
    by (cases "hasher_hash K n False"; cases "hasher_hash K n' False"; cases "hexToCompact k") (auto simp: map_option_bind comp_def split_beta bind_Some_map option.map_comp)
qed

text \<open>Children that are hashed alike, and the last ones alike, give parents that are.\<close>

lemma hashed_children:
  assumes "length as = length cs" "\<And>i. i < length cs \<Longrightarrow> i < n \<Longrightarrow> (cs ! i = NilNode \<longleftrightarrow> as ! i = NilNode) \<and> (cs ! i \<noteq> NilNode \<longrightarrow> hashed K (cs ! i) False = hashed K (as ! i) False)"
    and "\<And>i. i < length cs \<Longrightarrow> n \<le> i \<Longrightarrow> strip (cs ! i) = strip (as ! i)"
  shows "map_option (map strip \<circ> fst) (hash_children K n cs) = map_option (map strip \<circ> fst) (hash_children K n as)"
  using assms
proof (induction cs arbitrary: as n)
  case (Cons c cs)
  then obtain a as' where a: "as = a # as'" "length as' = length cs" by (cases as) auto
  show ?case
  proof (cases n)
    case 0
    have "map strip (c # cs) = map strip as" using Cons.prems(1,3) 0 by (subst map_equality_iff) simp
    then show ?thesis by (simp add: 0)
  next
    case (Suc k)
    have ih: "map_option (map strip \<circ> fst) (hash_children K k cs) = map_option (map strip \<circ> fst) (hash_children K k as')"
      using Cons.prems(2) [of "Suc _"] Cons.prems(3) [of "Suc _"] a Suc by (intro Cons.IH) auto
    have c: "(c = NilNode \<longleftrightarrow> a = NilNode) \<and> (c \<noteq> NilNode \<longrightarrow> hashed K c False = hashed K a False)" using Cons.prems(2) [of 0] a Suc by (simp add: comp_def)
    show ?thesis
      by (cases "c = NilNode"; use ih c in \<open>cases "hash_children K k cs"; cases "hash_children K k as'"; cases "hasher_hash K c False"; cases "hasher_hash K a False"\<close>)
         (auto simp: a(1) Suc)
  qed
qed simp

lemma hashed_full:
  assumes "map_option (map strip \<circ> fst) (hash_children K 16 cs) = map_option (map strip \<circ> fst) (hash_children K 16 as)" "nf_hash f = None" "nf_hash f' = None"
  shows "hashed K (FullNode cs f) force = hashed K (FullNode as f') force"
proof -
  have "map_option strip (nodeToHash K (FullNode c f) force) = map_option strip (nodeToHash K (FullNode c' f') force)" if "map strip c = map strip c'" for c c'
    using that by (intro nodeToHash_strip) simp
  then show ?thesis using assms
    by (cases "hash_children K 16 cs"; cases "hash_children K 16 as") (auto simp: map_option_bind comp_def split_beta bind_Some_map option.map_comp)
qed

lemma hash_children_cached:
  "hash_children K n cs = Some (ccs, cs') \<Longrightarrow> length cs' = length cs \<and> (\<forall>i < length cs. if i < n \<and> cs ! i \<noteq> NilNode then \<exists>hd. hasher_hash K (cs ! i) False = Some (hd, cs' ! i) else cs' ! i = cs ! i)"
proof (induction cs arbitrary: n ccs cs')
  case (Cons c cs)
  show ?case
  proof (cases n)
    case (Suc k)
    from Cons.prems Suc obtain hd c' ccs0 cs0 where s: "(if c \<noteq> NilNode then hasher_hash K c False else Some (ValueNode [], c)) = Some (hd, c')" "hash_children K k cs = Some (ccs0, cs0)" "cs' = c' # cs0"
      by (auto simp: bind_eq_Some_conv)
    from Cons.IH [OF s(2)] s(1,3) Suc show ?thesis by (auto simp: nth_Cons split: nat.splits if_splits)
  qed (use Cons.prems in auto)
qed (cases n; simp)

text \<open>A hash is right for a map at a path when the tree of the map has it; only the root is hashed by force.\<close>

definition hash_ok :: "(bytes \<Rightarrow> bytes) \<Rightarrow> bytes \<Rightarrow> (bytes \<rightharpoonup> bytes) \<Rightarrow> bytes \<Rightarrow> bool" where
  "hash_ok K p m h \<longleftrightarrow> (\<exists>a s c. whole p a m s \<and> hasher_hash K a (p = []) = Some (HashNode h, c))"

lemma hash_ok_hashed:
  assumes "whole p a m s"
  shows "hash_ok K p m h \<longleftrightarrow> hashed K a (p = []) = Some (HashNode h)"
proof
  assume "hash_ok K p m h"
  then obtain a' s' c where "whole p a' m s'" "hasher_hash K a' (p = []) = Some (HashNode h, c)" by (auto simp: hash_ok_def)
  moreover then have "a' = a" using whole_canonical assms by blast
  ultimately show "hashed K a (p = []) = Some (HashNode h)" by simp
next
  assume "hashed K a (p = []) = Some (HashNode h)"
  then show "hash_ok K p m h" using assms by (auto simp: hash_ok_def)
qed

lemma flag_ok_set_hash:
  assumes "whole p a m s" "hashed K n (p = []) = hashed K a (p = [])" "hasher_hash K n (p = []) = Some (hn0, c)"
  shows "flag_ok (hash_ok K) p m (set_hash hn0 f)"
  unfolding flag_ok_def hash_ok_hashed [OF assms(1)] assms(2) [symmetric] using assms(3) by (simp split: node.splits)

lemma rep_terminated_whole: "rep H R p n m s \<Longrightarrow> terminated p \<Longrightarrow> whole p n m s"
proof (induction rule: rep.induct)
  case (rep_hash p h blob n m s)
  then have "whole p n m s" by simp
  then show ?case by (cases rule: whole.cases) (use rep_hash nibbles_terminated decodeNode_kind [OF rep_hash.hyps(2)] in auto)
qed (auto simp: nibbles_terminated intro: whole_nil whole_value)

text \<open>Hashing gives what hashing the tree of the map gives, and caches only right hashes.\<close>

definition hashes :: "(bytes \<Rightarrow> bytes) \<Rightarrow> nodeReader \<Rightarrow> bytes \<Rightarrow> node \<Rightarrow> (bytes \<rightharpoonup> bytes) \<Rightarrow> bool \<Rightarrow> bool" where
  "hashes K R p n m s \<longleftrightarrow> (\<forall>a s'. whole p a m s' \<longrightarrow> hashed K n (p = []) = hashed K a (p = []))
     \<and> (\<forall>hn0 c. hasher_hash K n (p = []) = Some (hn0, c) \<longrightarrow> rep (hash_ok K) R p c m s \<and> c \<noteq> NilNode)"

lemma hashesI:
  assumes "whole p a m s'" "hashed K n (p = []) = hashed K a (p = [])"
    "\<And>hn0 c. hasher_hash K n (p = []) = Some (hn0, c) \<Longrightarrow> rep (hash_ok K) R p c m s \<and> c \<noteq> NilNode"
  shows "hashes K R p n m s"
  unfolding hashes_def using assms whole_canonical [OF assms(1)] by blast

lemma hashesD: "hashes K R p n m s \<Longrightarrow> whole p a m s' \<Longrightarrow> hashed K n (p = []) = hashed K a (p = [])"
  unfolding hashes_def by blast

lemma hashes_cached:
  assumes "rep (hash_ok K) R p n m s" "n \<noteq> NilNode" "hasher_hash K n (p = []) = Some (HashNode h, n)" "hash_ok K p m h"
  shows "hashes K R p n m s"
proof -
  from rep_loaded [OF assms(1)] obtain a where a: "whole p a m s" by blast
  show ?thesis by (rule hashesI [OF a]) (use assms hash_ok_hashed [OF a] in auto)
qed

lemma hashes_short:
  assumes "nibbles p" "k \<noteq> []" "hexkey k" "rep (hash_ok K) R (p @ k) n m False" "n \<noteq> NilNode" "flag_ok (hash_ok K) p (under k m) f" "hashes K R (p @ k) n m False"
  shows "hashes K R p (ShortNode k n f) (under k m) True"
proof (cases "nf_hash f")
  case (Some h)
  then show ?thesis using assms(6) rep.rep_short [OF assms(1-6)] by (intro hashes_cached [where h = h]) (simp_all add: flag_ok_def)
next
  case None
  from rep_loaded [OF assms(4)] assms(5) obtain a where a: "whole (p @ k) a m False" "a \<noteq> NilNode" by blast
  have w: "whole p (ShortNode k a newFlag) (under k m) True" using assms(1,2) a by (rule whole_short)
  have "hashed K n False = hashed K a False" using assms(2,7) a(1) by (auto simp: hashes_def)
  then have e: "hashed K (ShortNode k n f) (p = []) = hashed K (ShortNode k a newFlag) (p = [])" using None by (intro hashed_short) (simp_all add: newFlag_def)
  show ?thesis
  proof (rule hashesI [OF w e])
    fix hn0 c assume c: "hasher_hash K (ShortNode k n f) (p = []) = Some (hn0, c)"
    then obtain hn cn where "hasher_hash K n False = Some (hn, cn)" "c = ShortNode k cn (set_hash hn0 f)" using None by (auto simp: bind_eq_Some_conv)
    moreover then have "rep (hash_ok K) R (p @ k) cn m False" "cn \<noteq> NilNode" using assms(2,7) by (auto simp: hashes_def)
    ultimately show "rep (hash_ok K) R p c (under k m) True \<and> c \<noteq> NilNode"
      using rep.rep_short [OF assms(1-3) _ _ flag_ok_set_hash [OF w e c]] by simp
  qed
qed

lemma full_children_hashed:
  assumes "nibbles p" "length cs = 17" "\<And>i. i < 17 \<Longrightarrow> rep (hash_ok K) R (p @ [of_nat i]) (cs ! i) (ms i) (ss i)"
    and "\<And>i. i < 17 \<Longrightarrow> cs ! i \<noteq> NilNode \<Longrightarrow> hashes K R (p @ [of_nat i]) (cs ! i) (ms i) (ss i)"
    and g: "\<And>i. i < 17 \<Longrightarrow> whole (p @ [of_nat i]) (g i) (ms i) (ss i) \<and> (cs ! i \<noteq> NilNode \<longrightarrow> g i \<noteq> NilNode)"
  shows "map_option (map strip \<circ> fst) (hash_children K 16 cs) = map_option (map strip \<circ> fst) (hash_children K 16 (map g [0..<17]))"
proof (rule hashed_children)
  have "terminated (p @ [of_nat 16])" using assms(1) by (simp add: terminated_app) (simp add: terminated_def)
  from rep_terminated_whole [OF assms(3) [of 16] this] have "whole (p @ [of_nat 16]) (cs ! 16) (ms 16) (ss 16)" by simp
  then have last: "cs ! 16 = g 16" using whole_canonical [of "p @ [of_nat 16]" "cs ! 16" "ms 16" "ss 16" "g 16" "ss 16"] g [of 16] by simp
  fix i assume "i < length cs"
  then have i: "i < 17" by (simp add: assms(2))
  have a: "map g [0..<17] ! i = g i" using i by (simp del: upt_Suc)
  have nil: "cs ! i = NilNode \<longleftrightarrow> g i = NilNode" using g [OF i] assms(3) [OF i] rep_nil_map whole_key by metis
  have "hashed K (cs ! i) False = hashed K (g i) False" if "cs ! i \<noteq> NilNode" using hashesD [OF assms(4) [OF i that] conjunct1 [OF g [OF i]]] by simp
  then show "(cs ! i = NilNode \<longleftrightarrow> map g [0..<17] ! i = NilNode) \<and> (cs ! i \<noteq> NilNode \<longrightarrow> hashed K (cs ! i) False = hashed K (map g [0..<17] ! i) False)"
    unfolding a nil by blast
  show "strip (cs ! i) = strip (map g [0..<17] ! i)" if "16 \<le> i"
  proof -
    have "i = 16" using that i by simp
    then show ?thesis using last a by simp
  qed
qed (simp add: assms(2))

lemma full_children_cached:
  assumes "length cs = 17" "\<And>i. i < 17 \<Longrightarrow> rep (hash_ok K) R (p @ [of_nat i]) (cs ! i) (ms i) (ss i)"
    and "\<And>i. i < 17 \<Longrightarrow> cs ! i \<noteq> NilNode \<Longrightarrow> hashes K R (p @ [of_nat i]) (cs ! i) (ms i) (ss i)"
    and h: "hash_children K 16 cs = Some (ccs, cs')" and i: "i < 17"
  shows "rep (hash_ok K) R (p @ [of_nat i]) (cs' ! i) (ms i) (ss i) \<and> (cs ! i \<noteq> NilNode \<longrightarrow> cs' ! i \<noteq> NilNode)"
proof (cases "i < 16 \<and> cs ! i \<noteq> NilNode")
  case True
  from hash_children_cached [OF h] assms(1) i True obtain hn where "hasher_hash K (cs ! i) False = Some (hn, cs' ! i)" by (auto dest!: spec [of _ i])
  then show ?thesis using assms(3) [OF i] True by (auto simp: hashes_def)
next
  case False
  then have "cs' ! i = cs ! i" using hash_children_cached [OF h] assms(1) i by auto
  then show ?thesis using assms(2) [OF i] by simp
qed

lemma hashes_full:
  assumes "nibbles p" "length cs = 17" "\<And>i. i < 17 \<Longrightarrow> rep (hash_ok K) R (p @ [of_nat i]) (cs ! i) (ms i) (ss i)"
    and "i < 17" "j < 17" "i \<noteq> j" "cs ! i \<noteq> NilNode" "cs ! j \<noteq> NilNode" "flag_ok (hash_ok K) p (branch_map ms) f"
    and "\<And>i. i < 17 \<Longrightarrow> cs ! i \<noteq> NilNode \<Longrightarrow> hashes K R (p @ [of_nat i]) (cs ! i) (ms i) (ss i)"
  shows "hashes K R p (FullNode cs f) (branch_map ms) False"
proof (cases "nf_hash f")
  case (Some h)
  then show ?thesis using assms(9) rep.rep_full [OF assms(1-9)] by (intro hashes_cached [where h = h]) (simp_all add: flag_ok_def)
next
  case None
  from rep_loaded [OF assms(3)] obtain g where g: "\<And>i. i < 17 \<Longrightarrow> whole (p @ [of_nat i]) (g i) (ms i) (ss i) \<and> (cs ! i \<noteq> NilNode \<longrightarrow> g i \<noteq> NilNode)" by metis
  let ?as = "map g [0..<17]"
  have w: "whole p (FullNode ?as newFlag) (branch_map ms) False" using assms(1,4-8) g by (intro whole_full [where i = i and j = j and ss = ss]) simp_all
  have e: "hashed K (FullNode cs f) (p = []) = hashed K (FullNode ?as newFlag) (p = [])"
    using None full_children_hashed [OF assms(1-3,10) g] by (intro hashed_full) (simp_all add: newFlag_def)
  show ?thesis
  proof (rule hashesI [OF w e])
    fix hn0 c assume c: "hasher_hash K (FullNode cs f) (p = []) = Some (hn0, c)"
    then obtain ccs cs' where h: "hash_children K 16 cs = Some (ccs, cs')" "c = FullNode cs' (set_hash hn0 f)" using None by (auto simp: bind_eq_Some_conv)
    note r = full_children_cached [OF assms(2,3,10) h(1)]
    have "length cs' = 17" using hash_children_cached [OF h(1)] assms(2) by simp
    then have "rep (hash_ok K) R p (FullNode cs' (set_hash hn0 f)) (branch_map ms) False"
      using r assms(1,4-8) by (intro rep.rep_full [OF _ _ _ assms(4-6) _ _ flag_ok_set_hash [OF w e c], where ss = ss]) auto
    then show "rep (hash_ok K) R p c (branch_map ms) False \<and> c \<noteq> NilNode" by (simp add: h(2))
  qed
qed

lemma rep_hashes: "rep (hash_ok K) R p n m s \<Longrightarrow> n \<noteq> NilNode \<Longrightarrow> hashes K R p n m s"
proof (induction rule: rep.induct)
  case (rep_value p v)
  then show ?case by (intro hashesI [OF whole_value [OF rep_value(1)]]) (auto intro: rep.rep_value)
next
  case (rep_short p k n m f)
  then show ?case by (intro hashes_short) simp_all
next
  case (rep_full p cs ms ss i j f)
  show ?case by (rule hashes_full [OF rep_full.hyps rep_full.IH])
next
  case (rep_hash p h blob n m s)
  then show ?case using rep.rep_hash [OF rep_hash.hyps] by (intro hashes_cached [where h = h]) simp_all
qed simp

text \<open>With keys and values of a size a machine can hold, hashing succeeds.\<close>

definition small :: "(bytes \<rightharpoonup> bytes) \<Rightarrow> bool" where
  "small m \<longleftrightarrow> (\<forall>x v. m x = Some v \<longrightarrow> length x < 2 ^ 32 \<and> length v < 2 ^ 32)"

definition encodes :: "node \<Rightarrow> bytes \<Rightarrow> bool" where
  "encodes n out \<longleftrightarrow> length out \<le> 2 ^ 33 \<and> (\<forall>w. adds w (node_encode n w) out)"

lemma rlp_head_le: "n < 2 ^ 64 \<Longrightarrow> length (rlp_head s l n) \<le> 9"
  using length_be_bytes_le [of n 8] by (simp add: rlp_head_def)

lemma rlp_string_le: "length b < 2 ^ 64 \<Longrightarrow> length (rlp_string b) \<le> length b + 9"
  using rlp_head_le [of "length b" "0x80" "0xB7"] by (simp add: rlp_string_def)

lemma rlp_list_le: "length b < 2 ^ 64 \<Longrightarrow> length (rlp_list b) \<le> length b + 9"
  using rlp_head_le [of "length b" "0xC0" "0xF7"] by (simp add: rlp_list_def)

lemma adds_bytes: "length b < 2 ^ 64 \<Longrightarrow> adds w (writeBytes b w) (rlp_string b)"
  by (simp add: writeBytes_eq adds_append)

lemma encodes_value: "length v < 2 ^ 32 \<Longrightarrow> encodes (ValueNode v) (rlp_string v)"
  using adds_bytes [of v] rlp_string_le [of v] by (simp add: encodes_def)

lemma encodes_hash: "length h = 32 \<Longrightarrow> encodes (HashNode h) (rlp_string h)"
  using adds_bytes [of h] rlp_string_le [of h] by (simp add: encodes_def)

lemma encodes_nil: "encodes NilNode [0x80]"
  by (simp add: encodes_def adds_append)

lemma adds_short:
  assumes "encodes n out" "length k < 2 ^ 33"
  shows "\<exists>out'. length out' < 2 ^ 64 \<and> (\<forall>w. adds w (node_encode (ShortNode k n f) w) out')"
proof -
  have l: "length (rlp_string k @ out) < 2 ^ 35" using assms rlp_string_le [of k] by (simp add: encodes_def)
  have "adds w (node_encode (ShortNode k n f) w) (rlp_list (rlp_string k @ out))" for w
    using adds_list [OF adds_trans [OF adds_bytes [of k "snd (eb_list w)"]], of "node_encode n (writeBytes k (snd (eb_list w)))" out] assms l
    by (simp add: encodes_def split_beta Let_def)
  then show ?thesis using rlp_list_le [of "rlp_string k @ out"] l by (intro exI [of _ "rlp_list (rlp_string k @ out)"]) simp
qed

lemma adds_children: "\<forall>c \<in> set cs. \<exists>out. encodes c out \<Longrightarrow> \<exists>out. length out \<le> length cs * 2 ^ 33 \<and> (\<forall>w. adds w (fold node_encode cs w) out)"
proof (induction cs)
  case Nil
  show ?case by (auto intro: adds_refl)
next
  case (Cons c cs)
  then obtain out out' where "length out \<le> length cs * 2 ^ 33" "\<forall>w. adds w (fold node_encode cs w) out" "encodes c out'" by auto
  then show ?case by (intro exI [of _ "out' @ out"]) (auto simp: encodes_def intro: adds_trans)
qed

lemma adds_full:
  assumes "\<forall>c \<in> set cs. \<exists>out. encodes c out" "length cs = 17"
  shows "\<exists>out'. length out' < 2 ^ 64 \<and> (\<forall>w. adds w (node_encode (FullNode cs f) w) out')"
proof -
  from adds_children [OF assms(1)] assms(2) obtain out where o: "length out \<le> 17 * 2 ^ 33" "\<forall>w. adds w (fold node_encode cs w) out" by auto
  have "adds w (node_encode (FullNode cs f) w) (rlp_list out)" for w
    using adds_list [of w _ out] o by (simp add: split_beta Let_def)
  then show ?thesis using rlp_list_le [of out] o(1) by (intro exI [of _ "rlp_list out"]) simp
qed

lemma nodeToHash_ok:
  assumes "\<forall>b. length (K b) = 32" "\<exists>out. length out < 2 ^ 64 \<and> (\<forall>w. adds w (node_encode n w) out)"
  shows "\<exists>h out. nodeToHash K n force = Some h \<and> encodes h out \<and> (force \<longrightarrow> (\<exists>b. h = HashNode b))"
proof -
  from assms(2) obtain out where o: "\<forall>w. adds w (node_encode n w) out" by blast
  then have "makeBytes (node_encode n newEncBuffer) = Some out" by (simp add: makeBytes_adds)
  moreover have "encodes n out" if "length out < 32" using that o by (simp add: encodes_def)
  ultimately show ?thesis using encodes_hash [OF spec [OF assms(1), of out]] by (cases "length out < 32 \<and> \<not> force") (auto simp: nodeToHash_def)
qed

lemma decodeNibbles_total: "even (length ns) \<Longrightarrow> \<exists>bs. decodeNibbles ns = Some bs \<and> length bs \<le> length ns"
  by (induction ns rule: decodeNibbles.induct) auto

lemma hexToCompact_total: "\<exists>ck. hexToCompact k = Some ck \<and> length ck \<le> length k + 1"
proof -
  define ns where "ns = (if hasTerm k then take (length k - 1) k else k)"
  have l: "length ns \<le> length k" by (simp add: ns_def)
  show ?thesis
  proof (cases "even (length ns)")
    case True
    with decodeNibbles_total [of ns] l show ?thesis by (auto simp: hexToCompact_def Let_def ns_def [symmetric] even_iff_mod_2_eq_zero)
  next
    case False
    then have "even (length (drop 1 ns))" by simp
    from decodeNibbles_total [OF this] l False show ?thesis by (auto simp: hexToCompact_def Let_def ns_def [symmetric] odd_iff_mod_2_eq_one)
  qed
qed

lemma hash_children_ok:
  assumes "\<And>c. c \<in> set cs \<Longrightarrow> c \<noteq> NilNode \<Longrightarrow> \<exists>h d out. hasher_hash K c False = Some (h, d) \<and> encodes h out"
    and "\<And>i. i < length cs \<Longrightarrow> n \<le> i \<Longrightarrow> \<exists>out. encodes (cs ! i) out"
  shows "\<exists>ccs cs'. hash_children K n cs = Some (ccs, cs') \<and> length ccs = length cs \<and> (\<forall>c \<in> set ccs. \<exists>out. encodes c out)"
  using assms
proof (induction cs arbitrary: n)
  case (Cons c cs)
  show ?case
  proof (cases n)
    case 0
    then have "\<forall>x \<in> set (c # cs). \<exists>out. encodes x out" using Cons.prems(2) by (metis in_set_conv_nth zero_le)
    then show ?thesis by (simp add: 0)
  next
    case (Suc k)
    have "\<exists>ccs cs'. hash_children K k cs = Some (ccs, cs') \<and> length ccs = length cs \<and> (\<forall>c \<in> set ccs. \<exists>out. encodes c out)"
      using Cons.prems(1) Cons.prems(2) [of "Suc _"] Suc by (intro Cons.IH) auto
    moreover have "\<exists>h d out. (if c \<noteq> NilNode then hasher_hash K c False else Some (ValueNode [], c)) = Some (h, d) \<and> encodes h out"
      using Cons.prems(1) [of c] encodes_value [of "[]"] by auto
    ultimately show ?thesis by (auto simp: Suc)
  qed
qed (cases n; simp)

lemma small_under: "small (under k m) \<Longrightarrow> small m"
  unfolding small_def by (metis under_apply(1) length_append add_lessD1 add.commute)

lemma small_branch: "small (branch_map ms) \<Longrightarrow> i < 17 \<Longrightarrow> small (ms i)"
  unfolding small_def
proof (intro allI impI)
  fix x v assume a: "\<forall>x v. branch_map ms x = Some v \<longrightarrow> length x < 2 ^ 32 \<and> length v < 2 ^ 32" "i < 17" "ms i x = Some v"
  then have "branch_map ms (of_nat i # x) = Some v" by (simp add: branch_map_def unat_of_nat)
  with a(1) show "length x < 2 ^ 32 \<and> length v < 2 ^ 32" by fastforce
qed

lemma small_key: "whole (p @ k) n m s \<Longrightarrow> n \<noteq> NilNode \<Longrightarrow> small (under k m) \<Longrightarrow> length k < 2 ^ 32"
proof -
  assume a: "whole (p @ k) n m s" "n \<noteq> NilNode" "small (under k m)"
  from whole_key [OF a(1,2)] obtain x v where "under k m (k @ x) = Some v" by (auto simp: under_apply)
  with a(3) show ?thesis by (fastforce simp: small_def)
qed

lemma small_single: "small [[] \<mapsto> v] \<longleftrightarrow> length v < 2 ^ 32"
  by (simp add: small_def)

lemma encodes_leaf: "whole p n m s \<Longrightarrow> terminated p \<Longrightarrow> small m \<Longrightarrow> \<exists>out. encodes n out"
proof (induction rule: whole.induct)
  case (whole_value p v)
  then show ?case using encodes_value by (auto simp only: small_single)
qed (use encodes_nil nibbles_terminated in blast)+

lemma whole_hash:
  assumes "\<forall>b. length (K b) = 32"
  shows "whole p a m s \<Longrightarrow> small m \<Longrightarrow> a \<noteq> NilNode \<Longrightarrow>
    \<exists>h c out. hasher_hash K a force = Some (h, c) \<and> encodes h out \<and> (nibbles p \<longrightarrow> force \<longrightarrow> (\<exists>b. h = HashNode b))"
proof (induction arbitrary: force rule: whole.induct)
  case (whole_value p v)
  then have "length v < 2 ^ 32" by (simp only: small_single)
  then show ?case using encodes_value whole_value.hyps nibbles_terminated by auto
next
  case (whole_short p k n m)
  obtain h c out where c: "hasher_hash K n False = Some (h, c)" "encodes h out" using whole_short.IH [OF small_under [OF whole_short.prems(1)] whole_short.hyps(4)] by blast
  have "length k < 2 ^ 32" by (rule small_key [OF whole_short.hyps(3,4) whole_short.prems(1)])
  with hexToCompact_total [of k] obtain ck where ck: "hexToCompact k = Some ck" "length ck < 2 ^ 33" by auto
  from nodeToHash_ok [OF assms adds_short [OF c(2) ck(2), of newFlag], where force = force] obtain h' out' where
    "nodeToHash K (ShortNode ck h newFlag) force = Some h'" "encodes h' out'" "force \<longrightarrow> (\<exists>b. h' = HashNode b)" by blast
  then show ?case using c(1) ck(1) by (auto simp: newFlag_def)
next
  case (whole_full p cs ms ss i j)
  have c: "\<exists>h d out. hasher_hash K c False = Some (h, d) \<and> encodes h out" if "c \<in> set cs" "c \<noteq> NilNode" for c
  proof -
    from that(1) whole_full.hyps(2) obtain i where i: "i < 17" "c = cs ! i" by (auto simp: in_set_conv_nth)
    then show ?thesis using whole_full.IH [OF i(1) small_branch [OF whole_full.prems(1) i(1)]] that(2) by blast
  qed
  have last: "\<exists>out. encodes (cs ! i) out" if "i < length cs" "16 \<le> i" for i
  proof -
    have i: "i = 16" using that whole_full.hyps(2) by simp
    have "terminated (p @ [of_nat 16])" using whole_full.hyps(1) by (simp add: terminated_app) (simp add: terminated_def)
    moreover have "small (ms 16)" using small_branch whole_full.prems(1) by simp
    ultimately show ?thesis unfolding i using encodes_leaf [OF whole_full.hyps(3) [of 16]] by simp
  qed
  from hash_children_ok [OF c last, of 16] whole_full.hyps(2) obtain ccs cs' where
    h: "hash_children K 16 cs = Some (ccs, cs')" "length ccs = 17" "\<forall>c \<in> set ccs. \<exists>out. encodes c out" by auto
  from nodeToHash_ok [OF assms adds_full [OF h(3,2), of newFlag], where force = force] obtain h' out' where
    "nodeToHash K (FullNode ccs newFlag) force = Some h'" "encodes h' out'" "force \<longrightarrow> (\<exists>b. h' = HashNode b)" by blast
  then show ?case using h(1) by (auto simp: newFlag_def)
qed simp

section \<open>A trie as a map\<close>

text \<open>The keys of a trie are byte strings: the map below is over the keys a caller uses.\<close>

definition trie_rep :: "(bytes \<Rightarrow> bytes) \<Rightarrow> nodeReader \<Rightarrow> Trie \<Rightarrow> (bytes \<rightharpoonup> bytes) \<Rightarrow> bool" where
  "trie_rep K R t m \<longleftrightarrow> (\<exists>M s. rep (hash_ok K) R [] (t_root t) M s \<and> dom M \<subseteq> range keybytesToHex \<and> m = M \<circ> keybytesToHex)"

lemma trie_repE:
  assumes "trie_rep K R t m"
  obtains M s where "rep (hash_ok K) R [] (t_root t) M s" "dom M \<subseteq> range keybytesToHex" "m = M \<circ> keybytesToHex"
  using assms unfolding trie_rep_def by (elim exE conjE) (rule that)

lemma keybytesToHex_continues: "continues [] (keybytesToHex k)"
  using split_nibbles(1) [of k] by (auto simp: continues_def terminated_def keybytesToHex_def)

lemma hexToKeybytes_keybytesToHex: "hexToKeybytes (keybytesToHex k) = Some k"
  by (simp add: hexToKeybytes_def keybytesToHex_def decodeNibbles_split)

lemma keybytesToHex_eq [simp]: "keybytesToHex k = keybytesToHex k' \<longleftrightarrow> k = k'"
  by (metis hexToKeybytes_keybytesToHex option.inject)

lemma trie_rep_upd:
  assumes "rep (hash_ok K) R [] n (M(keybytesToHex k := v)) s" "dom M \<subseteq> range keybytesToHex"
  shows "trie_rep K R (t\<lparr>t_unhashed := u, t_root := n, t_tracer := tr\<rparr>) ((M \<circ> keybytesToHex)(k := v))"
  unfolding trie_rep_def
proof (intro exI conjI)
  show "rep (hash_ok K) R [] (t_root (t\<lparr>t_unhashed := u, t_root := n, t_tracer := tr\<rparr>)) (M(keybytesToHex k := v)) s" using assms(1) by simp
  show "dom (M(keybytesToHex k := v)) \<subseteq> range keybytesToHex" using assms(2) by (auto split: if_splits)
  show "(M \<circ> keybytesToHex)(k := v) = M(keybytesToHex k := v) \<circ> keybytesToHex" by (auto simp: fun_eq_iff)
qed

lemma Trie_Get_rep:
  assumes "trie_rep K R t m"
  shows "\<exists>t'. Trie_Get R k t = Some (Ok (m k), t') \<and> trie_rep K R t' m"
proof -
  from assms obtain M s where r: "rep (hash_ok K) R [] (t_root t) M s" "dom M \<subseteq> range keybytesToHex" "m = M \<circ> keybytesToHex" by (rule trie_repE)
  from trie_get_rep [OF r(1) keybytesToHex_continues, of "keybytesToHex k" k "t_tracer t"] obtain n' d tr' where
    g: "trie_get R (t_root t) (keybytesToHex k) 0 (t_tracer t) = Some (Ok (m k, n', d), tr')" "rep (hash_ok K) R [] n' M s" by (auto simp: r(3))
  then show ?thesis using r by (auto simp: Trie_Get_def trie_rep_def)
qed

lemma Trie_Delete_rep:
  assumes "trie_rep K R t m"
  shows "\<exists>t'. Trie_Delete R k t = Some (Ok (), t') \<and> trie_rep K R t' (m(k := None))"
proof -
  from assms obtain M s where r: "rep (hash_ok K) R [] (t_root t) M s" "dom M \<subseteq> range keybytesToHex" "m = M \<circ> keybytesToHex" by (rule trie_repE)
  from trie_delete_rep [OF r(1) keybytesToHex_continues] obtain d n' s' tr' where
    g: "trie_delete R (t_root t) [] (keybytesToHex k) (t_tracer t) = Some (Ok (d, n'), tr')" "rep (hash_ok K) R [] n' (M(keybytesToHex k := None)) s'" by (rule deletedE)
  then show ?thesis using trie_rep_upd [OF g(2) r(2)] by (simp add: Trie_Delete_def r(3))
qed

lemma Trie_Update_rep:
  assumes "trie_rep K R t m"
  shows "\<exists>t'. Trie_Update R k v t = Some (Ok (), t') \<and> trie_rep K R t' (m(k := if v = [] then None else Some v))"
proof (cases "v = []")
  case True
  then show ?thesis using Trie_Delete_rep [OF assms] by (simp add: Trie_Update_def)
next
  case False
  from assms obtain M s where r: "rep (hash_ok K) R [] (t_root t) M s" "dom M \<subseteq> range keybytesToHex" "m = M \<circ> keybytesToHex" by (rule trie_repE)
  from trie_insert_rep [OF r(1) keybytesToHex_continues False] obtain d n' s' tr' where
    g: "trie_insert R (t_root t) [] (keybytesToHex k) (ValueNode v) (t_tracer t) = Some (Ok (d, n'), tr')" "rep (hash_ok K) R [] n' (M(keybytesToHex k \<mapsto> v)) s'" by (rule insertedE)
  then show ?thesis using trie_rep_upd [OF g(2) r(2)] False by (simp add: Trie_Update_def r(3))
qed

lemma emptyTrie_rep: "trie_rep K R emptyTrie Map.empty"
  unfolding trie_rep_def emptyTrie_def using rep.rep_nil [of "hash_ok K" R "[]"] by (auto simp: fun_eq_iff)

text \<open>A sequence of updates, stopped by the first error.\<close>

primrec puts :: "('k \<Rightarrow> 'v \<Rightarrow> 's \<Rightarrow> (('e + unit) \<times> 's) option) \<Rightarrow> ('k \<times> 'v) list \<Rightarrow> 's \<Rightarrow> (('e + unit) \<times> 's) option" where
  "puts put [] t = Some (Ok (), t)"
| "puts put (kv # kvs) t =
     (case put (fst kv) (snd kv) t of Some (Ok _, t) \<Rightarrow> puts put kvs t | Some (Err e, t) \<Rightarrow> Some (Err e, t) | None \<Rightarrow> None)"

definition put_map :: "('v \<Rightarrow> 'w option) \<Rightarrow> ('k \<times> 'v) list \<Rightarrow> ('k \<rightharpoonup> 'w) \<Rightarrow> 'k \<rightharpoonup> 'w" where
  "put_map f = fold (\<lambda>kv m. m(fst kv := f (snd kv)))"

text \<open>What the users of a key-value store rely on: on a state that stands for a map, reads and updates do not fail and are those of the map.\<close>

locale kv_store =
  fixes stands :: "'s \<Rightarrow> ('k \<rightharpoonup> 'w) \<Rightarrow> bool" and get :: "'k \<Rightarrow> 's \<Rightarrow> (('e + 'w option) \<times> 's) option"
    and put :: "'k \<Rightarrow> 'v \<Rightarrow> 's \<Rightarrow> (('e + unit) \<times> 's) option" and val :: "'v \<Rightarrow> 'w option"
  assumes get_stands: "stands t m \<Longrightarrow> \<exists>t'. get k t = Some (Ok (m k), t') \<and> stands t' m"
    and put_stands: "stands t m \<Longrightarrow> \<exists>t'. put k v t = Some (Ok (), t') \<and> stands t' (m(k := val v))"
begin

lemma puts_stands: "stands t m \<Longrightarrow> \<exists>t'. puts put kvs t = Some (Ok (), t') \<and> stands t' (put_map val kvs m)"
proof (induction kvs arbitrary: t m)
  case (Cons kv kvs)
  from put_stands [OF Cons.prems] obtain t1 where "put (fst kv) (snd kv) t = Some (Ok (), t1)" "stands t1 (m(fst kv := val (snd kv)))" by blast
  then show ?case using Cons.IH [of t1] by (simp add: put_map_def)
qed (simp add: put_map_def)

lemma puts_get:
  assumes "stands t m"
  obtains t1 t2 where "puts put kvs t = Some (Ok (), t1)" "stands t1 (put_map val kvs m)" "get k t1 = Some (Ok (put_map val kvs m k), t2)" "stands t2 (put_map val kvs m)"
proof -
  from puts_stands [OF assms] obtain t1 where t1: "puts put kvs t = Some (Ok (), t1)" "stands t1 (put_map val kvs m)" by blast
  from get_stands [OF t1(2)] that [OF t1] show thesis by blast
qed

end

abbreviation trie_val :: "bytes \<Rightarrow> bytes option" where
  "trie_val v \<equiv> (if v = [] then None else Some v)"

interpretation trie: kv_store "trie_rep K R" "Trie_Get R" "Trie_Update R" trie_val for K R
  by unfold_locales (rule Trie_Get_rep Trie_Update_rep, assumption)+

text \<open>The database has the state of a root: it has the root node, with the rest of the trie below it, unless the root is that of the empty trie.\<close>

definition trie_stored :: "(bytes \<Rightarrow> bytes) \<Rightarrow> nodeReader \<Rightarrow> hash \<Rightarrow> (bytes \<rightharpoonup> bytes) \<Rightarrow> bool" where
  "trie_stored K R root m \<longleftrightarrow> (if root = zero_hash \<or> root = EmptyRootHash then m = Map.empty else trie_rep K R (emptyTrie\<lparr>t_root := HashNode root\<rparr>) m)"

lemma decodeNode_hash: "decodeNode (Some h) blob = Ok n \<Longrightarrow> hasher_hash K n force = Some (HashNode h, n)"
  by (subst (asm) decodeNode.simps) (auto simp: decodeShort.simps Let_def split: if_splits sum.splits)

lemma Trie_New_stored:
  assumes "GetReader sroot = Some R" "trie_stored K R root m" "length root = 32"
  shows "\<exists>t t'. Trie_New GetReader sroot root = Some (Ok t) \<and> trie_rep K R t m
    \<and> Trie_Hash K t = Some (if root = zero_hash then EmptyRootHash else root, t') \<and> trie_rep K R t' m"
proof (cases "root = zero_hash \<or> root = EmptyRootHash")
  case True
  have "Trie_Hash K emptyTrie = Some (EmptyRootHash, emptyTrie)" by (simp add: Trie_Hash_def hashRoot_def emptyTrie_def BytesToHash_def EmptyRootHash_def left_pad_def)
  then show ?thesis using assms True emptyTrie_rep [of K R] by (auto simp: Trie_New_def trie_stored_def)
next
  case False
  with assms(2) obtain M s where r: "rep (hash_ok K) R [] (HashNode root) M s" "dom M \<subseteq> range keybytesToHex" "m = M \<circ> keybytesToHex" by (auto simp: trie_stored_def trie_rep_def)
  from r(1) obtain blob n where n: "reader_node R [] (BytesToHash root) = Ok blob" "decodeNode (Some root) blob = Ok n" "rep (hash_ok K) R [] n M s" "n \<noteq> NilNode" by (auto elim: rep_hashE)
  let ?t = "\<lparr>t_root = n, t_unhashed = 0, t_tracer = onRead [] blob newTracer\<rparr>"
  have "Trie_New GetReader sroot root = Some (Ok ?t)" using assms(1) False resolve_rep [OF n(1,2)] by (simp add: Trie_New_def)
  moreover have "Trie_Hash K ?t = Some (root, ?t)" using decodeNode_hash [OF n(2)] n(4) assms(3) by (simp add: Trie_Hash_def hashRoot_def BytesToHash_def left_pad_def)
  moreover have "trie_rep K R ?t m" using n(3) r(2,3) by (auto simp: trie_rep_def)
  ultimately show ?thesis using False by auto
qed

text \<open>One hash for all the tries with the same contents.\<close>

definition small_store :: "(bytes \<rightharpoonup> bytes) \<Rightarrow> bool" where
  "small_store m \<longleftrightarrow> (\<forall>k v. m k = Some v \<longrightarrow> length k < 2 ^ 30 \<and> length v < 2 ^ 32)"

lemma trie_rep_contents:
  assumes "dom M \<subseteq> range keybytesToHex" "m = M \<circ> keybytesToHex"
  shows "M x = (if x \<in> range keybytesToHex then m (the (hexToKeybytes x)) else None)"
proof (cases "x \<in> range keybytesToHex")
  case True
  then show ?thesis using assms(2) by (auto simp: hexToKeybytes_keybytesToHex)
next
  case False
  then show ?thesis using assms(1) by (auto simp: domIff)
qed

lemma small_hex:
  assumes "small_store m" "dom M \<subseteq> range keybytesToHex" "m = M \<circ> keybytesToHex"
  shows "small M"
  unfolding small_def
proof (intro allI impI)
  fix x v assume x: "M x = Some v"
  then obtain k where "x = keybytesToHex k" "m k = Some v" using assms(2,3) by auto
  moreover then have "length k < 2 ^ 30" "length v < 2 ^ 32" using assms(1) by (auto simp: small_store_def)
  ultimately show "length x < 2 ^ 32 \<and> length v < 2 ^ 32" using split_nibbles(2) [of k] by (simp add: keybytesToHex_def)
qed

lemma rep_empty: "rep H R p n Map.empty s \<Longrightarrow> n = NilNode"
  using rep_loaded whole_key by blast

lemma Trie_Hash_whole:
  assumes "rep (hash_ok K) R [] (t_root t) M s" "whole [] a M s'" "hashed K a True = Some (HashNode b)" "a \<noteq> NilNode"
  shows "\<exists>t'. Trie_Hash K t = Some (BytesToHash b, t') \<and> rep (hash_ok K) R [] (t_root t') M s"
proof -
  have n: "t_root t \<noteq> NilNode" using assms(1,2,4) whole_key rep_nil_map by metis
  note h = rep_hashes [OF assms(1) n]
  have "hashed K (t_root t) True = Some (HashNode b)" using hashesD [OF h assms(2)] assms(3) by simp
  then obtain c where c: "hasher_hash K (t_root t) True = Some (HashNode b, c)" by auto
  then have "rep (hash_ok K) R [] c M s" using h by (auto simp: hashes_def)
  then show ?thesis using n c by (simp add: Trie_Hash_def hashRoot_def)
qed

lemma Trie_Hash_rep:
  assumes "\<forall>b. length (K b) = 32" "small_store m"
  shows "\<exists>h. \<forall>R t. trie_rep K R t m \<longrightarrow> (\<exists>t'. Trie_Hash K t = Some (h, t') \<and> trie_rep K R t' m)"
proof (cases "\<exists>R t. trie_rep K R t m")
  case True
  then obtain R0 t0 where "trie_rep K R0 t0 m" by blast
  then obtain M s0 where r0: "rep (hash_ok K) R0 [] (t_root t0) M s0" "dom M \<subseteq> range keybytesToHex" "m = M \<circ> keybytesToHex" by (rule trie_repE)
  have rep: "\<exists>s. rep (hash_ok K) R [] (t_root t) M s" if "trie_rep K R t m" for R t
  proof -
    from that obtain M' s where r: "rep (hash_ok K) R [] (t_root t) M' s" "dom M' \<subseteq> range keybytesToHex" "m = M' \<circ> keybytesToHex" by (rule trie_repE)
    have "M' = M" using trie_rep_contents [OF r(2,3)] trie_rep_contents [OF r0(2,3)] by (intro ext) (simp only:)
    then show ?thesis using r(1) by blast
  qed
  from rep_loaded [OF r0(1)] obtain a where a: "whole [] a M s0" by blast
  show ?thesis
  proof (cases "a = NilNode")
    case True
    then have "M = Map.empty" using a by (auto elim: whole.cases)
    then have "\<exists>t'. Trie_Hash K t = Some (BytesToHash EmptyRootHash, t') \<and> trie_rep K R t' m" if "trie_rep K R t m" for R t
      using rep [OF that] rep_empty that by (intro exI [of _ t]) (auto simp: Trie_Hash_def hashRoot_def)
    then show ?thesis by blast
  next
    case False
    obtain b c where "hasher_hash K a True = Some (HashNode b, c)" using whole_hash [OF assms(1) a small_hex [OF assms(2) r0(2,3)] False, of True] by auto
    then have "hashed K a True = Some (HashNode b)" by simp
    then have "\<exists>t'. Trie_Hash K t = Some (BytesToHash b, t') \<and> trie_rep K R t' m" if "trie_rep K R t m" for R t
      using rep [OF that] Trie_Hash_whole [OF _ a _ False] r0(2,3) unfolding trie_rep_def by blast
    then show ?thesis by blast
  qed
qed blast

text \<open>C7: A trie behaves as a map from keys to values.  Let the node database have the state of a root, with contents \<open>m\<close>.  Opening the trie at that root
  succeeds, and its hash is the root.  Any sequence of updates then succeeds, an update with an empty value being a deletion.  A read after it
  succeeds too and returns exactly what the updates left at the key; the trie still stands for those contents.  No step panics or runs forever, whatever part of
  the trie is loaded.\<close>

theorem trie_refines_map:
  assumes "GetReader sroot = Some R" "trie_stored K R root m" "length root = 32"
  shows "\<exists>t t' t1 t2. Trie_New GetReader sroot root = Some (Ok t) \<and> Trie_Hash K t = Some (if root = zero_hash then EmptyRootHash else root, t')
    \<and> puts (Trie_Update R) kvs t' = Some (Ok (), t1) \<and> Trie_Get R k t1 = Some (Ok (put_map trie_val kvs m k), t2) \<and> trie_rep K R t2 (put_map trie_val kvs m)"
proof -
  from Trie_New_stored [where GetReader = GetReader, OF assms] obtain t t' where t: "Trie_New GetReader sroot root = Some (Ok t)"
    "Trie_Hash K t = Some (if root = zero_hash then EmptyRootHash else root, t')" "trie_rep K R t' m" by blast
  from trie.puts_get [OF t(3)] obtain t1 t2 where "puts (Trie_Update R) kvs t' = Some (Ok (), t1)"
    "Trie_Get R k t1 = Some (Ok (put_map trie_val kvs m k), t2)" "trie_rep K R t2 (put_map trie_val kvs m)" .
  with t(1,2) show ?thesis by blast
qed

text \<open>A database with one node, a leaf at the root, whose hash is that of a hash function that always gives the same digest.\<close>

definition sample_digest :: hash where
  "sample_digest = replicate 32 1"

definition sample_reader :: nodeReader where
  "sample_reader = (\<lambda>path h. if path = [] \<and> h = sample_digest then Some [0xC4, 0x82, 0x20, 0x12, 7] else None)"

lemma sample_digest: "length sample_digest = 32" "sample_digest \<noteq> zero_hash" "sample_digest \<noteq> EmptyRootHash"
  by code_simp+

lemma sample_stored: "trie_stored (\<lambda>_. sample_digest) sample_reader sample_digest [[0x12] \<mapsto> [7]]"
proof -
  let ?K = "\<lambda>_. sample_digest" and ?M = "[[1, 2, 16] \<mapsto> [7]] :: bytes \<rightharpoonup> bytes"
  let ?n = "\<lambda>f. ShortNode [1, 2, 16] (ValueNode [7]) f" and ?f = "\<lparr>nf_hash = Some sample_digest, nf_dirty = False\<rparr>"
  have t: "terminated [1, 2, 16]" unfolding terminated_def by (intro exI [of _ "[1, 2]"]) simp
  have "hasher_hash ?K (?n newFlag) True = Some (HashNode sample_digest, ?n (set_hash (HashNode sample_digest) newFlag))" by code_simp
  moreover have "whole [] (?n newFlag) (under [1, 2, 16] [[] \<mapsto> [7]]) True" using t by (intro whole_short whole_value) simp_all
  ultimately have h: "hash_ok ?K [] ?M sample_digest" unfolding hash_ok_def simp_thms under_single by (intro exI conjI)
  have "decodeNode (Some sample_digest) [0xC4, 0x82, 0x20, 0x12, 7] = Ok (?n ?f)" by code_simp
  moreover have "reader_node sample_reader [] (BytesToHash sample_digest) = Ok [0xC4, 0x82, 0x20, 0x12, 7]" by code_simp
  moreover have "rep (hash_ok ?K) sample_reader [] (?n ?f) (under [1, 2, 16] [[] \<mapsto> [7]]) True"
    using t h by (intro rep.rep_short rep.rep_value) (simp_all add: hexkey_iff flag_ok_def under_single)
  ultimately have r: "rep (hash_ok ?K) sample_reader [] (HashNode sample_digest) ?M True" using h unfolding under_single by (intro rep.rep_hash [where n = "?n ?f"]) simp_all
  have k: "keybytesToHex [0x12] = [1, 2, 16]" by (simp add: keybytesToHex_def)
  have "[[0x12] \<mapsto> [7]] = ?M \<circ> keybytesToHex" "[1, 2, 16] \<in> range keybytesToHex" unfolding k [symmetric] by (simp_all add: fun_eq_iff)
  then show ?thesis unfolding trie_stored_def trie_rep_def using r sample_digest(2,3) by (auto intro!: exI [of _ ?M] split: if_splits)
qed

theorem trie_refines_map_witness:
  "\<exists>t t' t1 t2. Trie_New (\<lambda>_. Some sample_reader) sample_digest sample_digest = Some (Ok t) \<and> Trie_Hash (\<lambda>_. sample_digest) t = Some (sample_digest, t')
     \<and> puts (Trie_Update sample_reader) [([0x34], [9]), ([0x12, 0x34], [5]), ([0x34], [])] t' = Some (Ok (), t1) \<and> Trie_Get sample_reader [0x12] t1 = Some (Ok (Some [7]), t2)"
  using trie_refines_map [of "\<lambda>_. Some sample_reader" sample_digest sample_reader, OF refl sample_stored sample_digest(1),
      of "[([0x34], [9]), ([0x12, 0x34], [5]), ([0x34], [])]" "[0x12]"] sample_digest(2) by (auto simp: put_map_def)

text \<open>C5: The hash of a trie is a function of its contents: two tries, over databases of their own and with nodes loaded, cached and hashed in any way, that reach
  the same contents by different updates have the same hash, and hashing keeps the contents.\<close>

theorem trie_hash_contents:
  assumes "\<forall>b. length (K b) = 32" "trie_rep K R t m" "trie_rep K R' t' m'" "put_map trie_val kvs m = put_map trie_val kvs' m'" "small_store (put_map trie_val kvs m)"
  shows "\<exists>t1 t1' h t2 t2'. puts (Trie_Update R) kvs t = Some (Ok (), t1) \<and> puts (Trie_Update R') kvs' t' = Some (Ok (), t1')
    \<and> Trie_Hash K t1 = Some (h, t2) \<and> Trie_Hash K t1' = Some (h, t2') \<and> trie_rep K R t2 (put_map trie_val kvs m) \<and> trie_rep K R' t2' (put_map trie_val kvs m)"
proof -
  from trie.puts_stands [OF assms(2)] obtain t1 where t1: "puts (Trie_Update R) kvs t = Some (Ok (), t1)" "trie_rep K R t1 (put_map trie_val kvs m)" by blast
  from trie.puts_stands [OF assms(3)] obtain t1' where t1': "puts (Trie_Update R') kvs' t' = Some (Ok (), t1')" "trie_rep K R' t1' (put_map trie_val kvs m)"
    unfolding assms(4) by blast
  from Trie_Hash_rep [OF assms(1,5)] t1 t1' show ?thesis by blast
qed

text \<open>The stored trie with a key added, and a new trie with both keys and a third one that is deleted again.\<close>

theorem trie_hash_contents_witness:
  "\<exists>t1 t1' h t2 t2'. puts (Trie_Update sample_reader) [([0x34], [9])] (emptyTrie\<lparr>t_root := HashNode sample_digest\<rparr>) = Some (Ok (), t1)
     \<and> puts (Trie_Update (\<lambda>_ _. None)) [([0x34], [9]), ([0x55], [5]), ([0x12], [7]), ([0x55], [])] emptyTrie = Some (Ok (), t1')
     \<and> Trie_Hash (\<lambda>_. sample_digest) t1 = Some (h, t2) \<and> Trie_Hash (\<lambda>_. sample_digest) t1' = Some (h, t2')"
proof -
  let ?kvs = "[([0x34 :: byte], [9 :: byte])]" and ?kvs' = "[([0x34 :: byte], [9 :: byte]), ([0x55], [5]), ([0x12], [7]), ([0x55], [])]"
  have d: "\<forall>b :: bytes. length sample_digest = 32" using sample_digest(1) by blast
  have r: "trie_rep (\<lambda>_. sample_digest) sample_reader (emptyTrie\<lparr>t_root := HashNode sample_digest\<rparr>) [[0x12] \<mapsto> [7]]" using sample_stored sample_digest(2,3) by (simp add: trie_stored_def)
  have "put_map trie_val ?kvs [[0x12] \<mapsto> [7]] = put_map trie_val ?kvs' Map.empty" by (rule ext) (simp add: put_map_def)
  moreover have "small_store (put_map trie_val ?kvs [[0x12] \<mapsto> [7]])" by (auto simp: small_store_def put_map_def split: if_splits)
  ultimately show ?thesis using trie_hash_contents [OF d r emptyTrie_rep, of ?kvs ?kvs' "\<lambda>_ _. None"] by blast
qed

end
