(* ===== verification/Trie_Types.thy ===== *)
theory Trie_Types
  imports Trie_Map
begin

text \<open>
  Type safety of the trie operations: over any database whose blobs decode, complete or not, the operations of \<^verbatim>\<open>trie/trie.go\<close> keep the shape of
  the nodes, do not panic, return, and fail only with a missing node.
\<close>

section \<open>The shape of nodes\<close>

text \<open>\<open>wf_node t n\<close>: the node is well formed at a path that is terminated (\<open>t\<close>) or not.  The subtries may be empty and short nodes may follow each other.\<close>

inductive wf_node :: "bool \<Rightarrow> node \<Rightarrow> bool" where
  wf_nil: "wf_node t NilNode"
| wf_value: "wf_node True (ValueNode v)"
| wf_hash: "length h = 32 \<Longrightarrow> wf_node False (HashNode h)"
| wf_short: "k \<noteq> [] \<Longrightarrow> hexkey k \<Longrightarrow> wf_node (terminated k) n \<Longrightarrow> wf_node False (ShortNode k n f)"
| wf_full: "length cs = 17 \<Longrightarrow> (\<And>i. i < 17 \<Longrightarrow> wf_node (i = 16) (cs ! i)) \<Longrightarrow> wf_node False (FullNode cs f)"

inductive_simps wf_node_simps [simp]:
  "wf_node t NilNode" "wf_node t (ValueNode v)" "wf_node t (HashNode h)" "wf_node t (ShortNode k n f)"

inductive_cases wf_fullE: "wf_node t (FullNode cs f)"

fun full_keys :: "node \<Rightarrow> bool" where
  "full_keys (ShortNode k n f) \<longleftrightarrow> k \<noteq> [] \<and> full_keys n"
| "full_keys (FullNode cs f) \<longleftrightarrow> (\<forall>c \<in> set cs. full_keys c)"
| "full_keys _ \<longleftrightarrow> True"

text \<open>What is asked of the database: a blob decodes, to short nodes whose keys are not empty.\<close>

definition blobs_ok :: "nodeReader \<Rightarrow> bool" where
  "blobs_ok R \<longleftrightarrow> (\<forall>p h blob. R p h = Some blob \<longrightarrow> blob \<noteq> [] \<longrightarrow> (\<exists>n. decodeNode (Some h) blob = Ok n \<and> full_keys n))"

section \<open>Decoding\<close>

lemma hasTerm_hexkey: "hexkey k \<Longrightarrow> hasTerm k \<longleftrightarrow> terminated k"
proof (cases k rule: rev_cases)
  case (snoc ns b)
  assume "hexkey k"
  then show ?thesis unfolding snoc by (auto simp: hasTerm_def hexkey_iff terminated_def dest: nibbles_terminated)
qed (simp add: hasTerm_def)

lemma compactToHex_hexkey: "hexkey (compactToHex c)"
proof (cases c)
  case Nil
  then show ?thesis by (simp add: compactToHex_def hexkey_iff)
next
  case (Cons f bs)
  have n: "nibbles (f div 16 # f mod 16 # split_bytes bs)" using split_nibbles(1) [of bs] byte_pair(2,3) by simp
  have d: "nibbles (drop i ns)" if "nibbles ns" for i ns using that set_drop_subset [of i ns] by (auto simp: nibbles_def)
  have "unat (2 - (f div 16 AND 1)) \<le> 2" by (cases "odd (f div 16)") (simp_all add: and_one_eq odd_iff_mod_2_eq_one even_iff_mod_2_eq_zero)
  then have "i - length (f div 16 # f mod 16 # split_bytes bs) = 0" if "i = unat (2 - (f div 16 AND 1))" for i using that by simp
  then have "compactToHex c = drop (unat (2 - (f div 16 AND 1))) (f div 16 # f mod 16 # split_bytes bs) @ (if f div 16 < 2 then [] else [16])"
    unfolding Cons compactToHex_flag using drop_append [of _ "f div 16 # f mod 16 # split_bytes bs"] by (simp del: drop_append)
  then show ?thesis using d [OF n] by (auto simp: hexkey_def)
qed

lemma wf_children:
  assumes "length cs = 16" "\<forall>c \<in> set cs. wf_node False c" "wf_node True v"
  shows "wf_node False (FullNode (cs @ [v]) f)"
proof (rule wf_full)
  show "wf_node (i = 16) ((cs @ [v]) ! i)" if "i < 17" for i using that assms by (cases "i = 16") (auto simp: nth_append)
qed (use assms in simp)

lemma decode_wf:
  "decodeNode h buf = Ok n \<Longrightarrow> full_keys n \<Longrightarrow> wf_node False n"
  "decodeShort h elems = Ok n \<Longrightarrow> full_keys n \<Longrightarrow> wf_node False n"
  "decodeChildren j elems = Ok (cs, rest) \<Longrightarrow> \<forall>c \<in> set cs. full_keys c \<Longrightarrow> length cs = j \<and> (\<forall>c \<in> set cs. wf_node False c)"
  "decodeRef buf = Ok (n, rest) \<Longrightarrow> full_keys n \<Longrightarrow> wf_node False n"
proof (induction h buf and h elems and j elems and buf arbitrary: n and n and cs rest and n rest rule: decodeNode_decodeShort_decodeChildren_decodeRef.induct)
  case (1 hash buf)
  have short: "wf_node False n" if "buf \<noteq> []" "SplitList buf = Ok (a, b)" "CountValues a = Ok 2" "decodeShort hash a = Ok n" for a b
    using 1(1) [of "(a, b)" a b 2 n] that 1(4) by simp
  have full: "length cs = 16 \<and> (\<forall>c \<in> set cs. wf_node False c)"
    if "buf \<noteq> []" "SplitList buf = Ok (a, b)" "CountValues a = Ok 17" "decodeChildren 16 a = Ok (cs, rest)" "\<forall>c \<in> set cs. full_keys c" for a b cs rest
    using 1(2) [of "(a, b)" a b 17 cs rest] that by simp
  from 1(3) [unfolded decodeNode.simps [of hash buf]] 1(4) short full show ?case
    by (auto simp: Let_def split: if_splits sum.splits intro!: wf_children)
next
  case (2 hash elems)
  have ref: "wf_node False n'" if "SplitString elems = Ok (a, b)" "\<not> hasTerm (compactToHex a)" "decodeRef b = Ok (n', c)" "full_keys n'" for a b n' c
    using 2(1) [of "(a, b)" a b] that by simp
  from 2(2) [unfolded decodeShort.simps [of hash elems]] 2(3) ref show ?case
    by (auto simp: Let_def hasTerm_hexkey compactToHex_hexkey split: if_splits sum.splits)
next
  case (4 j elems)
  have ref: "wf_node False n'" if "Split elems = Ok (k, v, r)" "decodeRef elems = Ok (n', c)" "full_keys n'" for k v r n' c
    using 4(1) [of "(k, v, r)" k "(v, r)" v r n' c] that by simp
  have rec: "length cs = j \<and> (\<forall>c \<in> set cs. wf_node False c)"
    if "Split elems = Ok (k, v, r)" "decodeRef elems = Ok (n', c)" "decodeChildren j r = Ok (cs, rest)" "\<forall>c \<in> set cs. full_keys c" for k v r n' c cs rest
    using 4(2) [of "(k, v, r)" k "(v, r)" v r "(n', c)" n' c cs rest] that by simp
  from 4(3,4) ref rec show ?case by (auto split: sum.splits)
next
  case (5 buf)
  have "wf_node False n'" if "Split buf = Ok (KList, v, r)" "\<not> 32 < length buf - length r" "decodeNode None buf = Ok n'" "full_keys n'" for v r n'
    using 5(1) [of "(KList, v, r)" KList "(v, r)" v r "length buf - length r" n'] that by simp
  with 5(2) [unfolded decodeRef.simps [of buf]] 5(3) show ?case
    by (auto simp: Let_def split: if_splits sum.splits)
qed simp

section \<open>Operations\<close>

definition keyed :: "bool \<Rightarrow> bytes \<Rightarrow> bool" where
  "keyed t x \<longleftrightarrow> (if t then x = [] else terminated x)"

text \<open>An operation returns, and its result has the given property or is a missing node.\<close>

definition safe :: "('a \<Rightarrow> bool) \<Rightarrow> 'a trie_result \<Rightarrow> bool" where
  "safe P r \<longleftrightarrow> (\<exists>x tr. r = Some (x, tr) \<and> (case x of Err e \<Rightarrow> \<exists>h q. e = MissingNodeError h q | Ok y \<Rightarrow> P y))"

lemma safe_Ok [simp]: "safe P (Some (Ok y, tr)) \<longleftrightarrow> P y"
  by (simp add: safe_def)

lemma safe_Err [simp]: "safe P (Some (Err e, tr)) \<longleftrightarrow> (\<exists>h q. e = MissingNodeError h q)"
  by (simp add: safe_def)

lemma safe_cases:
  assumes "safe P r"
  obtains (ok) y tr where "r = Some (Ok y, tr)" "P y" | (err) h q tr where "r = Some (Err (MissingNodeError h q), tr)"
proof -
  from assms obtain x tr where "r = Some (x, tr)" "case x of Err e \<Rightarrow> \<exists>h q. e = MissingNodeError h q | Ok y \<Rightarrow> P y" unfolding safe_def by blast
  then show thesis using ok err by (cases x) auto
qed

lemma safe_bind:
  assumes "safe P r" "\<And>y tr. P y \<Longrightarrow> safe Q (f (Ok y, tr))" "\<And>h q tr. safe Q (f (Err (MissingNodeError h q), tr))"
  shows "safe Q (Option.bind r f)"
  using assms(1) by (cases rule: safe_cases) (simp_all add: assms(2,3))

lemma safe_mono: "safe P r \<Longrightarrow> (\<And>y. P y \<Longrightarrow> Q y) \<Longrightarrow> safe Q r"
  by (erule safe_cases) simp_all

lemma resolve_safe:
  assumes "blobs_ok R" "length h = 32"
  shows "safe (\<lambda>rn. wf_node False rn \<and> (\<forall>h. rn \<noteq> HashNode h)) (resolveAndTrack R h p tr)"
proof (cases "\<exists>blob. R p h = Some blob \<and> blob \<noteq> []")
  case True
  then obtain blob n where "R p h = Some blob" "blob \<noteq> []" "decodeNode (Some h) blob = Ok n" "full_keys n" using assms(1) unfolding blobs_ok_def by blast
  moreover have "wf_node False n" using \<open>decodeNode (Some h) blob = Ok n\<close> \<open>full_keys n\<close> by (rule decode_wf(1))
  moreover have "\<forall>h. n \<noteq> HashNode h" using decodeNode_kind [OF \<open>decodeNode (Some h) blob = Ok n\<close>] by auto
  ultimately show ?thesis using assms(2) by (simp add: resolveAndTrack_def reader_node_def BytesToHash_def left_pad_def)
next
  case False
  then have "\<exists>q. reader_node R p h = Err (MissingNodeError h q)" using assms(2) by (auto simp: reader_node_def split: option.splits)
  then show ?thesis using assms(2) by (auto simp: resolveAndTrack_def BytesToHash_def left_pad_def)
qed

lemma keyed_short: "keyed False (k @ y) \<Longrightarrow> k \<noteq> [] \<Longrightarrow> keyed (terminated k) y"
  by (auto simp: keyed_def terminated_app nibbles_terminated split: if_splits)

lemma keyed_full:
  assumes "keyed False x"
  obtains b y where "x = b # y" "unat b < 17" "keyed (unat b = 16) y"
proof -
  from assms obtain b y where x: "x = b # y" by (cases x) (auto simp: keyed_def)
  have t: "terminated (b # y)" using assms x by (simp add: keyed_def)
  have "keyed (unat b = 16) y"
  proof (cases "y = []")
    case True
    then have "b = 16" using t by (auto simp: terminated_def Cons_eq_append_conv)
    then show ?thesis using True by (simp add: keyed_def)
  next
    case False
    then have "nibbles [b]" "terminated y" using t terminated_app [of "[b]" y] by auto
    then show ?thesis by (simp add: keyed_def word_less_nat_alt)
  qed
  then show thesis using that x nibble_index [OF t] by blast
qed

lemma wf_full_upd:
  assumes "wf_node False (FullNode cs f)" "i < 17" "wf_node (i = 16) n"
  shows "wf_node False (FullNode (cs[i := n]) f')"
  using assms(1) by (rule wf_fullE) (use assms(2,3) in \<open>auto intro!: wf_full simp: nth_list_update\<close>)

lemma get_safe_hash:
  assumes "blobs_ok R" "length h = 32"
    and "\<And>n tr. wf_node False n \<Longrightarrow> (\<And>h. n \<noteq> HashNode h) \<Longrightarrow> safe (\<lambda>(v, n', d). wf_node False n') (trie_get R n key pos tr)"
  shows "safe (\<lambda>(v, n', d). wf_node False n') (trie_get R (HashNode h) key pos tr)"
  by (subst trie_get.simps) (auto intro!: safe_bind [OF resolve_safe [OF assms(1,2)]] safe_bind [OF assms(3)])

lemma trie_get_safe:
  assumes "blobs_ok R"
  shows "wf_node t n \<Longrightarrow> keyed t x \<Longrightarrow> key = p @ x \<Longrightarrow> safe (\<lambda>(v, n', d). wf_node t n') (trie_get R n key (length p) tr)"
proof (induction "length x" arbitrary: t n x p tr rule: less_induct)
  case less
  have here: "safe (\<lambda>(v, n', d). wf_node t n') (trie_get R n key (length p) tr)" if "wf_node t n" "\<And>h. n \<noteq> HashNode h" for n tr
    using that(1)
  proof (cases rule: wf_node.cases)
    case (wf_short k n' f)
    show ?thesis
    proof (cases "take (length k) x = k")
      case True
      then obtain y where y: "x = k @ y" by (metis append_take_drop_id)
      have "safe (\<lambda>(v, m, d). wf_node (terminated k) m) (trie_get R n' key (length (p @ k)) tr)"
        using less.hyps [of y "terminated k" n' "p @ k"] wf_short y less.prems keyed_short [of k y] by simp
      then have "safe (\<lambda>(v, m, d). wf_node (terminated k) m) (trie_get R n' key (length p + length k) tr)" by simp
      then show ?thesis unfolding wf_short using less.prems(3) y wf_short(3-5)
        by (subst trie_get.simps) (auto simp: slice_def elim!: safe_bind)
    next
      case False
      then show ?thesis unfolding wf_short using less.prems(3) wf_short(3-5) by (subst trie_get.simps) (auto simp: slice_def)
    qed
  next
    case (wf_full cs f)
    from keyed_full [of x] less.prems(2) wf_full(1) obtain b y where b: "x = b # y" "unat b < 17" "keyed (unat b = 16) y" by auto
    have "safe (\<lambda>(v, m, d). wf_node (unat b = 16) m) (trie_get R (cs ! unat b) key (length (p @ [b])) tr)"
      using less.hyps [of y "unat b = 16" "cs ! unat b" "p @ [b]"] wf_full(4) [OF b(2)] b less.prems(3) by simp
    then have "safe (\<lambda>(v, m, d). wf_node (unat b = 16) m) (trie_get R (cs ! unat b) key (Suc (length p)) tr)" by simp
    then show ?thesis unfolding wf_full using less.prems(3) b(1,2) wf_full(3) wf_full_upd [OF that(1) [unfolded wf_full] b(2)] that(1) [unfolded wf_full]
      by (subst trie_get.simps) (auto elim!: safe_bind)
  qed (use that(2) in \<open>auto simp: trie_get.simps\<close>)
  show ?case
  proof (cases "\<exists>h. n = HashNode h")
    case True
    then obtain h where "n = HashNode h" "length h = 32" "\<not> t" using less.prems(1) by auto
    then show ?thesis using get_safe_hash [OF assms] here by auto
  qed (use here less.prems(1) in blast)
qed

abbreviation wf_result :: "bool \<Rightarrow> (bool \<times> node) trie_result \<Rightarrow> bool" where
  "wf_result t \<equiv> safe (\<lambda>(d, n'). wf_node t n')"

lemma insert_safe_hash:
  assumes "blobs_ok R" "length h = 32" "keyed False x"
    and "\<And>n tr. wf_node False n \<Longrightarrow> (\<And>h. n \<noteq> HashNode h) \<Longrightarrow> wf_result False (trie_insert R n p x v tr)"
  shows "wf_result False (trie_insert R (HashNode h) p x v tr)"
  using assms(3) by (subst trie_insert.simps) (auto simp: keyed_def intro!: safe_bind [OF resolve_safe [OF assms(1,2)]] safe_bind [OF assms(4)])

lemma wf_branch:
  assumes "unat a < 17" "unat b < 17" "wf_node (unat a = 16) c1" "wf_node (unat b = 16) c2"
  shows "wf_node False (FullNode ((replicate 17 NilNode)[unat a := c1, unat b := c2]) f)"
  using assms by (intro wf_full) (auto simp: nth_list_update)

text \<open>The rest of a key below its first nibbles.\<close>

lemma wf_tail:
  assumes "hexkey (q @ a # as)" "wf_node (terminated (q @ a # as)) n"
  shows "wf_node (unat a = 16) (if as = [] then n else ShortNode as n f)"
proof (cases "as = []")
  case True
  have "terminated (q @ [a]) \<longleftrightarrow> unat a = 16"
    using assms(1) True by (auto simp: hexkey_iff terminated_def word_less_nat_alt word_unat_eq_iff)
  then show ?thesis using assms(2) True by simp
next
  case False
  with hexkey_tail [OF assms(1)] have t: "hexkey as" "nibbles [a]" by auto
  have "terminated (q @ a # as) \<longleftrightarrow> terminated as" using False assms(1) terminated_app [of "q @ [a]" as] by (auto simp: hexkey_iff dest: terminated_nibbles)
  moreover have "unat a \<noteq> 16" using t(2) by (simp add: word_less_nat_alt)
  ultimately show ?thesis using assms(2) False t(1) by simp
qed

lemma insert_safe_part:
  assumes "k \<noteq> []" "hexkey k" "wf_node (terminated k) n" "terminated x" "prefixLen x k \<noteq> length k"
  shows "wf_result False (trie_insert R (ShortNode k n f) p x (ValueNode v) tr)"
proof -
  from keys_part [OF assms(4,2,5)] obtain q a b as bs where
    s: "k = q @ a # as" "x = q @ b # bs" "a \<noteq> b" "length q = prefixLen x k" "nibbles q" "unat a < 17" "unat b < 17" .
  let ?branch = "FullNode ((replicate 17 NilNode)[unat a := if as = [] then n else ShortNode as n newFlag,
      unat b := if bs = [] then ValueNode v else ShortNode bs (ValueNode v) newFlag]) newFlag"
  have hx: "hexkey (q @ b # bs)" "terminated (q @ b # bs)" using assms(4) s(2) by (simp_all add: hexkey_iff)
  have "wf_node (unat b = 16) (if bs = [] then ValueNode v else ShortNode bs (ValueNode v) newFlag)" using hx by (intro wf_tail) simp_all
  moreover have "wf_node (unat a = 16) (if as = [] then n else ShortNode as n newFlag)" using assms(2,3) s(1) by (intro wf_tail) simp_all
  ultimately have branch: "wf_node False ?branch" using s(6,7) by (intro wf_branch)
  have q: "wf_node False (ShortNode q ?branch newFlag)" if "q \<noteq> []" using that branch s(5) by (simp add: hexkey_iff nibbles_terminated)
  have "x \<noteq> []" "length q \<noteq> length k" "length q < length x" "k ! length q = a" "x ! length q = b" "drop (Suc (length q)) k = as"
      "drop (Suc (length q)) x = bs" "take (length q) x = q" using s(1,2) by simp_all
  then have "\<exists>tr'. trie_insert R (ShortNode k n f) p x (ValueNode v) tr = Some (Ok (True, if q = [] then ?branch else ShortNode q ?branch newFlag), tr')"
    using s(6,7) by (subst trie_insert.simps) (simp add: insert_nil Let_def s(4) [symmetric])
  then show ?thesis using branch q by (elim exE) (simp del: wf_node_simps split: if_split)
qed

lemma trie_insert_safe:
  assumes "blobs_ok R"
  shows "wf_node t n \<Longrightarrow> keyed t x \<Longrightarrow> wf_result t (trie_insert R n p x (ValueNode v) tr)"
proof (induction "length x" arbitrary: t n x p tr rule: less_induct)
  case less
  have here: "wf_result t (trie_insert R n p x (ValueNode v) tr)" if "wf_node t n" "\<And>h. n \<noteq> HashNode h" for n tr
    using that(1)
  proof (cases rule: wf_node.cases)
    case wf_nil
    then show ?thesis using less.prems(2) by (cases t) (auto simp: insert_nil keyed_def hexkey_iff)
  next
    case (wf_value w)
    then show ?thesis using less.prems(2) by (subst trie_insert.simps) (simp add: keyed_def)
  next
    case (wf_short k n' f)
    have x: "terminated x" using less.prems(2) wf_short(1) by (simp add: keyed_def)
    show ?thesis
    proof (cases "prefixLen x k = length k")
      case True
      then obtain y where y: "x = k @ y" using prefixLen_full by blast
      have "wf_result (terminated k) (trie_insert R n' (p @ k) y (ValueNode v) tr)"
        using less.hyps [of y "terminated k" n'] wf_short y less.prems(2) keyed_short [of k y] by simp
      then show ?thesis unfolding wf_short using True y wf_short(3-5) x
        by (subst trie_insert.simps) (auto elim!: safe_bind)
    next
      case False
      then show ?thesis unfolding wf_short using insert_safe_part [OF wf_short(3-5) x False] by simp
    qed
  next
    case (wf_full cs f)
    from keyed_full [of x] less.prems(2) wf_full(1) obtain b y where b: "x = b # y" "unat b < 17" "keyed (unat b = 16) y" by auto
    have "wf_result (unat b = 16) (trie_insert R (cs ! unat b) (p @ [b]) y (ValueNode v) tr)"
      using less.hyps [of y "unat b = 16" "cs ! unat b"] wf_full(4) [OF b(2)] b by simp
    then show ?thesis unfolding wf_full using b(1,2) wf_full(3) wf_full_upd [OF that(1) [unfolded wf_full] b(2)] that(1) [unfolded wf_full]
      by (subst trie_insert.simps) (auto elim!: safe_bind)
  qed (use that(2) in simp)
  show ?case
  proof (cases "\<exists>h. n = HashNode h")
    case True
    then obtain h where "n = HashNode h" "length h = 32" "\<not> t" using less.prems(1) by auto
    then show ?thesis using insert_safe_hash [OF assms] here less.prems(2) by auto
  qed (use here less.prems(1) in blast)
qed

lemma delete_safe_hash:
  assumes "blobs_ok R" "length h = 32"
    and "\<And>n tr. wf_node False n \<Longrightarrow> (\<And>h. n \<noteq> HashNode h) \<Longrightarrow> wf_result False (trie_delete R n p x tr)"
  shows "wf_result False (trie_delete R (HashNode h) p x tr)"
  by (subst trie_delete.simps) (auto intro!: safe_bind [OF resolve_safe [OF assms(1,2)]] safe_bind [OF assms(3)])

lemma resolve_node_safe:
  assumes "blobs_ok R" "wf_node False n"
  shows "safe (wf_node False) (resolve R n p tr)"
proof (cases "\<exists>h. n = HashNode h")
  case True
  then obtain h where h: "n = HashNode h" "length h = 32" using assms(2) by auto
  show ?thesis unfolding h(1) resolve_def by (simp, rule safe_mono [OF resolve_safe [OF assms(1) h(2)]]) simp
next
  case False
  then show ?thesis using assms(2) by (cases n) (auto simp: resolve_def)
qed

lemma hexkey_index:
  assumes "i < 17"
  shows "hexkey [of_nat i]" "terminated [of_nat i] \<longleftrightarrow> i = 16"
proof -
  have u: "unat (of_nat i :: byte) = i" using assms by (simp add: unat_of_nat)
  then show "terminated [of_nat i] \<longleftrightarrow> i = 16" by (auto simp: terminated_def word_unat_eq_iff)
  then show "hexkey [of_nat i]" using u assms by (auto simp: hexkey_iff word_less_nat_alt)
qed

lemma wf_cons:
  assumes "i < 16" "wf_node False (ShortNode k n f)"
  shows "wf_node False (ShortNode (of_nat i # k) n f')"
proof -
  have n: "nibbles [of_nat i]" using hexkey_index [of i] assms(1) by (auto simp: hexkey_iff)
  then have "terminated (of_nat i # k) \<longleftrightarrow> terminated k" using assms(2) terminated_app [of "[of_nat i]" k] by auto
  then show ?thesis using assms(2) n by (auto simp: hexkey_iff)
qed

lemma reduce_safe:
  assumes "blobs_ok R" "wf_node False (FullNode cs f)"
  shows "wf_result False (reduce_full R p cs tr)"
proof (cases "only_child cs")
  case None
  then show ?thesis using assms(2) wf_full by (auto simp: reduce_full_def elim: wf_fullE)
next
  case (Some pos)
  from assms(2) have l: "length cs = 17" "\<And>i. i < 17 \<Longrightarrow> wf_node (i = 16) (cs ! i)" by (auto elim: wf_fullE)
  have p: "pos < 17" using only_child_Some(1) [OF Some] l(1) by simp
  have s: "wf_node False (ShortNode [of_nat pos] (cs ! pos) newFlag)" using l(2) [OF p] hexkey_index [OF p] by simp
  show ?thesis
  proof (cases "pos = 16")
    case True
    then show ?thesis using s by (simp add: reduce_full_def Some)
  next
    case False
    then have "wf_node False (cs ! pos)" "pos < 16" using l(2) [OF p] p by simp_all
    with resolve_node_safe [OF assms(1)] have "safe (wf_node False) (resolve R (cs ! pos) (p @ [of_nat pos]) tr)" by blast
    then show ?thesis
    proof (cases rule: safe_cases)
      case (ok rn tr')
      then show ?thesis using s False wf_cons [OF \<open>pos < 16\<close>] by (cases rn) (auto simp: reduce_full_def Some simp del: wf_node_simps)
    next
      case (err h q tr')
      then show ?thesis using False by (simp add: reduce_full_def Some)
    qed
  qed
qed

lemma wf_merge:
  assumes "k \<noteq> []" "hexkey k" "wf_node (terminated k) (ShortNode k2 n f)"
  shows "wf_node False (ShortNode (k @ k2) n f')"
  using assms terminated_app [of k k2] by (auto simp: hexkey_iff)

lemma trie_delete_safe:
  assumes "blobs_ok R"
  shows "wf_node t n \<Longrightarrow> keyed t x \<Longrightarrow> wf_result t (trie_delete R n p x tr)"
proof (induction "length x" arbitrary: t n x p tr rule: less_induct)
  case less
  have here: "wf_result t (trie_delete R n p x tr)" if "wf_node t n" "\<And>h. n \<noteq> HashNode h" for n tr
    using that(1)
  proof (cases rule: wf_node.cases)
    case (wf_short k n' f)
    show ?thesis
    proof (cases "prefixLen x k = length k")
      case True
      then obtain y where y: "x = k @ y" using prefixLen_full by blast
      have r: "wf_result (terminated k) (trie_delete R n' (p @ k) y tr)"
        using less.hyps [of y "terminated k" n'] wf_short y less.prems(2) keyed_short [of k y] by simp
      have "wf_result False (case child of ShortNode k2 val2 _ \<Rightarrow> Some (Ok (True, ShortNode (k @ k2) val2 newFlag), tr1) | _ \<Rightarrow> Some (Ok (True, ShortNode k child newFlag), tr2))"
        if "wf_node (terminated k) child" for child tr1 tr2
        using that wf_merge [OF wf_short(3,4)] wf_short(3,4) by (cases child) (auto simp del: wf_node_simps(4) intro: wf_node.wf_short)
      then show ?thesis unfolding wf_short using True y wf_short(3-5)
        by (subst trie_delete.simps) (auto intro!: safe_bind [OF r] simp: Let_def simp del: wf_node_simps(4) intro: wf_node.wf_short)
    next
      case False
      then have "prefixLen x k < length k" using prefixLen_le(2) [of x k] by simp
      then show ?thesis unfolding wf_short using wf_short(3-5) by (subst trie_delete.simps) simp
    qed
  next
    case (wf_full cs f)
    from keyed_full [of x] less.prems(2) wf_full(1) obtain b y where b: "x = b # y" "unat b < 17" "keyed (unat b = 16) y" by auto
    have r: "wf_result (unat b = 16) (trie_delete R (cs ! unat b) (p @ [b]) y tr)"
      using less.hyps [of y "unat b = 16" "cs ! unat b"] wf_full(4) [OF b(2)] b by simp
    note u = wf_full_upd [OF that(1) [unfolded wf_full] b(2)]
    show ?thesis unfolding wf_full using b(1,2) wf_full(3) u reduce_safe [OF assms u] that(1) [unfolded wf_full]
      by (subst trie_delete.simps) (auto intro!: safe_bind [OF r] simp: Let_def)
  qed (use that(2) in \<open>auto simp: trie_delete.simps\<close>)
  show ?case
  proof (cases "\<exists>h. n = HashNode h")
    case True
    then obtain h where "n = HashNode h" "length h = 32" "\<not> t" using less.prems(1) by auto
    then show ?thesis using delete_safe_hash [OF assms] here by auto
  qed (use here less.prems(1) in blast)
qed

section \<open>The trie\<close>

lemma keyed_key: "keyed False (keybytesToHex k)"
  using split_nibbles(1) [of k] by (auto simp: keyed_def terminated_def keybytesToHex_def)

text \<open>C10: The trie operations are type safe over a database that may lack nodes.  If every blob of the database decodes to nodes without empty keys and the root of a trie is well formed (keys
  are nibbles with at most a terminator at the end, a full node has 17 children, hashes have 32 bytes, values stand exactly below the terminator), then reading, updating and
  deleting any key returns, without a panic, and leaves a well-formed root; the only error is a missing node, and a failed update leaves the root as it was.\<close>

theorem trie_type_safe:
  assumes "blobs_ok R" "wf_node False (t_root t)"
  shows "\<exists>r1 t1 r2 t2 r3 t3. Trie_Get R k t = Some (r1, t1) \<and> Trie_Update R k v t = Some (r2, t2) \<and> Trie_Delete R k t = Some (r3, t3)
    \<and> wf_node False (t_root t1) \<and> wf_node False (t_root t2) \<and> wf_node False (t_root t3)
    \<and> (\<forall>e. r1 = Err e \<or> r2 = Err e \<or> r3 = Err e \<longrightarrow> (\<exists>h q. e = MissingNodeError h q))
    \<and> ((\<exists>e. r1 = Err e) \<longrightarrow> t_root t1 = t_root t) \<and> ((\<exists>e. r2 = Err e) \<longrightarrow> t_root t2 = t_root t) \<and> ((\<exists>e. r3 = Err e) \<longrightarrow> t_root t3 = t_root t)"
proof -
  have g: "\<exists>r t1. Trie_Get R k t = Some (r, t1) \<and> wf_node False (t_root t1) \<and> (\<forall>e. r = Err e \<longrightarrow> (\<exists>h q. e = MissingNodeError h q) \<and> t_root t1 = t_root t)"
    using trie_get_safe [OF assms keyed_key, of "keybytesToHex k" "[]" k "t_tracer t"] assms(2) by (auto simp: Trie_Get_def elim!: safe_cases)
  have d: "\<exists>r t1. Trie_Delete R k t = Some (r, t1) \<and> wf_node False (t_root t1) \<and> (\<forall>e. r = Err e \<longrightarrow> (\<exists>h q. e = MissingNodeError h q) \<and> t_root t1 = t_root t)"
    using trie_delete_safe [OF assms keyed_key, of "[]" k "t_tracer t"] assms(2) by (auto simp: Trie_Delete_def elim!: safe_cases)
  have "\<exists>r t1. Trie_Update R k v t = Some (r, t1) \<and> wf_node False (t_root t1) \<and> (\<forall>e. r = Err e \<longrightarrow> (\<exists>h q. e = MissingNodeError h q) \<and> t_root t1 = t_root t)"
    using trie_insert_safe [OF assms keyed_key, of "[]" k v "t_tracer t"] assms(2) d by (auto simp: Trie_Update_def elim!: safe_cases)
  with g d show ?thesis by blast
qed

text \<open>A root that the database does not have.\<close>

theorem trie_type_safe_witness:
  "\<exists>r t2. Trie_Update (\<lambda>_ _. None) [1] [2] (emptyTrie\<lparr>t_root := HashNode (replicate 32 1)\<rparr>) = Some (r, t2) \<and> wf_node False (t_root t2)"
proof -
  let ?t = "emptyTrie\<lparr>t_root := HashNode (replicate 32 1)\<rparr>"
  have r: "blobs_ok (\<lambda>_ _. None)" and w: "wf_node False (t_root ?t)" by (simp_all add: blobs_ok_def)
  from trie_type_safe [OF r w, of "[1]" "[2]"] show ?thesis by blast
qed

end
