(* ===== verification/Spec2Isabelle.thy ===== *)
theory Spec2Isabelle
  imports Miner_Seal Trie_Contents Trie_Types
begin

text \<open>
  A verification library for the execution client of the repository: the \<^verbatim>\<open>go-ethereum\<close> fork under
  \<^verbatim>\<open>src/go-ethereum\<close> whose miner orders its blocks through Narwhal (\<^verbatim>\<open>extadapter\<close>).  Paths below are
  relative to that directory.

  \<^bold>\<open>How the parts interact.\<close>  Transactions, receipts, headers and blocks travel as RLP (\<^verbatim>\<open>rlp\<close>,
  \<^verbatim>\<open>core/types\<close>).  The miner takes pending transactions in the order of fees, applies each one with the
  state transition (\<^verbatim>\<open>core/state_transition.go\<close>) on the world state (\<^verbatim>\<open>core/state\<close>), which runs the
  message calls of the virtual machine (\<^verbatim>\<open>core/vm\<close>); the sealed block is submitted to Narwhal by the
  adapter and rebuilt when its header comes back in a commit event.  The fork schedule
  (\<^verbatim>\<open>params/config.go\<close>) selects the rules everywhere.

  \<^bold>\<open>Common conventions.\<close>  Bytes are \<open>8 word\<close>, Go's \<open>uint64\<close> is \<open>64 word\<close> and wraps, \<open>big.Int\<close> is
  \<open>int\<close>, a nil pointer is \<open>None\<close>.  A Go function that returns an error has a result of the sum type (\<open>Err\<close>,
  \<open>Ok\<close>); where it may panic or not return, the value is \<open>None\<close>.  Code outside the repository, and the parts of it
  that are named below as parameters, enter as arguments: records of functions (\<open>crypto\<close>, \<open>backend\<close>, \<open>gateway\<close>,
  \<open>blobCodec\<close>, the fields of \<open>EVM\<close>) with named assumptions on them.

  \<^bold>\<open>Theories.\<close>
  \<^item> \<open>Go_Prelude\<close>: byte and word arithmetic, slices, results; \<open>Step_Systems\<close>: labelled step relations,
    reachability and invariants as locales; \<open>Go_Heap\<close>: \<^verbatim>\<open>container/heap\<close>, as a locale over an order.
  \<^item> \<open>Rlp_Raw\<close> (\<^verbatim>\<open>rlp/raw.go\<close>), \<open>Rlp_Encode\<close> (\<^verbatim>\<open>rlp/encbuffer.go\<close>, \<^verbatim>\<open>rlp/encode.go\<close>), \<open>Rlp_Stream\<close>
    and \<open>Rlp_Decode\<close> (\<^verbatim>\<open>rlp/decode.go\<close>): the canonical encoding as a function on items, the encoder and the
    decoders shown to be that function and its inverse, and to return on every input.
  \<^item> \<open>Types_Block\<close>, \<open>Types_Tx\<close>, \<open>Tx_Signing\<close>, \<open>Types_Body\<close> (\<^verbatim>\<open>core/types\<close>): headers, transactions, signers and
    blocks with their encodings.  Round trips, signature recovery, replay protection, the order of \<open>DeriveSha\<close>.
  \<^item> \<open>Chain_Config\<close> (\<^verbatim>\<open>params/config.go\<close>): fork order and compatibility checks.
  \<^item> \<open>Ext_Adapter\<close> (\<^verbatim>\<open>extadapter/extadapter.go\<close>): the adapter as a step system.
  \<^item> \<open>Tx_Order\<close> (\<^verbatim>\<open>core/types/transaction.go\<close>): the price and nonce order as a refinement of per-account queues.
  \<^item> \<open>Consensus_Misc\<close> (\<^verbatim>\<open>consensus/misc\<close>): gas limit, base fee and header rules.
  \<^item> \<open>State_Access\<close>, \<open>State_DB\<close>, \<open>State_Journal\<close>, \<open>State_Frame\<close> (\<^verbatim>\<open>core/state\<close>): accounts, storage, access lists
    and the journal; \<open>obs\<close> is everything the accessors can see, and reverting restores it.
  \<^item> \<open>Evm_Call\<close> (\<^verbatim>\<open>core/vm/evm.go\<close>): message calls and contract creation around an interpreter that is a parameter.
  \<^item> \<open>State_Transition\<close> (\<^verbatim>\<open>core/state_transition.go\<close>): intrinsic gas, buying, running and refunding.
  \<^item> \<open>Types_Receipt\<close> (\<^verbatim>\<open>core/types/receipt.go\<close>, \<^verbatim>\<open>bloom9.go\<close>, \<^verbatim>\<open>log.go\<close>): blooms have no false negatives, receipts
    round-trip; \<open>State_Processor\<close> (\<^verbatim>\<open>core/state_processor.go\<close>, \<^verbatim>\<open>core/evm.go\<close>, \<^verbatim>\<open>core/block_validator.go\<close>): executing the
    transactions of a block and validating its body and state.
  \<^item> \<open>Miner_Worker\<close> (\<^verbatim>\<open>miner/worker.go\<close>): preparing, filling and assembling a block; \<open>Miner_Seal\<close> (\<^verbatim>\<open>miner/worker.go\<close>,
    \<^verbatim>\<open>miner/unconfirmed.go\<close>): the task and result loops joined with the adapter of \<open>Ext_Adapter\<close> into one step system, with
    the blocks that were posted and written as its history.
  \<^item> \<open>Trie_Encoding\<close> (\<^verbatim>\<open>trie/encoding.go\<close>): key encodings and their round trips.  \<open>Trie_Node\<close> (\<^verbatim>\<open>trie/node.go\<close>, \<^verbatim>\<open>trie.go\<close>,
    \<^verbatim>\<open>tracer.go\<close>, \<^verbatim>\<open>trie_reader.go\<close>, \<^verbatim>\<open>hasher.go\<close>, \<^verbatim>\<open>node_enc.go\<close>): decoding, lookup, insertion, deletion and hashing of nodes that are
    loaded from a database on the way.  \<open>Trie_Map\<close>: the map a node stands for, and the operations on it; the contents
    determine the tree.  \<open>Trie_Contents\<close>: the trie as a key-value store whose hash depends on the contents only.
    \<open>Trie_Types\<close>: the shape of nodes is kept, and nothing panics, over a database that may lack nodes.

  \<^bold>\<open>Bounds and fuel.\<close>  The slice decoder takes fuel: \<open>DecodeBytes\<close> passes the input length plus one, enough because every
  element consumes a byte, and \<open>DecodeBytes\<close> is shown to return.  The compatibility loop of \<open>CheckCompatible\<close> takes fuel
  because it can diverge, which is shown; 22 rounds suffice when no fork is at time zero.  Lengths of Go slices are assumed
  below \<open>2 ^ 63\<close> or \<open>2 ^ 64\<close> where a conversion to a machine integer relies on it.  The trie operations recurse through the
  database and are partial functions; they are shown to return.

  \<^bold>\<open>Not modelled.\<close>  Databases, peer-to-peer and RPC services, key storage, command line tools and metrics are I/O or
  reflection around the parts above.  Of the tries, committing to the database, iterators, proofs, synchronisation and the stack
  trie are left out; the world state reads its tries through the parameter \<open>backend\<close>.  The byte code interpreter and its
  precompiled contracts, hash and curve primitives and the generated gRPC code are parameters.  Chain management, the transaction
  pool and the consensus engines run on goroutines, timers and caches and appear only as the answers they give.  The Rust
  services are reached only through the gateway parameter.
\<close>

section \<open>Properties across components\<close>


lemma sample_hasher_ok: "hasher_ok sample_hasher"
  by (simp add: hasher_ok_def sample_hasher_def)

lemma sample_worker_ok: "worker_ok sample_crypto sample_codec sample_hasher sample_backend sample_worker"
  using sample_chain_ok sample_state_ok by (auto simp: worker_ok_def sample_worker_def same_work_def)

definition sample_params :: generateParams where
  "sample_params = \<lparr>gp_timestamp = 5, gp_forceTime = True, gp_parentHash = zero_hash, gp_coinbase = replicate 20 9, gp_random = zero_hash,
     gp_withdrawals = None, gp_noUncle = False, gp_noTxs = False\<rparr>"




end
